(* ===== verification/Prelude.thy ===== *)
theory Prelude
  imports Main "HOL-Library.Word" "HOL-Library.AList"
begin

text \<open>
  Shared vocabulary of the development: machine integers at their width, byte
  strings, the fixed-width integer codecs of Go's \<^verbatim>\<open>encoding/binary\<close>, Go maps
  as association lists, and the two generic interfaces (a codec, a guarded state
  machine) the components instantiate.
\<close>

section \<open>Machine types\<close>

type_synonym u8 = "8 word"
type_synonym u32 = "32 word"
type_synonym u64 = "64 word"
type_synonym bytes = "u8 list"
type_synonym node = string

named_theorems codec_simps "lengths and inverses of the fixed-width codecs"
named_theorems gomap_simps "lookups after updates of Go maps"

section \<open>Fixed-width integers in byte strings\<close>

text \<open>\<^verbatim>\<open>binary.LittleEndian\<close> and \<^verbatim>\<open>binary.BigEndian\<close>: the first \<open>k\<close> base-256 digits
  of a number, least significant first, and their reversal.\<close>

fun le_put :: "nat \<Rightarrow> nat \<Rightarrow> bytes" where
  "le_put 0 n = []"
| "le_put (Suc k) n = of_nat n # le_put k (n div 256)"

fun le_get :: "bytes \<Rightarrow> nat" where
  "le_get [] = 0"
| "le_get (b # bs) = unat b + 256 * le_get bs"

definition be_put :: "nat \<Rightarrow> nat \<Rightarrow> bytes" where
  "be_put k n = rev (le_put k n)"

definition be_get :: "bytes \<Rightarrow> nat" where
  "be_get bs = le_get (rev bs)"

text \<open>The slice \<open>b[i:j]\<close>.\<close>

definition gslice :: "nat \<Rightarrow> nat \<Rightarrow> 'a list \<Rightarrow> 'a list" where
  "gslice i j b = take (j - i) (drop i b)"

text \<open>The in-place write of \<open>b\<close> into \<open>region\<close> at an offset.\<close>

definition putAt :: "nat \<Rightarrow> bytes \<Rightarrow> bytes \<Rightarrow> bytes" where
  "putAt off b region = take off region @ b @ drop (off + length b) region"

definition be64 :: "u64 \<Rightarrow> bytes" where "be64 w = be_put 8 (unat w)"
definition be32 :: "u32 \<Rightarrow> bytes" where "be32 w = be_put 4 (unat w)"
definition le64 :: "u64 \<Rightarrow> bytes" where "le64 w = le_put 8 (unat w)"
definition le32 :: "u32 \<Rightarrow> bytes" where "le32 w = le_put 4 (unat w)"

definition rd_be64 :: "bytes \<Rightarrow> u64" where "rd_be64 b = of_nat (be_get (take 8 b))"
definition rd_be32 :: "bytes \<Rightarrow> u32" where "rd_be32 b = of_nat (be_get (take 4 b))"
definition rd_le64 :: "bytes \<Rightarrow> u64" where "rd_le64 b = of_nat (le_get (take 8 b))"
definition rd_le32 :: "bytes \<Rightarrow> u32" where "rd_le32 b = of_nat (le_get (take 4 b))"

definition bool_byte :: "bool \<Rightarrow> u8" where "bool_byte b = (if b then 1 else 0)"

lemma unat_lt: "unat (w :: 'a::len word) < 2 ^ LENGTH('a)"
  by (rule unsigned_less)

lemma unat_succ: "(w :: 'a::len word) \<noteq> -1 \<Longrightarrow> unat (w + 1) = Suc (unat w)"
proof -
  assume "w \<noteq> -1"
  then have "1 + w \<noteq> 0" by (metis add_eq_0_iff)
  then show ?thesis by (simp add: unatSuc add.commute)
qed

lemma length_le_put [simp, codec_simps]: "length (le_put k n) = k"
  by (induction k n rule: le_put.induct) auto

lemma length_be_put [simp, codec_simps]: "length (be_put k n) = k"
  by (simp add: be_put_def)

lemma le_get_le_put: "le_get (le_put k n) = n mod 256 ^ k"
proof (induction k n rule: le_put.induct)
  case (2 k n)
  have "unat (of_nat n :: u8) = n mod 256" by (simp add: unat_of_nat)
  then show ?case using 2 by (simp add: mod_mult2_eq)
qed simp

lemma le_get_less: "le_get b < 256 ^ length b"
proof (induction b)
  case (Cons a b)
  have "unat a < 256" using unat_lt [of a] by simp
  with Cons show ?case by simp
qed simp

lemma le_put_le_get: "le_put (length b) (le_get b) = b"
proof (induction b)
  case (Cons a b)
  have a: "unat a < 256" using unat_lt [of a] by simp
  have z: "(256 :: u8) = 0" by transfer simp
  have "256 * (of_nat (le_get b) :: u8) = 0" by (simp only: z mult_zero_left)
  then have "(of_nat (unat a + 256 * le_get b) :: u8) = a" by simp
  moreover have "(unat a + 256 * le_get b) div 256 = le_get b" using a by simp
  ultimately show ?case using Cons by simp
qed simp

lemma length_be64 [simp, codec_simps]: "length (be64 w) = 8" by (simp add: be64_def)
lemma length_be32 [simp, codec_simps]: "length (be32 w) = 4" by (simp add: be32_def)
lemma length_le64 [simp, codec_simps]: "length (le64 w) = 8" by (simp add: le64_def)
lemma length_le32 [simp, codec_simps]: "length (le32 w) = 4" by (simp add: le32_def)

lemma rd_be64 [simp, codec_simps]: "rd_be64 (be64 w @ r) = w"
  using unat_lt [of w]
  by (simp add: rd_be64_def be64_def be_get_def be_put_def le_get_le_put)

lemma rd_be32 [simp, codec_simps]: "rd_be32 (be32 w @ r) = w"
  using unat_lt [of w]
  by (simp add: rd_be32_def be32_def be_get_def be_put_def le_get_le_put)

lemma rd_le64 [simp, codec_simps]: "rd_le64 (le64 w @ r) = w"
  using unat_lt [of w] by (simp add: rd_le64_def le64_def le_get_le_put)

lemma rd_le32 [simp, codec_simps]: "rd_le32 (le32 w @ r) = w"
  using unat_lt [of w] by (simp add: rd_le32_def le32_def le_get_le_put)

lemma rd_be64' [simp, codec_simps]: "rd_be64 (be64 w) = w" using rd_be64 [of w "[]"] by simp
lemma rd_be32' [simp, codec_simps]: "rd_be32 (be32 w) = w" using rd_be32 [of w "[]"] by simp
lemma rd_le64' [simp, codec_simps]: "rd_le64 (le64 w) = w" using rd_le64 [of w "[]"] by simp
lemma rd_le32' [simp, codec_simps]: "rd_le32 (le32 w) = w" using rd_le32 [of w "[]"] by simp

lemma be_put_be_get: "length b = k \<Longrightarrow> be_put k (be_get b) = b"
  using le_put_le_get [of "rev b"] by (simp add: be_put_def be_get_def)

lemma be64_rd_be64: "8 \<le> length b \<Longrightarrow> be64 (rd_be64 b) = take 8 b"
proof -
  assume l: "8 \<le> length b"
  have "be_get (take 8 b) < 2 ^ 64" using le_get_less [of "rev (take 8 b)"] l
    by (simp add: be_get_def)
  then show ?thesis using l by (simp add: be64_def rd_be64_def unat_of_nat be_put_be_get)
qed

lemma be32_rd_be32: "4 \<le> length b \<Longrightarrow> be32 (rd_be32 b) = take 4 b"
proof -
  assume l: "4 \<le> length b"
  have "be_get (take 4 b) < 2 ^ 32" using le_get_less [of "rev (take 4 b)"] l
    by (simp add: be_get_def)
  then show ?thesis using l by (simp add: be32_def rd_be32_def unat_of_nat be_put_be_get)
qed

lemma length_putAt [simp]: "off + length b \<le> length region \<Longrightarrow> length (putAt off b region) = length region"
  by (simp add: putAt_def)

text \<open>Writing a field right after the fields written so far extends the written prefix.\<close>

lemma putAt_prefix:
  assumes "take off buf = w" "off + length b \<le> length buf"
  shows "take (off + length b) (putAt off b buf) = w @ b"
  using assms by (auto simp: putAt_def)

lemma take_slice_all: "i \<le> j \<Longrightarrow> take i b @ gslice i j b = take j b"
  by (simp add: gslice_def flip: take_add)

lemma mod_add_eq_iff:
  fixes h i j n :: nat
  assumes "i < n" "j < n" shows "(h + i) mod n = (h + j) mod n \<longleftrightarrow> i = j"
proof
  assume *: "(h + i) mod n = (h + j) mod n"
  show "i = j"
  proof (cases "i \<le> j")
    case True
    then have "n dvd (h + j) - (h + i)" using * mod_eq_dvd_iff_nat [of "h + i" "h + j" n] by simp
    then show ?thesis using True assms by (auto dest: dvd_imp_le)
  next
    case False
    then have "n dvd (h + i) - (h + j)" using * mod_eq_dvd_iff_nat [of "h + j" "h + i" n] by simp
    then show ?thesis using False assms by (auto dest: dvd_imp_le)
  qed
qed simp

section \<open>Go maps\<close>

text \<open>A Go map is an association list: \<^const>\<open>AList.update\<close> is assignment,
  \<^const>\<open>AList.delete\<close> is \<^verbatim>\<open>delete\<close>; a nil map reads as an empty one. Reading an
  absent key gives the element type's zero value.\<close>

type_synonym ('k, 'v) gomap = "('k \<times> 'v) list"

definition gget :: "'v \<Rightarrow> ('k, 'v) gomap \<Rightarrow> 'k \<Rightarrow> 'v" where
  "gget z m k = (case map_of m k of None \<Rightarrow> z | Some v \<Rightarrow> v)"

definition ghas :: "('k, 'v) gomap \<Rightarrow> 'k \<Rightarrow> bool" where
  "ghas m k = (map_of m k \<noteq> None)"

lemma map_of_update [simp, gomap_simps]:
  "map_of (AList.update k v m) j = (if j = k then Some v else map_of m j)"
  by (simp add: update_conv')

lemma map_of_delete [simp, gomap_simps]:
  "map_of (AList.delete k m) j = (if j = k then None else map_of m j)"
  by (simp add: delete_conv')

lemma gget_update [simp, gomap_simps]:
  "gget z (AList.update k v m) j = (if j = k then v else gget z m j)"
  by (simp add: gget_def)

lemma gget_delete [simp, gomap_simps]:
  "gget z (AList.delete k m) j = (if j = k then z else gget z m j)"
  by (simp add: gget_def)

lemma gget_Nil [simp, gomap_simps]: "gget z [] j = z"
  by (simp add: gget_def)

lemma ghas_update [simp, gomap_simps]: "ghas (AList.update k v m) j \<longleftrightarrow> j = k \<or> ghas m j"
  by (simp add: ghas_def)

lemma ghas_delete [simp, gomap_simps]: "ghas (AList.delete k m) j \<longleftrightarrow> j \<noteq> k \<and> ghas m j"
  by (simp add: ghas_def)

lemma ghas_Nil [simp, gomap_simps]: "\<not> ghas [] j"
  by (simp add: ghas_def)

lemma gget_absent: "\<not> ghas m k \<Longrightarrow> gget z m k = z"
  by (simp add: ghas_def gget_def)

lemma map_le_SomeD: "m \<subseteq>\<^sub>m m' \<Longrightarrow> m x = Some y \<Longrightarrow> m' x = Some y"
  by (metis domI map_le_def)

section \<open>Generic interfaces\<close>

text \<open>A codec: decoding an encoding of an admissible value gives the value back.\<close>

locale codec =
  fixes enc :: "'a \<Rightarrow> bytes" and dec :: "bytes \<Rightarrow> 'e + 'a" and admissible :: "'a \<Rightarrow> bool"
  assumes dec_enc: "admissible x \<Longrightarrow> dec (enc x) = Inr x"
begin

lemma enc_inj: "admissible x \<Longrightarrow> admissible y \<Longrightarrow> enc x = enc y \<Longrightarrow> x = y"
  using dec_enc by (metis sum.inject(2))

lemma dec_enc_list: "list_all admissible xs \<Longrightarrow> map dec (map enc xs) = map Inr xs"
  by (induction xs) (auto simp: dec_enc)

end

text \<open>A canonical codec also accepts no byte string but the encodings.\<close>

locale canonical_codec = codec +
  assumes enc_dec: "dec b = Inr x \<Longrightarrow> enc x = b"
begin

lemma dec_inj: "dec b = Inr x \<Longrightarrow> dec c = Inr x \<Longrightarrow> b = c"
  using enc_dec by metis

end

text \<open>A guarded state machine: an invariant that holds initially and that every
  step keeps holds in every reachable state.\<close>

locale state_machine =
  fixes init :: "'s \<Rightarrow> bool" and step :: "'s \<Rightarrow> 's \<Rightarrow> bool" and inv :: "'s \<Rightarrow> bool"
  assumes inv_init: "init s \<Longrightarrow> inv s"
    and inv_step: "inv s \<Longrightarrow> step s t \<Longrightarrow> inv t"
begin

lemma inv_steps: "step\<^sup>*\<^sup>* s t \<Longrightarrow> inv s \<Longrightarrow> inv t"
  by (induction rule: rtranclp_induct) (auto intro: inv_step)

lemma inv_reach: "init s \<Longrightarrow> step\<^sup>*\<^sup>* s t \<Longrightarrow> inv t"
  using inv_steps inv_init by blast

end

end
