(* ===== verification/PBFrame.thy ===== *)
theory PBFrame
  imports Prelude
begin

text \<open>
  The messages of the primary-backup protocol (\<^verbatim>\<open>shard/pbisr/types.go\<close>,
  \<^verbatim>\<open>SnapshotChunk\<close> of \<^verbatim>\<open>pb_snapshot.go\<close>) and their wire form
  (\<^verbatim>\<open>shard/pbisr/pb_frame.go\<close>): the little-endian frame header and its reader, and
  the big-endian payload codecs. Every codec is an instance of the interface
  \<open>codec\<close>; the replicate payloads are canonical.
\<close>

section \<open>Messages\<close>

record ReplicateMsg =
  m_Epoch :: u64
  m_Seq :: u64
  m_PrevSeq :: u64
  m_PrevEpoch :: u64
  m_Data :: bytes

record CatchupInfoMsg =
  ci_Epoch :: u64
  ci_AppliedSeq :: u64
  ci_FrontierSeq :: u64
  ci_FrontierEpoch :: u64
  ci_OK :: bool

record AckMsg =
  a_Epoch :: u64
  a_Seq :: u64
  a_OK :: bool

record SnapshotChunk =
  sc_Epoch :: u64
  sc_FrontierSeq :: u64
  sc_FrontierEpoch :: u64
  sc_Offset :: u64
  sc_Total :: u64
  sc_Data :: bytes
  sc_Final :: bool

datatype pbFrameError =
    errEOF
  | errUnexpectedEOF
  | errPBBadMagic
  | errPBBadVersion
  | errPBOversize
  | errShort nat
  | errLengthMismatch u32 nat
  | errCountRange u32
  | errTruncatedRecord nat
  | errTruncatedData nat
  | errTrailing nat

section \<open>Frames\<close>

definition pbFrameMagic :: u8 where "pbFrameMagic = 0x50"
definition pbFrameVersion :: u8 where "pbFrameVersion = 2"
definition pbFrameHeaderSize :: nat where "pbFrameHeaderSize = 1 + 1 + 1 + 4 + 8 + 4"
definition pbGroupCountMax :: u32 where "pbGroupCountMax = 4096"
definition pbMaxPayload :: u32 where "pbMaxPayload = 0x4000000"

record pbFrame =
  f_kind :: u8
  f_shard :: u32
  f_reqID :: u64
  f_payload :: bytes

definition writePBFrameHdr :: "pbFrame \<Rightarrow> bytes" where
  "writePBFrameHdr f = [pbFrameMagic, pbFrameVersion, f_kind f] @ le32 (f_shard f) @
     le64 (f_reqID f) @ le32 (of_nat (length (f_payload f)))"

text \<open>\<^verbatim>\<open>io.ReadFull\<close> of \<open>n\<close> bytes: end of file when nothing is left, an unexpected end
  when something but not enough is.\<close>

definition readFull :: "nat \<Rightarrow> bytes \<Rightarrow> pbFrameError + bytes \<times> bytes" where
  "readFull n b = (if n \<le> length b then Inr (take n b, drop n b)
     else if b = [] then Inl errEOF else Inl errUnexpectedEOF)"

definition pbFrameReader_read :: "bytes \<Rightarrow> pbFrameError + pbFrame \<times> bytes" where
  "pbFrameReader_read s = (case readFull pbFrameHeaderSize s of Inl e \<Rightarrow> Inl e | Inr (hdr, s1) \<Rightarrow>
     if hdr ! 0 \<noteq> pbFrameMagic then Inl errPBBadMagic
     else if hdr ! 1 \<noteq> pbFrameVersion then Inl errPBBadVersion
     else let f = \<lparr>f_kind = hdr ! 2, f_shard = rd_le32 (drop 3 hdr), f_reqID = rd_le64 (drop 7 hdr),
                   f_payload = []\<rparr>;
              plen = rd_le32 (drop 15 hdr)
          in if plen > pbMaxPayload then Inl errPBOversize
             else if plen > 0 then
               (case readFull (unat plen) s1 of Inl e \<Rightarrow> Inl e
                | Inr (p, s2) \<Rightarrow> Inr (f\<lparr>f_payload := p\<rparr>, s2))
             else Inr (f, s1))"

text \<open>The connection loops read frames until the first error.\<close>

function readFrames :: "bytes \<Rightarrow> pbFrame list \<times> pbFrameError" where
  "readFrames s = (case pbFrameReader_read s of Inl e \<Rightarrow> ([], e)
     | Inr (f, r) \<Rightarrow> (case readFrames r of (fs, e) \<Rightarrow> (f # fs, e)))"
  by pat_completeness auto
termination
proof (relation "measure length", simp)
  fix s :: bytes and x f r
  assume "pbFrameReader_read s = Inr x" "(f, r) = x"
  then show "(r, s) \<in> measure length"
    by (auto simp: pbFrameReader_read_def readFull_def pbFrameHeaderSize_def Let_def
        split: sum.splits if_splits)
qed

declare readFrames.simps [simp del]

section \<open>Payload codecs\<close>

definition pbReplicateHdrSize :: nat where "pbReplicateHdrSize = 8 + 8 + 8 + 8 + 4"
definition pbGroupHdrSize :: nat where "pbGroupHdrSize = 8 + 8 + 8 + 8 + 4"
definition pbCatchupInfoSize :: nat where "pbCatchupInfoSize = 8 + 8 + 8 + 8 + 1"
definition pbSnapshotChunkHdrSize :: nat where
  "pbSnapshotChunkHdrSize = 8 + 8 + 8 + 8 + 8 + 1 + 4"

definition encodeReplicateMsg :: "bytes \<Rightarrow> ReplicateMsg \<Rightarrow> bytes" where
  "encodeReplicateMsg dst m = dst @ (be64 (m_Epoch m) @ be64 (m_Seq m) @ be64 (m_PrevSeq m) @
     be64 (m_PrevEpoch m) @ be32 (of_nat (length (m_Data m)))) @ m_Data m"

definition decodeReplicateMsg :: "bytes \<Rightarrow> pbFrameError + ReplicateMsg" where
  "decodeReplicateMsg b =
     (if length b < pbReplicateHdrSize then Inl (errShort (length b))
      else let dataLen = rd_be32 (gslice 32 36 b)
           in if unat dataLen \<noteq> length b - pbReplicateHdrSize
              then Inl (errLengthMismatch dataLen (length b - pbReplicateHdrSize))
              else Inr \<lparr>m_Epoch = rd_be64 (gslice 0 8 b), m_Seq = rd_be64 (gslice 8 16 b),
                m_PrevSeq = rd_be64 (gslice 16 24 b), m_PrevEpoch = rd_be64 (gslice 24 32 b),
                m_Data = (if dataLen > 0 then drop pbReplicateHdrSize b else [])\<rparr>)"

fun encodeGroupRecords :: "bytes \<Rightarrow> ReplicateMsg list \<Rightarrow> bytes" where
  "encodeGroupRecords dst [] = dst"
| "encodeGroupRecords dst (m # ms) =
     encodeGroupRecords (dst @ be32 (of_nat (length (m_Data m))) @ m_Data m) ms"

definition encodeReplicateGroup :: "bytes \<Rightarrow> ReplicateMsg list \<Rightarrow> bytes" where
  "encodeReplicateGroup dst msgs = encodeGroupRecords (dst @ be64 (m_Epoch (msgs ! 0)) @
     be64 (m_Seq (msgs ! 0)) @ be64 (m_PrevSeq (msgs ! 0)) @ be64 (m_PrevEpoch (msgs ! 0)) @
     be32 (of_nat (length msgs))) msgs"

text \<open>The record loop: \<open>n\<close> records are still to be read, the next one is number \<open>i\<close>.\<close>

fun decodeGroupRecords ::
  "u64 \<Rightarrow> u64 \<Rightarrow> nat \<Rightarrow> nat \<Rightarrow> bytes \<Rightarrow> pbFrameError + ReplicateMsg list \<times> bytes" where
  "decodeGroupRecords epoch firstSeq 0 i b = Inr ([], b)"
| "decodeGroupRecords epoch firstSeq (Suc n) i b =
     (if length b < 4 then Inl (errTruncatedRecord i)
      else let dataLen = rd_be32 (gslice 0 4 b); b1 = drop 4 b
           in if (of_nat (length b1) :: u32) < dataLen then Inl (errTruncatedData i)
              else let seq = firstSeq + of_nat i;
                       m = \<lparr>m_Epoch = epoch, m_Seq = seq, m_PrevSeq = seq - 1, m_PrevEpoch = epoch,
                            m_Data = take (unat dataLen) b1\<rparr>
                   in case decodeGroupRecords epoch firstSeq n (Suc i) (drop (unat dataLen) b1) of
                        Inl e \<Rightarrow> Inl e
                      | Inr (ms, r) \<Rightarrow> Inr (m # ms, r))"

definition decodeReplicateGroup :: "bytes \<Rightarrow> pbFrameError + ReplicateMsg list" where
  "decodeReplicateGroup b =
     (if length b < pbGroupHdrSize then Inl (errShort (length b))
      else let count = rd_be32 (gslice 32 36 b)
           in if count = 0 \<or> count > pbGroupCountMax then Inl (errCountRange count)
              else case decodeGroupRecords (rd_be64 (gslice 0 8 b)) (rd_be64 (gslice 8 16 b))
                          (unat count) 0 (drop pbGroupHdrSize b) of
                     Inl e \<Rightarrow> Inl e
                   | Inr (msgs, r) \<Rightarrow>
                       let msgs1 = msgs[0 := (msgs ! 0)\<lparr>m_PrevSeq := rd_be64 (gslice 16 24 b),
                                                       m_PrevEpoch := rd_be64 (gslice 24 32 b)\<rparr>]
                       in if r \<noteq> [] then Inl (errTrailing (length r)) else Inr msgs1)"

definition encodeCatchupInfo :: "bytes \<Rightarrow> CatchupInfoMsg \<Rightarrow> bytes" where
  "encodeCatchupInfo dst c = dst @ be64 (ci_Epoch c) @ be64 (ci_AppliedSeq c) @
     be64 (ci_FrontierSeq c) @ be64 (ci_FrontierEpoch c) @ [bool_byte (ci_OK c)]"

definition decodeCatchupInfo :: "bytes \<Rightarrow> pbFrameError + CatchupInfoMsg" where
  "decodeCatchupInfo b =
     (if length b \<noteq> pbCatchupInfoSize then Inl (errShort (length b))
      else Inr \<lparr>ci_Epoch = rd_be64 (gslice 0 8 b), ci_AppliedSeq = rd_be64 (gslice 8 16 b),
        ci_FrontierSeq = rd_be64 (gslice 16 24 b), ci_FrontierEpoch = rd_be64 (gslice 24 32 b),
        ci_OK = (b ! 32 = 1)\<rparr>)"

definition encodeSnapshotChunk :: "bytes \<Rightarrow> SnapshotChunk \<Rightarrow> bytes" where
  "encodeSnapshotChunk dst c = dst @ (be64 (sc_Epoch c) @ be64 (sc_FrontierSeq c) @
     be64 (sc_FrontierEpoch c) @ be64 (sc_Offset c) @ be64 (sc_Total c) @
     [bool_byte (sc_Final c)] @ be32 (of_nat (length (sc_Data c)))) @ sc_Data c"

definition decodeSnapshotChunk :: "bytes \<Rightarrow> pbFrameError + SnapshotChunk" where
  "decodeSnapshotChunk b =
     (if length b < pbSnapshotChunkHdrSize then Inl (errShort (length b))
      else let dataLen = rd_be32 (gslice 41 45 b)
           in if unat dataLen \<noteq> length b - pbSnapshotChunkHdrSize
              then Inl (errLengthMismatch dataLen (length b - pbSnapshotChunkHdrSize))
              else Inr \<lparr>sc_Epoch = rd_be64 (gslice 0 8 b), sc_FrontierSeq = rd_be64 (gslice 8 16 b),
                sc_FrontierEpoch = rd_be64 (gslice 16 24 b), sc_Offset = rd_be64 (gslice 24 32 b),
                sc_Total = rd_be64 (gslice 32 40 b),
                sc_Data = (if dataLen > 0 then drop pbSnapshotChunkHdrSize b else []),
                sc_Final = (b ! 40 = 1)\<rparr>)"

definition encodeAckMsg :: "bytes \<Rightarrow> AckMsg \<Rightarrow> bytes" where
  "encodeAckMsg dst a = dst @ be64 (a_Epoch a) @ be64 (a_Seq a) @ [bool_byte (a_OK a)]"

definition decodeAckMsg :: "bytes \<Rightarrow> pbFrameError + AckMsg" where
  "decodeAckMsg b = (if length b \<noteq> 17 then Inl (errShort (length b))
     else Inr \<lparr>a_Epoch = rd_be64 (gslice 0 8 b), a_Seq = rd_be64 (gslice 8 16 b), a_OK = (b ! 16 = 1)\<rparr>)"

section \<open>Round trips\<close>

lemmas pb_sizes = pbReplicateHdrSize_def pbGroupHdrSize_def pbCatchupInfoSize_def
  pbSnapshotChunkHdrSize_def pbFrameHeaderSize_def

lemma length_slice [simp, codec_simps]: "j \<le> length b \<Longrightarrow> length (gslice i j b) = j - i"
  by (simp add: gslice_def)

lemma be64_slice [codec_simps]: "j = i + 8 \<Longrightarrow> j \<le> length b \<Longrightarrow> be64 (rd_be64 (gslice i j b)) = gslice i j b"
  by (simp add: be64_rd_be64)

lemma be32_slice [codec_simps]: "j = i + 4 \<Longrightarrow> j \<le> length b \<Longrightarrow> be32 (rd_be32 (gslice i j b)) = gslice i j b"
  by (simp add: be32_rd_be32)

lemma slice_join: "i \<le> j \<Longrightarrow> j \<le> k \<Longrightarrow> gslice i j b @ gslice j k b = gslice i k b"
proof -
  assume *: "i \<le> j" "j \<le> k"
  have "gslice i k b = take ((j - i) + (k - j)) (drop i b)" using * by (simp add: gslice_def)
  also have "\<dots> = take (j - i) (drop i b) @ take (k - j) (drop (j - i) (drop i b))" by (rule take_add)
  also have "\<dots> = gslice i j b @ gslice j k b" using * by (simp add: gslice_def)
  finally show ?thesis by simp
qed

lemma slice_join_append: "i \<le> j \<Longrightarrow> j \<le> k \<Longrightarrow> gslice i j b @ gslice j k b @ r = gslice i k b @ r"
  using slice_join [of i j k b] by (metis append.assoc)

lemma slice_drop: "gslice 0 i b @ drop i b = b"
  by (simp add: gslice_def)

lemma unat_of_nat_len: "n < 2 ^ 32 \<Longrightarrow> unat (of_nat n :: u32) = n"
  by (simp add: unat_of_nat)

text \<open>A payload fits its 32-bit length field.\<close>

definition data_fits :: "bytes \<Rightarrow> bool" where "data_fits d = (length d < 2 ^ 32)"

lemma of_nat_len_pos: "data_fits d \<Longrightarrow> (0 < (of_nat (length d) :: u32)) = (d \<noteq> [])"
  by (auto simp: data_fits_def word_less_nat_alt unat_of_nat_len)

interpretation replicate_codec: canonical_codec "encodeReplicateMsg []" decodeReplicateMsg
  "\<lambda>m. data_fits (m_Data m)"
proof
  fix m :: ReplicateMsg assume "data_fits (m_Data m)"
  then show "decodeReplicateMsg (encodeReplicateMsg [] m) = Inr m"
    by (cases m)
       (auto simp: decodeReplicateMsg_def encodeReplicateMsg_def gslice_def pb_sizes data_fits_def
         unat_of_nat_len Let_def word_less_nat_alt)
next
  fix b x assume d: "decodeReplicateMsg b = Inr x"
  then have l: "36 \<le> length b" and n: "unat (rd_be32 (gslice 32 36 b)) = length b - 36"
    by (auto simp: decodeReplicateMsg_def pb_sizes Let_def split: if_splits)
  have len: "be32 (of_nat (length b - 36)) = gslice 32 36 b"
    using be32_slice [of 36 32 b] l by (simp flip: n)
  have dat: "m_Data x = drop 36 b"
    using d l n by (auto simp: decodeReplicateMsg_def pb_sizes Let_def word_less_nat_alt split: if_splits)
  have "encodeReplicateMsg [] x = gslice 0 32 b @ gslice 32 36 b @ drop 36 b"
    using d l dat len
    by (auto simp: decodeReplicateMsg_def encodeReplicateMsg_def pb_sizes Let_def be64_slice
        slice_join slice_join_append split: if_splits)
  also have "\<dots> = b" by (simp add: slice_join_append slice_drop)
  finally show "encodeReplicateMsg [] x = b" .
qed

interpretation ack_codec: codec "encodeAckMsg []" decodeAckMsg "\<lambda>_. True"
  by unfold_locales
     (auto simp: decodeAckMsg_def encodeAckMsg_def gslice_def bool_byte_def nth_append)

interpretation catchup_codec: codec "encodeCatchupInfo []" decodeCatchupInfo "\<lambda>_. True"
  by unfold_locales
     (auto simp: decodeCatchupInfo_def encodeCatchupInfo_def gslice_def bool_byte_def nth_append pb_sizes)

interpretation chunk_codec: codec "encodeSnapshotChunk []" decodeSnapshotChunk
  "\<lambda>c. data_fits (sc_Data c)"
proof
  fix c :: SnapshotChunk assume "data_fits (sc_Data c)"
  then show "decodeSnapshotChunk (encodeSnapshotChunk [] c) = Inr c"
    by (cases c)
       (auto simp: decodeSnapshotChunk_def encodeSnapshotChunk_def gslice_def pb_sizes data_fits_def
         unat_of_nat_len Let_def word_less_nat_alt bool_byte_def nth_append)
qed

section \<open>Group payloads\<close>

text \<open>The sender's grouping guarantee: after the first record every record directly
  succeeds the one before it, in the same epoch.\<close>

fun chained :: "u64 \<Rightarrow> u64 \<Rightarrow> ReplicateMsg list \<Rightarrow> bool" where
  "chained e s [] = True"
| "chained e s (m # ms) = (m_Epoch m = e \<and> m_Seq m = s \<and> m_PrevSeq m = s - 1 \<and> m_PrevEpoch m = e \<and>
     chained e (s + 1) ms)"

fun group_ok :: "ReplicateMsg list \<Rightarrow> bool" where
  "group_ok [] = False"
| "group_ok (m # ms) = (chained (m_Epoch m) (m_Seq m + 1) ms \<and> length (m # ms) \<le> unat pbGroupCountMax \<and>
     length (encodeReplicateGroup [] (m # ms)) \<le> unat pbMaxPayload)"

definition group_record :: "ReplicateMsg \<Rightarrow> bytes" where
  "group_record m = be32 (of_nat (length (m_Data m))) @ m_Data m"

lemma length_group_record [simp]: "length (group_record m) = 4 + length (m_Data m)"
  by (simp add: group_record_def)

lemma encodeGroupRecords_eq: "encodeGroupRecords dst ms = dst @ concat (map group_record ms)"
  by (induction dst ms rule: encodeGroupRecords.induct) (auto simp: group_record_def)

lemma decodeGroupRecords_records:
  "chained e (s + of_nat i) ms \<Longrightarrow> length (concat (map group_record ms) @ r) < 2 ^ 32 \<Longrightarrow>
   decodeGroupRecords e s (length ms) i (concat (map group_record ms) @ r) = Inr (ms, r)"
proof (induction ms arbitrary: i)
  case (Cons m ms)
  let ?d = "m_Data m" and ?r = "concat (map group_record ms) @ r"
  have c: "chained e (s + of_nat (Suc i)) ms"
    using Cons.prems(1) by (simp add: ac_simps)
  have len: "length ?d + length ?r < 2 ^ 32" using Cons.prems(2) by simp
  have IH: "decodeGroupRecords e s (length ms) (Suc i) ?r = Inr (ms, r)"
    using Cons.IH [OF c] Cons.prems(2) by simp
  have "\<not> (of_nat (length (?d @ ?r)) :: u32) < of_nat (length ?d)"
    using len by (simp only: word_less_nat_alt length_append unat_of_nat_len add_lessD1)
  moreover have "unat (of_nat (length ?d) :: u32) = length ?d"
    using len by (simp only: unat_of_nat_len add_lessD1)
  moreover have "\<lparr>m_Epoch = e, m_Seq = s + of_nat i, m_PrevSeq = s + of_nat i - 1, m_PrevEpoch = e,
      m_Data = ?d\<rparr> = m" using Cons.prems(1) by (cases m) simp
  ultimately show ?case using IH
    by (simp add: group_record_def [of m] gslice_def Let_def)
qed simp

lemma decodeGroupRecords_sound:
  "decodeGroupRecords e s n i b = Inr (ms, r) \<Longrightarrow>
   length ms = n \<and> chained e (s + of_nat i) ms \<and> b = concat (map group_record ms) @ r"
proof (induction e s n i b arbitrary: ms rule: decodeGroupRecords.induct)
  case (2 e s n i b)
  let ?l = "rd_be32 (gslice 0 4 b)" and ?b = "drop 4 b"
  from 2(2) obtain ms' where l: "4 \<le> length b" and le: "\<not> (of_nat (length ?b) :: u32) < ?l"
    and d: "decodeGroupRecords e s n (Suc i) (drop (unat ?l) ?b) = Inr (ms', r)"
    and ms: "ms = \<lparr>m_Epoch = e, m_Seq = s + of_nat i, m_PrevSeq = s + of_nat i - 1, m_PrevEpoch = e,
                    m_Data = take (unat ?l) ?b\<rparr> # ms'"
    by (auto simp: Let_def split: if_splits sum.splits)
  have "unat ?l \<le> unat (of_nat (length ?b) :: u32)" using le by (simp add: word_less_nat_alt not_less)
  also have "\<dots> \<le> length ?b" by (metis unat_of_nat mod_less_eq_dividend)
  finally have n: "length (take (unat ?l) ?b) = unat ?l" by simp
  have h: "be32 (of_nat (unat ?l)) = gslice 0 4 b" using be32_slice [of 4 0 b] l by simp
  have IH: "length ms' = n \<and> chained e (s + of_nat (Suc i)) ms' \<and>
      drop (unat ?l) ?b = concat (map group_record ms') @ r"
    using 2(1) [OF _ refl refl _ refl refl d] l le by simp
  have "b = gslice 0 4 b @ take (unat ?l) ?b @ drop (unat ?l) ?b"
    by (simp add: gslice_def del: drop_drop)
  then have "b = group_record (hd ms) @ concat (map group_record ms') @ r"
    using IH n h by (simp add: ms group_record_def)
  then show ?case using IH ms by (simp add: ac_simps)
qed simp

lemma decodeReplicateGroup_hdr:
  assumes "0 < n" "n \<le> 4096" "decodeGroupRecords e s n 0 body = Inr (m # ms, [])"
  shows "decodeReplicateGroup (be64 e @ be64 s @ be64 ps @ be64 pe @ be32 (of_nat n) @ body) =
    Inr (m\<lparr>m_PrevSeq := ps, m_PrevEpoch := pe\<rparr> # ms)"
proof -
  have n: "unat (of_nat n :: u32) = n" using assms by (intro unat_of_nat_len) simp
  then have "(of_nat n :: u32) \<noteq> 0" "\<not> (of_nat n :: u32) > pbGroupCountMax"
    using assms by (auto simp: pbGroupCountMax_def word_less_nat_alt)
  with n show ?thesis using assms(3)
    by (simp add: decodeReplicateGroup_def pb_sizes gslice_def Let_def)
qed

interpretation group_codec: canonical_codec "encodeReplicateGroup []" decodeReplicateGroup group_ok
proof
  fix msgs assume ok: "group_ok msgs"
  then obtain m ms where m: "msgs = m # ms" by (cases msgs) auto
  let ?m = "m\<lparr>m_PrevSeq := m_Seq m - 1, m_PrevEpoch := m_Epoch m\<rparr>"
  have len: "length ms < 4096" using ok by (simp add: m pbGroupCountMax_def)
  have "length (concat (map group_record (?m # ms)) @ []) < 2 ^ 32"
    using ok by (simp add: m encodeReplicateGroup_def encodeGroupRecords_eq pbMaxPayload_def)
  then have "decodeGroupRecords (m_Epoch m) (m_Seq m) (length (?m # ms)) 0
      (concat (map group_record (?m # ms)) @ []) = Inr (?m # ms, [])"
    using ok m by (intro decodeGroupRecords_records) simp_all
  moreover have "concat (map group_record (?m # ms)) @ [] = concat (map group_record msgs)"
    by (simp add: m group_record_def)
  ultimately have "decodeGroupRecords (m_Epoch m) (m_Seq m) (length msgs) 0
      (concat (map group_record msgs)) = Inr (?m # ms, [])" by (simp only: m list.size)
  from decodeReplicateGroup_hdr [OF _ _ this]
  show "decodeReplicateGroup (encodeReplicateGroup [] msgs) = Inr msgs"
    using len by (simp add: encodeReplicateGroup_def encodeGroupRecords_eq m)
next
  fix b msgs assume d: "decodeReplicateGroup b = Inr msgs"
  let ?c = "rd_be32 (gslice 32 36 b)"
  from d obtain ms0 where l: "36 \<le> length b" and c: "?c \<noteq> 0"
    and r: "decodeGroupRecords (rd_be64 (gslice 0 8 b)) (rd_be64 (gslice 8 16 b)) (unat ?c) 0
              (drop 36 b) = Inr (ms0, [])"
    and ms: "msgs = ms0[0 := (ms0 ! 0)\<lparr>m_PrevSeq := rd_be64 (gslice 16 24 b),
                                      m_PrevEpoch := rd_be64 (gslice 24 32 b)\<rparr>]"
    by (auto simp: decodeReplicateGroup_def pb_sizes Let_def split: if_splits sum.splits)
  note snd = decodeGroupRecords_sound [OF r]
  with c obtain m ms1 where m: "ms0 = m # ms1" by (cases ms0) (auto simp: unat_eq_zero)
  have cnt: "be32 (of_nat (length msgs)) = gslice 32 36 b"
    using snd be32_slice [of 36 32 b] l by (simp add: ms)
  have body: "concat (map group_record msgs) = drop 36 b"
    using snd by (simp add: ms m group_record_def)
  have hdr: "m_Epoch (msgs ! 0) = rd_be64 (gslice 0 8 b)" "m_Seq (msgs ! 0) = rd_be64 (gslice 8 16 b)"
    "m_PrevSeq (msgs ! 0) = rd_be64 (gslice 16 24 b)" "m_PrevEpoch (msgs ! 0) = rd_be64 (gslice 24 32 b)"
    using snd by (simp_all add: ms m)
  have "encodeReplicateGroup [] msgs = gslice 0 32 b @ gslice 32 36 b @ drop 36 b"
    using l by (simp add: encodeReplicateGroup_def encodeGroupRecords_eq hdr cnt body be64_slice
        slice_join_append)
  also have "\<dots> = b" by (simp add: slice_join_append slice_drop)
  finally show "encodeReplicateGroup [] msgs = b" .
qed

section \<open>The frame stream\<close>

definition frame_wire :: "pbFrame \<Rightarrow> bytes" where
  "frame_wire f = writePBFrameHdr f @ f_payload f"

definition frame_ok :: "pbFrame \<Rightarrow> bool" where
  "frame_ok f = (length (f_payload f) \<le> unat pbMaxPayload)"

lemma length_writePBFrameHdr [simp]: "length (writePBFrameHdr f) = pbFrameHeaderSize"
  by (simp add: writePBFrameHdr_def pbFrameHeaderSize_def)

lemma read_frame_wire:
  assumes "frame_ok f" shows "pbFrameReader_read (frame_wire f @ r) = Inr (f, r)"
proof -
  let ?n = "of_nat (length (f_payload f)) :: u32"
  have le: "length (f_payload f) \<le> 0x4000000"
    using assms by (simp add: frame_ok_def pbMaxPayload_def)
  then have n: "unat ?n = length (f_payload f)" by (intro unat_of_nat_len) simp
  have h: "readFull pbFrameHeaderSize (frame_wire f @ r) = Inr (writePBFrameHdr f, f_payload f @ r)"
    by (simp add: readFull_def frame_wire_def)
  have "\<not> ?n > pbMaxPayload" using n le by (simp add: word_less_nat_alt pbMaxPayload_def)
  moreover have "(0 < ?n) = (f_payload f \<noteq> [])" using n by (auto simp: word_less_nat_alt)
  ultimately show ?thesis using n unfolding pbFrameReader_read_def h
    by (cases f) (auto simp: writePBFrameHdr_def readFull_def Let_def)
qed

lemma read_frame_exact:
  assumes "pbFrameReader_read s = Inr (f, r)"
  shows "frame_ok f \<and> s = frame_wire f @ r"
proof -
  obtain hdr s1 where h: "readFull pbFrameHeaderSize s = Inr (hdr, s1)"
    using assms by (auto simp: pbFrameReader_read_def split: sum.splits)
  then have l: "length hdr = 19" and s: "s = hdr @ s1"
    by (auto simp: readFull_def pbFrameHeaderSize_def split: if_splits)
  let ?n = "rd_le32 (drop 15 hdr)"
  have le32: "le32 (rd_le32 b) = take 4 b" if "4 \<le> length b" for b
    using that le_get_less [of "take 4 b"] le_put_le_get [of "take 4 b"]
    by (simp add: le32_def rd_le32_def unat_of_nat)
  have le64: "le64 (rd_le64 b) = take 8 b" if "8 \<le> length b" for b
    using that le_get_less [of "take 8 b"] le_put_le_get [of "take 8 b"]
    by (simp add: le64_def rd_le64_def unat_of_nat)
  from assms h have m: "hdr ! 0 = pbFrameMagic" "hdr ! 1 = pbFrameVersion" "?n \<le> pbMaxPayload"
    and f: "f = \<lparr>f_kind = hdr ! 2, f_shard = rd_le32 (drop 3 hdr), f_reqID = rd_le64 (drop 7 hdr),
             f_payload = take (unat ?n) s1\<rparr>"
    and r: "unat ?n \<le> length s1" "r = drop (unat ?n) s1"
    by (auto simp: pbFrameReader_read_def readFull_def Let_def word_less_nat_alt word_le_nat_alt
        split: sum.splits if_splits)
  have "frame_ok f" using m(3) r by (simp add: frame_ok_def f word_le_nat_alt)
  moreover have "writePBFrameHdr f = take 3 hdr @ gslice 3 7 hdr @ gslice 7 15 hdr @ gslice 15 19 hdr"
  proof -
    have "take 3 hdr = [hdr ! 0, hdr ! 1, hdr ! 2]"
      using l by (simp add: numeral_3_eq_3 numeral_2_eq_2 take_Suc_conv_app_nth)
    moreover have "le32 (of_nat (length (f_payload f))) = gslice 15 19 hdr"
      using le32 [of "drop 15 hdr"] r l by (simp add: f gslice_def)
    moreover have "le32 (f_shard f) = gslice 3 7 hdr" "le64 (f_reqID f) = gslice 7 15 hdr"
      using le32 [of "drop 3 hdr"] le64 [of "drop 7 hdr"] l by (simp_all add: f gslice_def)
    ultimately show ?thesis using m by (simp add: writePBFrameHdr_def) (simp add: f)
  qed
  moreover have "take 3 hdr @ gslice 3 7 hdr @ gslice 7 15 hdr @ gslice 15 19 hdr = hdr"
    using l slice_drop [of 3 hdr] by (simp add: slice_join) (simp add: gslice_def)
  ultimately show ?thesis using s r by (simp add: frame_wire_def) (simp add: f)
qed



text \<open>(C18) Frame reader soundness. Whatever bytes arrive, a frame the reader returns has a
  payload within the 64 MiB bound and is exactly the header and payload consumed from
  the stream: no two streams give the same frame and remainder.\<close>

theorem pbFrameReader_read_exact:
  "pbFrameReader_read s = Inr (f, r) \<Longrightarrow>
     length (f_payload f) \<le> 64 * 1024 * 1024 \<and> s = writePBFrameHdr f @ f_payload f @ r"
  using read_frame_exact [of s f r] by (simp add: frame_ok_def frame_wire_def pbMaxPayload_def)

theorem pbFrameReader_read_exact_witness:
  "[0x50, 2, 0, 1, 0, 0, 0, 5, 0, 0, 0, 0, 0, 0, 0, 1, 0, 0, 0, 42, 7] =
   writePBFrameHdr \<lparr>f_kind = 0, f_shard = 1, f_reqID = 5, f_payload = [42]\<rparr> @ [42] @ [7]"
  using pbFrameReader_read_exact
    [of "[0x50, 2, 0, 1, 0, 0, 0, 5, 0, 0, 0, 0, 0, 0, 0, 1, 0, 0, 0, 42, 7]"
        "\<lparr>f_kind = 0, f_shard = 1, f_reqID = 5, f_payload = [42]\<rparr>" "[7]"]
  by (simp add: pbFrameReader_read_def readFull_def pbFrameHeaderSize_def pbFrameMagic_def
      pbFrameVersion_def rd_le32_def rd_le64_def pbMaxPayload_def Let_def)

end
