(* ===== verification/Ring.thy ===== *)
theory Ring
  imports Prelude
begin

text \<open>
  The catch-up ring of \<^verbatim>\<open>shard/pbisr/engine.go\<close> (\<^verbatim>\<open>type ring\<close>): a fixed array of the
  most recent writes that drops the oldest one on overflow. The physical array is
  related to the list of retained entries, oldest first; the interface
  \<open>bounded_log\<close> states what a client may rely on, and the ring implements it.
\<close>

section \<open>The ring\<close>

record ringEntry =
  re_epoch :: u64
  re_seq :: u64
  re_prevEpoch :: u64
  re_data :: bytes

definition zeroEntry :: ringEntry where
  "zeroEntry = \<lparr>re_epoch = 0, re_seq = 0, re_prevEpoch = 0, re_data = []\<rparr>"

record ring =
  r_buf :: "ringEntry list"
  r_head :: nat
  r_count :: nat

definition newRing :: "int \<Rightarrow> ring" where
  "newRing capacity = (let c = (if capacity < 1 then 1 else capacity)
     in \<lparr>r_buf = replicate (nat c) zeroEntry, r_head = 0, r_count = 0\<rparr>)"

text \<open>\<open>ring_append\<close> also returns the data of the evicted entry, \<open>None\<close> while the ring is not
  full.\<close>

definition ring_append :: "ring \<Rightarrow> ringEntry \<Rightarrow> ring \<times> bytes option" where
  "ring_append r e =
     (if r_count r < length (r_buf r)
      then (r\<lparr>r_buf := (r_buf r)[(r_head r + r_count r) mod length (r_buf r) := e],
              r_count := r_count r + 1\<rparr>, None)
      else (r\<lparr>r_buf := (r_buf r)[r_head r := e], r_head := (r_head r + 1) mod length (r_buf r)\<rparr>,
            Some (re_data (r_buf r ! r_head r))))"

definition ring_len :: "ring \<Rightarrow> nat" where "ring_len r = r_count r"

text \<open>The reset loop: every retained slot is zeroed and its data, when there is any, goes to the
  release hook.\<close>

fun ring_reset_loop :: "nat \<Rightarrow> nat \<Rightarrow> nat \<Rightarrow> ringEntry list \<Rightarrow> ringEntry list \<times> bytes list" where
  "ring_reset_loop head i 0 buf = (buf, [])"
| "ring_reset_loop head i (Suc n) buf =
     (let idx = (head + i) mod length buf; d = re_data (buf ! idx)
      in case ring_reset_loop head (i + 1) n (buf[idx := zeroEntry]) of
           (b, ds) \<Rightarrow> (b, (if d \<noteq> [] then d # ds else ds)))"

definition ring_reset :: "ring \<Rightarrow> ring \<times> bytes list" where
  "ring_reset r = (case ring_reset_loop (r_head r) 0 (r_count r) (r_buf r) of
     (b, ds) \<Rightarrow> (\<lparr>r_buf = b, r_head = 0, r_count = 0\<rparr>, ds))"

definition ring_span :: "ring \<Rightarrow> (u64 \<times> u64) option" where
  "ring_span r = (if r_count r = 0 then None
     else Some (re_seq (r_buf r ! r_head r),
                re_seq (r_buf r ! ((r_head r + r_count r - 1) mod length (r_buf r)))))"

definition ring_at :: "ring \<Rightarrow> u64 \<Rightarrow> ringEntry option" where
  "ring_at r seq = (case ring_span r of None \<Rightarrow> None | Some (oldest, newest) \<Rightarrow>
     if seq < oldest \<or> seq > newest then None
     else let ent = r_buf r ! ((r_head r + unat (seq - oldest)) mod length (r_buf r))
          in if re_seq ent \<noteq> seq then None else Some ent)"

section \<open>The retained entries\<close>

definition ring_wf :: "ring \<Rightarrow> bool" where
  "ring_wf r = (0 < length (r_buf r) \<and> r_head r < length (r_buf r) \<and> r_count r \<le> length (r_buf r))"

definition ring_entries :: "ring \<Rightarrow> ringEntry list" where
  "ring_entries r = map (\<lambda>i. r_buf r ! ((r_head r + i) mod length (r_buf r))) [0..<r_count r]"

definition ring_cap :: "ring \<Rightarrow> nat" where "ring_cap r = length (r_buf r)"

text \<open>The entries are seq-dense: each one directly follows the one before it.\<close>

fun dense :: "ringEntry list \<Rightarrow> bool" where
  "dense [] = True"
| "dense [e] = True"
| "dense (e # f # es) = (re_seq f = re_seq e + 1 \<and> re_seq e \<noteq> -1 \<and> dense (f # es))"

text \<open>What a bounded log promises: it holds the last \<open>cap\<close> entries pushed since it was emptied.\<close>

lemma drop_window:
  assumes "0 < c"
  shows "(if length (drop (length zs - c) zs) < c then drop (length zs - c) zs
      else tl (drop (length zs - c) zs)) @ [x] = drop (Suc (length zs) - c) (zs @ [x])"
proof (cases "length zs < c")
  case False
  then obtain k where k: "length zs = c + k" by (metis le_Suc_ex not_less)
  then have "Suc (length zs) - c = Suc k" by simp
  then show ?thesis using assms k by (simp add: drop_Suc tl_drop)
qed simp

locale bounded_log =
  fixes push :: "'l \<Rightarrow> 'a \<Rightarrow> 'l" and clear :: "'l \<Rightarrow> 'l" and entries :: "'l \<Rightarrow> 'a list"
    and cap :: "'l \<Rightarrow> nat" and ok :: "'l \<Rightarrow> bool"
  assumes ok_push: "ok l \<Longrightarrow> ok (push l x)"
    and ok_clear: "ok l \<Longrightarrow> ok (clear l)"
    and cap_push: "ok l \<Longrightarrow> cap (push l x) = cap l"
    and cap_pos: "ok l \<Longrightarrow> 0 < cap l"
    and entries_push: "ok l \<Longrightarrow> entries (push l x) =
          (if length (entries l) < cap l then entries l else tl (entries l)) @ [x]"
    and entries_clear: "ok l \<Longrightarrow> entries (clear l) = []"
    and entries_bound: "ok l \<Longrightarrow> length (entries l) \<le> cap l"
begin

lemma push_all:
  assumes "ok l" shows "ok (foldl push l xs)" "cap (foldl push l xs) = cap l"
    "entries (foldl push l xs) =
       drop (length (entries l) + length xs - cap l) (entries l @ xs)"
proof -
  have "ok (foldl push l xs) \<and> cap (foldl push l xs) = cap l \<and>
    entries (foldl push l xs) = drop (length (entries l) + length xs - cap l) (entries l @ xs)"
  proof (induction xs rule: rev_induct)
    case Nil
    then show ?case using assms entries_bound by auto
  next
    case (snoc x xs)
    let ?m = "foldl push l xs" and ?n = "length (entries l) + length xs"
    have "entries (push ?m x) =
        (if length (entries ?m) < cap l then entries ?m else tl (entries ?m)) @ [x]"
      using snoc entries_push by auto
    also have "\<dots> = drop (Suc ?n - cap l) ((entries l @ xs) @ [x])"
      using snoc drop_window [OF cap_pos [OF assms], of "entries l @ xs" x]
      by (simp only: length_append)
    finally show ?case using snoc ok_push cap_push by simp
  qed
  then show "ok (foldl push l xs)" "cap (foldl push l xs) = cap l"
    "entries (foldl push l xs) = drop (length (entries l) + length xs - cap l) (entries l @ xs)"
    by auto
qed

text \<open>After a clear, the log holds the last \<open>cap\<close> entries pushed.\<close>

lemma push_all_clear:
  assumes "ok l" "cap (clear l) = cap l"
  shows "entries (foldl push (clear l) xs) = drop (length xs - cap l) xs"
  using push_all(3) [OF ok_clear [OF assms(1)], of xs] assms entries_clear by simp

end

lemma length_ring_entries [simp]: "length (ring_entries r) = r_count r"
  by (simp add: ring_entries_def)

lemma ring_entries_nth:
  "i < r_count r \<Longrightarrow> ring_entries r ! i = r_buf r ! ((r_head r + i) mod length (r_buf r))"
  by (simp add: ring_entries_def)

lemma ring_wf_newRing [simp]: "ring_wf (newRing c)"
  by (auto simp: newRing_def ring_wf_def Let_def)

lemma ring_entries_newRing [simp]: "ring_entries (newRing c) = []"
  by (simp add: newRing_def ring_entries_def Let_def)

section \<open>The ring implements a bounded log\<close>

definition ring_push :: "ring \<Rightarrow> ringEntry \<Rightarrow> ring" where "ring_push r e = fst (ring_append r e)"
definition ring_clear :: "ring \<Rightarrow> ring" where "ring_clear r = fst (ring_reset r)"

lemma ring_push_wf: "ring_wf r \<Longrightarrow> ring_wf (ring_push r e)"
  by (auto simp: ring_push_def ring_append_def ring_wf_def)

lemma ring_push_entries:
  assumes "ring_wf r"
  shows "ring_entries (ring_push r e) =
    (if length (ring_entries r) < ring_cap r then ring_entries r else tl (ring_entries r)) @ [e]"
proof (cases "r_count r < length (r_buf r)")
  case True
  let ?n = "length (r_buf r)" and ?b = "(r_buf r)[(r_head r + r_count r) mod length (r_buf r) := e]"
  have e: "?b ! ((r_head r + i) mod ?n) = (if i = r_count r then e else r_buf r ! ((r_head r + i) mod ?n))"
    if "i \<le> r_count r" for i
    using that True mod_add_eq_iff [of i ?n "r_count r" "r_head r"] assms
    by (auto simp: ring_wf_def nth_list_update)
  show ?thesis using True e
    by (auto simp: ring_entries_def ring_push_def ring_append_def ring_cap_def)
next
  case False
  let ?n = "length (r_buf r)" and ?h = "r_head r"
  have n: "r_count r = ?n" "0 < ?n" "?h < ?n" using False assms by (auto simp: ring_wf_def)
  have "ring_entries (ring_push r e) ! i = (tl (ring_entries r) @ [e]) ! i" if i: "i < ?n" for i
  proof (cases "i = ?n - 1")
    case True
    have "((?h + 1) mod ?n + i) mod ?n = (?h + 1 + i) mod ?n" by (rule mod_add_left_eq)
    also have "?h + 1 + i = ?h + ?n" using True n by simp
    finally have "((?h + 1) mod ?n + i) mod ?n = ?h" using n by simp
    then show ?thesis using True n False
      by (simp add: ring_entries_nth ring_push_def ring_append_def nth_append)
  next
    case False2: False
    have "((?h + 1) mod ?n + i) mod ?n = (?h + Suc i) mod ?n" by (simp add: mod_add_left_eq)
    moreover have "(?h + Suc i) mod ?n \<noteq> ?h"
      using mod_add_eq_iff [of "Suc i" ?n 0 ?h] i False2 n by simp
    ultimately show ?thesis using i False2 n False
      by (simp add: ring_entries_nth ring_push_def ring_append_def nth_append nth_tl)
  qed
  moreover have "length (ring_entries (ring_push r e)) = ?n"
    using False n by (simp add: ring_push_def ring_append_def)
  ultimately show ?thesis using n by (auto simp: ring_cap_def intro!: nth_equalityI)
qed

lemma ring_reset_loop_length: "length (fst (ring_reset_loop h i n b)) = length b"
  by (induction h i n b rule: ring_reset_loop.induct) (auto simp: Let_def split: prod.splits)

lemma ring_clear_wf: "ring_wf r \<Longrightarrow> ring_wf (ring_clear r)"
  using ring_reset_loop_length [of "r_head r" 0 "r_count r" "r_buf r"]
  by (auto simp: ring_clear_def ring_reset_def ring_wf_def split: prod.splits)

lemma ring_clear_cap [simp]: "ring_cap (ring_clear r) = ring_cap r"
  using ring_reset_loop_length [of "r_head r" 0 "r_count r" "r_buf r"]
  by (auto simp: ring_clear_def ring_reset_def ring_cap_def split: prod.splits)

lemma ring_clear_entries [simp]: "ring_entries (ring_clear r) = []"
  by (auto simp: ring_clear_def ring_reset_def ring_entries_def split: prod.splits)

interpretation catchup_ring: bounded_log ring_push ring_clear ring_entries ring_cap ring_wf
proof
  fix r :: ring and e :: ringEntry
  assume wf: "ring_wf r"
  show "ring_wf (ring_push r e)" using wf by (rule ring_push_wf)
  show "ring_wf (ring_clear r)" using wf by (rule ring_clear_wf)
  show "ring_cap (ring_push r e) = ring_cap r"
    by (simp add: ring_push_def ring_append_def ring_cap_def)
  show "0 < ring_cap r" "length (ring_entries r) \<le> ring_cap r"
    using wf by (simp_all add: ring_wf_def ring_cap_def)
  show "ring_entries (ring_push r e) = (if length (ring_entries r) < ring_cap r
      then ring_entries r else tl (ring_entries r)) @ [e]" using wf by (rule ring_push_entries)
qed simp

section \<open>Lookups\<close>

text \<open>The unused slots hold the zero entry: after a reset nothing of the dropped history is left.\<close>

definition ring_inv :: "ring \<Rightarrow> bool" where
  "ring_inv r = (ring_wf r \<and> (\<forall>i \<in> {r_count r..<length (r_buf r)}.
     r_buf r ! ((r_head r + i) mod length (r_buf r)) = zeroEntry))"

lemma ring_inv_newRing [simp]: "ring_inv (newRing c)"
  using ring_wf_newRing [of c] by (auto simp: ring_inv_def newRing_def Let_def)

lemma ring_inv_push: assumes "ring_inv r" shows "ring_inv (ring_push r e)"
proof -
  let ?n = "length (r_buf r)"
  have wf: "ring_wf (ring_push r e)" using assms ring_push_wf by (auto simp: ring_inv_def)
  have "(r_buf r)[(r_head r + r_count r) mod ?n := e] ! ((r_head r + i) mod ?n) = zeroEntry"
    if "r_count r < i" "i < ?n" for i
    using that assms mod_add_eq_iff [of "r_count r" ?n i "r_head r"]
    by (auto simp: ring_inv_def nth_list_update)
  then show ?thesis using wf assms
    by (auto simp: ring_inv_def ring_push_def ring_append_def ring_wf_def)
qed

lemma ring_reset_loop_nth:
  "i + n \<le> length b \<Longrightarrow> j < length b \<Longrightarrow>
   fst (ring_reset_loop h i n b) ! ((h + j) mod length b) =
     (if i \<le> j \<and> j < i + n then zeroEntry else b ! ((h + j) mod length b))"
proof (induction h i n b rule: ring_reset_loop.induct)
  case (2 h i n b)
  let ?b = "b[(h + i) mod length b := zeroEntry]"
  have "fst (ring_reset_loop h (i + 1) n ?b) ! ((h + j) mod length ?b) =
      (if i + 1 \<le> j \<and> j < i + 1 + n then zeroEntry else ?b ! ((h + j) mod length ?b))"
    using 2 by (intro 2(1)) auto
  moreover have "?b ! ((h + j) mod length b) = (if i = j then zeroEntry else b ! ((h + j) mod length b))"
  proof -
    have "(h + j) mod length b < length b" using 2(3) by (intro mod_less_divisor) auto
    then show ?thesis using 2(2,3) mod_add_eq_iff [of i "length b" j h]
      by (auto simp: nth_list_update)
  qed
  ultimately show ?case by (auto simp: Let_def split: prod.splits)
qed auto

lemma ring_inv_clear: assumes "ring_inv r" shows "ring_inv (ring_clear r)"
proof -
  let ?n = "length (r_buf r)" and ?b = "fst (ring_reset_loop (r_head r) 0 (r_count r) (r_buf r))"
  have "?b ! k = zeroEntry" if "k < ?n" for k
  proof -
    have "\<exists>j<?n. k = (r_head r + j) mod ?n"
    proof (cases "r_head r \<le> k")
      case True
      then show ?thesis using that by (intro exI [of _ "k - r_head r"]) auto
    next
      case False
      have "(r_head r + (k + ?n - r_head r)) mod ?n = k"
        using False that assms by (auto simp: ring_inv_def ring_wf_def)
      then show ?thesis using False that assms
        by (intro exI [of _ "k + ?n - r_head r"]) (auto simp: ring_inv_def ring_wf_def)
    qed
    then obtain j where "j < ?n" "k = (r_head r + j) mod ?n" by auto
    then show ?thesis using assms ring_reset_loop_nth [of 0 "r_count r" "r_buf r" j "r_head r"]
      by (auto simp: ring_inv_def ring_wf_def)
  qed
  moreover have "length ?b = ?n" by (rule ring_reset_loop_length)
  moreover have "ring_wf (ring_clear r)" using assms ring_clear_wf by (auto simp: ring_inv_def)
  ultimately show ?thesis
    by (auto simp: ring_inv_def ring_clear_def ring_reset_def split: prod.splits)
qed

lemma ring_span_entries:
  "ring_wf r \<Longrightarrow> ring_span r = (if ring_entries r = [] then None
     else Some (re_seq (hd (ring_entries r)), re_seq (last (ring_entries r))))"
proof (cases "r_count r = 0")
  case False
  assume wf: "ring_wf r"
  have "ring_entries r \<noteq> []" using False by (metis length_ring_entries list.size(3))
  then show ?thesis using False wf
    by (simp add: ring_span_def hd_conv_nth last_conv_nth ring_entries_nth ring_wf_def)
qed (simp add: ring_span_def ring_entries_def)

lemma ring_at_sound:
  assumes inv: "ring_inv r" and "seq \<noteq> 0" and at: "ring_at r seq = Some ent"
  shows "re_seq ent = seq \<and> ent \<in> set (ring_entries r)"
proof -
  from at obtain lo hi where sp: "ring_span r = Some (lo, hi)"
    and ent: "ent = r_buf r ! ((r_head r + unat (seq - lo)) mod length (r_buf r))" "re_seq ent = seq"
    by (auto simp: ring_at_def Let_def split: option.splits if_splits)
  let ?n = "length (r_buf r)" and ?i = "unat (seq - lo)"
  have phys: "ent = r_buf r ! ((r_head r + ?i mod ?n) mod ?n)" using ent by (simp add: mod_add_right_eq)
  have "?i mod ?n < ?n" using inv by (simp add: ring_inv_def ring_wf_def)
  moreover have "re_seq zeroEntry = 0" by (simp add: zeroEntry_def)
  ultimately have "?i mod ?n < r_count r" using inv ent(2) phys \<open>seq \<noteq> 0\<close>
    by (metis ring_inv_def atLeastLessThan_iff not_less)
  then have "ent = ring_entries r ! (?i mod ?n)" "?i mod ?n < length (ring_entries r)"
    using phys ring_entries_nth by auto
  then show ?thesis using ent(2) by simp
qed

lemma dense_nth:
  "dense es \<Longrightarrow> i < length es \<Longrightarrow>
   re_seq (es ! i) = re_seq (hd es) + of_nat i \<and> unat (re_seq (es ! i)) = unat (re_seq (hd es)) + i"
proof (induction es arbitrary: i rule: dense.induct)
  case (3 e f es)
  show ?case
  proof (cases i)
    case (Suc j)
    have s: "unat (re_seq e + 1) = unat (re_seq e) + 1" using 3(2) by (simp add: unat_succ)
    have f: "re_seq f = re_seq e + 1" and j: "dense (f # es)" "j < length (f # es)"
      using 3(2,3) Suc by simp_all
    note IH = 3(1) [OF j, unfolded list.sel]
    have A: "re_seq ((f # es) ! j) = re_seq f + of_nat j"
      and B: "unat (re_seq ((f # es) ! j)) = unat (re_seq f) + j"
      using IH by (blast, blast)
    have "re_seq ((e # f # es) ! i) = re_seq e + of_nat i" using A f Suc by simp
    moreover have "unat (re_seq ((e # f # es) ! i)) = unat (re_seq e) + i"
      using B f s Suc by (simp only: nth_Cons_Suc)
    ultimately show ?thesis by simp
  qed simp
qed auto

lemma ring_at_dense:
  assumes wf: "ring_wf r" and d: "dense (ring_entries r)" and i: "i < length (ring_entries r)"
  shows "ring_at r (re_seq (ring_entries r ! i)) = Some (ring_entries r ! i)"
proof -
  let ?es = "ring_entries r"
  have "0 < length ?es" using i by linarith
  then have ne: "?es \<noteq> []" by (metis length_greater_0_conv)
  have li: "re_seq (?es ! i) = re_seq (hd ?es) + of_nat i" "unat (re_seq (?es ! i)) = unat (re_seq (hd ?es)) + i"
    using dense_nth [OF d i] by auto
  have ll: "unat (re_seq (last ?es)) = unat (re_seq (hd ?es)) + (length ?es - 1)"
    using dense_nth [OF d, of "length ?es - 1"] ne \<open>0 < length ?es\<close>
    by (metis last_conv_nth diff_less zero_less_one)
  have "i < 2 ^ 64" using li(2) unat_lt [of "re_seq (?es ! i)"] by simp
  then have off: "unat (re_seq (?es ! i) - re_seq (hd ?es)) = i" using li(1) by (simp add: unat_of_nat)
  have "\<not> re_seq (?es ! i) < re_seq (hd ?es)" "\<not> re_seq (?es ! i) > re_seq (last ?es)"
    using li(2) ll i by (auto simp: word_less_nat_alt)
  then show ?thesis using ne off i wf
    by (simp add: ring_at_def ring_span_entries Let_def ring_entries_nth)
qed

end
