(* ===== verification/Pipeline.thy ===== *)
theory Pipeline
  imports PBFrame Ring
begin

text \<open>
  The state of one shard's replication engine (\<^verbatim>\<open>type Engine\<close>,
  \<^verbatim>\<open>shard/pbisr/engine.go\<close>) and its in-flight pipeline
  (\<^verbatim>\<open>shard/pbisr/pb_pipeline.go\<close>): registration of a write, acknowledgements, the
  commit sweep, the epoch flush, the admission window and ISR shrink.

  A method of the engine is a function on the record \<open>Engine\<close>; each one models the
  critical section it runs under the engine's locks. Values the code reads from its
  environment (the clock, the control plane) are arguments. Three fields record what the
  engine hands to its environment: \<open>e_done\<close> the outcomes sent to the waiting callers,
  \<open>e_wire\<close> the frames submitted to the transport, \<open>e_released\<close> the recycled buffers.
\<close>

section \<open>State\<close>

datatype pbError =
    ErrNotPrimary | ErrLeaseExpired | ErrBelowMinISR | ErrReplicationTimeout | ErrPBUnimplemented
  | ErrPipelineStalled | ErrGrowNoCatchupTransport | ErrGrowNoGroupTransport | ErrGrowPeerAhead
  | ErrGrowEpochChanged | ErrGrowRingEvicted | ErrCatchupDiverged | ErrCatchupUnverifiable
  | ErrGrowNoSnapshotStore | ErrGrowNoSnapshotTransport | ErrGrowSnapshotRejected
  | ErrGrowSnapshotExhausted | ErrSnapshotPending
  | ErrApply string | ErrTransport string | ErrContext string | ErrStore string | ErrPanic string

datatype CommitLevel = CommitFullISR | CommitPrimary

definition defaultRingCapacity :: int where "defaultRingCapacity = 4096"
definition pipelineWindow :: nat where "pipelineWindow = 256"
definition maxInlinePeers :: nat where "maxInlinePeers = 4"

record inflight =
  if_epoch :: u64
  if_seq :: u64
  if_npending :: nat
  if_peers :: "node list"
  if_overflow :: "node list option"
  if_resolved :: bool
  if_err :: "pbError option"

record peerSender =
  ps_ch :: "ReplicateMsg list"
  ps_pending :: int

record snapshotStage =
  st_epoch :: u64
  st_frontierSeq :: u64
  st_frontierEpoch :: u64
  st_total :: u64
  st_buf :: bytes

record 's Engine =
  e_nodeID :: node
  e_shard :: int
  e_epoch :: u64
  e_leaseEpoch :: u64
  e_leaseExpiry :: int
  e_lastSeq :: u64
  e_committed :: u64
  e_lastApplied :: u64
  e_lastSeqEpoch :: u64
  e_lastAppliedEpoch :: u64
  e_peerAcked :: "(node, u64) gomap"
  e_backlog :: ring
  e_released :: "bytes list"
  e_commitLevel :: CommitLevel
  e_sink :: "(u64 \<times> u64) list"
  e_effISR :: "node list"
  e_effISREpoch :: u64
  e_learners :: "node list"
  e_abandonedLearners :: "(node, u64) gomap"
  e_learnerTeardown :: "node list"
  e_peerFailures :: "(node, int) gomap"
  e_inflightRing :: "inflight option list"
  e_inflightHead :: nat
  e_inflightN :: nat
  e_baseSeq :: u64
  e_snapStage :: "snapshotStage option"
  e_poisoned :: bool
  e_peerQ :: "(node, peerSender) gomap"
  e_closed :: bool
  e_wire :: "(node \<times> ReplicateMsg list) list"
  e_done :: "(u64 \<times> u64 \<times> pbError option) list"
  e_fsm :: 's

section \<open>The pending set of a record\<close>

definition pendingCount :: "inflight \<Rightarrow> nat" where
  "pendingCount r = (case if_overflow r of Some ov \<Rightarrow> length ov | None \<Rightarrow> if_npending r)"

fun find_index :: "'a \<Rightarrow> 'a list \<Rightarrow> nat option" where
  "find_index x [] = None"
| "find_index x (y # ys) = (if y = x then Some 0 else map_option Suc (find_index x ys))"

definition removePending :: "node \<Rightarrow> inflight \<Rightarrow> inflight" where
  "removePending peer r = (case if_overflow r of
     Some ov \<Rightarrow> (case find_index peer ov of
         Some i \<Rightarrow> r\<lparr>if_overflow := Some (butlast (ov[i := ov ! (length ov - 1)]))\<rparr>
       | None \<Rightarrow> r)
   | None \<Rightarrow> (case find_index peer (take (if_npending r) (if_peers r)) of
         Some i \<Rightarrow> (let n = if_npending r - 1
                   in r\<lparr>if_npending := n,
                        if_peers := (if_peers r)[i := if_peers r ! n, n := ''''] \<rparr>)
       | None \<Rightarrow> r))"

definition pendingPeers :: "inflight \<Rightarrow> node list" where
  "pendingPeers r = (case if_overflow r of Some ov \<Rightarrow> ov | None \<Rightarrow> take (if_npending r) (if_peers r))"

definition newInflight :: "u64 \<Rightarrow> u64 \<Rightarrow> node list \<Rightarrow> inflight" where
  "newInflight epoch seq peers =
     (let r = \<lparr>if_epoch = epoch, if_seq = seq, if_npending = 0,
               if_peers = replicate maxInlinePeers '''', if_overflow = None,
               if_resolved = False, if_err = None\<rparr>
      in if length peers \<le> maxInlinePeers
         then r\<lparr>if_npending := length peers, if_peers := peers @ drop (length peers) (if_peers r)\<rparr>
         else r\<lparr>if_overflow := Some peers\<rparr>)"

section \<open>The in-flight queue\<close>

definition growInflightRingLocked :: "'s Engine \<Rightarrow> 's Engine" where
  "growInflightRingLocked e = (let oldCap = length (e_inflightRing e)
     in e\<lparr>e_inflightRing :=
            map (\<lambda>i. e_inflightRing e ! ((e_inflightHead e + i) mod oldCap)) [0..<e_inflightN e] @
            replicate (oldCap * 2 - e_inflightN e) None,
          e_inflightHead := 0\<rparr>)"

text \<open>Registration; \<open>None\<close> is the panic on a sequence number that is not dense.\<close>

definition registerInflightLocked ::
  "u64 \<Rightarrow> u64 \<Rightarrow> node list \<Rightarrow> 's Engine \<Rightarrow> 's Engine option" where
  "registerInflightLocked epoch seq peers e =
     (let rec = newInflight epoch seq peers;
          e1 = (if e_inflightRing e = []
                then e\<lparr>e_inflightRing := replicate pipelineWindow None, e_inflightHead := 0\<rparr> else e);
          e2 = (if e_inflightN e1 = 0 then Some (e1\<lparr>e_baseSeq := seq\<rparr>)
                else if seq \<noteq> e_baseSeq e1 + of_nat (e_inflightN e1) then None
                else if e_inflightN e1 = length (e_inflightRing e1)
                then Some (growInflightRingLocked e1) else Some e1)
      in case e2 of None \<Rightarrow> None | Some e2 \<Rightarrow>
        let idx = (e_inflightHead e2 + e_inflightN e2) mod length (e_inflightRing e2);
            e3 = e2\<lparr>e_inflightRing := (e_inflightRing e2)[idx := Some rec],
                    e_inflightN := e_inflightN e2 + 1\<rparr>
        in Some (if seq > e_lastSeq e3 then e3\<lparr>e_lastSeq := seq, e_lastSeqEpoch := epoch\<rparr> else e3))"

text \<open>The slot of the record in flight for \<open>seq\<close>.\<close>

definition inflightIndexLocked :: "u64 \<Rightarrow> 's Engine \<Rightarrow> nat option" where
  "inflightIndexLocked seq e =
     (if e_inflightN e = 0 \<or> seq < e_baseSeq e then None
      else let offset = seq - e_baseSeq e
           in if offset \<ge> of_nat (e_inflightN e) then None
              else Some ((e_inflightHead e + unat offset) mod length (e_inflightRing e)))"

definition inflightAtLocked :: "u64 \<Rightarrow> 's Engine \<Rightarrow> inflight option" where
  "inflightAtLocked seq e = (case inflightIndexLocked seq e of None \<Rightarrow> None
     | Some i \<Rightarrow> e_inflightRing e ! i)"

definition popInflightHeadLocked :: "'s Engine \<Rightarrow> 's Engine" where
  "popInflightHeadLocked e = e\<lparr>e_inflightRing := (e_inflightRing e)[e_inflightHead e := None],
     e_inflightHead := (e_inflightHead e + 1) mod length (e_inflightRing e),
     e_inflightN := e_inflightN e - 1, e_baseSeq := e_baseSeq e + 1\<rparr>"

text \<open>A record is updated in place, in its slot of the ring.\<close>

definition updSlot :: "nat \<Rightarrow> (inflight \<Rightarrow> inflight) \<Rightarrow> 's Engine \<Rightarrow> 's Engine" where
  "updSlot i f e = e\<lparr>e_inflightRing := (e_inflightRing e)[i := map_option f (e_inflightRing e ! i)]\<rparr>"

definition resolveLocked :: "nat \<Rightarrow> pbError option \<Rightarrow> 's Engine \<Rightarrow> 's Engine" where
  "resolveLocked i err e = (case e_inflightRing e ! i of None \<Rightarrow> e | Some rec \<Rightarrow>
     if if_resolved rec then e
     else (updSlot i (\<lambda>r. r\<lparr>if_resolved := True, if_err := err\<rparr>) e)
            \<lparr>e_done := e_done e @ [(if_epoch rec, if_seq rec, err)]\<rparr>)"

definition markCommittedLocked :: "u64 \<Rightarrow> 's Engine \<Rightarrow> 's Engine" where
  "markCommittedLocked seq e = (if seq > e_committed e then e\<lparr>e_committed := seq\<rparr> else e)"

lemma sweep_measure [simp]:
  "e_inflightN (resolveLocked i err e) = e_inflightN e"
  "e_inflightN (markCommittedLocked s e) = e_inflightN e"
  "e_inflightN (popInflightHeadLocked e) = e_inflightN e - 1"
  by (simp_all add: resolveLocked_def updSlot_def markCommittedLocked_def popInflightHeadLocked_def
      split: option.splits)

function sweepLocked :: "int \<Rightarrow> 's Engine \<Rightarrow> 's Engine" where
  "sweepLocked now e =
     (if e_inflightN e = 0 then e
      else case e_inflightRing e ! e_inflightHead e of None \<Rightarrow> e | Some head \<Rightarrow>
        if if_resolved head then sweepLocked now (popInflightHeadLocked e)
        else if pendingCount head = 0 \<or> e_commitLevel e = CommitPrimary then
          sweepLocked now (popInflightHeadLocked
            (if e_leaseEpoch e = if_epoch head \<and> e_epoch e = if_epoch head \<and> now < e_leaseExpiry e
             then resolveLocked (e_inflightHead e) None (markCommittedLocked (if_seq head) e)
             else resolveLocked (e_inflightHead e) (Some ErrLeaseExpired) e))
        else e)"
  by pat_completeness auto
termination by (relation "measure (\<lambda>(_, e). e_inflightN e)") auto

declare sweepLocked.simps [simp del]

definition ackInflightLocked :: "int \<Rightarrow> node \<Rightarrow> AckMsg \<Rightarrow> 's Engine \<Rightarrow> 's Engine" where
  "ackInflightLocked now peer ack e = sweepLocked now
     (case inflightIndexLocked (a_Seq ack) e of None \<Rightarrow> e | Some i \<Rightarrow>
        (case e_inflightRing e ! i of None \<Rightarrow> e | Some rec \<Rightarrow>
           if a_OK ack \<and> a_Epoch ack = if_epoch rec \<and> a_Seq ack = if_seq rec
           then updSlot i (removePending peer) e else e))"

definition flushEpochLocked :: "int \<Rightarrow> u64 \<Rightarrow> 's Engine \<Rightarrow> 's Engine" where
  "flushEpochLocked now minEpoch e = sweepLocked now
     (foldl (\<lambda>e i. let idx = (e_inflightHead e + i) mod length (e_inflightRing e)
         in case e_inflightRing e ! idx of None \<Rightarrow> e | Some rec \<Rightarrow>
              if if_epoch rec < minEpoch then resolveLocked idx (Some ErrLeaseExpired) e else e)
       e [0..<e_inflightN e])"

definition windowFullLocked :: "'s Engine \<Rightarrow> bool" where
  "windowFullLocked e = (e_lastSeq e - e_committed e \<ge> of_nat pipelineWindow)"

section \<open>ISR shrink\<close>

definition clearEffISRLocked :: "'s Engine \<Rightarrow> 's Engine" where
  "clearEffISRLocked e = e\<lparr>e_effISR := [], e_effISREpoch := 0\<rparr>"

definition intersectPeers :: "node list \<Rightarrow> node list \<Rightarrow> node list" where
  "intersectPeers peers keep = (if keep = [] then [] else filter (\<lambda>p. p \<in> set keep) peers)"

text \<open>A dropped sender drains its parked frames without submitting them: they are discarded.\<close>

definition dropPeerLocked :: "node \<Rightarrow> 's Engine \<Rightarrow> 's Engine" where
  "dropPeerLocked peer e = e\<lparr>e_peerQ := AList.delete peer (e_peerQ e)\<rparr>"

definition ShrinkISR :: "int \<Rightarrow> u64 \<Rightarrow> node list \<Rightarrow> 's Engine \<Rightarrow> 's Engine" where
  "ShrinkISR now epoch newISR e =
     (if epoch \<noteq> e_epoch e \<or> e_leaseEpoch e \<noteq> epoch then e
      else let e1 = e\<lparr>e_effISR := newISR, e_effISREpoch := epoch\<rparr>;
               e2 = foldl (\<lambda>e i. let idx = (e_inflightHead e + i) mod length (e_inflightRing e)
                      in case e_inflightRing e ! idx of None \<Rightarrow> e | Some rec \<Rightarrow>
                           if if_epoch rec \<noteq> epoch then e
                           else updSlot idx (\<lambda>r. foldl (\<lambda>r p. removePending p r) r
                                  (filter (\<lambda>p. p \<notin> set newISR) (pendingPeers rec))) e)
                    e1 [0..<e_inflightN e1];
               e3 = foldl (\<lambda>e p. dropPeerLocked p e) e2
                      (filter (\<lambda>p. p \<notin> set newISR) (map fst (e_peerQ e2)))
           in sweepLocked now e3)"

definition notePeerFailureLocked :: "node \<Rightarrow> 's Engine \<Rightarrow> 's Engine" where
  "notePeerFailureLocked peer e =
     e\<lparr>e_peerFailures := AList.update peer (gget 0 (e_peerFailures e) peer + 1) (e_peerFailures e)\<rparr>"

definition notePeerSuccessLocked :: "node \<Rightarrow> 's Engine \<Rightarrow> 's Engine" where
  "notePeerSuccessLocked peer e = (if gget 0 (e_peerFailures e) peer \<noteq> 0
     then e\<lparr>e_peerFailures := AList.update peer 0 (e_peerFailures e)\<rparr> else e)"

definition StalledPeers :: "int \<Rightarrow> 's Engine \<Rightarrow> node list" where
  "StalledPeers minFailures e = (let m = (if minFailures < 1 then 1 else minFailures)
     in map fst (filter (\<lambda>(_, n). n \<ge> m) (e_peerFailures e)))"

end
