(* ===== verification/PipelineProofs.thy ===== *)
theory PipelineProofs
  imports Pipeline "HOL-Library.Multiset"
begin

text \<open>
  The in-flight pipeline against its abstract specification: the ring of slots is a queue of
  records in sequence order (\<open>fifo\<close>), a record's pending set is a multiset of peers, and the
  commit sweep is a list traversal (\<open>sweep_spec\<close>) whose every commit is in order, head-first
  and behind the lease.
\<close>

named_theorems pipe_simps "effect of the pipeline operations on the abstract queue"

section \<open>Pending sets\<close>

definition rec_wf :: "inflight \<Rightarrow> bool" where
  "rec_wf r = (length (if_peers r) = maxInlinePeers \<and> if_npending r \<le> maxInlinePeers)"

lemma find_index_Some: "find_index x xs = Some i \<Longrightarrow> i < length xs \<and> xs ! i = x"
  by (induction xs arbitrary: i) (auto split: if_splits)

lemma find_index_None: "find_index x xs = None \<longleftrightarrow> x \<notin> set xs"
  by (induction xs) auto

lemma mset_swap_remove:
  assumes "i < length xs"
  shows "mset (butlast (xs[i := xs ! (length xs - 1)])) = mset xs - {#xs ! i#}"
proof -
  let ?n = "length xs - 1" and ?ys = "xs[i := xs ! (length xs - 1)]"
  have "xs \<noteq> []" using assms by auto
  then have "?ys \<noteq> []" by simp
  then have "mset ?ys = add_mset (last ?ys) (mset (butlast ?ys))"
    by (metis append_butlast_last_id mset_append mset.simps union_mset_add_mset_right add.right_neutral)
  moreover have "last ?ys = xs ! ?n"
    using \<open>xs \<noteq> []\<close> assms by (simp add: last_conv_nth nth_list_update)
  moreover have "mset ?ys = add_mset (xs ! ?n) (mset xs - {#xs ! i#})"
    using assms by (simp add: mset_update)
  ultimately show ?thesis by simp
qed

lemma pendingPeers_removePending:
  assumes "rec_wf r"
  shows "mset (pendingPeers (removePending p r)) = mset (pendingPeers r) - {#p#}"
    "rec_wf (removePending p r)"
proof -
  show "rec_wf (removePending p r)" using assms
    by (auto simp: removePending_def rec_wf_def Let_def split: option.splits)
  show "mset (pendingPeers (removePending p r)) = mset (pendingPeers r) - {#p#}"
  proof (cases "if_overflow r")
    case (Some ov)
    then show ?thesis
      by (auto simp: removePending_def pendingPeers_def find_index_None mset_swap_remove [unfolded One_nat_def]
          diff_single_trivial dest!: find_index_Some split: option.split)
  next
    case None
    let ?n = "if_npending r" and ?ps = "if_peers r"
    have le: "?n \<le> length ?ps" using assms by (simp add: rec_wf_def)
    show ?thesis
    proof (cases "find_index p (take ?n ?ps)")
      case None2: None
      then have "p \<notin># mset (take ?n ?ps)" by (simp add: find_index_None)
      then show ?thesis using None None2
        by (simp add: removePending_def pendingPeers_def diff_single_trivial)
    next
      case (Some i)
      then have i: "i < ?n" "?ps ! i = p" using find_index_Some [OF Some] le by auto
      have "take (?n - 1) (?ps[i := ?ps ! (?n - 1), ?n - 1 := '''']) =
          butlast ((take ?n ?ps)[i := take ?n ?ps ! (length (take ?n ?ps) - 1)])"
        using i le by (intro nth_equalityI) (auto simp: nth_butlast nth_list_update)
      then show ?thesis using None Some i le mset_swap_remove [of i "take ?n ?ps"]
        by (simp add: removePending_def pendingPeers_def Let_def)
    qed
  qed
qed

lemma pendingCount_eq: "rec_wf r \<Longrightarrow> pendingCount r = length (pendingPeers r)"
  by (simp add: pendingCount_def pendingPeers_def rec_wf_def split: option.splits)

lemma pendingPeers_newInflight [simp]:
  "pendingPeers (newInflight e s ps) = ps" "rec_wf (newInflight e s ps)"
  "if_epoch (newInflight e s ps) = e" "if_seq (newInflight e s ps) = s"
  "\<not> if_resolved (newInflight e s ps)"
  by (auto simp: newInflight_def pendingPeers_def rec_wf_def Let_def)

lemma removePending_fields [simp]:
  "if_epoch (removePending p r) = if_epoch r" "if_seq (removePending p r) = if_seq r"
  "if_resolved (removePending p r) = if_resolved r" "if_err (removePending p r) = if_err r"
  by (auto simp: removePending_def Let_def split: option.splits)

lemma set_pending_removePending:
  "rec_wf r \<Longrightarrow> distinct (pendingPeers r) \<Longrightarrow>
   set (pendingPeers (removePending p r)) = set (pendingPeers r) - {p} \<and>
   distinct (pendingPeers (removePending p r))"
proof -
  assume wf: "rec_wf r" and d: "distinct (pendingPeers r)"
  have m: "mset (pendingPeers (removePending p r)) = mset (remove1 p (pendingPeers r))"
    using pendingPeers_removePending(1) [OF wf] by simp
  show ?thesis using d mset_eq_setD [OF m] mset_eq_imp_distinct_iff [OF m]
    by (simp add: set_remove1_eq)
qed

section \<open>The queue\<close>

definition slot :: "'s Engine \<Rightarrow> nat \<Rightarrow> nat" where
  "slot e i = (e_inflightHead e + i) mod length (e_inflightRing e)"

definition fifo :: "'s Engine \<Rightarrow> inflight list" where
  "fifo e = map (\<lambda>i. the (e_inflightRing e ! slot e i)) [0..<e_inflightN e]"

definition pipe_wf :: "'s Engine \<Rightarrow> bool" where
  "pipe_wf e = (e_inflightN e \<le> length (e_inflightRing e) \<and> e_inflightN e < 2 ^ 64 \<and>
     (e_inflightRing e \<noteq> [] \<longrightarrow> e_inflightHead e < length (e_inflightRing e)) \<and>
     (\<forall>i<e_inflightN e. e_inflightRing e ! slot e i \<noteq> None) \<and>
     list_all rec_wf (fifo e) \<and>
     (\<forall>i<e_inflightN e. if_seq (fifo e ! i) = e_baseSeq e + of_nat i))"

lemma length_fifo [simp]: "length (fifo e) = e_inflightN e"
  by (simp add: fifo_def)

lemma fifo_nth: "i < e_inflightN e \<Longrightarrow> fifo e ! i = the (e_inflightRing e ! slot e i)"
  by (simp add: fifo_def)

lemma fifo_slot: "pipe_wf e \<Longrightarrow> i < e_inflightN e \<Longrightarrow> e_inflightRing e ! slot e i = Some (fifo e ! i)"
  by (auto simp: pipe_wf_def fifo_nth)

lemma slot_lt: "pipe_wf e \<Longrightarrow> i < e_inflightN e \<Longrightarrow> slot e i < length (e_inflightRing e)"
  by (auto simp: pipe_wf_def slot_def intro!: mod_less_divisor)

lemma slot_inj:
  "pipe_wf e \<Longrightarrow> i < e_inflightN e \<Longrightarrow> j < e_inflightN e \<Longrightarrow> slot e i = slot e j \<longleftrightarrow> i = j"
  using mod_add_eq_iff [of i "length (e_inflightRing e)" j "e_inflightHead e"]
  by (auto simp: pipe_wf_def slot_def)

lemma head_slot: "pipe_wf e \<Longrightarrow> 0 < e_inflightN e \<Longrightarrow> slot e 0 = e_inflightHead e"
  by (auto simp: pipe_wf_def slot_def)

lemma fifo_pop:
  assumes wf: "pipe_wf e" and n: "0 < e_inflightN e"
  shows "fifo (popInflightHeadLocked e) = tl (fifo e)" "pipe_wf (popInflightHeadLocked e)"
proof -
  let ?e = "popInflightHeadLocked e" and ?l = "length (e_inflightRing e)"
  have l: "0 < ?l" using wf n by (auto simp: pipe_wf_def)
  have sl: "slot ?e i = slot e (Suc i)" for i
    by (simp add: slot_def popInflightHeadLocked_def mod_add_left_eq)
  have rd: "e_inflightRing ?e ! slot e (Suc i) = e_inflightRing e ! slot e (Suc i)"
    if "Suc i < e_inflightN e" for i
  proof -
    have "slot e (Suc i) \<noteq> e_inflightHead e"
      using slot_inj [OF wf that n] head_slot [OF wf n] by simp
    then show ?thesis by (simp add: popInflightHeadLocked_def)
  qed
  show f: "fifo ?e = tl (fifo e)"
    using rd by (intro nth_equalityI) (auto simp: fifo_nth nth_tl sl)
  have h: "e_inflightHead ?e < ?l" "e_baseSeq ?e = e_baseSeq e + 1" "length (e_inflightRing ?e) = ?l"
    using l by (simp_all add: popInflightHeadLocked_def)
  have "list_all rec_wf (tl (fifo e))" using wf by (cases "fifo e") (auto simp: pipe_wf_def)
  moreover have "\<forall>i<e_inflightN ?e. if_seq (tl (fifo e) ! i) = e_baseSeq ?e + of_nat i"
    using wf h by (auto simp: pipe_wf_def nth_tl ac_simps)
  moreover have "\<forall>i<e_inflightN ?e. e_inflightRing ?e ! slot ?e i \<noteq> None"
    using wf rd by (auto simp: pipe_wf_def sl)
  moreover have "e_inflightN ?e \<le> ?l" "e_inflightN ?e < 2 ^ 64" using wf by (auto simp: pipe_wf_def)
  ultimately show "pipe_wf ?e" using wf h unfolding pipe_wf_def [of ?e] f
    by (simp add: pipe_wf_def)
qed

lemma fifo_updSlot:
  assumes wf: "pipe_wf e" and i: "i < e_inflightN e"
    and f: "if_seq (f (fifo e ! i)) = if_seq (fifo e ! i)" "rec_wf (f (fifo e ! i))"
  shows "fifo (updSlot (slot e i) f e) = (fifo e)[i := f (fifo e ! i)]"
    "pipe_wf (updSlot (slot e i) f e)"
proof -
  let ?e = "updSlot (slot e i) f e"
  have sl: "slot ?e j = slot e j" for j by (simp add: slot_def updSlot_def)
  have rd: "e_inflightRing ?e ! slot e j =
      (if j = i then Some (f (fifo e ! i)) else e_inflightRing e ! slot e j)"
    if "j < e_inflightN e" for j
    using that slot_inj [OF wf i that] slot_lt [OF wf i] fifo_slot [OF wf i]
    by (auto simp: updSlot_def nth_list_update)
  have n: "e_inflightN ?e = e_inflightN e" by (simp add: updSlot_def)
  show fi: "fifo ?e = (fifo e)[i := f (fifo e ! i)]"
    using rd i by (intro nth_equalityI) (auto simp: fifo_nth sl n nth_list_update)
  show "pipe_wf ?e" using wf rd f i unfolding pipe_wf_def [of ?e] fi sl n
    by (auto simp: pipe_wf_def list_all_length nth_list_update) (auto simp: updSlot_def)
qed

text \<open>Resolving a record of the queue: the first resolution sticks, a later one changes nothing.\<close>

definition resolve_rec :: "pbError option \<Rightarrow> inflight \<Rightarrow> inflight" where
  "resolve_rec err r = (if if_resolved r then r else r\<lparr>if_resolved := True, if_err := err\<rparr>)"

definition resolve_done :: "pbError option \<Rightarrow> inflight \<Rightarrow> (u64 \<times> u64 \<times> pbError option) list" where
  "resolve_done err r = (if if_resolved r then [] else [(if_epoch r, if_seq r, err)])"

lemma resolve_rec_fields [simp]:
  "if_epoch (resolve_rec err r) = if_epoch r" "if_seq (resolve_rec err r) = if_seq r"
  "if_resolved (resolve_rec err r)" "pendingPeers (resolve_rec err r) = pendingPeers r"
  "rec_wf (resolve_rec err r) = rec_wf r"
  by (auto simp: resolve_rec_def pendingPeers_def rec_wf_def split: option.splits)

lemma fifo_resolve:
  assumes wf: "pipe_wf e" and i: "i < e_inflightN e"
  shows "fifo (resolveLocked (slot e i) err e) = (fifo e)[i := resolve_rec err (fifo e ! i)]"
    "pipe_wf (resolveLocked (slot e i) err e)"
    "e_done (resolveLocked (slot e i) err e) = e_done e @ resolve_done err (fifo e ! i)"
proof -
  let ?f = "\<lambda>r. r\<lparr>if_resolved := True, if_err := err\<rparr>"
  have r: "rec_wf (fifo e ! i)" using wf i by (auto simp: pipe_wf_def list_all_length)
  note u = fifo_updSlot [OF wf i, of ?f]
  have cong: "fifo (e'\<lparr>e_done := d\<rparr>) = fifo e'" "pipe_wf (e'\<lparr>e_done := d\<rparr>) = pipe_wf e'" for e' :: "'a Engine" and d
    by (simp_all add: fifo_def pipe_wf_def slot_def)
  have eq: "resolveLocked (slot e i) err e = (if if_resolved (fifo e ! i) then e
      else (updSlot (slot e i) ?f e)\<lparr>e_done := e_done e @ [(if_epoch (fifo e ! i), if_seq (fifo e ! i), err)]\<rparr>)"
    using fifo_slot [OF wf i] by (simp add: resolveLocked_def)
  show "fifo (resolveLocked (slot e i) err e) = (fifo e)[i := resolve_rec err (fifo e ! i)]"
    "pipe_wf (resolveLocked (slot e i) err e)"
    "e_done (resolveLocked (slot e i) err e) = e_done e @ resolve_done err (fifo e ! i)"
    using u r wf unfolding eq
    by (auto simp: cong resolve_rec_def resolve_done_def rec_wf_def)
qed

section \<open>What the pipeline leaves alone\<close>

text \<open>The pipeline operations change the queue, the commit watermark and the outcomes, nothing else.\<close>

definition pipe_frame :: "'s Engine \<Rightarrow> 's Engine \<Rightarrow> bool" where
  "pipe_frame e e' = (\<exists>r h n b c d. e' = e\<lparr>e_inflightRing := r, e_inflightHead := h,
     e_inflightN := n, e_baseSeq := b, e_committed := c, e_done := d\<rparr>)"

lemma pipe_frame_refl [simp]: "pipe_frame e e"
  unfolding pipe_frame_def
  by (intro exI [of _ "e_inflightRing e"] exI [of _ "e_inflightHead e"] exI [of _ "e_inflightN e"]
      exI [of _ "e_baseSeq e"] exI [of _ "e_committed e"] exI [of _ "e_done e"]) simp

lemma pipe_frame_trans: "pipe_frame a b \<Longrightarrow> pipe_frame b c \<Longrightarrow> pipe_frame a c"
  unfolding pipe_frame_def by clarsimp blast

lemma pipe_frame_pop: "pipe_frame e (popInflightHeadLocked e)"
  unfolding pipe_frame_def popInflightHeadLocked_def
  by (intro exI [of _ "e_committed e"] exI [of _ "e_done e"] exI) simp

lemma pipe_frame_updSlot: "pipe_frame e (updSlot i f e)"
  unfolding pipe_frame_def updSlot_def
  by (intro exI [of _ "e_inflightHead e"] exI [of _ "e_inflightN e"] exI [of _ "e_baseSeq e"]
      exI [of _ "e_committed e"] exI [of _ "e_done e"] exI) simp

lemma pipe_frame_resolve: "pipe_frame e (resolveLocked i err e)"
proof (cases "e_inflightRing e ! i")
  case (Some r)
  then show ?thesis unfolding pipe_frame_def resolveLocked_def updSlot_def
    by (cases "if_resolved r")
       (simp_all, intro exI [of _ "e_inflightRing e"] exI [of _ "e_inflightHead e"]
         exI [of _ "e_inflightN e"] exI [of _ "e_baseSeq e"] exI [of _ "e_committed e"]
         exI [of _ "e_done e"], simp, intro exI [of _ "e_inflightHead e"]
         exI [of _ "e_inflightN e"] exI [of _ "e_baseSeq e"] exI [of _ "e_committed e"] exI, simp)
qed (simp add: resolveLocked_def)

lemma pipe_frame_mark: "pipe_frame e (markCommittedLocked s e)"
  unfolding pipe_frame_def markCommittedLocked_def
  by (intro exI [of _ "e_inflightRing e"] exI [of _ "e_inflightHead e"] exI [of _ "e_inflightN e"]
      exI [of _ "e_baseSeq e"] exI [of _ "e_done e"] exI [of _ "max s (e_committed e)"])
     (auto simp: max_def)

text \<open>One iteration of the sweep on a head that is resolved or committable.\<close>

definition sweep_iter :: "int \<Rightarrow> inflight \<Rightarrow> 's Engine \<Rightarrow> 's Engine" where
  "sweep_iter now head e = popInflightHeadLocked
     (if if_resolved head then e
      else if e_leaseEpoch e = if_epoch head \<and> e_epoch e = if_epoch head \<and> now < e_leaseExpiry e
      then resolveLocked (e_inflightHead e) None (markCommittedLocked (if_seq head) e)
      else resolveLocked (e_inflightHead e) (Some ErrLeaseExpired) e)"

definition sweepable :: "inflight \<Rightarrow> 's Engine \<Rightarrow> bool" where
  "sweepable head e = (if_resolved head \<or> pendingCount head = 0 \<or> e_commitLevel e = CommitPrimary)"

lemma sweep_unfold:
  "e_inflightN e = 0 \<Longrightarrow> sweepLocked now e = e"
  "e_inflightN e \<noteq> 0 \<Longrightarrow> e_inflightRing e ! e_inflightHead e = None \<Longrightarrow> sweepLocked now e = e"
  "e_inflightN e \<noteq> 0 \<Longrightarrow> e_inflightRing e ! e_inflightHead e = Some r \<Longrightarrow>
     sweepLocked now e = (if sweepable r e then sweepLocked now (sweep_iter now r e) else e)"
  by (simp_all add: sweepLocked.simps [of now e] sweepable_def sweep_iter_def)

lemma sweep_iter_N: "e_inflightN (sweep_iter now r e) = e_inflightN e - 1"
  by (simp add: sweep_iter_def)

text \<open>Induction over the iterations of the sweep.\<close>

definition sweep_stops :: "'s Engine \<Rightarrow> bool" where
  "sweep_stops e = (e_inflightN e = 0 \<or>
     (case e_inflightRing e ! e_inflightHead e of None \<Rightarrow> True | Some r \<Rightarrow> \<not> sweepable r e))"

lemma sweep_stop: "sweep_stops e \<Longrightarrow> sweepLocked now e = e"
  by (cases "e_inflightN e = 0"; cases "e_inflightRing e ! e_inflightHead e")
     (auto simp: sweep_stops_def sweep_unfold)

lemma sweep_induct [case_names stop iter]:
  assumes "\<And>e. sweep_stops e \<Longrightarrow> P e"
    and "\<And>e r. e_inflightN e \<noteq> 0 \<Longrightarrow> e_inflightRing e ! e_inflightHead e = Some r \<Longrightarrow> sweepable r e \<Longrightarrow>
      P (sweep_iter now r e) \<Longrightarrow> P e"
  shows "P e"
proof (induction "e_inflightN e" arbitrary: e rule: less_induct)
  case less
  show ?case
  proof (cases "sweep_stops e")
    case False
    then obtain r where r: "e_inflightN e \<noteq> 0" "e_inflightRing e ! e_inflightHead e = Some r"
      "sweepable r e" by (auto simp: sweep_stops_def split: option.splits)
    then have "e_inflightN (sweep_iter now r e) < e_inflightN e" by (simp add: sweep_iter_N)
    then show ?thesis using assms(2) [OF r] less by metis
  qed (rule assms(1))
qed

lemma pipe_frame_iter: "pipe_frame e (sweep_iter now r e)"
  unfolding sweep_iter_def
  by (rule pipe_frame_trans [OF _ pipe_frame_pop])
     (simp add: pipe_frame_resolve pipe_frame_trans [OF pipe_frame_mark pipe_frame_resolve])

lemma pipe_frame_sweep: "pipe_frame e (sweepLocked now e)"
proof (induction e rule: sweep_induct [where now = now])
  case (iter e r)
  then show ?case using pipe_frame_trans [OF pipe_frame_iter] by (simp add: sweep_unfold(3))
qed (simp add: sweep_stop)

lemma pipe_frame_foldl: "(\<And>e i. pipe_frame e (f e i)) \<Longrightarrow> pipe_frame e (foldl f e is)"
  by (induction "is" arbitrary: e) (auto intro: pipe_frame_trans)

lemma pipe_frame_flush: "pipe_frame e (flushEpochLocked now m e)"
  unfolding flushEpochLocked_def
  by (rule pipe_frame_trans [OF pipe_frame_foldl pipe_frame_sweep])
     (auto simp: Let_def pipe_frame_resolve split: option.split)

lemma pipe_frame_ack: "pipe_frame e (ackInflightLocked now p a e)"
  unfolding ackInflightLocked_def
  by (rule pipe_frame_trans [OF _ pipe_frame_sweep])
     (auto simp: pipe_frame_updSlot split: option.split)

lemma pipe_frameD:
  assumes "pipe_frame e e'"
  shows "e_nodeID e' = e_nodeID e" "e_shard e' = e_shard e" "e_epoch e' = e_epoch e"
    "e_leaseEpoch e' = e_leaseEpoch e" "e_leaseExpiry e' = e_leaseExpiry e"
    "e_lastSeq e' = e_lastSeq e" "e_lastApplied e' = e_lastApplied e"
    "e_lastSeqEpoch e' = e_lastSeqEpoch e" "e_lastAppliedEpoch e' = e_lastAppliedEpoch e"
    "e_peerAcked e' = e_peerAcked e" "e_backlog e' = e_backlog e" "e_commitLevel e' = e_commitLevel e"
    "e_sink e' = e_sink e" "e_effISR e' = e_effISR e" "e_effISREpoch e' = e_effISREpoch e"
    "e_learners e' = e_learners e" "e_learnerTeardown e' = e_learnerTeardown e"
    "e_abandonedLearners e' = e_abandonedLearners e" "e_peerFailures e' = e_peerFailures e"
    "e_snapStage e' = e_snapStage e" "e_poisoned e' = e_poisoned e" "e_peerQ e' = e_peerQ e"
    "e_closed e' = e_closed e" "e_wire e' = e_wire e" "e_fsm e' = e_fsm e" "e_released e' = e_released e"
  using assms by (auto simp: pipe_frame_def)

lemmas sweep_frame [simp] = pipe_frameD [OF pipe_frame_sweep]
lemmas flush_frame [simp] = pipe_frameD [OF pipe_frame_flush]
lemmas ack_frame [simp] = pipe_frameD [OF pipe_frame_ack]
lemmas resolve_frame [simp] = pipe_frameD [OF pipe_frame_resolve]
lemmas mark_frame [simp] = pipe_frameD [OF pipe_frame_mark]
lemmas pop_frame [simp] = pipe_frameD [OF pipe_frame_pop]
lemmas updSlot_frame [simp] = pipe_frameD [OF pipe_frame_updSlot]

end
