(* ===== verification/CommitSpec.thy ===== *)
theory CommitSpec
  imports PipelineProofs
begin

text \<open>
  The pipeline operations as operations on the abstract queue of records: the commit sweep
  implements \<open>sweep_spec\<close>, the epoch flush and ISR shrink are maps over the queue followed by a
  sweep, an acknowledgement edits one record, registration appends one.
\<close>

section \<open>The sweep\<close>

definition lease_ok :: "int \<Rightarrow> 's Engine \<Rightarrow> u64 \<Rightarrow> bool" where
  "lease_ok now e ep = (e_leaseEpoch e = ep \<and> e_epoch e = ep \<and> now < e_leaseExpiry e)"

fun sweep_spec :: "(u64 \<Rightarrow> bool) \<Rightarrow> CommitLevel \<Rightarrow> inflight list \<Rightarrow> u64 \<Rightarrow>
    inflight list \<times> u64 \<times> (u64 \<times> u64 \<times> pbError option) list" where
  "sweep_spec L lv [] c = ([], c, [])"
| "sweep_spec L lv (r # rs) c =
     (if if_resolved r then sweep_spec L lv rs c
      else if pendingPeers r = [] \<or> lv = CommitPrimary then
        (if L (if_epoch r)
         then (case sweep_spec L lv rs (max c (if_seq r)) of
                 (q, c', d) \<Rightarrow> (q, c', (if_epoch r, if_seq r, None) # d))
         else (case sweep_spec L lv rs c of
                 (q, c', d) \<Rightarrow> (q, c', (if_epoch r, if_seq r, Some ErrLeaseExpired) # d)))
      else (r # rs, c, []))"

lemma pipe_cong [simp]:
  "fifo (e\<lparr>e_committed := c\<rparr>) = fifo e" "pipe_wf (e\<lparr>e_committed := c\<rparr>) = pipe_wf e"
  "fifo (e\<lparr>e_effISR := p, e_effISREpoch := q\<rparr>) = fifo e"
  "pipe_wf (e\<lparr>e_effISR := p, e_effISREpoch := q\<rparr>) = pipe_wf e"
  "fifo (e\<lparr>e_peerQ := pq\<rparr>) = fifo e" "pipe_wf (e\<lparr>e_peerQ := pq\<rparr>) = pipe_wf e"
  by (simp_all add: fifo_def pipe_wf_def slot_def)

lemma mark_queue [simp]:
  "fifo (markCommittedLocked s e) = fifo e" "pipe_wf (markCommittedLocked s e) = pipe_wf e"
  "e_done (markCommittedLocked s e) = e_done e"
  "e_committed (markCommittedLocked s e) = max (e_committed e) s"
  "e_inflightHead (markCommittedLocked s e) = e_inflightHead e"
  "slot (markCommittedLocked s e) i = slot e i"
  by (auto simp: markCommittedLocked_def max_def slot_def)

lemma resolve_committed [simp]:
  "e_committed (resolveLocked i err e) = e_committed e"
  "e_inflightHead (resolveLocked i err e) = e_inflightHead e"
  "length (e_inflightRing (resolveLocked i err e)) = length (e_inflightRing e)"
  "slot (resolveLocked i err e) j = slot e j"
  by (auto simp: resolveLocked_def updSlot_def slot_def split: option.splits)

lemma pop_done [simp]:
  "e_done (popInflightHeadLocked e) = e_done e" "e_committed (popInflightHeadLocked e) = e_committed e"
  by (simp_all add: popInflightHeadLocked_def)

lemma sweep_iter_queue:
  assumes wf: "pipe_wf e" and n: "0 < e_inflightN e"
  defines "r \<equiv> hd (fifo e)"
  shows "fifo (sweep_iter now r e) = tl (fifo e)" "pipe_wf (sweep_iter now r e)"
    "e_committed (sweep_iter now r e) =
       (if \<not> if_resolved r \<and> lease_ok now e (if_epoch r) then max (e_committed e) (if_seq r)
        else e_committed e)"
    "e_done (sweep_iter now r e) = e_done e @ (if if_resolved r then []
       else [(if_epoch r, if_seq r, if lease_ok now e (if_epoch r) then None else Some ErrLeaseExpired)])"
proof -
  have r: "r = fifo e ! 0" using n by (simp add: r_def hd_conv_nth flip: length_greater_0_conv)
  have h: "e_inflightHead e = slot e 0" using head_slot [OF wf n] by simp
  let ?m = "markCommittedLocked (if_seq r) e"
  have wfm: "pipe_wf ?m" "0 < e_inflightN ?m" "e_inflightHead e = slot ?m 0" using wf n h by simp_all
  note A = fifo_resolve [OF wfm(1,2), of None, folded wfm(3)]
    and B = fifo_resolve [OF wf n, of "Some ErrLeaseExpired", folded h]
  have ne: "fifo e \<noteq> []" using n by (metis length_fifo less_numeral_extra(3) list.size(3))
  have tl: "tl ((fifo e)[0 := x]) = tl (fifo e)" for x using ne by (cases "fifo e") auto
  have P: "fifo (popInflightHeadLocked e') = tl (fifo e') \<and> pipe_wf (popInflightHeadLocked e')"
    if "pipe_wf e'" "e_inflightN e' = e_inflightN e" for e' :: "'a Engine"
    using fifo_pop [of e'] that n by simp
  show "fifo (sweep_iter now r e) = tl (fifo e)" "pipe_wf (sweep_iter now r e)"
    using P wf A B tl by (auto simp: sweep_iter_def)
  show "e_committed (sweep_iter now r e) =
       (if \<not> if_resolved r \<and> lease_ok now e (if_epoch r) then max (e_committed e) (if_seq r)
        else e_committed e)"
    by (auto simp: sweep_iter_def lease_ok_def)
  show "e_done (sweep_iter now r e) = e_done e @ (if if_resolved r then []
       else [(if_epoch r, if_seq r, if lease_ok now e (if_epoch r) then None else Some ErrLeaseExpired)])"
    using A(3) B(3) r by (auto simp: sweep_iter_def lease_ok_def resolve_done_def)
qed

lemma sweep_iter_lease [simp]: "lease_ok now (sweep_iter now r e) = lease_ok now e"
  using pipe_frameD [OF pipe_frame_iter [of e now r]] by (auto simp: lease_ok_def fun_eq_iff)

lemma head_fifo:
  "pipe_wf e \<Longrightarrow> e_inflightN e \<noteq> 0 \<Longrightarrow> e_inflightRing e ! e_inflightHead e = Some r \<Longrightarrow>
   r = hd (fifo e) \<and> fifo e = hd (fifo e) # tl (fifo e) \<and> rec_wf r"
  using fifo_slot [of e 0] head_slot [of e]
  by (cases "fifo e") (auto simp: pipe_wf_def simp flip: length_fifo)

lemma sweep_refines:
  assumes "pipe_wf e"
  shows "pipe_wf (sweepLocked now e) \<and>
    (case sweep_spec (lease_ok now e) (e_commitLevel e) (fifo e) (e_committed e) of (q, c, d) \<Rightarrow>
       fifo (sweepLocked now e) = q \<and> e_committed (sweepLocked now e) = c \<and>
       e_done (sweepLocked now e) = e_done e @ d)"
  using assms
proof (induction e rule: sweep_induct [where now = now])
  case (stop e)
  then show ?case
  proof (cases "e_inflightN e = 0")
    case True
    then show ?thesis using stop by (simp add: sweep_stop fifo_def)
  next
    case False
    then obtain r where r: "e_inflightRing e ! e_inflightHead e = Some r" "\<not> sweepable r e"
      using stop fifo_slot [of e 0] head_slot [of e] by (auto simp: sweep_stops_def)
    then show ?thesis using stop head_fifo [OF stop(2) False r(1)]
      by (cases "fifo e") (auto simp: sweep_stop sweepable_def pendingCount_eq)
  qed
next
  case (iter e r)
  note h = head_fifo [OF iter(5,1,2)]
  have n: "0 < e_inflightN e" using iter(1) by simp
  note I = sweep_iter_queue [OF iter(5) n, of now] and
    lv = pipe_frameD(12) [OF pipe_frame_iter [of e now r]]
  let ?s = "sweep_iter now r e"
  obtain rs where rs: "fifo e = r # rs" using h by metis
  obtain q c d where sp: "sweep_spec (lease_ok now e) (e_commitLevel e) rs (e_committed ?s) = (q, c, d)"
    by (metis prod_cases3)
  have r: "hd (fifo e) = r" using h by simp
  have IH: "pipe_wf (sweepLocked now ?s)" "fifo (sweepLocked now ?s) = q"
    "e_committed (sweepLocked now ?s) = c" "e_done (sweepLocked now ?s) = e_done ?s @ d"
    using iter(4) I(1,2) rs sp lv unfolding r by auto
  have eq: "sweepLocked now e = sweepLocked now ?s" using iter by (simp add: sweep_unfold(3))
  have p: "if_resolved r \<or> pendingPeers r = [] \<or> e_commitLevel e = CommitPrimary"
    using iter(3) h by (auto simp: sweepable_def pendingCount_eq)
  show ?case unfolding eq rs using IH(1) I(3,4) sp p unfolding r
    by (cases "if_resolved r"; cases "lease_ok now e (if_epoch r)") (simp_all add: IH)
qed

section \<open>Loops over the queue\<close>

lemma queue_loop:
  fixes f :: "'s Engine \<Rightarrow> nat \<Rightarrow> 's Engine"
  assumes body: "\<And>e i. pipe_wf e \<Longrightarrow> i < e_inflightN e \<Longrightarrow>
      fifo (f e i) = (fifo e)[i := g (fifo e ! i)] \<and> pipe_wf (f e i) \<and>
      e_done (f e i) = e_done e @ h (fifo e ! i) \<and> e_inflightN (f e i) = e_inflightN e \<and>
      e_committed (f e i) = e_committed e"
    and wf: "pipe_wf e" and k: "k \<le> e_inflightN e"
  shows "fifo (foldl f e [0..<k]) = map g (take k (fifo e)) @ drop k (fifo e) \<and>
    pipe_wf (foldl f e [0..<k]) \<and>
    e_done (foldl f e [0..<k]) = e_done e @ concat (map h (take k (fifo e))) \<and>
    e_inflightN (foldl f e [0..<k]) = e_inflightN e \<and>
    e_committed (foldl f e [0..<k]) = e_committed e"
  using k
proof (induction k)
  case 0
  then show ?case using wf by simp
next
  case (Suc k)
  let ?e = "foldl f e [0..<k]"
  have IH: "fifo ?e = map g (take k (fifo e)) @ drop k (fifo e)" "pipe_wf ?e"
    "e_done ?e = e_done e @ concat (map h (take k (fifo e)))" "e_inflightN ?e = e_inflightN e"
    "e_committed ?e = e_committed e"
    using Suc by auto
  have k: "k < length (fifo e)" using Suc.prems by simp
  then have nth: "fifo ?e ! k = fifo e ! k" unfolding IH(1) by (simp add: nth_append)
  have b: "fifo (f ?e k) = (fifo ?e)[k := g (fifo ?e ! k)]" "pipe_wf (f ?e k)"
    "e_done (f ?e k) = e_done ?e @ h (fifo ?e ! k)" "e_inflightN (f ?e k) = e_inflightN ?e"
    "e_committed (f ?e k) = e_committed ?e"
    using body [OF IH(2), of k] k IH(4) by auto
  have "drop k (fifo e) = fifo e ! k # drop (Suc k) (fifo e)" using k by (simp add: Cons_nth_drop_Suc)
  then have "(fifo ?e)[k := g (fifo e ! k)] = map g (take (Suc k) (fifo e)) @ drop (Suc k) (fifo e)"
    using k unfolding IH(1) by (simp add: list_update_append take_Suc_conv_app_nth)
  then show ?case using b k IH unfolding nth by (simp add: take_Suc_conv_app_nth)
qed

definition flush_rec :: "u64 \<Rightarrow> inflight \<Rightarrow> inflight" where
  "flush_rec m r = (if if_epoch r < m then resolve_rec (Some ErrLeaseExpired) r else r)"

definition flush_done :: "u64 \<Rightarrow> inflight \<Rightarrow> (u64 \<times> u64 \<times> pbError option) list" where
  "flush_done m r = (if if_epoch r < m then resolve_done (Some ErrLeaseExpired) r else [])"

lemma flush_refines:
  assumes "pipe_wf e"
  shows "pipe_wf (flushEpochLocked now m e) \<and>
    (case sweep_spec (lease_ok now e) (e_commitLevel e) (map (flush_rec m) (fifo e)) (e_committed e) of
       (q, c, d) \<Rightarrow> fifo (flushEpochLocked now m e) = q \<and> e_committed (flushEpochLocked now m e) = c \<and>
         e_done (flushEpochLocked now m e) = e_done e @ concat (map (flush_done m) (fifo e)) @ d)"
proof -
  let ?f = "\<lambda>e i. let idx = (e_inflightHead e + i) mod length (e_inflightRing e)
         in case e_inflightRing e ! idx of None \<Rightarrow> e | Some rec \<Rightarrow>
              if if_epoch rec < m then resolveLocked idx (Some ErrLeaseExpired) e else e"
  let ?e = "foldl ?f e [0..<e_inflightN e]"
  have body: "fifo (?f e i) = (fifo e)[i := flush_rec m (fifo e ! i)] \<and> pipe_wf (?f e i) \<and>
      e_done (?f e i) = e_done e @ flush_done m (fifo e ! i) \<and> e_inflightN (?f e i) = e_inflightN e \<and>
      e_committed (?f e i) = e_committed e" if "pipe_wf e" "i < e_inflightN e" for e :: "'a Engine" and i
    using fifo_slot [OF that] fifo_resolve [OF that, of "Some ErrLeaseExpired"] that
    by (auto simp: Let_def slot_def [symmetric] flush_rec_def flush_done_def)
  have L: "fifo ?e = map (flush_rec m) (fifo e)" "pipe_wf ?e"
    "e_done ?e = e_done e @ concat (map (flush_done m) (fifo e))" "e_committed ?e = e_committed e"
    using queue_loop [OF body assms order_refl] by simp_all
  have fr: "pipe_frame e ?e"
    by (rule pipe_frame_foldl) (auto simp: Let_def pipe_frame_resolve split: option.split)
  have "lease_ok now ?e = lease_ok now e" "e_commitLevel ?e = e_commitLevel e"
    using pipe_frameD [OF fr] by (auto simp: lease_ok_def fun_eq_iff)
  then show ?thesis using sweep_refines [OF L(2), of now] L
    unfolding flushEpochLocked_def by (auto split: prod.splits)
qed

section \<open>Registration and acknowledgement\<close>

lemma fifo_push:
  assumes wf: "pipe_wf e" and room: "e_inflightN e < length (e_inflightRing e)"
    and n: "Suc (e_inflightN e) < 2 ^ 64" and r: "rec_wf r" "if_seq r = e_baseSeq e + of_nat (e_inflightN e)"
  defines "e' \<equiv> e\<lparr>e_inflightRing := (e_inflightRing e)[slot e (e_inflightN e) := Some r],
      e_inflightN := e_inflightN e + 1\<rparr>"
  shows "fifo e' = fifo e @ [r]" "pipe_wf e'"
proof -
  have sl: "slot e' i = slot e i" for i by (simp add: slot_def e'_def)
  have lt: "slot e (e_inflightN e) < length (e_inflightRing e)"
    using room by (auto simp: slot_def intro!: mod_less_divisor)
  have rd: "e_inflightRing e' ! slot e i = (if i = e_inflightN e then Some r else e_inflightRing e ! slot e i)"
    if "i \<le> e_inflightN e" for i
    using that room lt mod_add_eq_iff [of i "length (e_inflightRing e)" "e_inflightN e" "e_inflightHead e"]
    by (auto simp: e'_def nth_list_update slot_def)
  have N: "e_inflightN e' = Suc (e_inflightN e)" by (simp add: e'_def)
  show f: "fifo e' = fifo e @ [r]"
    using rd by (intro nth_equalityI) (auto simp: fifo_nth sl N nth_append less_Suc_eq)
  have "\<forall>i<e_inflightN e'. e_inflightRing e' ! slot e' i \<noteq> None"
    using wf rd by (auto simp: pipe_wf_def sl N less_Suc_eq)
  moreover have "\<forall>i<e_inflightN e'. if_seq (fifo e' ! i) = e_baseSeq e' + of_nat i"
    using wf r unfolding f by (auto simp: pipe_wf_def N nth_append less_Suc_eq) (simp_all add: e'_def)
  ultimately show "pipe_wf e'" using wf r n room unfolding pipe_wf_def [of e'] f
    by (simp add: pipe_wf_def N) (simp add: e'_def)
qed

lemma fifo_grow:
  assumes wf: "pipe_wf e" and n: "e_inflightN e \<noteq> 0"
  shows "fifo (growInflightRingLocked e) = fifo e" "pipe_wf (growInflightRingLocked e)"
    "e_inflightN e < length (e_inflightRing (growInflightRingLocked e))"
proof -
  let ?e = "growInflightRingLocked e" and ?l = "length (e_inflightRing e)"
  have l: "e_inflightN e \<le> ?l" "0 < ?l" using wf n by (auto simp: pipe_wf_def)
  have len: "length (e_inflightRing ?e) = ?l * 2" using l by (simp add: growInflightRingLocked_def Let_def)
  have sl: "slot ?e i = i" if "i < e_inflightN e" for i
    using that l len by (simp add: slot_def) (simp add: growInflightRingLocked_def Let_def)
  have rd: "e_inflightRing ?e ! i = e_inflightRing e ! slot e i" if "i < e_inflightN e" for i
    using that by (simp add: growInflightRingLocked_def Let_def nth_append slot_def)
  have N: "e_inflightN ?e = e_inflightN e" "e_baseSeq ?e = e_baseSeq e" "e_inflightHead ?e = 0"
    by (simp_all add: growInflightRingLocked_def Let_def)
  show f: "fifo ?e = fifo e" using rd sl by (intro nth_equalityI) (auto simp: fifo_nth N)
  show "pipe_wf ?e" using wf l rd sl unfolding pipe_wf_def [of ?e] f N len
    by (auto simp: pipe_wf_def)
  show "e_inflightN e < length (e_inflightRing ?e)" unfolding len using l by linarith
qed

lemma pipe_wf_empty:
  "e_inflightN e = 0 \<Longrightarrow> fifo e = [] \<and>
   (pipe_wf e \<longleftrightarrow> (e_inflightRing e \<noteq> [] \<longrightarrow> e_inflightHead e < length (e_inflightRing e)))"
  by (simp add: pipe_wf_def fifo_def)

text \<open>The state the registration prepares before it stores the record.\<close>

definition register_prep :: "u64 \<Rightarrow> 's Engine \<Rightarrow> 's Engine" where
  "register_prep seq e =
     (let e1 = (if e_inflightRing e = []
                then e\<lparr>e_inflightRing := replicate pipelineWindow None, e_inflightHead := 0\<rparr> else e)
      in if e_inflightN e1 = 0 then e1\<lparr>e_baseSeq := seq\<rparr>
         else if e_inflightN e1 = length (e_inflightRing e1) then growInflightRingLocked e1 else e1)"

lemma register_prep:
  assumes wf: "pipe_wf e"
  shows "pipe_wf (register_prep seq e)" "fifo (register_prep seq e) = fifo e"
    "e_inflightN (register_prep seq e) < length (e_inflightRing (register_prep seq e))"
    "e_inflightN (register_prep seq e) = e_inflightN e"
    "e_baseSeq (register_prep seq e) = (if e_inflightN e = 0 then seq else e_baseSeq e)"
    "\<exists>r h b. register_prep seq e = e\<lparr>e_inflightRing := r, e_inflightHead := h, e_baseSeq := b\<rparr>"
proof -
  let ?e = "register_prep seq e"
  show "e_inflightN ?e = e_inflightN e"
    "e_baseSeq ?e = (if e_inflightN e = 0 then seq else e_baseSeq e)"
    by (simp_all add: register_prep_def Let_def growInflightRingLocked_def)
  have "pipe_wf ?e \<and> fifo ?e = fifo e \<and> e_inflightN ?e < length (e_inflightRing ?e)"
  proof (cases "e_inflightN e = 0")
    case True
    then show ?thesis using wf
      by (auto simp: register_prep_def Let_def pipe_wf_empty pipelineWindow_def)
  next
    case False
    then have "e_inflightRing e \<noteq> []" using wf by (auto simp: pipe_wf_def)
    then show ?thesis using False wf fifo_grow [OF wf False]
      by (auto simp: register_prep_def Let_def pipe_wf_def)
        (auto simp: growInflightRingLocked_def Let_def)
  qed
  then show "pipe_wf ?e" "fifo ?e = fifo e" "e_inflightN ?e < length (e_inflightRing ?e)" by auto
  show "\<exists>r h b. ?e = e\<lparr>e_inflightRing := r, e_inflightHead := h, e_baseSeq := b\<rparr>"
    by (intro exI [of _ "e_inflightRing ?e"] exI [of _ "e_inflightHead ?e"] exI [of _ "e_baseSeq ?e"])
       (simp add: register_prep_def Let_def growInflightRingLocked_def)
qed

definition register_seq :: "u64 \<Rightarrow> u64 \<Rightarrow> 's Engine \<Rightarrow> 's Engine" where
  "register_seq epoch seq e =
     (if seq > e_lastSeq e then e\<lparr>e_lastSeq := seq, e_lastSeqEpoch := epoch\<rparr> else e)"

lemma register_eq:
  assumes "pipe_wf e" "e_inflightN e \<noteq> 0 \<Longrightarrow> seq = e_baseSeq e + of_nat (e_inflightN e)"
  shows "registerInflightLocked epoch seq peers e =
    (let e2 = register_prep seq e
     in Some (register_seq epoch seq
          (e2\<lparr>e_inflightRing := (e_inflightRing e2)[slot e2 (e_inflightN e2) := Some (newInflight epoch seq peers)],
              e_inflightN := e_inflightN e2 + 1\<rparr>)))"
  using assms
  by (auto simp: registerInflightLocked_def register_prep_def register_seq_def Let_def slot_def pipe_wf_def)

lemma fifo_register:
  assumes wf: "pipe_wf e" and n: "Suc (e_inflightN e) < 2 ^ 64"
    and seq: "e_inflightN e \<noteq> 0 \<Longrightarrow> seq = e_baseSeq e + of_nat (e_inflightN e)"
  obtains e' where "registerInflightLocked epoch seq peers e = Some e'"
    "fifo e' = fifo e @ [newInflight epoch seq peers]" "pipe_wf e'"
    "e_baseSeq e' = (if e_inflightN e = 0 then seq else e_baseSeq e)"
    "e_inflightN e' = Suc (e_inflightN e)"
    "\<exists>r h n b. e' = register_seq epoch seq
        (e\<lparr>e_inflightRing := r, e_inflightHead := h, e_inflightN := n, e_baseSeq := b\<rparr>)"
proof -
  let ?p = "register_prep seq e" and ?r = "newInflight epoch seq peers"
  let ?q = "?p\<lparr>e_inflightRing := (e_inflightRing ?p)[slot ?p (e_inflightN ?p) := Some ?r],
      e_inflightN := e_inflightN ?p + 1\<rparr>"
  let ?e = "register_seq epoch seq ?q"
  note P = register_prep [OF wf, of seq]
  have "if_seq ?r = e_baseSeq ?p + of_nat (e_inflightN ?p)" using P(4,5) seq by simp
  note Q = fifo_push [OF P(1,3) _ pendingPeers_newInflight(2) this]
  have c: "fifo (register_seq epoch seq x) = fifo x" "pipe_wf (register_seq epoch seq x) = pipe_wf x"
    "e_baseSeq (register_seq epoch seq x) = e_baseSeq x" "e_inflightN (register_seq epoch seq x) = e_inflightN x"
    for x :: "'a Engine"
    by (simp_all add: register_seq_def fifo_def pipe_wf_def slot_def)
  obtain r h b where rp: "?p = e\<lparr>e_inflightRing := r, e_inflightHead := h, e_baseSeq := b\<rparr>" using P(6) by blast
  have fr: "\<exists>r h n b. ?e = register_seq epoch seq
      (e\<lparr>e_inflightRing := r, e_inflightHead := h, e_inflightN := n, e_baseSeq := b\<rparr>)"
    by (intro exI [of _ "e_inflightRing ?q"] exI [of _ h] exI [of _ "e_inflightN ?q"] exI [of _ b]
        arg_cong [of _ _ "register_seq epoch seq"]) (simp add: rp)
  show thesis
  proof (rule that)
    show "registerInflightLocked epoch seq peers e = Some ?e"
      using register_eq [OF wf seq] by (simp add: Let_def)
    show "fifo ?e = fifo e @ [?r]" "pipe_wf ?e" using Q n P(2,4) by (simp_all add: c)
    show "e_baseSeq ?e = (if e_inflightN e = 0 then seq else e_baseSeq e)"
      "e_inflightN ?e = Suc (e_inflightN e)" using P(4,5) by (simp_all add: c)
  qed (rule fr)
qed

lemma inflightIndex_sound:
  assumes wf: "pipe_wf e" and ix: "inflightIndexLocked s e = Some k"
  obtains i where "i < e_inflightN e" "k = slot e i" "if_seq (fifo e ! i) = s" "i = unat (s - e_baseSeq e)"
proof -
  let ?i = "unat (s - e_baseSeq e)"
  from ix have "\<not> of_nat (e_inflightN e) \<le> s - e_baseSeq e" and k: "k = slot e ?i"
    by (auto simp: inflightIndexLocked_def Let_def slot_def split: if_splits)
  then have i: "?i < e_inflightN e" using wf by (simp add: word_le_nat_alt unat_of_nat pipe_wf_def)
  moreover have "if_seq (fifo e ! ?i) = s" using wf i by (simp add: pipe_wf_def)
  ultimately show thesis using that k by blast
qed

lemma inflightIndex_complete:
  assumes wf: "pipe_wf e" and i: "i < e_inflightN e" and nw: "unat (e_baseSeq e) + i < 2 ^ 64"
  shows "inflightIndexLocked (e_baseSeq e + of_nat i) e = Some (slot e i)"
proof -
  have n: "e_inflightN e < 2 ^ 64" using wf by (simp add: pipe_wf_def)
  then have u: "unat (of_nat i :: u64) = i" "unat (of_nat (e_inflightN e) :: u64) = e_inflightN e"
    using i by (simp_all add: unat_of_nat)
  then have "unat (e_baseSeq e + of_nat i) = unat (e_baseSeq e) + i"
    using nw by (simp add: unat_word_ariths)
  then have "\<not> e_baseSeq e + of_nat i < e_baseSeq e" by (simp add: word_less_nat_alt)
  then show ?thesis using i u by (simp add: inflightIndexLocked_def Let_def slot_def word_le_nat_alt)
qed

text \<open>The queue after one acknowledgement, before the sweep: at most the pending set of the one
  record it names exactly changes.\<close>

definition ack_pre :: "node \<Rightarrow> AckMsg \<Rightarrow> 's Engine \<Rightarrow> 's Engine" where
  "ack_pre peer ack e = (case inflightIndexLocked (a_Seq ack) e of None \<Rightarrow> e | Some i \<Rightarrow>
     (case e_inflightRing e ! i of None \<Rightarrow> e | Some rec \<Rightarrow>
        if a_OK ack \<and> a_Epoch ack = if_epoch rec \<and> a_Seq ack = if_seq rec
        then updSlot i (removePending peer) e else e))"

lemma ackInflightLocked_eq: "ackInflightLocked now peer ack e = sweepLocked now (ack_pre peer ack e)"
  by (simp add: ackInflightLocked_def ack_pre_def)

lemma updSlot_done [simp]:
  "e_done (updSlot i f e) = e_done e" "e_committed (updSlot i f e) = e_committed e"
  "e_inflightN (updSlot i f e) = e_inflightN e" "slot (updSlot i f e) j = slot e j"
  "e_baseSeq (updSlot i f e) = e_baseSeq e"
  by (simp_all add: updSlot_def slot_def)

lemma ack_pre_queue:
  assumes wf: "pipe_wf e"
  shows "pipe_wf (ack_pre peer ack e) \<and> e_done (ack_pre peer ack e) = e_done e \<and>
    e_committed (ack_pre peer ack e) = e_committed e \<and> pipe_frame e (ack_pre peer ack e) \<and>
    (fifo (ack_pre peer ack e) = fifo e \<or>
     (\<exists>i<e_inflightN e. a_OK ack \<and> a_Epoch ack = if_epoch (fifo e ! i) \<and> a_Seq ack = if_seq (fifo e ! i) \<and>
        fifo (ack_pre peer ack e) = (fifo e)[i := removePending peer (fifo e ! i)]))"
proof (cases "inflightIndexLocked (a_Seq ack) e")
  case None
  then show ?thesis using wf by (simp add: ack_pre_def)
next
  case (Some k)
  obtain i where i: "i < e_inflightN e" "k = slot e i" "if_seq (fifo e ! i) = a_Seq ack"
    using inflightIndex_sound [OF wf Some] by blast
  have r: "rec_wf (removePending peer (fifo e ! i))"
    using wf i by (auto simp: pipe_wf_def list_all_length intro: pendingPeers_removePending)
  note U = fifo_updSlot [OF wf i(1), of "removePending peer", OF _ r]
  show ?thesis using Some i fifo_slot [OF wf i(1)] U wf pipe_frame_updSlot
    by (auto simp: ack_pre_def)
qed

section \<open>ISR shrink\<close>

definition narrow_rec :: "u64 \<Rightarrow> node list \<Rightarrow> inflight \<Rightarrow> inflight" where
  "narrow_rec epoch newISR r = (if if_epoch r \<noteq> epoch then r
     else foldl (\<lambda>r p. removePending p r) r (filter (\<lambda>p. p \<notin> set newISR) (pendingPeers r)))"

lemma foldl_removePending:
  "rec_wf r \<Longrightarrow> rec_wf (foldl (\<lambda>r p. removePending p r) r ps) \<and>
   mset (pendingPeers (foldl (\<lambda>r p. removePending p r) r ps)) = mset (pendingPeers r) - mset ps \<and>
   if_epoch (foldl (\<lambda>r p. removePending p r) r ps) = if_epoch r \<and>
   if_seq (foldl (\<lambda>r p. removePending p r) r ps) = if_seq r \<and>
   if_resolved (foldl (\<lambda>r p. removePending p r) r ps) = if_resolved r"
  by (induction ps arbitrary: r) (simp_all add: pendingPeers_removePending)

lemma narrow_rec:
  assumes "rec_wf r"
  shows "rec_wf (narrow_rec ep I r)" "if_epoch (narrow_rec ep I r) = if_epoch r"
    "if_seq (narrow_rec ep I r) = if_seq r" "if_resolved (narrow_rec ep I r) = if_resolved r"
    "mset (pendingPeers (narrow_rec ep I r)) =
       (if if_epoch r = ep then filter_mset (\<lambda>p. p \<in> set I) (mset (pendingPeers r)) else mset (pendingPeers r))"
proof -
  let ?ps = "filter (\<lambda>p. p \<notin> set I) (pendingPeers r)"
  note F = foldl_removePending [OF assms, of ?ps]
  have "mset (pendingPeers r) - mset ?ps = filter_mset (\<lambda>p. p \<in> set I) (mset (pendingPeers r))"
    by (rule multiset_eqI) simp
  then show "rec_wf (narrow_rec ep I r)" "if_epoch (narrow_rec ep I r) = if_epoch r"
    "if_seq (narrow_rec ep I r) = if_seq r" "if_resolved (narrow_rec ep I r) = if_resolved r"
    "mset (pendingPeers (narrow_rec ep I r)) =
       (if if_epoch r = ep then filter_mset (\<lambda>p. p \<in> set I) (mset (pendingPeers r)) else mset (pendingPeers r))"
    using F assms by (auto simp: narrow_rec_def)
qed

lemma drop_fold [simp]:
  "foldl (\<lambda>e p. dropPeerLocked p e) e ps = e\<lparr>e_peerQ := foldl (\<lambda>q p. AList.delete p q) (e_peerQ e) ps\<rparr>"
  by (induction ps arbitrary: e) (simp_all add: dropPeerLocked_def)

lemma shrink_refines:
  assumes wf: "pipe_wf e" and ep: "epoch = e_epoch e" "e_leaseEpoch e = epoch"
  shows "pipe_wf (ShrinkISR now epoch I e) \<and>
    (case sweep_spec (lease_ok now e) (e_commitLevel e) (map (narrow_rec epoch I) (fifo e)) (e_committed e) of
       (q, c, d) \<Rightarrow> fifo (ShrinkISR now epoch I e) = q \<and> e_committed (ShrinkISR now epoch I e) = c \<and>
         e_done (ShrinkISR now epoch I e) = e_done e @ d)"
    "e_effISR (ShrinkISR now epoch I e) = I" "e_effISREpoch (ShrinkISR now epoch I e) = epoch"
    "pipe_frame (e\<lparr>e_effISR := I, e_effISREpoch := epoch,
       e_peerQ := e_peerQ (ShrinkISR now epoch I e)\<rparr>) (ShrinkISR now epoch I e)"
proof -
  let ?e1 = "e\<lparr>e_effISR := I, e_effISREpoch := epoch\<rparr>"
  let ?f = "\<lambda>e i. let idx = (e_inflightHead e + i) mod length (e_inflightRing e)
      in case e_inflightRing e ! idx of None \<Rightarrow> e | Some rec \<Rightarrow>
           if if_epoch rec \<noteq> epoch then e
           else updSlot idx (\<lambda>r. foldl (\<lambda>r p. removePending p r) r
                  (filter (\<lambda>p. p \<notin> set I) (pendingPeers rec))) e"
  let ?e2 = "foldl ?f ?e1 [0..<e_inflightN ?e1]"
  have body: "fifo (?f e i) = (fifo e)[i := narrow_rec epoch I (fifo e ! i)] \<and> pipe_wf (?f e i) \<and>
      e_done (?f e i) = e_done e @ [] \<and> e_inflightN (?f e i) = e_inflightN e \<and>
      e_committed (?f e i) = e_committed e" if w: "pipe_wf e" "i < e_inflightN e" for e :: "'a Engine" and i
  proof -
    have r: "rec_wf (fifo e ! i)" using w by (auto simp: pipe_wf_def list_all_length)
    note F = foldl_removePending [OF r, of "filter (\<lambda>p. p \<notin> set I) (pendingPeers (fifo e ! i))"]
    note U = fifo_updSlot [OF w, of "\<lambda>r. foldl (\<lambda>r p. removePending p r) r
        (filter (\<lambda>p. p \<notin> set I) (pendingPeers (fifo e ! i)))"]
    show ?thesis
    proof (cases "if_epoch (fifo e ! i) = epoch")
      case True
      then show ?thesis using fifo_slot [OF w] U F
        by (simp add: Let_def slot_def [symmetric] narrow_rec_def)
    qed (use fifo_slot [OF w] w in \<open>simp add: Let_def slot_def [symmetric] narrow_rec_def\<close>)
  qed
  have wf1: "pipe_wf ?e1" using wf by simp
  have L: "fifo ?e2 = map (narrow_rec epoch I) (fifo e)" "pipe_wf ?e2" "e_done ?e2 = e_done e"
    "e_committed ?e2 = e_committed e"
    using queue_loop [where f = ?f and h = "\<lambda>_. []", OF body wf1 order_refl] by simp_all
  have fr: "pipe_frame ?e1 ?e2"
    by (rule pipe_frame_foldl) (auto simp: Let_def pipe_frame_updSlot split: option.split)
  have c: "\<not> (epoch \<noteq> e_epoch e \<or> e_leaseEpoch e \<noteq> epoch)" using ep by simp
  define e2 where "e2 = ?e2"
  define e3 where "e3 = e2\<lparr>e_peerQ := foldl (\<lambda>q p. AList.delete p q) (e_peerQ e2)
      (filter (\<lambda>p. p \<notin> set I) (map fst (e_peerQ e2)))\<rparr>"
  have S: "ShrinkISR now epoch I e = sweepLocked now e3"
    unfolding ShrinkISR_def if_not_P [OF c] e3_def e2_def by (simp only: Let_def drop_fold)
  note L2 = L [folded e2_def] and fr2 = fr [folded e2_def]
  have w3: "pipe_wf e3" "fifo e3 = fifo e2" "e_done e3 = e_done e2" "e_committed e3 = e_committed e2"
    using L2 by (simp_all add: e3_def)
  have "lease_ok now e3 = lease_ok now e" "e_commitLevel e3 = e_commitLevel e"
    using pipe_frameD [OF fr2] by (simp_all add: e3_def lease_ok_def fun_eq_iff)
  then show "pipe_wf (ShrinkISR now epoch I e) \<and>
    (case sweep_spec (lease_ok now e) (e_commitLevel e) (map (narrow_rec epoch I) (fifo e)) (e_committed e) of
       (q, c, d) \<Rightarrow> fifo (ShrinkISR now epoch I e) = q \<and> e_committed (ShrinkISR now epoch I e) = c \<and>
         e_done (ShrinkISR now epoch I e) = e_done e @ d)"
    using sweep_refines [OF w3(1), of now] L2 w3 unfolding S by simp
  show "e_effISR (ShrinkISR now epoch I e) = I" "e_effISREpoch (ShrinkISR now epoch I e) = epoch"
    using pipe_frameD [OF fr2] unfolding S by (simp_all add: e3_def)
  have "pipe_frame (?e1\<lparr>e_peerQ := e_peerQ e3\<rparr>) e3"
  proof -
    obtain r h n b c d where "e2 = ?e1\<lparr>e_inflightRing := r, e_inflightHead := h, e_inflightN := n,
        e_baseSeq := b, e_committed := c, e_done := d\<rparr>" using fr2 unfolding pipe_frame_def by blast
    then show ?thesis unfolding pipe_frame_def e3_def
      by (intro exI [of _ r] exI [of _ h] exI [of _ n] exI [of _ b] exI [of _ c] exI [of _ d]) simp
  qed
  then show "pipe_frame (e\<lparr>e_effISR := I, e_effISREpoch := epoch,
       e_peerQ := e_peerQ (ShrinkISR now epoch I e)\<rparr>) (ShrinkISR now epoch I e)"
    unfolding S using pipe_frame_trans [OF _ pipe_frame_sweep] by simp
qed

end
