(* ===== verification/EngineCore.thy ===== *)
theory EngineCore
  imports CommitSpec
begin

text \<open>
  The replication engine's operations (\<^verbatim>\<open>shard/pbisr/engine.go\<close>) and the learner
  bookkeeping they call (\<^verbatim>\<open>pb_grow.go\<close>): epochs, leases and promotion, the primary write
  path, the per-peer senders, completions, and the backup receive path.

  The local state machine is the parameter \<open>ap\<close> (\<^verbatim>\<open>Applier\<close>): it returns the new state
  and the result, or an error, in which case the entry did not run. \<open>inl\<close> says whether the
  transport takes a frame inline (\<^verbatim>\<open>TryReplicate\<close>), \<open>grp\<close> whether it ships groups
  (\<^verbatim>\<open>GroupTransport\<close>). A transport completion is an acknowledgement or an error.
\<close>

type_synonym 's applier = "'s \<Rightarrow> bytes \<Rightarrow> pbError + 's \<times> bytes"

section \<open>Construction\<close>

text \<open>\<open>None\<close> is the panic on a ring smaller than the pipeline window.\<close>

definition NewWithRingCapacity :: "node \<Rightarrow> int \<Rightarrow> int \<Rightarrow> CommitLevel \<Rightarrow> bool \<Rightarrow> 's \<Rightarrow> 's Engine option" where
  "NewWithRingCapacity nodeID shard ringCapacity level installPending fsm =
     (if ringCapacity < int pipelineWindow then None
      else Some \<lparr>e_nodeID = nodeID, e_shard = shard, e_epoch = 0, e_leaseEpoch = 0, e_leaseExpiry = 0,
        e_lastSeq = 0, e_committed = 0, e_lastApplied = 0, e_lastSeqEpoch = 0, e_lastAppliedEpoch = 0,
        e_peerAcked = [], e_backlog = newRing ringCapacity, e_released = [], e_commitLevel = level,
        e_sink = [], e_effISR = [], e_effISREpoch = 0, e_learners = [], e_abandonedLearners = [],
        e_learnerTeardown = [], e_peerFailures = [], e_inflightRing = [], e_inflightHead = 0,
        e_inflightN = 0, e_baseSeq = 0, e_snapStage = None, e_poisoned = installPending,
        e_peerQ = [], e_closed = False, e_wire = [], e_done = [], e_fsm = fsm\<rparr>)"

definition New :: "node \<Rightarrow> int \<Rightarrow> CommitLevel \<Rightarrow> bool \<Rightarrow> 's \<Rightarrow> 's Engine option" where
  "New nodeID shard level installPending fsm =
     NewWithRingCapacity nodeID shard defaultRingCapacity level installPending fsm"

definition WithRestoredFrontier :: "u64 \<Rightarrow> u64 \<Rightarrow> 's Engine \<Rightarrow> 's Engine" where
  "WithRestoredFrontier seq epoch e =
     (if seq = 0 then e else e\<lparr>e_lastApplied := seq, e_lastAppliedEpoch := epoch\<rparr>)"

section \<open>Epochs, leases, promotion\<close>

definition clearLearnersLocked :: "'s Engine \<Rightarrow> 's Engine" where
  "clearLearnersLocked e = (if e_learners e = [] then e
     else e\<lparr>e_learnerTeardown := foldl (\<lambda>t p. List.insert p t) (e_learnerTeardown e) (e_learners e),
            e_learners := []\<rparr>)"

text \<open>What every observation of a higher epoch does, in \<^verbatim>\<open>AdoptEpoch\<close>, \<^verbatim>\<open>GrantLease\<close>,
  \<^verbatim>\<open>receiveLocked\<close> and \<^verbatim>\<open>ReceiveSnapshotChunk\<close> alike.\<close>

definition advanceEpoch :: "int \<Rightarrow> u64 \<Rightarrow> 's Engine \<Rightarrow> 's Engine" where
  "advanceEpoch now epoch e =
     flushEpochLocked now epoch (clearLearnersLocked (clearEffISRLocked (e\<lparr>e_epoch := epoch\<rparr>)))"

definition AdoptEpoch :: "int \<Rightarrow> u64 \<Rightarrow> 's Engine \<Rightarrow> 's Engine" where
  "AdoptEpoch now epoch e = (if epoch > e_epoch e then advanceEpoch now epoch e else e)"

definition GrantLease :: "int \<Rightarrow> u64 \<Rightarrow> int \<Rightarrow> 's Engine \<Rightarrow> 's Engine" where
  "GrantLease now epoch expiry e =
     (if epoch < e_leaseEpoch e then e
      else let e1 = e\<lparr>e_leaseEpoch := epoch, e_leaseExpiry := expiry\<rparr>
           in if epoch > e_epoch e1 then advanceEpoch now epoch e1 else e1)"

definition Promote :: "int \<Rightarrow> u64 \<Rightarrow> int \<Rightarrow> 's Engine \<Rightarrow> 's Engine" where
  "Promote now newEpoch expiry e =
     (if newEpoch \<le> e_epoch e then e
      else if e_poisoned e then e
      else let e1 = e\<lparr>e_lastSeq := e_lastApplied e, e_lastSeqEpoch := e_lastAppliedEpoch e\<rparr>;
               e2 = (if e_lastApplied e1 > e_committed e1 then e1\<lparr>e_committed := e_lastApplied e1\<rparr> else e1);
               e3 = e2\<lparr>e_epoch := newEpoch, e_leaseEpoch := newEpoch, e_leaseExpiry := expiry\<rparr>;
               (b, rel) = ring_reset (e_backlog e3);
               e4 = e3\<lparr>e_backlog := b, e_released := e_released e3 @ rel\<rparr>
           in flushEpochLocked now newEpoch (clearLearnersLocked (clearEffISRLocked e4)))"

definition appliedFrontierLocked :: "'s Engine \<Rightarrow> u64 \<times> u64" where
  "appliedFrontierLocked e = (if e_lastApplied e > e_lastSeq e
     then (e_lastApplied e, e_lastAppliedEpoch e) else (e_lastSeq e, e_lastSeqEpoch e))"

definition noteFrontierLocked :: "'s Engine \<Rightarrow> 's Engine" where
  "noteFrontierLocked e = e\<lparr>e_sink := e_sink e @ [appliedFrontierLocked e]\<rparr>"

definition LeaseValid :: "int \<Rightarrow> 's Engine \<Rightarrow> bool" where
  "LeaseValid now e = (if e_poisoned e then False
     else e_leaseEpoch e = e_epoch e \<and> now < e_leaseExpiry e)"

definition RunExclusive :: "(u64 \<Rightarrow> 's \<Rightarrow> 'a) \<Rightarrow> 's Engine \<Rightarrow> 'a" where
  "RunExclusive fn e = fn (fst (appliedFrontierLocked e)) (e_fsm e)"

section \<open>Senders\<close>

definition pbGroupBatchMax :: nat where "pbGroupBatchMax = 64"
definition pbGroupBytesMax :: nat where "pbGroupBytesMax = 1048576"

definition submitPeerLocked :: "(node \<Rightarrow> ReplicateMsg \<Rightarrow> bool) \<Rightarrow> node \<Rightarrow> ReplicateMsg \<Rightarrow> 's Engine \<Rightarrow> 's Engine" where
  "submitPeerLocked inl peer msg e =
     (if e_closed e then e
      else let ps = (case map_of (e_peerQ e) peer of None \<Rightarrow> \<lparr>ps_ch = [], ps_pending = 0\<rparr> | Some ps \<Rightarrow> ps);
               e1 = e\<lparr>e_peerQ := AList.update peer ps (e_peerQ e)\<rparr>
           in if ps_pending ps = 0 \<and> inl peer msg
              then e1\<lparr>e_wire := e_wire e1 @ [(peer, [msg])]\<rparr>
              else e1\<lparr>e_peerQ := AList.update peer
                       (ps\<lparr>ps_pending := ps_pending ps + 1, ps_ch := ps_ch ps @ [msg]\<rparr>) (e_peerQ e1)\<rparr>)"

text \<open>The greedy drain of \<^verbatim>\<open>runSender\<close>: \<open>n\<close> messages and \<open>b\<close> bytes are in the batch, whose
  last sequence number is \<open>s\<close>. The message that breaks the batch stays first in line.\<close>

fun drainMore :: "u64 \<Rightarrow> u64 \<Rightarrow> nat \<Rightarrow> nat \<Rightarrow> ReplicateMsg list \<Rightarrow> ReplicateMsg list \<times> ReplicateMsg list" where
  "drainMore ep s n b [] = ([], [])"
| "drainMore ep s n b (m # q) =
     (if n \<ge> pbGroupBatchMax then ([], m # q)
      else if m_Epoch m \<noteq> ep \<or> m_Seq m \<noteq> s + 1 \<or> b + length (m_Data m) > pbGroupBytesMax then ([], m # q)
      else case drainMore ep (m_Seq m) (n + 1) (b + length (m_Data m)) q of (bs, r) \<Rightarrow> (m # bs, r))"

fun drainBatch :: "bool \<Rightarrow> ReplicateMsg list \<Rightarrow> ReplicateMsg list \<times> ReplicateMsg list" where
  "drainBatch grp [] = ([], [])"
| "drainBatch grp (m # q) = (if grp
     then (case drainMore (m_Epoch m) (m_Seq m) 1 (length (m_Data m)) q of (bs, r) \<Rightarrow> (m # bs, r))
     else ([m], q))"

definition runSender :: "bool \<Rightarrow> node \<Rightarrow> 's Engine \<Rightarrow> 's Engine" where
  "runSender grp peer e = (case map_of (e_peerQ e) peer of None \<Rightarrow> e | Some ps \<Rightarrow>
     (case drainBatch grp (ps_ch ps) of (batch, rest) \<Rightarrow>
        if batch = [] then e
        else e\<lparr>e_wire := e_wire e @ [(peer, batch)],
               e_peerQ := AList.update peer
                 (ps\<lparr>ps_ch := rest, ps_pending := ps_pending ps - int (length batch)\<rparr>) (e_peerQ e)\<rparr>))"

lemma drainMore_append: "drainMore ep s n b q = (bs, r) \<Longrightarrow> q = bs @ r"
  by (induction ep s n b q arbitrary: bs rule: drainMore.induct) (auto split: if_splits prod.splits)

function drainAll :: "bool \<Rightarrow> ReplicateMsg list \<Rightarrow> ReplicateMsg list list" where
  "drainAll grp [] = []"
| "drainAll grp (m # q) = (case drainBatch grp (m # q) of (batch, rest) \<Rightarrow> batch # drainAll grp rest)"
  by pat_completeness auto
termination
  by (relation "measure (\<lambda>(_, q). length q)")
     (auto split: if_splits prod.splits dest!: drainMore_append)

definition Shutdown :: "bool \<Rightarrow> 's Engine \<Rightarrow> 's Engine" where
  "Shutdown grp e = (if e_closed e then e
     else e\<lparr>e_closed := True,
            e_wire := e_wire e @ concat (map (\<lambda>(p, ps). map (\<lambda>b. (p, b)) (drainAll grp (ps_ch ps))) (e_peerQ e)),
            e_peerQ := []\<rparr>)"

section \<open>Learners on the write path\<close>

definition learnerShipSetLocked :: "node list \<Rightarrow> 's Engine \<Rightarrow> node list" where
  "learnerShipSetLocked peers e = filter (\<lambda>l. l \<notin> set peers) (e_learners e)"

definition markLearnerAbandonedLocked :: "node \<Rightarrow> u64 \<Rightarrow> 's Engine \<Rightarrow> 's Engine" where
  "markLearnerAbandonedLocked peer seq e =
     e\<lparr>e_abandonedLearners := AList.update peer seq (e_abandonedLearners e)\<rparr>"

definition submitLearnerLocked :: "node \<Rightarrow> ReplicateMsg \<Rightarrow> 's Engine \<Rightarrow> 's Engine" where
  "submitLearnerLocked peer msg e =
     (if e_closed e then e
      else case map_of (e_peerQ e) peer of None \<Rightarrow> e | Some ps \<Rightarrow>
        if length (ps_ch ps) < pipelineWindow
        then e\<lparr>e_peerQ := AList.update peer
               (ps\<lparr>ps_pending := ps_pending ps + 1, ps_ch := ps_ch ps @ [msg]\<rparr>) (e_peerQ e)\<rparr>
        else let e1 = dropPeerLocked peer e;
                 e2 = e1\<lparr>e_learners := removeAll peer (e_learners e1)\<rparr>
             in markLearnerAbandonedLocked peer (m_Seq msg) e2)"

section \<open>The primary write path\<close>

fun distinctFrom :: "node list \<Rightarrow> node list \<Rightarrow> node list" where
  "distinctFrom seen [] = []"
| "distinctFrom seen (m # ms) = (if m \<in> set seen then distinctFrom seen ms
     else m # distinctFrom (m # seen) ms)"

definition distinctPeers :: "node \<Rightarrow> node list \<Rightarrow> node list" where
  "distinctPeers self isr = distinctFrom [self] isr"

datatype proposeResult = ProposeErr pbError | ProposeRetry | ProposeSeq u64 bytes | ProposePanic

text \<open>The fences of the sequencing stage, in order; \<open>None\<close> admits the write.\<close>

definition proposeFence :: "node \<Rightarrow> node list \<Rightarrow> int \<Rightarrow> int \<Rightarrow> 's Engine \<Rightarrow> proposeResult option" where
  "proposeFence primary isr minISR now e =
     (if e_poisoned e then Some (ProposeErr ErrSnapshotPending)
      else if primary \<noteq> e_nodeID e then Some (ProposeErr ErrNotPrimary)
      else if e_leaseEpoch e \<noteq> e_epoch e \<or> now \<ge> e_leaseExpiry e then Some (ProposeErr ErrLeaseExpired)
      else if int (length isr) < minISR then Some (ProposeErr ErrBelowMinISR)
      else if windowFullLocked e then Some ProposeRetry
      else None)"

text \<open>The frames the write is shipped with: to the required peers, then to the learners, then the
  commit of the local-durability level.\<close>

definition proposeShip :: "(node \<Rightarrow> ReplicateMsg \<Rightarrow> bool) \<Rightarrow> int \<Rightarrow> node list \<Rightarrow> node list \<Rightarrow>
    ReplicateMsg \<Rightarrow> 's Engine \<Rightarrow> 's Engine" where
  "proposeShip inl now peers learnerShip msg e =
     (if peers = [] \<and> learnerShip = [] then e
      else let e1 = foldl (\<lambda>e p. submitPeerLocked inl p msg e) e peers;
               e2 = foldl (\<lambda>e l. submitLearnerLocked l msg e) e1 learnerShip
           in if peers \<noteq> [] \<and> e_commitLevel e2 = CommitPrimary then sweepLocked now e2 else e2)"

definition proposeRegister :: "(node \<Rightarrow> ReplicateMsg \<Rightarrow> bool) \<Rightarrow> int \<Rightarrow> node list \<Rightarrow> u64 \<Rightarrow> bytes \<Rightarrow> bytes \<Rightarrow>
    's Engine \<Rightarrow> 's Engine \<times> proposeResult" where
  "proposeRegister inl now isr epoch data result e =
     (let peers0 = distinctPeers (e_nodeID e) isr;
          peers = (if e_effISREpoch e = epoch then intersectPeers peers0 (e_effISR e) else peers0);
          (prevSeq, prevEpoch) = appliedFrontierLocked e;
          seq = prevSeq + 1;
          (b, evicted) = ring_append (e_backlog e)
             \<lparr>re_epoch = epoch, re_seq = seq, re_prevEpoch = prevEpoch, re_data = data\<rparr>;
          e1 = e\<lparr>e_backlog := b,
                 e_released := e_released e @ (case evicted of None \<Rightarrow> [] | Some d \<Rightarrow> [d])\<rparr>
      in case registerInflightLocked epoch seq peers e1 of
           None \<Rightarrow> (e1, ProposePanic)
         | Some e2 \<Rightarrow>
             let e3 = noteFrontierLocked e2;
                 e4 = (if peers = [] then sweepLocked now e3 else e3);
                 e5 = proposeShip inl now peers (learnerShipSetLocked peers e4)
                        \<lparr>m_Epoch = epoch, m_Seq = seq, m_PrevSeq = prevSeq, m_PrevEpoch = prevEpoch,
                         m_Data = data\<rparr> e4
             in (e5, ProposeSeq seq result))"

definition proposeSequenced :: "'s applier \<Rightarrow> (node \<Rightarrow> ReplicateMsg \<Rightarrow> bool) \<Rightarrow> node \<Rightarrow> node list \<Rightarrow> int \<Rightarrow>
    int \<Rightarrow> int \<Rightarrow> bytes \<Rightarrow> 's Engine \<Rightarrow> 's Engine \<times> proposeResult" where
  "proposeSequenced ap inl primary isr minISR now now' data e =
     (case proposeFence primary isr minISR now e of Some r \<Rightarrow> (e, r) | None \<Rightarrow>
        (case ap (e_fsm e) data of
           Inl err \<Rightarrow> (e, ProposeErr err)
         | Inr (s, result) \<Rightarrow> proposeRegister inl now' isr (e_epoch e) data result (e\<lparr>e_fsm := s\<rparr>)))"

text \<open>A caller whose deadline passes resolves its own record, unless it is already resolved.\<close>

definition proposeTimeout :: "u64 \<Rightarrow> u64 \<Rightarrow> 's Engine \<Rightarrow> 's Engine" where
  "proposeTimeout epoch seq e = (case inflightIndexLocked seq e of None \<Rightarrow> e | Some i \<Rightarrow>
     (case e_inflightRing e ! i of None \<Rightarrow> e | Some rec \<Rightarrow>
        if if_epoch rec = epoch then resolveLocked i (Some ErrReplicationTimeout) e else e))"

section \<open>Completions\<close>

definition creditPeerAckedLocked :: "node \<Rightarrow> u64 \<Rightarrow> 's Engine \<Rightarrow> 's Engine" where
  "creditPeerAckedLocked peer seq e = (if seq > gget 0 (e_peerAcked e) peer
     then e\<lparr>e_peerAcked := AList.update peer seq (e_peerAcked e)\<rparr> else e)"

text \<open>A failed completion: the record this exact frame belongs to is resolved failed.\<close>

definition completeSendFail :: "int \<Rightarrow> node \<Rightarrow> ReplicateMsg \<Rightarrow> 's Engine \<Rightarrow> 's Engine" where
  "completeSendFail now peer msg e =
     (let e1 = notePeerFailureLocked peer e
      in case inflightIndexLocked (m_Seq msg) e1 of None \<Rightarrow> e1 | Some i \<Rightarrow>
           (case e_inflightRing e1 ! i of None \<Rightarrow> e1 | Some rec \<Rightarrow>
              if if_epoch rec = m_Epoch msg
              then sweepLocked now (resolveLocked i (Some ErrReplicationTimeout) e1) else e1))"

definition completeSend :: "int \<Rightarrow> node \<Rightarrow> ReplicateMsg \<Rightarrow> pbError + AckMsg \<Rightarrow> 's Engine \<Rightarrow> 's Engine" where
  "completeSend now peer msg res e =
     (case res of
        Inr ack \<Rightarrow> if a_OK ack \<and> a_Epoch ack = m_Epoch msg \<and> a_Seq ack = m_Seq msg
          then ackInflightLocked now peer ack
                 (creditPeerAckedLocked peer (a_Seq ack) (notePeerSuccessLocked peer e))
          else completeSendFail now peer msg e
      | Inl _ \<Rightarrow> completeSendFail now peer msg e)"

definition seqRange :: "u64 \<Rightarrow> u64 \<Rightarrow> u64 list" where
  "seqRange lo hi = (if lo \<le> hi then map (\<lambda>i. lo + of_nat i) [0..<unat (hi - lo) + 1] else [])"

definition groupCredit :: "u64 \<Rightarrow> u64 \<Rightarrow> u64 \<Rightarrow> pbError + AckMsg \<Rightarrow> u64" where
  "groupCredit epoch firstSeq lastSeq res =
     (case res of Inl _ \<Rightarrow> firstSeq - 1
      | Inr ack \<Rightarrow> if a_OK ack \<and> a_Epoch ack = epoch \<and> a_Seq ack = lastSeq then lastSeq
          else if \<not> a_OK ack \<and> a_Epoch ack = epoch \<and> a_Seq ack \<ge> firstSeq - 1 \<and> a_Seq ack < lastSeq
          then a_Seq ack else firstSeq - 1)"

definition completeGroupSend :: "int \<Rightarrow> node \<Rightarrow> u64 \<Rightarrow> u64 \<Rightarrow> u64 \<Rightarrow> pbError + AckMsg \<Rightarrow> 's Engine \<Rightarrow> 's Engine" where
  "completeGroupSend now peer epoch firstSeq lastSeq res e =
     (let creditThrough = groupCredit epoch firstSeq lastSeq res;
          e1 = (if creditThrough = lastSeq then notePeerSuccessLocked peer e else notePeerFailureLocked peer e);
          e2 = (if creditThrough \<ge> firstSeq then creditPeerAckedLocked peer creditThrough e1 else e1);
          e3 = foldl (\<lambda>e s. case inflightIndexLocked s e of None \<Rightarrow> e | Some i \<Rightarrow>
                 (case e_inflightRing e ! i of None \<Rightarrow> e | Some rec \<Rightarrow>
                    if if_epoch rec \<noteq> epoch then e
                    else if s \<le> creditThrough then updSlot i (removePending peer) e
                    else resolveLocked i (Some ErrReplicationTimeout) e))
               e2 (seqRange firstSeq lastSeq)
      in sweepLocked now e3)"

record PeerLag =
  pl_Peer :: node
  pl_Acked :: u64
  pl_Lag :: u64

record ReplStatus =
  rs_Epoch :: u64
  rs_LastSeq :: u64
  rs_Committed :: u64
  rs_Peers :: "PeerLag list"

definition ReplicationStatus :: "'s Engine \<Rightarrow> ReplStatus" where
  "ReplicationStatus e = \<lparr>rs_Epoch = e_epoch e, rs_LastSeq = e_lastSeq e, rs_Committed = e_committed e,
     rs_Peers = map (\<lambda>(p, acked). \<lparr>pl_Peer = p, pl_Acked = acked,
       pl_Lag = (if e_lastSeq e > acked then e_lastSeq e - acked else 0)\<rparr>) (e_peerAcked e)\<rparr>"

section \<open>The backup receive path\<close>

definition receiveLocked :: "'s applier \<Rightarrow> int \<Rightarrow> ReplicateMsg \<Rightarrow> 's Engine \<Rightarrow> 's Engine \<times> AckMsg" where
  "receiveLocked ap now msg e =
     (if e_poisoned e then (e, \<lparr>a_Epoch = e_epoch e, a_Seq = m_Seq msg, a_OK = False\<rparr>)
      else if m_Epoch msg < e_epoch e then (e, \<lparr>a_Epoch = e_epoch e, a_Seq = m_Seq msg, a_OK = False\<rparr>)
      else let e1 = (if m_Epoch msg > e_epoch e then advanceEpoch now (m_Epoch msg) e else e);
               nack = \<lparr>a_Epoch = m_Epoch msg, a_Seq = m_Seq msg, a_OK = False\<rparr>
           in if m_Seq msg \<noteq> m_PrevSeq msg + 1 then (e1, nack)
              else case appliedFrontierLocked e1 of (frontierSeq, frontierEpoch) \<Rightarrow>
                if m_PrevSeq msg \<noteq> frontierSeq \<or> m_PrevEpoch msg \<noteq> frontierEpoch then (e1, nack)
                else case ap (e_fsm e1) (m_Data msg) of
                    Inl _ \<Rightarrow> (e1, nack)
                  | Inr (s, _) \<Rightarrow>
                      (noteFrontierLocked (e1\<lparr>e_fsm := s, e_lastApplied := m_Seq msg,
                         e_lastAppliedEpoch := m_Epoch msg\<rparr>),
                       \<lparr>a_Epoch = m_Epoch msg, a_Seq = m_Seq msg, a_OK = True\<rparr>))"

definition Receive :: "'s applier \<Rightarrow> int \<Rightarrow> ReplicateMsg \<Rightarrow> 's Engine \<Rightarrow> 's Engine \<times> AckMsg" where
  "Receive ap now msg e = receiveLocked ap now msg e"

fun receiveAll :: "'s applier \<Rightarrow> int \<Rightarrow> u64 \<Rightarrow> u64 \<Rightarrow> ReplicateMsg list \<Rightarrow> 's Engine \<Rightarrow> 's Engine \<times> AckMsg" where
  "receiveAll ap now ep lastOK [] e = (e, \<lparr>a_Epoch = ep, a_Seq = lastOK, a_OK = True\<rparr>)"
| "receiveAll ap now ep lastOK (m # ms) e = (case receiveLocked ap now m e of (e1, ack) \<Rightarrow>
     if \<not> a_OK ack then (e1, \<lparr>a_Epoch = ep, a_Seq = lastOK, a_OK = False\<rparr>)
     else receiveAll ap now ep (m_Seq m) ms e1)"

definition ReceiveGroup :: "'s applier \<Rightarrow> int \<Rightarrow> ReplicateMsg list \<Rightarrow> 's Engine \<Rightarrow> 's Engine \<times> AckMsg" where
  "ReceiveGroup ap now msgs e =
     (case msgs of [] \<Rightarrow> (e, \<lparr>a_Epoch = 0, a_Seq = 0, a_OK = False\<rparr>)
      | m # _ \<Rightarrow> if m_Seq m = 0 then (e, \<lparr>a_Epoch = m_Epoch m, a_Seq = 0, a_OK = False\<rparr>)
                else receiveAll ap now (m_Epoch m) (m_Seq m - 1) msgs e)"

end
