(* ===== verification/EngineGrow.thy ===== *)
theory EngineGrow
  imports EngineCore
begin

text \<open>
  ISR grow (\<^verbatim>\<open>shard/pbisr/pb_grow.go\<close>): the catch-up handshake, the log-matching gate, the
  backfill of a lagging target from the catch-up ring, the atomic flip that makes it a learner,
  and the learner teardown paths.

  The catch-up conversation runs against a target whose state is \<open>'t\<close>: \<open>hello\<close> is the handshake
  request and \<open>ship\<close> the synchronous group send, both over the transport. The primary's own
  state does not change while it backfills; a round that finds the frontier moved is a fresh call.
\<close>

definition growBackfillBatch :: u64 where "growBackfillBatch = 256"
definition maxGrowSnapshotRounds :: nat where "maxGrowSnapshotRounds = 3"

section \<open>Handshake and log-matching gate\<close>

definition CatchupInfo :: "'s Engine \<Rightarrow> CatchupInfoMsg" where
  "CatchupInfo e =
     (if e_poisoned e
      then \<lparr>ci_Epoch = e_epoch e, ci_AppliedSeq = 0, ci_FrontierSeq = 0, ci_FrontierEpoch = 0, ci_OK = False\<rparr>
      else case appliedFrontierLocked e of (fs, fe) \<Rightarrow>
        \<lparr>ci_Epoch = e_epoch e, ci_AppliedSeq = e_lastApplied e, ci_FrontierSeq = fs,
         ci_FrontierEpoch = fe, ci_OK = True\<rparr>)"

definition checkCatchupDivergenceLocked :: "u64 \<Rightarrow> u64 \<Rightarrow> 's Engine \<Rightarrow> pbError option" where
  "checkCatchupDivergenceLocked k kEpoch e =
     (case appliedFrontierLocked e of (frontier, frontierEpoch) \<Rightarrow>
        if k > frontier then Some ErrCatchupDiverged
        else if k = frontier then (if kEpoch \<noteq> frontierEpoch then Some ErrCatchupDiverged else None)
        else case ring_at (e_backlog e) (k + 1) of
               Some ent \<Rightarrow> if re_prevEpoch ent \<noteq> kEpoch then Some ErrCatchupDiverged else None
             | None \<Rightarrow> None)"

section \<open>Deltas from the ring\<close>

definition entryMsg :: "ringEntry \<Rightarrow> ReplicateMsg" where
  "entryMsg ent = \<lparr>m_Epoch = re_epoch ent, m_Seq = re_seq ent, m_PrevSeq = re_seq ent - 1,
     m_PrevEpoch = re_prevEpoch ent, m_Data = re_data ent\<rparr>"

text \<open>The loop body: \<open>n\<close> sequence numbers from \<open>s\<close> on are left, \<open>run\<close> is the epoch of the run
  once the first entry has been read.\<close>

fun ringDeltaLoop :: "ring \<Rightarrow> u64 option \<Rightarrow> u64 \<Rightarrow> nat \<Rightarrow> ReplicateMsg list option" where
  "ringDeltaLoop r run s 0 = Some []"
| "ringDeltaLoop r run s (Suc n) = (case ring_at r s of None \<Rightarrow> None | Some ent \<Rightarrow>
     if run \<noteq> None \<and> run \<noteq> Some (re_epoch ent) then Some []
     else map_option ((#) (entryMsg ent)) (ringDeltaLoop r (Some (re_epoch ent)) (s + 1) n))"

definition ringDeltaLocked :: "u64 \<Rightarrow> u64 \<Rightarrow> 's Engine \<Rightarrow> ReplicateMsg list option" where
  "ringDeltaLocked from to0 e =
     (if to0 < from then Some []
      else case ring_span (e_backlog e) of None \<Rightarrow> None | Some (oldest, newest) \<Rightarrow>
        if from < oldest then None
        else let to = (if to0 > newest then newest else to0)
             in if to < from then Some []
                else ringDeltaLoop (e_backlog e) None from (unat (to - from) + 1))"

section \<open>Backfill and flip\<close>

text \<open>An empty delta above the requested gap, which needs a target past the frontier, indexes an
  empty slice: the panic is the error \<open>ErrPanic\<close>.\<close>

function backfillLearner :: "('t \<Rightarrow> ReplicateMsg list \<Rightarrow> 't \<times> (pbError + AckMsg)) \<Rightarrow> u64 \<Rightarrow> u64 \<Rightarrow>
    's Engine \<Rightarrow> u64 \<Rightarrow> 't \<Rightarrow> 't \<times> (pbError + u64)" where
  "backfillLearner ship E gap e k t =
     (if e_epoch e \<noteq> E \<or> e_leaseEpoch e \<noteq> E then (t, Inl ErrGrowEpochChanged)
      else let tail = e_lastSeq e
           in if tail - k \<le> gap then (t, Inr k)
              else let upTo0 = k + growBackfillBatch;
                       upTo = (if upTo0 > tail then tail else upTo0)
                   in case ringDeltaLocked (k + 1) upTo e of None \<Rightarrow> (t, Inl ErrGrowRingEvicted)
                      | Some msgs \<Rightarrow>
                          if msgs = [] then (t, Inl (ErrPanic ''index out of range''))
                          else (case ship t msgs of (t1, Inl err) \<Rightarrow> (t1, Inl err)
                           | (t1, Inr ack) \<Rightarrow>
                               if a_Epoch ack > E then (t1, Inl ErrGrowPeerAhead)
                               else if a_Seq ack \<le> k \<or> a_Seq ack > m_Seq (last msgs)
                               then (t1, Inl ErrCatchupDiverged)
                               else backfillLearner ship E gap e (a_Seq ack) t1))"
  by pat_completeness auto
termination
  by (relation "measure (\<lambda>(_, _, _, _, k, _). 2 ^ 64 - unat k)")
     (auto simp: word_le_nat_alt unat_lt [where 'a = 64, simplified] intro!: diff_less_mono2)

declare backfillLearner.simps [simp del]

definition createLearnerSenderLocked :: "node \<Rightarrow> ReplicateMsg list \<Rightarrow> 's Engine \<Rightarrow> 's Engine" where
  "createLearnerSenderLocked peer delta e =
     (let e1 = (if ghas (e_peerQ e) peer then dropPeerLocked peer e else e)
      in e1\<lparr>e_peerQ := AList.update peer
              \<lparr>ps_ch = delta, ps_pending = int (length delta)\<rparr> (e_peerQ e1)\<rparr>)"

text \<open>One pass of the flip loop under both locks: it installs the learner, fails, or has to go back
  to backfilling with the given gap.\<close>

datatype 's flipResult = FlipDone "'s Engine" | FlipErr pbError | FlipBackfill u64

definition flipOnce :: "int \<Rightarrow> node \<Rightarrow> u64 \<Rightarrow> u64 \<Rightarrow> 's Engine \<Rightarrow> 's flipResult" where
  "flipOnce now peer E k e =
     (if e_closed e then FlipErr ErrGrowEpochChanged
      else if e_epoch e \<noteq> E \<or> e_leaseEpoch e \<noteq> E \<or> now \<ge> e_leaseExpiry e then FlipErr ErrGrowEpochChanged
      else let tail = e_lastSeq e
           in if tail - k > of_nat pipelineWindow then FlipBackfill (of_nat pipelineWindow)
              else case ringDeltaLocked (k + 1) tail e of None \<Rightarrow> FlipErr ErrGrowRingEvicted
                 | Some delta \<Rightarrow>
                     if (of_nat (length delta) :: u64) \<noteq> tail - k then FlipBackfill 0
                     else let e1 = createLearnerSenderLocked peer delta e
                          in FlipDone (e1\<lparr>e_abandonedLearners := AList.delete peer (e_abandonedLearners e1),
                               e_learnerTeardown := removeAll peer (e_learnerTeardown e1),
                               e_learners := List.insert peer (e_learners e1)\<rparr>))"

text \<open>The flip loop, at most \<open>fuel\<close> passes (the source bounds it by its context).\<close>

fun flipLearner :: "('t \<Rightarrow> ReplicateMsg list \<Rightarrow> 't \<times> (pbError + AckMsg)) \<Rightarrow> nat \<Rightarrow> int \<Rightarrow> node \<Rightarrow> u64 \<Rightarrow> u64 \<Rightarrow>
    's Engine \<Rightarrow> 't \<Rightarrow> 't \<times> (pbError + 's Engine)" where
  "flipLearner ship 0 now peer E k e t = (t, Inl (ErrContext ''context done''))"
| "flipLearner ship (Suc fuel) now peer E k e t =
     (case flipOnce now peer E k e of
        FlipDone e1 \<Rightarrow> (t, Inr e1)
      | FlipErr err \<Rightarrow> (t, Inl err)
      | FlipBackfill gap \<Rightarrow>
          (case backfillLearner ship E gap e k t of
             (t1, Inl err) \<Rightarrow> (t1, Inl err)
           | (t1, Inr k1) \<Rightarrow> flipLearner ship fuel now peer E k1 e t1))"

text \<open>\<open>None\<close> for \<open>hello\<close> or \<open>ship\<close> is a transport without that capability.\<close>

definition catchupOnce :: "('t \<Rightarrow> pbError + CatchupInfoMsg) option \<Rightarrow>
    ('t \<Rightarrow> ReplicateMsg list \<Rightarrow> 't \<times> (pbError + AckMsg)) option \<Rightarrow> nat \<Rightarrow> int \<Rightarrow> node \<Rightarrow> 's Engine \<Rightarrow> 't \<Rightarrow>
    't \<times> (pbError + 's Engine)" where
  "catchupOnce ohello oship fuel now peer e t =
     (case ohello of None \<Rightarrow> (t, Inl ErrGrowNoCatchupTransport) | Some hello \<Rightarrow>
        (case oship of None \<Rightarrow> (t, Inl ErrGrowNoGroupTransport) | Some ship \<Rightarrow>
           let E = e_epoch e
           in case hello t of Inl err \<Rightarrow> (t, Inl err)
            | Inr info \<Rightarrow>
                if ci_Epoch info > E then (t, Inl ErrGrowPeerAhead)
                else if \<not> ci_OK info then (t, Inl ErrCatchupUnverifiable)
                else let k = ci_FrontierSeq info
                     in case checkCatchupDivergenceLocked k (ci_FrontierEpoch info) e of
                          Some err \<Rightarrow> (t, Inl err)
                        | None \<Rightarrow>
                            (case backfillLearner ship E (of_nat pipelineWindow) e k t of
                               (t1, Inl err) \<Rightarrow> (t1, Inl err)
                             | (t1, Inr k1) \<Rightarrow> flipLearner ship fuel now peer E k1 e t1)))"

definition needsSnapshot :: "pbError \<Rightarrow> bool" where
  "needsSnapshot err = (err = ErrGrowRingEvicted \<or> err = ErrCatchupDiverged \<or> err = ErrCatchupUnverifiable)"

text \<open>The snapshot fallback: \<open>transfer\<close> is one full state transfer to the target
  (\<^verbatim>\<open>snapshotCatchup\<close>), \<open>None\<close> when the engine has no snapshot store.\<close>

fun snapshotRounds :: "('t \<Rightarrow> 't \<times> pbError option) \<Rightarrow> ('t \<Rightarrow> 't \<times> (pbError + 's Engine)) \<Rightarrow> nat \<Rightarrow> 't \<Rightarrow>
    't \<times> (pbError + 's Engine)" where
  "snapshotRounds transfer once 0 t = (t, Inl ErrGrowSnapshotExhausted)"
| "snapshotRounds transfer once (Suc n) t =
     (case transfer t of (t1, Some serr) \<Rightarrow> (t1, Inl serr)
      | (t1, None) \<Rightarrow> (case once t1 of
            (t2, Inl err) \<Rightarrow> if needsSnapshot err then snapshotRounds transfer once n t2 else (t2, Inl err)
          | (t2, Inr e) \<Rightarrow> (t2, Inr e)))"

definition StartLearnerCatchup :: "('t \<Rightarrow> 't \<times> pbError option) option \<Rightarrow>
    ('t \<Rightarrow> 't \<times> (pbError + 's Engine)) \<Rightarrow> 't \<Rightarrow> 't \<times> (pbError + 's Engine)" where
  "StartLearnerCatchup snap once t =
     (case once t of (t1, Inr e) \<Rightarrow> (t1, Inr e)
      | (t1, Inl err) \<Rightarrow> (case snap of None \<Rightarrow> (t1, Inl err) | Some transfer \<Rightarrow>
          if \<not> needsSnapshot err then (t1, Inl err)
          else snapshotRounds transfer once maxGrowSnapshotRounds t1))"

section \<open>Installing and tearing down a grow\<close>

definition GrowISR :: "u64 \<Rightarrow> node list \<Rightarrow> 's Engine \<Rightarrow> 's Engine" where
  "GrowISR epoch newISR e = (if epoch \<noteq> e_epoch e \<or> e_leaseEpoch e \<noteq> epoch then e
     else e\<lparr>e_effISR := newISR, e_effISREpoch := epoch\<rparr>)"

definition AbortLearnerCatchup :: "node \<Rightarrow> 's Engine \<Rightarrow> 's Engine" where
  "AbortLearnerCatchup peer e = dropPeerLocked peer
     (e\<lparr>e_learners := removeAll peer (e_learners e),
        e_learnerTeardown := removeAll peer (e_learnerTeardown e)\<rparr>)"

definition ReclaimOrphanLearners :: "'s Engine \<Rightarrow> 's Engine" where
  "ReclaimOrphanLearners e =
     (foldl (\<lambda>e p. dropPeerLocked p e) e (e_learnerTeardown e))\<lparr>e_learnerTeardown := []\<rparr>"

definition TeardownLearners :: "'s Engine \<Rightarrow> 's Engine" where
  "TeardownLearners e = ReclaimOrphanLearners
     ((foldl (\<lambda>e p. dropPeerLocked p e) e (e_learners e))\<lparr>e_learners := []\<rparr>)"

definition LearnerAbandonedAt :: "node \<Rightarrow> 's Engine \<Rightarrow> u64 option" where
  "LearnerAbandonedAt peer e = map_of (e_abandonedLearners e) peer"

definition IsLearner :: "node \<Rightarrow> 's Engine \<Rightarrow> bool" where
  "IsLearner peer e = (peer \<in> set (e_learners e))"

end
