(* ===== verification/EngineSnapshot.thy ===== *)
theory EngineSnapshot
  imports EngineGrow
begin

text \<open>
  Snapshot transfer (\<^verbatim>\<open>shard/pbisr/pb_snapshot.go\<close>): serializing the local state machine at
  its applied frontier, streaming the blob in chunks, staging the chunks on the target and
  installing the blob behind the poison fence.

  The snapshot store is a record of its operations (\<^verbatim>\<open>SnapshotStore\<close>), an argument of the
  definitions that use it: \<open>ss_snapshot\<close> serializes, \<open>ss_install\<close> discards the local state and
  installs a blob, reporting whether it succeeded; on failure the state it leaves is whatever the
  store left behind.
\<close>

definition pbSnapshotChunkBytes :: u64 where "pbSnapshotChunkBytes = 4194304"
definition pbSnapshotMaxBytes :: u64 where "pbSnapshotMaxBytes = 4294967296"

record 's SnapshotStore =
  ss_snapshot :: "u64 \<Rightarrow> 's \<Rightarrow> pbError + bytes"
  ss_begin :: "u64 \<Rightarrow> u64 \<Rightarrow> bool"
  ss_install :: "bytes \<Rightarrow> 's \<Rightarrow> 's \<times> bool"
  ss_commit :: "u64 \<Rightarrow> u64 \<Rightarrow> bool"

section \<open>The source\<close>

definition takeSnapshot :: "'s SnapshotStore option \<Rightarrow> int \<Rightarrow> u64 \<Rightarrow> 's Engine \<Rightarrow> pbError + bytes \<times> u64 \<times> u64" where
  "takeSnapshot oss now E e =
     (case oss of None \<Rightarrow> Inl ErrGrowNoSnapshotStore | Some ss \<Rightarrow>
        if e_closed e then Inl ErrGrowEpochChanged
        else if e_epoch e \<noteq> E \<or> e_leaseEpoch e \<noteq> E \<or> now \<ge> e_leaseExpiry e then Inl ErrGrowEpochChanged
        else case appliedFrontierLocked e of (fseq, fepoch) \<Rightarrow>
          (case ss_snapshot ss fseq (e_fsm e) of Inl err \<Rightarrow> Inl err
           | Inr blob \<Rightarrow> Inr (blob, fseq, fepoch)))"

definition chunkEnd :: "bytes \<Rightarrow> u64 \<Rightarrow> u64" where
  "chunkEnd blob off = (let total = of_nat (length blob); end0 = off + pbSnapshotChunkBytes
     in if end0 > total then total else end0)"

definition snapshotChunk :: "u64 \<Rightarrow> u64 \<Rightarrow> u64 \<Rightarrow> bytes \<Rightarrow> u64 \<Rightarrow> SnapshotChunk" where
  "snapshotChunk E fseq fepoch blob off =
     (let total = of_nat (length blob); fin = chunkEnd blob off
      in \<lparr>sc_Epoch = E, sc_FrontierSeq = fseq, sc_FrontierEpoch = fepoch, sc_Offset = off,
          sc_Total = total, sc_Data = gslice (unat off) (unat fin) blob, sc_Final = (fin = total)\<rparr>)"

text \<open>The chunk loop; \<open>stale\<close> is the local re-fence between chunks, at most \<open>fuel\<close> chunks.\<close>

fun shipSnapshot :: "('t \<Rightarrow> SnapshotChunk \<Rightarrow> 't \<times> (pbError + AckMsg)) \<Rightarrow> bool \<Rightarrow> nat \<Rightarrow> u64 \<Rightarrow> u64 \<Rightarrow> u64 \<Rightarrow> bytes \<Rightarrow>
    u64 \<Rightarrow> 't \<Rightarrow> 't \<times> pbError option" where
  "shipSnapshot send stale 0 E fseq fepoch blob off t = (t, Some (ErrContext ''context done''))"
| "shipSnapshot send stale (Suc fuel) E fseq fepoch blob off t =
     (let c = snapshotChunk E fseq fepoch blob off
      in case send t c of (t1, Inl err) \<Rightarrow> (t1, Some err)
         | (t1, Inr ack) \<Rightarrow>
             if a_Epoch ack > E then (t1, Some ErrGrowPeerAhead)
             else if \<not> a_OK ack then (t1, Some ErrGrowSnapshotRejected)
             else if sc_Final c then (t1, None)
             else if stale then (t1, Some ErrGrowEpochChanged)
             else shipSnapshot send stale fuel E fseq fepoch blob (chunkEnd blob off) t1)"

definition chunksNeeded :: "bytes \<Rightarrow> nat" where
  "chunksNeeded blob = length blob div unat pbSnapshotChunkBytes + 1"

definition snapshotCatchup :: "('t \<Rightarrow> SnapshotChunk \<Rightarrow> 't \<times> (pbError + AckMsg)) option \<Rightarrow> 's SnapshotStore option \<Rightarrow>
    int \<Rightarrow> u64 \<Rightarrow> 's Engine \<Rightarrow> 't \<Rightarrow> 't \<times> (pbError + u64 \<times> u64)" where
  "snapshotCatchup osend oss now E e t =
     (case osend of None \<Rightarrow> (t, Inl ErrGrowNoSnapshotTransport) | Some send \<Rightarrow>
        (case takeSnapshot oss now E e of Inl err \<Rightarrow> (t, Inl err)
         | Inr (blob, fseq, fepoch) \<Rightarrow>
             (case shipSnapshot send (e_epoch e \<noteq> E \<or> e_leaseEpoch e \<noteq> E) (chunksNeeded blob)
                     E fseq fepoch blob 0 t of
                (t1, Some err) \<Rightarrow> (t1, Inl err)
              | (t1, None) \<Rightarrow> (t1, Inr (fseq, fepoch)))))"

section \<open>The target\<close>

definition dropInflight :: "'s Engine \<Rightarrow> 's Engine" where
  "dropInflight e =
     (let e1 = foldl (\<lambda>e i. resolveLocked ((e_inflightHead e + i) mod length (e_inflightRing e))
                 (Some ErrReplicationTimeout) e) e [0..<e_inflightN e]
      in (popInflightHeadLocked ^^ e_inflightN e1) e1)"

text \<open>The install; the second component is the error, \<open>None\<close> on success.\<close>

definition installSnapshot :: "'s SnapshotStore option \<Rightarrow> u64 \<Rightarrow> u64 \<Rightarrow> u64 \<Rightarrow> bytes \<Rightarrow> 's Engine \<Rightarrow>
    's Engine \<times> pbError option" where
  "installSnapshot oss shipEpoch fseq fepoch blob e =
     (case oss of None \<Rightarrow> (e, Some ErrGrowNoSnapshotStore) | Some ss \<Rightarrow>
        if \<not> ss_begin ss fseq fepoch then (e, Some (ErrStore ''fence''))
        else if e_closed e \<or> shipEpoch < e_epoch e then (e, Some ErrGrowEpochChanged)
        else let e1 = e\<lparr>e_poisoned := True\<rparr>
             in case ss_install ss blob (e_fsm e1) of (s, ok) \<Rightarrow>
                  let e2 = e1\<lparr>e_fsm := s\<rparr>
                  in if \<not> ok then (e2, Some (ErrStore ''install''))
                     else let e3 = e2\<lparr>e_lastApplied := fseq, e_lastAppliedEpoch := fepoch,
                                      e_lastSeq := fseq, e_lastSeqEpoch := fepoch, e_committed := fseq\<rparr>;
                              e4 = dropInflight e3;
                              e5 = e4\<lparr>e_backlog := newRing (int (length (r_buf (e_backlog e4))))\<rparr>;
                              e6 = clearLearnersLocked (clearEffISRLocked e5)
                          in if \<not> ss_commit ss fseq fepoch then (e6, Some (ErrStore ''commit''))
                             else (e6\<lparr>e_poisoned := False\<rparr>, None))"

definition ReceiveSnapshotChunk :: "'s SnapshotStore option \<Rightarrow> int \<Rightarrow> SnapshotChunk \<Rightarrow> 's Engine \<Rightarrow> 's Engine \<times> AckMsg" where
  "ReceiveSnapshotChunk oss now c e =
     (let nack = \<lparr>a_Epoch = sc_Epoch c, a_Seq = sc_FrontierSeq c, a_OK = False\<rparr>;
          okAck = \<lparr>a_Epoch = sc_Epoch c, a_Seq = sc_FrontierSeq c, a_OK = True\<rparr>
      in if sc_Epoch c < e_epoch e
         then (e\<lparr>e_snapStage := None\<rparr>, \<lparr>a_Epoch = e_epoch e, a_Seq = sc_FrontierSeq c, a_OK = False\<rparr>)
         else let e1 = (if sc_Epoch c > e_epoch e
                        then (advanceEpoch now (sc_Epoch c) e)\<lparr>e_snapStage := None\<rparr> else e)
         in if sc_Total c > pbSnapshotMaxBytes \<or> sc_Offset c > sc_Total c \<or>
               (of_nat (length (sc_Data c)) :: u64) > sc_Total c - sc_Offset c
         then (e1\<lparr>e_snapStage := None\<rparr>, nack)
         else let fresh = \<lparr>st_epoch = sc_Epoch c, st_frontierSeq = sc_FrontierSeq c,
                           st_frontierEpoch = sc_FrontierEpoch c, st_total = sc_Total c, st_buf = []\<rparr>;
                  cont = (case e_snapStage e1 of None \<Rightarrow> None | Some st \<Rightarrow>
                     if st_epoch st \<noteq> sc_Epoch c \<or> st_frontierSeq st \<noteq> sc_FrontierSeq c \<or>
                        st_frontierEpoch st \<noteq> sc_FrontierEpoch c \<or> st_total st \<noteq> sc_Total c
                     then None else Some st)
         in if cont = None \<and> sc_Offset c \<noteq> 0 then (e1\<lparr>e_snapStage := None\<rparr>, nack)
         else let st = (case cont of None \<Rightarrow> fresh | Some st \<Rightarrow> st)
         in if sc_Offset c \<noteq> of_nat (length (st_buf st)) then (e1\<lparr>e_snapStage := None\<rparr>, nack)
         else let st1 = st\<lparr>st_buf := st_buf st @ sc_Data c\<rparr>
         in if \<not> sc_Final c then (e1\<lparr>e_snapStage := Some st1\<rparr>, okAck)
         else if (of_nat (length (st_buf st1)) :: u64) \<noteq> sc_Total c then (e1\<lparr>e_snapStage := None\<rparr>, nack)
         else case installSnapshot oss (sc_Epoch c) (sc_FrontierSeq c) (sc_FrontierEpoch c) (st_buf st1)
                     (e1\<lparr>e_snapStage := None\<rparr>) of
                (e2, None) \<Rightarrow> (e2, okAck)
              | (e2, Some _) \<Rightarrow> (e2, nack))"

end
