(* ===== verification/CommitQueue.thy ===== *)
theory CommitQueue
  imports CommitSpec
begin

text \<open>
  What the write pipeline promises, as an abstract machine. A queue holds the admitted writes in
  order, each with the peers that still owe an acknowledgement; a write leaves the queue with
  exactly one outcome, and it leaves with success only from the head, owing nothing, under a valid
  lease. The pipeline operations of the engine are runs of this machine.
\<close>

record qrec =
  q_epoch :: u64
  q_seq :: u64
  q_pending :: "node set"
  q_resolved :: bool

text \<open>\<open>cq_admitted\<close> lists the admitted writes with their required peers, \<open>cq_released\<close> the
  (peer, epoch, sequence number) triples that no longer gate a commit: the peer acknowledged the
  write, or a committed shrink removed the peer at that epoch.\<close>

record commitQueue =
  cq_admitted :: "(u64 \<times> u64 \<times> node set) list"
  cq_released :: "(node \<times> u64 \<times> u64) set"
  cq_recs :: "qrec list"
  cq_committed :: u64
  cq_outcomes :: "(u64 \<times> u64 \<times> pbError option) list"

inductive qstep :: "CommitLevel \<Rightarrow> (u64 \<Rightarrow> bool) \<Rightarrow> commitQueue \<Rightarrow> commitQueue \<Rightarrow> bool"
  for lv :: CommitLevel and L :: "u64 \<Rightarrow> bool" where
  qs_release: "i < length (cq_recs q) \<Longrightarrow> r = cq_recs q ! i \<Longrightarrow>
    (\<forall>p\<in>D. (p, q_epoch r, q_seq r) \<in> cq_released q) \<Longrightarrow>
    qstep lv L q (q\<lparr>cq_recs := (cq_recs q)[i := r\<lparr>q_pending := q_pending r - D\<rparr>]\<rparr>)"
| qs_fail: "i < length (cq_recs q) \<Longrightarrow> r = cq_recs q ! i \<Longrightarrow> \<not> q_resolved r \<Longrightarrow>
    qstep lv L q (q\<lparr>cq_recs := (cq_recs q)[i := r\<lparr>q_resolved := True\<rparr>],
      cq_outcomes := cq_outcomes q @ [(q_epoch r, q_seq r, Some err)]\<rparr>)"
| qs_pop: "cq_recs q = r # rs \<Longrightarrow> q_resolved r \<Longrightarrow> qstep lv L q (q\<lparr>cq_recs := rs\<rparr>)"
| qs_commit: "cq_recs q = r # rs \<Longrightarrow> \<not> q_resolved r \<Longrightarrow> q_pending r = {} \<or> lv = CommitPrimary \<Longrightarrow>
    L (q_epoch r) \<Longrightarrow>
    qstep lv L q (q\<lparr>cq_recs := rs, cq_committed := max (cq_committed q) (q_seq r),
      cq_outcomes := cq_outcomes q @ [(q_epoch r, q_seq r, None)]\<rparr>)"

text \<open>Between runs of these steps writes are admitted, each under a key above all earlier ones,
  releases are noted, and a promotion or an installed snapshot moves the watermark.\<close>

inductive qrun :: "CommitLevel \<Rightarrow> commitQueue \<Rightarrow> commitQueue \<Rightarrow> bool" for lv :: CommitLevel where
  qr_work: "qstep lv L q q' \<Longrightarrow> qrun lv q q'"
| qr_admit: "(\<forall>(ep', s', _)\<in>set (cq_admitted q). ep' < ep \<or> ep' = ep \<and> s' < s) \<Longrightarrow>
    qrun lv q (q\<lparr>cq_admitted := cq_admitted q @ [(ep, s, P)],
      cq_recs := cq_recs q @ [\<lparr>q_epoch = ep, q_seq = s, q_pending = P, q_resolved = False\<rparr>]\<rparr>)"
| qr_note: "qrun lv q (q\<lparr>cq_released := cq_released q \<union> R\<rparr>)"
| qr_rebase: "qrun lv q (q\<lparr>cq_committed := c\<rparr>)"

definition qkey :: "qrec \<Rightarrow> u64 \<times> u64" where "qkey r = (q_epoch r, q_seq r)"
definition key3 :: "u64 \<times> u64 \<times> 'a \<Rightarrow> u64 \<times> u64" where "key3 t = (case t of (ep, s, _) \<Rightarrow> (ep, s))"

lemma key3_simp [simp]: "key3 (ep, s, x) = (ep, s)"
  by (simp add: key3_def)

text \<open>The machine's invariant: every admitted write is in exactly one place, still waiting in the
  queue or with exactly one outcome; a waiting write has been released by every required peer it
  no longer waits for; a committed write has been released by every one of its required peers.\<close>

definition q_unresolved :: "commitQueue \<Rightarrow> (u64 \<times> u64) list" where
  "q_unresolved q = map qkey (filter (\<lambda>r. \<not> q_resolved r) (cq_recs q))"

definition q_conserves :: "commitQueue \<Rightarrow> bool" where
  "q_conserves q = (distinct (map key3 (cq_admitted q)) \<and>
     mset (map key3 (cq_admitted q)) = mset (map key3 (cq_outcomes q)) + mset (q_unresolved q))"

definition q_owes :: "commitQueue \<Rightarrow> bool" where
  "q_owes q = (\<forall>r\<in>set (cq_recs q). \<exists>P. (q_epoch r, q_seq r, P) \<in> set (cq_admitted q) \<and>
     (\<forall>p\<in>P. p \<in> q_pending r \<or> (p, q_epoch r, q_seq r) \<in> cq_released q))"

definition q_durable :: "commitQueue \<Rightarrow> bool" where
  "q_durable q = (\<forall>ep s. (ep, s, None) \<in> set (cq_outcomes q) \<longrightarrow>
     (\<exists>P. (ep, s, P) \<in> set (cq_admitted q) \<and> (\<forall>p\<in>P. (p, ep, s) \<in> cq_released q)))"

definition q_inv :: "commitQueue \<Rightarrow> bool" where
  "q_inv q = (q_conserves q \<and> q_owes q \<and> q_durable q)"

definition q_init :: "commitQueue \<Rightarrow> bool" where
  "q_init q = (cq_admitted q = [] \<and> cq_recs q = [] \<and> cq_outcomes q = [])"

lemma mset_filter_update:
  assumes "i < length xs"
  shows "mset (map f (filter P (xs[i := x]))) + (if P (xs ! i) then {#f (xs ! i)#} else {#}) =
    mset (map f (filter P xs)) + (if P x then {#f x#} else {#})"
proof -
  define M where "M = mset xs - {#xs ! i#}"
  have 1: "mset xs = add_mset (xs ! i) M" "mset (xs[i := x]) = add_mset x M"
    using assms by (simp_all add: M_def mset_update)
  show ?thesis unfolding mset_map mset_filter 1 by simp
qed

lemma q_conserves_update:
  assumes "i < length (cq_recs q)" "q_resolved r = q_resolved (cq_recs q ! i)" "qkey r = qkey (cq_recs q ! i)"
  shows "mset (q_unresolved (q\<lparr>cq_recs := (cq_recs q)[i := r]\<rparr>)) = mset (q_unresolved q)"
  using mset_filter_update [OF assms(1), of qkey "\<lambda>r. \<not> q_resolved r" r] assms(2,3)
  by (simp add: q_unresolved_def split: if_splits)

lemma q_conserves_fail:
  assumes "i < length (cq_recs q)" "r = cq_recs q ! i" "\<not> q_resolved r"
  shows "mset (q_unresolved q) = add_mset (qkey r)
    (mset (q_unresolved (q\<lparr>cq_recs := (cq_recs q)[i := r\<lparr>q_resolved := True\<rparr>]\<rparr>)))"
  using mset_filter_update [OF assms(1), of qkey "\<lambda>r. \<not> q_resolved r" "r\<lparr>q_resolved := True\<rparr>"] assms(2,3)
  by (simp add: q_unresolved_def)

lemma qstep_conserves: "qstep lv L q q' \<Longrightarrow> q_conserves q \<Longrightarrow> q_conserves q'"
proof (induction rule: qstep.induct)
  case (qs_release i q r D)
  then show ?case
    using q_conserves_update [of i q "r\<lparr>q_pending := q_pending r - D\<rparr>"]
    by (simp add: q_conserves_def qkey_def)
next
  case (qs_fail i q r err)
  have "q_unresolved (q\<lparr>cq_recs := rs, cq_outcomes := x\<rparr>) = q_unresolved (q\<lparr>cq_recs := rs\<rparr>)" for rs x
    by (simp add: q_unresolved_def)
  then show ?case using qs_fail q_conserves_fail [OF qs_fail(1-3)]
    by (simp add: q_conserves_def qkey_def)
qed (auto simp: q_conserves_def q_unresolved_def qkey_def)

lemma q_owes_update:
  assumes "q_owes q" "i < length (cq_recs q)" "r = cq_recs q ! i"
    and "q_epoch r' = q_epoch r" "q_seq r' = q_seq r"
    and "\<And>p. p \<in> q_pending r \<Longrightarrow> p \<in> q_pending r' \<or> (p, q_epoch r, q_seq r) \<in> cq_released q"
  shows "q_owes (q\<lparr>cq_recs := (cq_recs q)[i := r']\<rparr>)"
  unfolding q_owes_def
proof
  fix x assume "x \<in> set (cq_recs (q\<lparr>cq_recs := (cq_recs q)[i := r']\<rparr>))"
  then have "x = r' \<or> x \<in> set (cq_recs q)" using set_update_subset_insert by fastforce
  moreover have "r \<in> set (cq_recs q)" using assms(2,3) by simp
  moreover obtain P where "(q_epoch r, q_seq r, P) \<in> set (cq_admitted q)"
    "\<forall>p\<in>P. p \<in> q_pending r \<or> (p, q_epoch r, q_seq r) \<in> cq_released q"
    using assms(1) calculation(2) unfolding q_owes_def by blast
  moreover have "\<exists>P. (q_epoch x, q_seq x, P) \<in> set (cq_admitted q) \<and>
      (\<forall>p\<in>P. p \<in> q_pending x \<or> (p, q_epoch x, q_seq x) \<in> cq_released q)" if "x \<in> set (cq_recs q)"
    using assms(1) that unfolding q_owes_def by blast
  ultimately show "\<exists>P. (q_epoch x, q_seq x, P) \<in> set (cq_admitted (q\<lparr>cq_recs := (cq_recs q)[i := r']\<rparr>)) \<and>
      (\<forall>p\<in>P. p \<in> q_pending x \<or> (p, q_epoch x, q_seq x) \<in> cq_released (q\<lparr>cq_recs := (cq_recs q)[i := r']\<rparr>))"
    using assms(4-6) by (elim disjE) (simp, blast, simp)
qed

lemma q_owes_outcomes [simp]: "q_owes (q\<lparr>cq_recs := rs, cq_outcomes := d\<rparr>) = q_owes (q\<lparr>cq_recs := rs\<rparr>)"
  "q_owes (q\<lparr>cq_recs := rs, cq_committed := c, cq_outcomes := d\<rparr>) = q_owes (q\<lparr>cq_recs := rs\<rparr>)"
  by (simp_all add: q_owes_def)

lemma qstep_owes: "qstep lv L q q' \<Longrightarrow> q_owes q \<Longrightarrow> q_owes q'"
proof (induction rule: qstep.induct)
  case (qs_release i q r D)
  then show ?case by (intro q_owes_update [of q i r]) auto
next
  case (qs_fail i q r err)
  then show ?case using q_owes_update [of q i r "r\<lparr>q_resolved := True\<rparr>"] by simp
qed (simp_all, simp_all add: q_owes_def)

lemma qstep_durable: "qstep CommitFullISR L q q' \<Longrightarrow> q_owes q \<Longrightarrow> q_durable q \<Longrightarrow> q_durable q'"
proof (induction rule: qstep.induct)
  case (qs_commit q r rs)
  then show ?case by (auto simp: q_durable_def q_owes_def)
qed (fastforce simp: q_durable_def)+

lemma q_owes_admit:
  "q_owes q \<Longrightarrow> q_owes (q\<lparr>cq_admitted := cq_admitted q @ [(ep, s, P)],
      cq_recs := cq_recs q @ [\<lparr>q_epoch = ep, q_seq = s, q_pending = P, q_resolved = False\<rparr>]\<rparr>)"
  unfolding q_owes_def by auto

lemma q_owes_note: "q_owes q \<Longrightarrow> q_owes (q\<lparr>cq_released := cq_released q \<union> R\<rparr>)"
  unfolding q_owes_def by simp blast

lemma qrun_books: "qrun lv q q' \<Longrightarrow> q_conserves q \<and> q_owes q \<Longrightarrow> q_conserves q' \<and> q_owes q'"
proof (induction rule: qrun.induct)
  case (qr_work L q q')
  then show ?case using qstep_conserves qstep_owes by blast
next
  case (qr_admit q ep s P)
  then have "(ep, s) \<notin> key3 ` set (cq_admitted q)" by (auto simp: key3_def)
  then show ?case using qr_admit q_owes_admit [of q ep s P]
    by (simp add: q_conserves_def q_unresolved_def qkey_def)
next
  case (qr_note q R)
  then show ?case using q_owes_note [of q R] by (simp add: q_conserves_def q_unresolved_def)
next
  case (qr_rebase q c)
  then show ?case by (simp add: q_conserves_def q_unresolved_def q_owes_def)
qed

lemma qrun_durable: "qrun CommitFullISR q q' \<Longrightarrow> q_owes q \<Longrightarrow> q_durable q \<Longrightarrow> q_durable q'"
proof (induction rule: qrun.induct)
  case (qr_work L q q')
  then show ?case using qstep_durable by blast
qed (fastforce simp: q_durable_def)+

text \<open>The commit-queue machine keeps its invariant, at any commit level for the bookkeeping part and
  at the full-ISR level for durability.\<close>

interpretation commit_books: state_machine q_init "qrun lv" "\<lambda>q. q_conserves q \<and> q_owes q" for lv
proof unfold_locales
  show "q_init q \<Longrightarrow> q_conserves q \<and> q_owes q" for q
    by (simp add: q_init_def q_conserves_def q_owes_def q_unresolved_def)
  show "q_conserves q \<and> q_owes q \<Longrightarrow> qrun lv q q' \<Longrightarrow> q_conserves q' \<and> q_owes q'" for q q'
    using qrun_books by blast
qed

interpretation commit_queue: state_machine q_init "qrun CommitFullISR" q_inv
proof unfold_locales
  show "q_init q \<Longrightarrow> q_inv q" for q
    using commit_books.inv_init by (simp add: q_inv_def q_durable_def q_init_def)
  show "q_inv q \<Longrightarrow> qrun CommitFullISR q q' \<Longrightarrow> q_inv q'" for q q'
    using qrun_books qrun_durable by (auto simp: q_inv_def)
qed

text \<open>The shape of a run of steps: a prefix of the queue leaves, the watermark only moves up, to the
  sequence number of a write that left, and the new outcomes that are successes are under a valid
  lease.\<close>

definition q_shape :: "(u64 \<Rightarrow> bool) \<Rightarrow> commitQueue \<Rightarrow> commitQueue \<Rightarrow> bool" where
  "q_shape L q q' = (cq_admitted q' = cq_admitted q \<and> cq_released q' = cq_released q \<and>
     cq_committed q \<le> cq_committed q' \<and>
     (\<exists>k\<le>length (cq_recs q). map qkey (cq_recs q') = drop k (map qkey (cq_recs q)) \<and>
        (cq_committed q' = cq_committed q \<or> cq_committed q' \<in> snd ` set (take k (map qkey (cq_recs q))))) \<and>
     (\<exists>d. cq_outcomes q' = cq_outcomes q @ d \<and> (\<forall>ep s. (ep, s, None) \<in> set d \<longrightarrow> L ep)))"

lemma qstep_shape: "qstep lv L q q' \<Longrightarrow> q_shape L q q'"
proof (induction rule: qstep.induct)
  case (qs_commit q r rs)
  then show ?case unfolding q_shape_def
    by (intro conjI exI [of _ 1] exI [of _ "[(q_epoch r, q_seq r, None)]"]) (auto simp: qkey_def max_def)
next
  case (qs_pop q r rs)
  then show ?case unfolding q_shape_def by (intro conjI exI [of _ 1]) auto
next
  case (qs_release i q r D)
  have "map qkey (cq_recs q) = map qkey ((cq_recs q)[i := r\<lparr>q_pending := q_pending r - D\<rparr>])"
    using qs_release by (simp add: map_update qkey_def list_update_same_conv [THEN iffD2])
  then show ?case unfolding q_shape_def by (intro conjI exI [of _ 0]) auto
next
  case (qs_fail i q r err)
  have "map qkey (cq_recs q) = map qkey ((cq_recs q)[i := r\<lparr>q_resolved := True\<rparr>])"
    using qs_fail by (simp add: map_update qkey_def list_update_same_conv [THEN iffD2])
  then show ?case unfolding q_shape_def by (intro conjI exI [of _ 0]) auto
qed

lemma q_shape_refl: "q_shape L q q"
  unfolding q_shape_def by (intro conjI exI [of _ 0]) auto

lemma q_shape_trans:
  assumes "q_shape L a b" "q_shape L b c"
  shows "q_shape L a c"
proof -
  let ?K = "\<lambda>q. map qkey (cq_recs q)"
  obtain k where k: "k \<le> length (cq_recs a)" "?K b = drop k (?K a)"
    "cq_committed b = cq_committed a \<or> cq_committed b \<in> snd ` set (take k (?K a))"
    using assms(1) unfolding q_shape_def by blast
  obtain j where j: "j \<le> length (cq_recs b)" "?K c = drop j (?K b)"
    "cq_committed c = cq_committed b \<or> cq_committed c \<in> snd ` set (take j (?K b))"
    using assms(2) unfolding q_shape_def by blast
  have l: "length (cq_recs b) = length (cq_recs a) - k" using arg_cong [OF k(2), of length] by simp
  have "take (k + j) (?K a) = take k (?K a) @ take j (?K b)" using k(2) by (simp add: take_add)
  then have S: "snd ` set (take (k + j) (?K a)) = snd ` set (take k (?K a)) \<union> snd ` set (take j (?K b))"
    by (simp add: image_Un)
  have "?K c = drop (k + j) (?K a)" using j(2) k(2) by (simp add: add.commute)
  then have "k + j \<le> length (cq_recs a) \<and> ?K c = drop (k + j) (?K a) \<and>
      (cq_committed c = cq_committed a \<or> cq_committed c \<in> snd ` set (take (k + j) (?K a)))"
  proof (intro conjI)
    show "k + j \<le> length (cq_recs a)" using k(1) j(1) l by linarith
    show "cq_committed c = cq_committed a \<or> cq_committed c \<in> snd ` set (take (k + j) (?K a))"
      using k(3) j(3) unfolding S by (elim disjE) (simp_all only: Un_iff simp_thms)
  qed
  moreover obtain d1 d2 where "cq_outcomes b = cq_outcomes a @ d1" "\<forall>ep s. (ep, s, None) \<in> set d1 \<longrightarrow> L ep"
      "cq_outcomes c = cq_outcomes b @ d2" "\<forall>ep s. (ep, s, None) \<in> set d2 \<longrightarrow> L ep"
    using assms unfolding q_shape_def by blast
  then have "cq_outcomes c = cq_outcomes a @ (d1 @ d2) \<and> (\<forall>ep s. (ep, s, None) \<in> set (d1 @ d2) \<longrightarrow> L ep)" by auto
  moreover have "cq_admitted c = cq_admitted a" "cq_released c = cq_released a" "cq_committed a \<le> cq_committed c"
    using assms unfolding q_shape_def by (simp_all, meson order_trans)
  ultimately show ?thesis unfolding q_shape_def by blast
qed

lemma qsteps_shape: "(qstep lv L)\<^sup>*\<^sup>* q q' \<Longrightarrow> q_shape L q q'"
  by (induction rule: rtranclp_induct) (auto intro: q_shape_refl q_shape_trans qstep_shape)

lemma qsteps_run: "(qstep lv L)\<^sup>*\<^sup>* q q' \<Longrightarrow> (qrun lv)\<^sup>*\<^sup>* q q'"
  by (induction rule: rtranclp_induct) (auto intro: rtranclp.rtrancl_into_rtrancl qr_work)

section \<open>The engine's queue is a commit queue\<close>

definition arec :: "inflight \<Rightarrow> qrec" where
  "arec r = \<lparr>q_epoch = if_epoch r, q_seq = if_seq r, q_pending = set (pendingPeers r), q_resolved = if_resolved r\<rparr>"

definition absQ :: "(u64 \<times> u64 \<times> node set) list \<Rightarrow> (node \<times> u64 \<times> u64) set \<Rightarrow> 's Engine \<Rightarrow> commitQueue" where
  "absQ A R e = \<lparr>cq_admitted = A, cq_released = R, cq_recs = map arec (fifo e),
     cq_committed = e_committed e, cq_outcomes = e_done e\<rparr>"

abbreviation qsteps :: "CommitLevel \<Rightarrow> (u64 \<Rightarrow> bool) \<Rightarrow> commitQueue \<Rightarrow> commitQueue \<Rightarrow> bool" where
  "qsteps lv L \<equiv> (qstep lv L)\<^sup>*\<^sup>*"

text \<open>What one operation may do to one record: nothing, fail it, or drop released peers.\<close>

definition rec_step :: "(node \<times> u64 \<times> u64) set \<Rightarrow> qrec \<Rightarrow> qrec \<Rightarrow> (u64 \<times> u64 \<times> pbError option) list \<Rightarrow> bool" where
  "rec_step R r r' os = (r' = r \<and> os = [] \<or>
     (\<exists>err. \<not> q_resolved r \<and> r' = r\<lparr>q_resolved := True\<rparr> \<and> os = [(q_epoch r, q_seq r, Some err)]) \<or>
     (\<exists>D. (\<forall>p\<in>D. (p, q_epoch r, q_seq r) \<in> R) \<and> r' = r\<lparr>q_pending := q_pending r - D\<rparr> \<and> os = []))"

lemma qsteps_update:
  assumes i: "i < length (cq_recs q)" and rs: "rec_step (cq_released q) (cq_recs q ! i) r' os"
  shows "qsteps lv L q (q\<lparr>cq_recs := (cq_recs q)[i := r'], cq_outcomes := cq_outcomes q @ os\<rparr>)"
  using rs unfolding rec_step_def
proof (elim disjE exE conjE)
  assume "r' = cq_recs q ! i" "os = []"
  then show ?thesis by simp
next
  fix err assume "\<not> q_resolved (cq_recs q ! i)" "r' = (cq_recs q ! i)\<lparr>q_resolved := True\<rparr>"
    "os = [(q_epoch (cq_recs q ! i), q_seq (cq_recs q ! i), Some err)]"
  then show ?thesis using qs_fail [OF i refl, of lv L err] by (simp add: r_into_rtranclp)
next
  fix D assume "\<forall>p\<in>D. (p, q_epoch (cq_recs q ! i), q_seq (cq_recs q ! i)) \<in> cq_released q"
    "r' = (cq_recs q ! i)\<lparr>q_pending := q_pending (cq_recs q ! i) - D\<rparr>" "os = []"
  then show ?thesis using qs_release [OF i refl, of D lv L] by (simp add: r_into_rtranclp)
qed

lemma qsteps_map:
  assumes "\<And>r. r \<in> set rs \<Longrightarrow> rec_step R (arec r) (arec (g r)) (h r)"
  shows "qsteps lv L \<lparr>cq_admitted = A, cq_released = R, cq_recs = ps @ map arec rs, cq_committed = c, cq_outcomes = d\<rparr>
    \<lparr>cq_admitted = A, cq_released = R, cq_recs = ps @ map arec (map g rs), cq_committed = c,
     cq_outcomes = d @ concat (map h rs)\<rparr>"
  using assms
proof (induction rs arbitrary: ps d)
  case (Cons r rs)
  let ?q = "\<lparr>cq_admitted = A, cq_released = R, cq_recs = ps @ map arec (r # rs), cq_committed = c, cq_outcomes = d\<rparr>"
  have "qsteps lv L ?q (?q\<lparr>cq_recs := ps @ arec (g r) # map arec rs, cq_outcomes := d @ h r\<rparr>)"
    using qsteps_update [of "length ps" ?q "arec (g r)" "h r" lv L] Cons.prems [of r]
    by (simp add: nth_append list_update_append)
  also have "qsteps lv L \<dots> \<lparr>cq_admitted = A, cq_released = R, cq_recs = ps @ map arec (map g (r # rs)),
      cq_committed = c, cq_outcomes = d @ concat (map h (r # rs))\<rparr>"
    using Cons.IH [of "ps @ [arec (g r)]" "d @ h r"] Cons.prems by simp
  finally show ?case .
qed simp

lemma sweep_spec_run:
  "sweep_spec L lv rs c = (q, c', d') \<Longrightarrow>
   qsteps lv L \<lparr>cq_admitted = A, cq_released = R, cq_recs = map arec rs, cq_committed = c, cq_outcomes = d\<rparr>
     \<lparr>cq_admitted = A, cq_released = R, cq_recs = map arec q, cq_committed = c', cq_outcomes = d @ d'\<rparr>"
proof (induction L lv rs c arbitrary: q c' d d' rule: sweep_spec.induct)
  case (2 L lv r rs c)
  let ?Q = "\<lambda>rs c d. \<lparr>cq_admitted = A, cq_released = R, cq_recs = rs, cq_committed = c, cq_outcomes = d\<rparr>"
  let ?r = "map arec (r # rs)" and ?rs = "map arec rs"
  consider (popped) "if_resolved r"
    | (comm) "\<not> if_resolved r" "pendingPeers r = [] \<or> lv = CommitPrimary" "L (if_epoch r)"
    | (expd) "\<not> if_resolved r" "pendingPeers r = [] \<or> lv = CommitPrimary" "\<not> L (if_epoch r)"
    | (stuck) "\<not> if_resolved r" "\<not> (pendingPeers r = [] \<or> lv = CommitPrimary)" by blast
  then show ?case
  proof cases
    case popped
    then have "qstep lv L (?Q ?r c d) (?Q ?rs c d)"
      using qs_pop [of "?Q ?r c d" "arec r" ?rs lv L] by (simp add: arec_def)
    then show ?thesis using 2 popped by (simp add: converse_rtranclp_into_rtranclp)
  next
    case comm
    then obtain d1 where d1: "sweep_spec L lv rs (max c (if_seq r)) = (q, c', d1)"
        "d' = (if_epoch r, if_seq r, None) # d1" using 2(4) by (auto split: prod.splits)
    have "qstep lv L (?Q ?r c d) (?Q ?rs (max c (if_seq r)) (d @ [(if_epoch r, if_seq r, None)]))"
      using qs_commit [of "?Q ?r c d" "arec r" ?rs lv L] comm by (auto simp: arec_def)
    then show ?thesis using 2(2) [OF comm d1(1), of "d @ [(if_epoch r, if_seq r, None)]"] d1(2)
      by (simp add: converse_rtranclp_into_rtranclp)
  next
    case expd
    then obtain d1 where d1: "sweep_spec L lv rs c = (q, c', d1)"
        "d' = (if_epoch r, if_seq r, Some ErrLeaseExpired) # d1" using 2(4) by (auto split: prod.splits)
    let ?m = "?Q ((arec r)\<lparr>q_resolved := True\<rparr> # ?rs) c (d @ [(if_epoch r, if_seq r, Some ErrLeaseExpired)])"
    have "qstep lv L (?Q ?r c d) ?m"
      using qs_fail [of 0 "?Q ?r c d" "arec r" lv L "ErrLeaseExpired"] expd by (simp add: arec_def)
    moreover have "qstep lv L ?m (?Q ?rs c (d @ [(if_epoch r, if_seq r, Some ErrLeaseExpired)]))"
      using qs_pop [of ?m "(arec r)\<lparr>q_resolved := True\<rparr>" ?rs lv L] by simp
    ultimately show ?thesis
      using 2(3) [OF expd d1(1), of "d @ [(if_epoch r, if_seq r, Some ErrLeaseExpired)]"] d1(2)
      by (simp add: converse_rtranclp_into_rtranclp)
  next
    case stuck
    then show ?thesis using 2(4) by simp
  qed
qed simp

text \<open>The sweep is a run of the machine under the lease check.\<close>

lemma sweep_qsteps:
  assumes "pipe_wf e"
  shows "qsteps (e_commitLevel e) (lease_ok now e) (absQ A R e) (absQ A R (sweepLocked now e))"
proof -
  obtain q c d where s: "sweep_spec (lease_ok now e) (e_commitLevel e) (fifo e) (e_committed e) = (q, c, d)"
    by (metis prod_cases3)
  then have "fifo (sweepLocked now e) = q" "e_committed (sweepLocked now e) = c"
    "e_done (sweepLocked now e) = e_done e @ d" using sweep_refines [OF assms, of now] by auto
  then show ?thesis using sweep_spec_run [OF s, of A R "e_done e"] by (simp add: absQ_def)
qed

section \<open>The pipeline operations\<close>

lemma concat_map_Nil: "concat (map (\<lambda>_. []) xs) = []"
  by (induction xs) simp_all

lemma pendingPeers_resolve [simp]: "pendingPeers (r\<lparr>if_resolved := b, if_err := x\<rparr>) = pendingPeers r"
  by (simp add: pendingPeers_def split: option.split)

lemma arec_removePending:
  assumes "rec_wf r" "(p, if_epoch r, if_seq r) \<in> R"
  shows "rec_step R (arec r) (arec (removePending p r)) []"
proof -
  let ?D = "set (pendingPeers r) - set (pendingPeers (removePending p r))"
  note M = pendingPeers_removePending(1) [OF assms(1), of p]
  have sub: "set (pendingPeers (removePending p r)) \<subseteq> set (pendingPeers r)"
    by (metis M set_mset_mset set_mset_mono diff_subset_eq_self)
  have "q \<in> set (pendingPeers (removePending p r))" if "q \<in> set (pendingPeers r)" "q \<noteq> p" for q
  proof -
    have "q \<in># mset (pendingPeers r) - {#p#}" using that by (simp add: in_diff_count)
    then show ?thesis using M by (metis set_mset_mset)
  qed
  then have D: "\<forall>q\<in>?D. (q, if_epoch r, if_seq r) \<in> R" using assms(2) by auto
  have "set (pendingPeers (removePending p r)) = set (pendingPeers r) - ?D" using sub by auto
  then show ?thesis using D unfolding rec_step_def arec_def by (intro disjI2 exI [of _ ?D]) simp
qed

lemma flush_qsteps:
  assumes "pipe_wf e"
  shows "qsteps (e_commitLevel e) (lease_ok now e) (absQ A R e) (absQ A R (flushEpochLocked now m e))"
proof -
  obtain q c d where s: "sweep_spec (lease_ok now e) (e_commitLevel e) (map (flush_rec m) (fifo e)) (e_committed e) = (q, c, d)"
    by (metis prod_cases3)
  have f: "fifo (flushEpochLocked now m e) = q" "e_committed (flushEpochLocked now m e) = c"
    "e_done (flushEpochLocked now m e) = (e_done e @ concat (map (flush_done m) (fifo e))) @ d"
    using flush_refines [OF assms, of now m] s by auto
  have "rec_step R (arec r) (arec (flush_rec m r)) (flush_done m r)" for r
    by (auto simp: rec_step_def arec_def flush_rec_def flush_done_def resolve_rec_def resolve_done_def)
  then show ?thesis
    using rtranclp_trans [OF qsteps_map [where ps = "[]", simplified] sweep_spec_run [OF s, simplified]] f
    by (simp add: absQ_def)
qed

lemma shrink_qsteps:
  assumes wf: "pipe_wf e" and R: "\<And>p s. p \<notin> set I \<Longrightarrow> (p, epoch, s) \<in> R"
  shows "qsteps (e_commitLevel e) (lease_ok now e) (absQ A R e) (absQ A R (ShrinkISR now epoch I e))"
proof (cases "epoch = e_epoch e \<and> e_leaseEpoch e = epoch")
  case True
  then have ep: "epoch = e_epoch e" "e_leaseEpoch e = epoch" by auto
  obtain q c d where s: "sweep_spec (lease_ok now e) (e_commitLevel e) (map (narrow_rec epoch I) (fifo e)) (e_committed e) = (q, c, d)"
    by (metis prod_cases3)
  have f: "fifo (ShrinkISR now epoch I e) = q" "e_committed (ShrinkISR now epoch I e) = c"
    "e_done (ShrinkISR now epoch I e) = e_done e @ d"
    using shrink_refines(1) [OF wf ep, of now I] s by auto
  have n: "rec_step R (arec r) (arec (narrow_rec epoch I r)) []" if "r \<in> set (fifo e)" for r
  proof -
    have "rec_wf r" using wf that by (auto simp: pipe_wf_def list_all_iff)
    note N = narrow_rec [OF this, of epoch I]
    let ?D = "if if_epoch r = epoch then - set I else {}"
    have "set (pendingPeers (narrow_rec epoch I r)) = set (pendingPeers r) - ?D"
      using arg_cong [OF N(5), of set_mset] by (auto split: if_splits)
    moreover have "\<forall>p\<in>?D. (p, if_epoch r, if_seq r) \<in> R" using R by auto
    ultimately show ?thesis using N(2-4) unfolding rec_step_def arec_def
      by (intro disjI2 exI [of _ ?D]) simp
  qed
  show ?thesis
    using rtranclp_trans [OF qsteps_map [where ps = "[]" and rs = "fifo e" and g = "narrow_rec epoch I" and h = "\<lambda>_. []",
        OF n, simplified] sweep_spec_run [OF s, simplified], of A "e_done e"] f
    by (simp add: absQ_def concat_map_Nil)
qed (auto simp: ShrinkISR_def)

lemma absQ_update:
  assumes wf: "pipe_wf e" and i: "i < e_inflightN e"
    and f: "if_seq (f (fifo e ! i)) = if_seq (fifo e ! i)" "rec_wf (f (fifo e ! i))"
    and st: "rec_step R (arec (fifo e ! i)) (arec (f (fifo e ! i))) []"
  shows "qsteps lv L (absQ A R e) (absQ A R (updSlot (slot e i) f e)) \<and> pipe_wf (updSlot (slot e i) f e)"
proof -
  note U = fifo_updSlot [OF wf i, of f, OF f]
  have "absQ A R (updSlot (slot e i) f e) = (absQ A R e)\<lparr>cq_recs := (cq_recs (absQ A R e))[i := arec (f (fifo e ! i))],
      cq_outcomes := cq_outcomes (absQ A R e) @ []\<rparr>"
    using U by (simp add: absQ_def map_update)
  then show ?thesis using qsteps_update [of i "absQ A R e" "arec (f (fifo e ! i))" "[]" lv L] st i U
    by (simp add: absQ_def)
qed

lemma located_remove:
  assumes wf: "pipe_wf e" and ix: "inflightIndexLocked s e = Some k" and rc: "e_inflightRing e ! k = Some rec"
    and R: "(peer, if_epoch rec, s) \<in> R"
  shows "qsteps lv L (absQ A R e) (absQ A R (updSlot k (removePending peer) e)) \<and>
    pipe_wf (updSlot k (removePending peer) e)"
proof -
  obtain i where i: "i < e_inflightN e" "k = slot e i" "if_seq (fifo e ! i) = s"
    using inflightIndex_sound [OF wf ix] by blast
  have r: "rec = fifo e ! i" "rec_wf (fifo e ! i)"
    using fifo_slot [OF wf i(1)] rc i(2) wf i(1) by (auto simp: pipe_wf_def list_all_length)
  show ?thesis using absQ_update [OF wf i(1), of "removePending peer" R] r i R
      arec_removePending [OF r(2), of peer R] pendingPeers_removePending(2) [OF r(2)] by simp
qed

lemma located_resolve:
  assumes wf: "pipe_wf e" and ix: "inflightIndexLocked s e = Some k"
  shows "qsteps lv L (absQ A R e) (absQ A R (resolveLocked k (Some err) e)) \<and>
    pipe_wf (resolveLocked k (Some err) e)"
proof -
  obtain i where i: "i < e_inflightN e" "k = slot e i"
    using inflightIndex_sound [OF wf ix] by blast
  note V = fifo_resolve [OF wf i(1), of "Some err"]
  have "rec_step R (arec (fifo e ! i)) (arec (resolve_rec (Some err) (fifo e ! i))) (resolve_done (Some err) (fifo e ! i))"
    by (auto simp: rec_step_def arec_def resolve_rec_def resolve_done_def)
  moreover have "absQ A R (resolveLocked k (Some err) e) =
      (absQ A R e)\<lparr>cq_recs := (cq_recs (absQ A R e))[i := arec (resolve_rec (Some err) (fifo e ! i))],
        cq_outcomes := cq_outcomes (absQ A R e) @ resolve_done (Some err) (fifo e ! i)\<rparr>"
    using V i(2) by (simp add: absQ_def map_update)
  ultimately show ?thesis using qsteps_update [of i "absQ A R e" _ _ lv L] i V(2)
    by (simp add: absQ_def)
qed

lemma ack_qsteps:
  assumes wf: "pipe_wf e" and R: "a_OK ack \<Longrightarrow> (peer, a_Epoch ack, a_Seq ack) \<in> R"
  shows "qsteps (e_commitLevel e) (lease_ok now e) (absQ A R e) (absQ A R (ackInflightLocked now peer ack e))"
proof -
  let ?e = "ack_pre peer ack e"
  have p: "pipe_wf ?e" "pipe_frame e ?e" using ack_pre_queue [OF wf, of peer ack] by auto
  have "qsteps (e_commitLevel e) (lease_ok now e) (absQ A R e) (absQ A R ?e)"
    using located_remove [OF wf, of "a_Seq ack"] R by (auto simp: ack_pre_def split: option.splits)
  moreover have "lease_ok now ?e = lease_ok now e" "e_commitLevel ?e = e_commitLevel e"
    using pipe_frameD [OF p(2)] by (auto simp: lease_ok_def fun_eq_iff)
  ultimately show ?thesis using sweep_qsteps [OF p(1), of now A R] unfolding ackInflightLocked_eq by simp
qed

end
