(* ===== verification/EngineRun.thy ===== *)
theory EngineRun
  imports EngineSnapshot CommitQueue
begin

text \<open>
  Runs of one engine: any interleaving of its operations (each is one critical section of the
  code), the engine invariant, and the refinement of every run to the commit-queue machine of
  \<open>CommitQueue\<close>: which writes are admitted, which acknowledgements and shrinks release them, and
  what outcome each of them gets.
\<close>

section \<open>Operations and runs\<close>

datatype engineOp =
    DoAdopt int u64
  | DoGrant int u64 int
  | DoPromote int u64 int
  | DoPropose "node \<Rightarrow> ReplicateMsg \<Rightarrow> bool" node "node list" int int int bytes
  | DoTimeout u64 u64
  | DoComplete int node ReplicateMsg "pbError + AckMsg"
  | DoCompleteGroup int node u64 u64 u64 "pbError + AckMsg"
  | DoReceive int ReplicateMsg
  | DoReceiveGroup int "ReplicateMsg list"
  | DoSnapshotChunk int SnapshotChunk
  | DoShrink int u64 "node list"
  | DoGrow u64 "node list"
  | DoFlip int node u64 u64
  | DoAbort node
  | DoReclaim
  | DoTeardown
  | DoSend bool node
  | DoShutdown bool

fun engine_exec :: "'s applier \<Rightarrow> 's SnapshotStore option \<Rightarrow> engineOp \<Rightarrow> 's Engine \<Rightarrow> 's Engine" where
  "engine_exec ap oss (DoAdopt now epoch) e = AdoptEpoch now epoch e"
| "engine_exec ap oss (DoGrant now epoch expiry) e = GrantLease now epoch expiry e"
| "engine_exec ap oss (DoPromote now epoch expiry) e = Promote now epoch expiry e"
| "engine_exec ap oss (DoPropose inl primary isr minISR now now' data) e =
     fst (proposeSequenced ap inl primary isr minISR now now' data e)"
| "engine_exec ap oss (DoTimeout epoch seq) e = proposeTimeout epoch seq e"
| "engine_exec ap oss (DoComplete now peer msg res) e = completeSend now peer msg res e"
| "engine_exec ap oss (DoCompleteGroup now peer epoch f l res) e = completeGroupSend now peer epoch f l res e"
| "engine_exec ap oss (DoReceive now msg) e = fst (Receive ap now msg e)"
| "engine_exec ap oss (DoReceiveGroup now msgs) e = fst (ReceiveGroup ap now msgs e)"
| "engine_exec ap oss (DoSnapshotChunk now c) e = fst (ReceiveSnapshotChunk oss now c e)"
| "engine_exec ap oss (DoShrink now epoch isr) e = ShrinkISR now epoch isr e"
| "engine_exec ap oss (DoGrow epoch isr) e = GrowISR epoch isr e"
| "engine_exec ap oss (DoFlip now peer E k) e = (case flipOnce now peer E k e of FlipDone e' \<Rightarrow> e' | _ \<Rightarrow> e)"
| "engine_exec ap oss (DoAbort peer) e = AbortLearnerCatchup peer e"
| "engine_exec ap oss DoReclaim e = ReclaimOrphanLearners e"
| "engine_exec ap oss DoTeardown e = TeardownLearners e"
| "engine_exec ap oss (DoSend grp peer) e = runSender grp peer e"
| "engine_exec ap oss (DoShutdown grp) e = Shutdown grp e"

fun engine_run :: "'s applier \<Rightarrow> 's SnapshotStore option \<Rightarrow> engineOp list \<Rightarrow> 's Engine \<Rightarrow> 's Engine" where
  "engine_run ap oss [] e = e"
| "engine_run ap oss (op # ops) e = engine_run ap oss ops (engine_exec ap oss op e)"

text \<open>The peers a write admitted now has to wait for.\<close>

definition requiredPeers :: "node list \<Rightarrow> 's Engine \<Rightarrow> node list" where
  "requiredPeers isr e = (let peers0 = distinctPeers (e_nodeID e) isr
     in if e_effISREpoch e = e_epoch e then intersectPeers peers0 (e_effISR e) else peers0)"

definition admits :: "'s applier \<Rightarrow> engineOp \<Rightarrow> 's Engine \<Rightarrow> (u64 \<times> u64 \<times> node set) list" where
  "admits ap op e = (case op of
     DoPropose inl primary isr minISR now now' data \<Rightarrow>
       (case snd (proposeSequenced ap inl primary isr minISR now now' data e) of
          ProposeSeq s _ \<Rightarrow> [(e_epoch e, s, set (requiredPeers isr e))] | _ \<Rightarrow> [])
   | _ \<Rightarrow> [])"

fun admitted :: "'s applier \<Rightarrow> 's SnapshotStore option \<Rightarrow> engineOp list \<Rightarrow> 's Engine \<Rightarrow> (u64 \<times> u64 \<times> node set) list" where
  "admitted ap oss [] e = []"
| "admitted ap oss (op # ops) e = admits ap op e @ admitted ap oss ops (engine_exec ap oss op e)"

text \<open>The releases an operation brings: a positive acknowledgement of exactly the frame it answers,
  the credited prefix of a group, a shrink that drops the peer.\<close>

definition releases :: "engineOp \<Rightarrow> (node \<times> u64 \<times> u64) set" where
  "releases op = (case op of
     DoComplete now peer msg (Inr ack) \<Rightarrow>
       (if a_OK ack \<and> a_Epoch ack = m_Epoch msg \<and> a_Seq ack = m_Seq msg
        then {(peer, a_Epoch ack, a_Seq ack)} else {})
   | DoCompleteGroup now peer epoch f l res \<Rightarrow>
       {(peer, epoch, s) |s. s \<in> set (seqRange f l) \<and> s \<le> groupCredit epoch f l res}
   | DoShrink now epoch isr \<Rightarrow> {(p, epoch, s) |p s. p \<notin> set isr}
   | _ \<Rightarrow> {})"

definition released :: "engineOp list \<Rightarrow> (node \<times> u64 \<times> u64) set" where
  "released ops = (\<Union>op\<in>set ops. releases op)"

text \<open>What the environment guarantees of an operation in a state. A promotion that takes effect
  finds the node's own proposals covered by what it received; a node receives no frame and no
  snapshot of the epoch it holds a lease for; sequence numbers do not reach the end of 64 bits.\<close>

definition op_ok :: "engineOp \<Rightarrow> 's Engine \<Rightarrow> bool" where
  "op_ok op e = (case op of
     DoPromote now epoch expiry \<Rightarrow> epoch \<le> e_epoch e \<or> e_poisoned e \<or> e_lastSeq e \<le> e_lastApplied e
   | DoPropose inl primary isr minISR now now' data \<Rightarrow> uint (fst (appliedFrontierLocked e)) + 1 < 2 ^ 64
   | DoReceive now msg \<Rightarrow> m_Epoch msg \<noteq> e_leaseEpoch e \<and> uint (fst (appliedFrontierLocked e)) + 1 < 2 ^ 64
   | DoReceiveGroup now msgs \<Rightarrow> (\<forall>m\<in>set msgs. m_Epoch m \<noteq> e_leaseEpoch e) \<and>
       uint (fst (appliedFrontierLocked e)) + int (length msgs) < 2 ^ 64
   | DoSnapshotChunk now c \<Rightarrow> sc_Epoch c \<noteq> e_leaseEpoch e
   | _ \<Rightarrow> True)"

lemma uint_room: "uint (x :: u64) + int n < 2 ^ 64 \<longleftrightarrow> unat x + n < 2 ^ 64"
proof -
  have "uint x + int n = int (unat x + n)" by simp
  also have "\<dots> < 2 ^ 64 \<longleftrightarrow> unat x + n < 2 ^ 64" by (metis of_nat_less_iff of_nat_numeral of_nat_power)
  finally show ?thesis .
qed

lemma op_okD:
  "op_ok (DoPropose inl primary isr minISR now now' data) e \<Longrightarrow> unat (fst (appliedFrontierLocked e)) + 1 < 2 ^ 64"
  "op_ok (DoReceive now msg) e \<Longrightarrow>
     m_Epoch msg \<noteq> e_leaseEpoch e \<and> unat (fst (appliedFrontierLocked e)) + 1 < 2 ^ 64"
  "op_ok (DoReceiveGroup now msgs) e \<Longrightarrow> (\<forall>m\<in>set msgs. m_Epoch m \<noteq> e_leaseEpoch e) \<and>
     unat (fst (appliedFrontierLocked e)) + length msgs < 2 ^ 64"
  unfolding op_ok_def engineOp.case of_nat_1 [symmetric, where ?'a = int] uint_room by simp_all

fun run_ok :: "'s applier \<Rightarrow> 's SnapshotStore option \<Rightarrow> engineOp list \<Rightarrow> 's Engine \<Rightarrow> bool" where
  "run_ok ap oss [] e = True"
| "run_ok ap oss (op # ops) e = (op_ok op e \<and> run_ok ap oss ops (engine_exec ap oss op e))"

section \<open>What the operations leave alone\<close>

text \<open>The part of the state the commit protocol rests on: everything but the senders, the learner
  and failure bookkeeping, the ISR override, the staged snapshot and the output logs.\<close>

definition core :: "'s Engine \<Rightarrow> 's Engine" where
  "core e = e\<lparr>e_peerQ := [], e_wire := [], e_learners := [], e_abandonedLearners := [],
     e_learnerTeardown := [], e_closed := False, e_peerFailures := [], e_peerAcked := [],
     e_effISR := [], e_effISREpoch := 0, e_snapStage := None, e_sink := [], e_released := []\<rparr>"

lemma core_fields [simp]:
  "e_nodeID (core e) = e_nodeID e" "e_epoch (core e) = e_epoch e" "e_leaseEpoch (core e) = e_leaseEpoch e"
  "e_leaseExpiry (core e) = e_leaseExpiry e" "e_lastSeq (core e) = e_lastSeq e"
  "e_committed (core e) = e_committed e" "e_lastApplied (core e) = e_lastApplied e"
  "e_lastSeqEpoch (core e) = e_lastSeqEpoch e" "e_lastAppliedEpoch (core e) = e_lastAppliedEpoch e"
  "e_backlog (core e) = e_backlog e" "e_commitLevel (core e) = e_commitLevel e"
  "e_inflightRing (core e) = e_inflightRing e" "e_inflightHead (core e) = e_inflightHead e"
  "e_inflightN (core e) = e_inflightN e" "e_baseSeq (core e) = e_baseSeq e"
  "e_poisoned (core e) = e_poisoned e" "e_done (core e) = e_done e" "e_fsm (core e) = e_fsm e"
  by (simp_all add: core_def)

lemma fields_core:
  assumes "core e' = core e"
  shows "e_nodeID e' = e_nodeID e" "e_epoch e' = e_epoch e" "e_leaseEpoch e' = e_leaseEpoch e"
    "e_leaseExpiry e' = e_leaseExpiry e" "e_lastSeq e' = e_lastSeq e" "e_committed e' = e_committed e"
    "e_lastApplied e' = e_lastApplied e" "e_lastSeqEpoch e' = e_lastSeqEpoch e"
    "e_lastAppliedEpoch e' = e_lastAppliedEpoch e" "e_backlog e' = e_backlog e"
    "e_commitLevel e' = e_commitLevel e" "e_inflightRing e' = e_inflightRing e"
    "e_inflightHead e' = e_inflightHead e" "e_inflightN e' = e_inflightN e" "e_baseSeq e' = e_baseSeq e"
    "e_poisoned e' = e_poisoned e" "e_done e' = e_done e" "e_fsm e' = e_fsm e"
  using assms by (metis core_fields)+

lemma core_simps [simp]:
  "core (dropPeerLocked p e) = core e" "core (clearEffISRLocked e) = core e"
  "core (clearLearnersLocked e) = core e" "core (notePeerFailureLocked p e) = core e"
  "core (notePeerSuccessLocked p e) = core e" "core (creditPeerAckedLocked p s e) = core e"
  "core (markLearnerAbandonedLocked p s e) = core e" "core (noteFrontierLocked e) = core e"
  "core (submitPeerLocked inl p m e) = core e" "core (runSender grp p e) = core e"
  "core (Shutdown grp e) = core e" "core (GrowISR ep isr e) = core e"
  "core (createLearnerSenderLocked p ms e) = core e"
  by (simp_all add: core_def dropPeerLocked_def clearEffISRLocked_def clearLearnersLocked_def
      notePeerFailureLocked_def notePeerSuccessLocked_def creditPeerAckedLocked_def
      markLearnerAbandonedLocked_def noteFrontierLocked_def submitPeerLocked_def runSender_def
      Shutdown_def GrowISR_def createLearnerSenderLocked_def Let_def split: option.split prod.split)

lemma core_updates [simp]:
  "core (e\<lparr>e_snapStage := x\<rparr>) = core e" "core (e\<lparr>e_learners := l\<rparr>) = core e"
  "core (e\<lparr>e_learnerTeardown := t\<rparr>) = core e" "core (e\<lparr>e_abandonedLearners := a\<rparr>) = core e"
  "core (e\<lparr>e_peerQ := q\<rparr>) = core e" "core (e\<lparr>e_released := r\<rparr>) = core e"
  by (simp_all add: core_def)

lemma core_foldl: "(\<And>e x. core (f e x) = core e) \<Longrightarrow> core (foldl f e xs) = core e"
  by (induction xs arbitrary: e) auto

lemma core_learner [simp]:
  "core (submitLearnerLocked p m e) = core e" "core (AbortLearnerCatchup p e) = core e"
  "core (ReclaimOrphanLearners e) = core e" "core (TeardownLearners e) = core e"
  by (simp_all add: submitLearnerLocked_def AbortLearnerCatchup_def ReclaimOrphanLearners_def
      TeardownLearners_def Let_def core_foldl split: option.split)

lemma core_flip: "flipOnce now peer E k e = FlipDone e' \<Longrightarrow> core e' = core e"
  by (auto simp: flipOnce_def Let_def core_def createLearnerSenderLocked_def dropPeerLocked_def
      split: if_splits option.splits)

text \<open>The queue depends on the core only.\<close>

lemma queue_core:
  assumes "core e' = core e"
  shows "fifo e' = fifo e" "pipe_wf e' = pipe_wf e" "absQ A R e' = absQ A R e" "lease_ok now e' = lease_ok now e"
    "appliedFrontierLocked e' = appliedFrontierLocked e" "windowFullLocked e' = windowFullLocked e"
  using fields_core [OF assms]
  by (simp_all add: fifo_def pipe_wf_def slot_def absQ_def lease_ok_def fun_eq_iff appliedFrontierLocked_def
      windowFullLocked_def cong: if_cong)

lemma pipe_eqI:
  assumes "e_inflightRing e' = e_inflightRing e" "e_inflightHead e' = e_inflightHead e"
    "e_inflightN e' = e_inflightN e" "e_baseSeq e' = e_baseSeq e"
  shows "fifo e' = fifo e" "pipe_wf e' = pipe_wf e"
  using assms by (simp_all add: fifo_def pipe_wf_def slot_def)

section \<open>The engine invariant\<close>

text \<open>\<open>A\<close> are the writes admitted so far. Whatever is in flight belongs to the engine's current
  epoch, whose lease it holds, is the gap-free tail of its own proposals, lies above everything
  received or committed, and fits the window; nothing is committed past the applied frontier; the
  lease never runs ahead of the epoch; the writes admitted at the current epoch are not above the
  last proposal.\<close>

definition inflight_inv :: "'s Engine \<Rightarrow> bool" where
  "inflight_inv e = (pipe_wf e \<and> (\<forall>r\<in>set (fifo e). if_epoch r = e_epoch e) \<and>
     (fifo e \<noteq> [] \<longrightarrow> e_leaseEpoch e = e_epoch e \<and>
        unat (e_lastSeq e) + 1 = unat (e_baseSeq e) + e_inflightN e \<and>
        e_lastApplied e < e_baseSeq e \<and> e_committed e < e_baseSeq e \<and> e_inflightN e \<le> pipelineWindow))"

definition admit_inv :: "(u64 \<times> u64 \<times> node set) list \<Rightarrow> 's Engine \<Rightarrow> bool" where
  "admit_inv A e = (\<forall>(ep, s, _)\<in>set A. ep \<le> e_epoch e \<and>
     (ep = e_epoch e \<longrightarrow> e_leaseEpoch e = e_epoch e \<and> s \<le> e_lastSeq e))"

definition eng_inv :: "(u64 \<times> u64 \<times> node set) list \<Rightarrow> 's Engine \<Rightarrow> bool" where
  "eng_inv A e = (inflight_inv e \<and> e_leaseEpoch e \<le> e_epoch e \<and>
     e_committed e \<le> fst (appliedFrontierLocked e) \<and> admit_inv A e)"

lemma frontier_max: "fst (appliedFrontierLocked e) = max (e_lastSeq e) (e_lastApplied e)"
  by (auto simp: appliedFrontierLocked_def max_def)

lemma keys_absQ: "map qkey (cq_recs (absQ A R e)) = map (\<lambda>r. (if_epoch r, if_seq r)) (fifo e)"
  by (simp add: absQ_def qkey_def arec_def)

lemma inflight_seq:
  assumes "inflight_inv e" "i < e_inflightN e"
  shows "unat (if_seq (fifo e ! i)) = unat (e_baseSeq e) + i" "if_seq (fifo e ! i) \<le> e_lastSeq e"
    "if_epoch (fifo e ! i) = e_epoch e"
proof -
  have ne: "fifo e \<noteq> []" using assms(2) by (metis length_fifo length_0_conv not_less_zero)
  have s: "if_seq (fifo e ! i) = e_baseSeq e + of_nat i" using assms by (simp add: inflight_inv_def pipe_wf_def)
  have b: "unat (e_baseSeq e) + i \<le> unat (e_lastSeq e)"
    using assms ne unfolding inflight_inv_def by linarith
  then have i: "unat (e_baseSeq e) + i < 2 ^ 64" using unat_lt [of "e_lastSeq e"] by simp
  then show u: "unat (if_seq (fifo e ! i)) = unat (e_baseSeq e) + i"
    unfolding s by (simp add: unat_word_ariths unat_of_nat)
  show "if_seq (fifo e ! i) \<le> e_lastSeq e" using b u by (simp add: word_le_nat_alt)
  show "if_epoch (fifo e ! i) = e_epoch e" using assms by (simp add: inflight_inv_def)
qed

lemma inflight_work:
  assumes inv: "inflight_inv e" and wf: "pipe_wf e'" and sh: "q_shape L (absQ A R e) (absQ A R e')"
    and same: "e_epoch e' = e_epoch e" "e_leaseEpoch e' = e_leaseEpoch e" "e_lastSeq e' = e_lastSeq e"
      "e_lastApplied e' = e_lastApplied e"
  shows "inflight_inv e'" "e_committed e' = e_committed e \<or> e_committed e' \<le> e_lastSeq e"
proof -
  let ?K = "\<lambda>e. map (\<lambda>r. (if_epoch r, if_seq r)) (fifo e)"
  obtain k where k: "k \<le> e_inflightN e" "?K e' = drop k (?K e)"
    and c: "e_committed e' = e_committed e \<or> e_committed e' \<in> snd ` set (take k (?K e))"
    using sh unfolding q_shape_def keys_absQ by (auto simp: absQ_def)
  have n: "e_inflightN e' = e_inflightN e - k" using arg_cong [OF k(2), of length] by simp
  have c2: "\<exists>j<k. e_committed e' = if_seq (fifo e ! j)" if "e_committed e' \<noteq> e_committed e"
  proof -
    have "e_committed e' \<in> snd ` set (take k (?K e))" using c that by blast
    then obtain j where "j < k" "e_committed e' = if_seq (fifo e ! j)"
      using k(1) by (force simp: in_set_conv_nth)
    then show ?thesis by blast
  qed
  show cm: "e_committed e' = e_committed e \<or> e_committed e' \<le> e_lastSeq e"
  proof (cases "e_committed e' = e_committed e")
    case False
    then obtain j where "j < k" "e_committed e' = if_seq (fifo e ! j)" using c2 by blast
    then show ?thesis using inflight_seq(2) [OF inv, of j] k(1) by simp
  qed simp
  have nth: "(if_epoch (fifo e' ! i), if_seq (fifo e' ! i)) = (if_epoch (fifo e ! (k + i)), if_seq (fifo e ! (k + i)))"
    if "i < e_inflightN e'" for i
    using arg_cong [OF k(2), of "\<lambda>xs. xs ! i"] that n k(1) by simp
  have ep: "if_epoch r = e_epoch e'" if r: "r \<in> set (fifo e')" for r
  proof -
    obtain i where "i < e_inflightN e'" "fifo e' ! i = r" using r by (auto simp: in_set_conv_nth)
    then show ?thesis using nth [of i] n inflight_seq(3) [OF inv, of "k + i"] same(1) by simp
  qed
  show "inflight_inv e'"
  proof (cases "e_inflightN e' = 0")
    case True
    then have "fifo e' = []" by (simp add: fifo_def)
    then show ?thesis using wf by (simp add: inflight_inv_def)
  next
    case False
    then have kn: "k < e_inflightN e" using n by simp
    then have ne: "fifo e \<noteq> []" by (metis length_fifo list.size(3) not_less_zero)
    have "if_seq (fifo e' ! 0) = e_baseSeq e'" using wf False by (simp add: pipe_wf_def)
    then have b: "unat (e_baseSeq e') = unat (e_baseSeq e) + k"
      using nth [of 0] False inflight_seq(1) [OF inv kn] by simp
    have "e_committed e' < e_baseSeq e'"
    proof (cases "e_committed e' = e_committed e")
      case True
      then show ?thesis using inv ne b by (simp add: inflight_inv_def word_less_nat_alt)
    next
      case False
      then obtain j where "j < k" "e_committed e' = if_seq (fifo e ! j)" using c2 by blast
      then show ?thesis using inflight_seq(1) [OF inv, of j] kn b by (simp add: word_less_nat_alt)
    qed
    then show ?thesis using inv ne wf ep same n b k(1)
      by (auto simp: inflight_inv_def word_less_nat_alt)
  qed
qed

text \<open>The operations that only work on the queue.\<close>

definition same_marks :: "'s Engine \<Rightarrow> 's Engine \<Rightarrow> bool" where
  "same_marks e e' = (e_epoch e' = e_epoch e \<and> e_leaseEpoch e' = e_leaseEpoch e \<and>
     e_lastSeq e' = e_lastSeq e \<and> e_lastApplied e' = e_lastApplied e)"

lemma eng_inv_work:
  assumes inv: "eng_inv A e" and wf: "pipe_wf e'" and q: "qsteps lv L (absQ A R e) (absQ A R e')"
    and same: "same_marks e e'"
  shows "eng_inv A e'"
proof -
  note W = inflight_work [OF _ wf qsteps_shape [OF q]]
  have "inflight_inv e'" "e_committed e' = e_committed e \<or> e_committed e' \<le> e_lastSeq e"
    using W inv same by (auto simp: eng_inv_def same_marks_def)
  moreover have "e_committed e' \<le> fst (appliedFrontierLocked e')"
    using calculation(2) inv same unfolding eng_inv_def same_marks_def frontier_max
    by (elim disjE) (auto simp: le_max_iff_disj)
  ultimately show ?thesis using inv same
    by (simp add: eng_inv_def same_marks_def admit_inv_def)
qed

lemma same_marks_frame: "pipe_frame e e' \<Longrightarrow> same_marks e e'"
  using pipe_frameD [of e e'] by (simp add: same_marks_def)

lemma eng_inv_core:
  assumes "core e' = core e"
  shows "eng_inv A e' = eng_inv A e"
  by (simp add: eng_inv_def inflight_inv_def admit_inv_def queue_core [OF assms] fields_core [OF assms])

end
