(* ===== verification/EngineInv.thy ===== *)
theory EngineInv
  imports EngineRun
begin

text \<open>
  Every operation of the engine keeps the engine invariant and is a run of the commit-queue
  machine: the operations on the queue alone, the changes of epoch, the write path and the receive
  paths, then whole runs.
\<close>

section \<open>Good steps\<close>

text \<open>A step that admits the writes \<open>A' - A\<close> and brings the releases \<open>X\<close>.\<close>

definition step_good :: "(u64 \<times> u64 \<times> node set) list \<Rightarrow> (u64 \<times> u64 \<times> node set) list \<Rightarrow>
    (node \<times> u64 \<times> u64) set \<Rightarrow> (node \<times> u64 \<times> u64) set \<Rightarrow> 's Engine \<Rightarrow> 's Engine \<Rightarrow> bool" where
  "step_good A A' R X e e' = (eng_inv A' e' \<and> e_commitLevel e' = e_commitLevel e \<and>
     (qrun (e_commitLevel e))\<^sup>*\<^sup>* (absQ A R e) (absQ A' (R \<union> X) e'))"

lemma step_good_trans:
  "step_good A A1 R X e e1 \<Longrightarrow> step_good A1 A2 (R \<union> X) Y e1 e2 \<Longrightarrow> step_good A A2 R (X \<union> Y) e e2"
  by (auto simp: step_good_def Un_assoc)

lemma step_good_trans0:
  "step_good A A R {} e e1 \<Longrightarrow> step_good A A2 R Y e1 e2 \<Longrightarrow> step_good A A2 R Y e e2"
  using step_good_trans [of A A R "{}" e e1 A2 Y e2] by simp

lemma step_good_core:
  assumes "eng_inv A e" "core e' = core e"
  shows "step_good A A R {} e e'"
  unfolding step_good_def eng_inv_core [OF assms(2)] queue_core(3) [OF assms(2)] fields_core(11) [OF assms(2)]
  using assms(1) by simp

lemma step_goodD: "step_good A A' R X e e' \<Longrightarrow> eng_inv A' e'"
  by (simp add: step_good_def)

lemma run_note: "(qrun lv)\<^sup>*\<^sup>* (absQ A R e) (absQ A (R \<union> X) e)"
  using qr_note [of lv "absQ A R e" X] by (simp add: absQ_def r_into_rtranclp)

lemma step_good_work:
  assumes "eng_inv A e" "pipe_wf e'" "same_marks e e'" "e_commitLevel e' = e_commitLevel e"
    and q: "qsteps (e_commitLevel e) L (absQ A (R \<union> X) e) (absQ A (R \<union> X) e')"
  shows "step_good A A R X e e'"
  unfolding step_good_def
  using assms eng_inv_work [OF assms(1,2) q assms(3)]
    rtranclp_trans [OF run_note [of "e_commitLevel e" A R e X] qsteps_run [OF q]] by blast

lemma step_good_frame:
  assumes "eng_inv A e" "pipe_wf e'" "pipe_frame e e'"
    and q: "qsteps (e_commitLevel e) L (absQ A (R \<union> X) e) (absQ A (R \<union> X) e')"
  shows "step_good A A R X e e'"
  using step_good_work [OF assms(1,2) same_marks_frame [OF assms(3)] _ q] pipe_frameD(12) [OF assms(3)] by blast

lemma step_good_refl: "eng_inv A e \<Longrightarrow> step_good A A R X e e"
  using step_good_frame [of A e e "\<lambda>_. True" R X] by (simp add: eng_inv_def inflight_inv_def)

lemma eng_wf: "eng_inv A e \<Longrightarrow> pipe_wf e"
  by (simp add: eng_inv_def inflight_inv_def)

section \<open>Operations on the queue\<close>

lemma sweep_wf: "pipe_wf e \<Longrightarrow> pipe_wf (sweepLocked now e)"
  using sweep_refines by blast

lemma sweep_good: "eng_inv A e \<Longrightarrow> step_good A A R X e (sweepLocked now e)"
  using step_good_frame [OF _ sweep_wf pipe_frame_sweep sweep_qsteps] eng_wf by blast

lemma ack_good:
  assumes "eng_inv A e" "a_OK ack \<Longrightarrow> (peer, a_Epoch ack, a_Seq ack) \<in> R \<union> X"
  shows "step_good A A R X e (ackInflightLocked now peer ack e)"
proof (rule step_good_frame [OF assms(1) _ pipe_frame_ack ack_qsteps])
  show "pipe_wf (ackInflightLocked now peer ack e)"
    using ack_pre_queue [OF eng_wf [OF assms(1)]] sweep_wf unfolding ackInflightLocked_eq by blast
qed (use assms eng_wf in auto)

lemma resolve_good:
  "eng_inv A e \<Longrightarrow> inflightIndexLocked s e = Some i \<Longrightarrow> step_good A A R X e (resolveLocked i (Some err) e)"
  using step_good_frame [OF _ _ pipe_frame_resolve] located_resolve eng_wf by blast

lemma timeout_good: "eng_inv A e \<Longrightarrow> step_good A A R {} e (proposeTimeout epoch seq e)"
  by (auto simp: proposeTimeout_def resolve_good step_good_refl split: option.split)

lemma shrink_good:
  assumes "eng_inv A e" "\<And>p s. p \<notin> set I \<Longrightarrow> (p, epoch, s) \<in> X"
  shows "step_good A A R X e (ShrinkISR now epoch I e)"
proof (cases "epoch = e_epoch e \<and> e_leaseEpoch e = epoch")
  case True
  then have ep: "epoch = e_epoch e" "e_leaseEpoch e = epoch" by auto
  note S = shrink_refines [OF eng_wf [OF assms(1)] ep, of now I]
  have m: "same_marks e (ShrinkISR now epoch I e)" "e_commitLevel (ShrinkISR now epoch I e) = e_commitLevel e"
    using pipe_frameD [OF S(4)] by (simp_all add: same_marks_def)
  show ?thesis using step_good_work [OF assms(1) _ m shrink_qsteps [OF eng_wf [OF assms(1)]]] S(1) assms(2) by blast
next
  case False
  then show ?thesis using step_good_work [OF assms(1), of e] eng_wf [OF assms(1)]
    by (auto simp: ShrinkISR_def same_marks_def)
qed

lemma complete_fail_good: "eng_inv A e \<Longrightarrow> step_good A A R X e (completeSendFail now peer msg e)"
proof -
  assume inv: "eng_inv A e"
  let ?e = "notePeerFailureLocked peer e"
  have g: "step_good A A R {} e ?e" using step_good_core [OF inv] by simp
  then have inv1: "eng_inv A ?e" by (rule step_goodD)
  note X = step_good_refl [OF inv1, of R X]
  show ?thesis
  proof (cases "inflightIndexLocked (m_Seq msg) ?e")
    case None
    then show ?thesis using step_good_trans0 [OF g X] by (simp add: completeSendFail_def)
  next
    case (Some i)
    have r: "step_good A A R {} ?e (resolveLocked i (Some ErrReplicationTimeout) ?e)" (is "step_good _ _ _ _ _ ?r")
      by (rule resolve_good [OF inv1 Some])
    then have "step_good A A R X ?e (sweepLocked now ?r)"
      using step_good_trans0 [OF r sweep_good [OF step_goodD [OF r]]] by blast
    then show ?thesis using Some step_good_trans0 [OF g] X
      by (auto simp: completeSendFail_def Let_def split: option.split)
  qed
qed

lemma complete_good:
  assumes "eng_inv A e"
  shows "step_good A A R (releases (DoComplete now peer msg res)) e (completeSend now peer msg res e)"
proof (cases "\<exists>ack. res = Inr ack \<and> a_OK ack \<and> a_Epoch ack = m_Epoch msg \<and> a_Seq ack = m_Seq msg")
  case True
  then obtain ack where a: "res = Inr ack" "a_OK ack" "a_Epoch ack = m_Epoch msg" "a_Seq ack = m_Seq msg" by blast
  let ?e = "creditPeerAckedLocked peer (a_Seq ack) (notePeerSuccessLocked peer e)"
  have g: "step_good A A R {} e ?e" using step_good_core [OF assms] by simp
  then have "eng_inv A ?e" by (rule step_goodD)
  then have "step_good A A R {(peer, a_Epoch ack, a_Seq ack)} ?e (ackInflightLocked now peer ack ?e)"
    using ack_good by blast
  then show ?thesis using step_good_trans0 [OF g] a by (simp add: completeSend_def releases_def)
next
  case False
  then have "completeSend now peer msg res e = completeSendFail now peer msg e"
    by (auto simp: completeSend_def split: sum.split)
  moreover have "step_good A A R (releases (DoComplete now peer msg res)) e (completeSendFail now peer msg e)"
    by (rule complete_fail_good [OF assms])
  ultimately show ?thesis by simp
qed

text \<open>A group completion is a loop over the sequence numbers of the group.\<close>

definition group_iter :: "node \<Rightarrow> u64 \<Rightarrow> u64 \<Rightarrow> 's Engine \<Rightarrow> u64 \<Rightarrow> 's Engine" where
  "group_iter peer epoch credit e s = (case inflightIndexLocked s e of None \<Rightarrow> e | Some i \<Rightarrow>
     (case e_inflightRing e ! i of None \<Rightarrow> e | Some rec \<Rightarrow>
        if if_epoch rec \<noteq> epoch then e
        else if s \<le> credit then updSlot i (removePending peer) e
        else resolveLocked i (Some ErrReplicationTimeout) e))"

lemma group_iter_good:
  assumes "eng_inv A e" "s \<le> credit \<Longrightarrow> (peer, epoch, s) \<in> R"
  shows "step_good A A R {} e (group_iter peer epoch credit e s)"
proof -
  note refl = step_good_refl [OF assms(1), of R "{}"]
  show ?thesis
  proof (cases "inflightIndexLocked s e")
    case (Some i)
    have "step_good A A R {} e (updSlot i (removePending peer) e)"
      if "e_inflightRing e ! i = Some rec" "if_epoch rec = epoch" "s \<le> credit" for rec
      using step_good_frame [OF assms(1) _ pipe_frame_updSlot, of i "removePending peer" _ R "{}"]
        located_remove [OF eng_wf [OF assms(1)] Some that(1), of peer R] assms(2) that by auto
    then show ?thesis using Some refl resolve_good [OF assms(1) Some]
      by (auto simp: group_iter_def split: option.split)
  qed (use refl in \<open>simp add: group_iter_def\<close>)
qed

lemma group_loop_good:
  assumes "eng_inv A e" "\<And>s. s \<in> set ss \<Longrightarrow> s \<le> credit \<Longrightarrow> (peer, epoch, s) \<in> R"
  shows "step_good A A R {} e (foldl (group_iter peer epoch credit) e ss)"
  using assms
proof (induction ss arbitrary: e)
  case Nil
  then show ?case by (simp add: step_good_refl)
next
  case (Cons s ss)
  have g: "step_good A A R {} e (group_iter peer epoch credit e s)"
    using group_iter_good [OF Cons.prems(1)] Cons.prems(2) by simp
  then have "step_good A A R {} (group_iter peer epoch credit e s) (foldl (group_iter peer epoch credit) (group_iter peer epoch credit e s) ss)"
    using Cons.IH [OF step_goodD [OF g]] Cons.prems(2) by simp
  then show ?case using step_good_trans0 [OF g] by simp
qed

lemma complete_group_good:
  assumes "eng_inv A e"
  shows "step_good A A R (releases (DoCompleteGroup now peer epoch f l res)) e (completeGroupSend now peer epoch f l res e)"
proof -
  let ?c = "groupCredit epoch f l res" and ?X = "releases (DoCompleteGroup now peer epoch f l res)"
  define e1 where "e1 = (if ?c = l then notePeerSuccessLocked peer e else notePeerFailureLocked peer e)"
  define e2 where "e2 = (if ?c \<ge> f then creditPeerAckedLocked peer ?c e1 else e1)"
  define e3 where "e3 = foldl (group_iter peer epoch ?c) e2 (seqRange f l)"
  have eq: "completeGroupSend now peer epoch f l res e = sweepLocked now e3"
    by (simp add: completeGroupSend_def Let_def e1_def e2_def e3_def group_iter_def [abs_def])
  have "core e2 = core e" by (simp add: e1_def e2_def)
  then have g2: "step_good A A R {} e e2" by (rule step_good_core [OF assms])
  then have i2: "eng_inv A e2" by (rule step_goodD)
  note n = step_good_refl [OF i2, of R ?X]
  have g3: "step_good A A (R \<union> ?X) {} e2 e3" unfolding e3_def
    using group_loop_good [OF i2] by (auto simp: releases_def)
  then have "step_good A A (R \<union> ?X) {} e3 (sweepLocked now e3)"
    using sweep_good [OF step_goodD] by blast
  then have "step_good A A R ?X e2 (sweepLocked now e3)"
    using step_good_trans [OF n step_good_trans0 [OF g3]] by (metis sup_bot.right_neutral)
  then show ?thesis using step_good_trans0 [OF g2] eq by simp
qed

section \<open>Changes of epoch\<close>

lemma sweep_spec_resolved: "list_all if_resolved rs \<Longrightarrow> sweep_spec L lv rs c = ([], c, [])"
  by (induction rs) auto

text \<open>A flush above the epoch of everything in flight empties the queue.\<close>

lemma flush_all:
  assumes "pipe_wf e" "\<forall>r\<in>set (fifo e). if_epoch r < m"
  shows "fifo (flushEpochLocked now m e) = []" "e_committed (flushEpochLocked now m e) = e_committed e"
    "pipe_wf (flushEpochLocked now m e)"
proof -
  have "list_all if_resolved (map (flush_rec m) (fifo e))"
    using assms(2) by (simp add: list_all_iff flush_rec_def)
  then show "fifo (flushEpochLocked now m e) = []" "e_committed (flushEpochLocked now m e) = e_committed e"
    "pipe_wf (flushEpochLocked now m e)"
    using flush_refines [OF assms(1), of now m] by (simp_all add: sweep_spec_resolved)
qed

lemma inflight_empty: "fifo e = [] \<Longrightarrow> pipe_wf e \<Longrightarrow> inflight_inv e"
  by (simp add: inflight_inv_def)

text \<open>An operation that changes the marks, in any way that keeps the invariant on an empty queue,
  and then flushes below a new epoch.\<close>

lemma epoch_good:
  assumes inv: "eng_inv A e" and new: "epoch > e_epoch e"
    and same: "e_inflightRing e1 = e_inflightRing e" "e_inflightHead e1 = e_inflightHead e"
      "e_inflightN e1 = e_inflightN e" "e_baseSeq e1 = e_baseSeq e" "e_done e1 = e_done e"
      "e_commitLevel e1 = e_commitLevel e"
    and ep: "e_epoch e1 = epoch" "e_leaseEpoch e1 \<le> epoch" "e_committed e1 \<le> fst (appliedFrontierLocked e1)"
  shows "step_good A A R {} e (flushEpochLocked now epoch e1) \<and> fifo (flushEpochLocked now epoch e1) = []"
proof -
  note P = pipe_eqI [OF same(1-4)]
  have wf: "pipe_wf e1" using inv P(2) by (simp add: eng_inv_def inflight_inv_def)
  have old: "\<forall>r\<in>set (fifo e1). if_epoch r < epoch"
    using inv new P(1) by (auto simp: eng_inv_def inflight_inv_def)
  note F = flush_all [OF wf old, of now]
  let ?e = "flushEpochLocked now epoch e1"
  have "eng_inv A ?e"
  proof -
    have "admit_inv A ?e" using inv new ep(1) by (fastforce simp: eng_inv_def admit_inv_def)
    moreover have "fst (appliedFrontierLocked ?e) = fst (appliedFrontierLocked e1)" by (simp add: frontier_max)
    ultimately show ?thesis using inflight_empty [OF F(1,3)] F(2) ep by (simp add: eng_inv_def)
  qed
  moreover have "(qrun (e_commitLevel e))\<^sup>*\<^sup>* (absQ A R e) (absQ A R ?e)"
  proof -
    have "qrun (e_commitLevel e) (absQ A R e) (absQ A R e1)"
      using qr_rebase [of "e_commitLevel e" "absQ A R e" "e_committed e1"] P(1) same(5) by (simp add: absQ_def)
    moreover have "(qrun (e_commitLevel e))\<^sup>*\<^sup>* (absQ A R e1) (absQ A R ?e)"
      using qsteps_run [OF flush_qsteps [OF wf]] same(6) by simp
    ultimately show ?thesis by (rule converse_rtranclp_into_rtranclp)
  qed
  ultimately show ?thesis using F(1) same(6) by (simp add: step_good_def)
qed

lemma advance_good:
  assumes inv: "eng_inv A e" and new: "epoch > e_epoch e"
  shows "step_good A A R {} e (advanceEpoch now epoch e) \<and> fifo (advanceEpoch now epoch e) = []"
proof -
  let ?e1 = "clearLearnersLocked (clearEffISRLocked (e\<lparr>e_epoch := epoch\<rparr>))"
  have "core ?e1 = core (e\<lparr>e_epoch := epoch\<rparr>)" by simp
  note C = fields_core [OF this] and Q = queue_core(5) [OF this]
  have "e_leaseEpoch e \<le> epoch" using inv new by (auto simp: eng_inv_def)
  then show ?thesis unfolding advanceEpoch_def
    by (intro epoch_good [OF inv new]) (use inv in \<open>simp_all add: C frontier_max eng_inv_def\<close>)
qed

lemma advance_fields [simp]:
  "e_epoch (advanceEpoch now epoch e) = epoch" "e_leaseEpoch (advanceEpoch now epoch e) = e_leaseEpoch e"
  "e_lastSeq (advanceEpoch now epoch e) = e_lastSeq e" "e_lastApplied (advanceEpoch now epoch e) = e_lastApplied e"
  "e_lastSeqEpoch (advanceEpoch now epoch e) = e_lastSeqEpoch e"
  "e_lastAppliedEpoch (advanceEpoch now epoch e) = e_lastAppliedEpoch e"
  "e_fsm (advanceEpoch now epoch e) = e_fsm e" "e_poisoned (advanceEpoch now epoch e) = e_poisoned e"
  "e_backlog (advanceEpoch now epoch e) = e_backlog e" "e_nodeID (advanceEpoch now epoch e) = e_nodeID e"
  "e_commitLevel (advanceEpoch now epoch e) = e_commitLevel e" "e_wire (advanceEpoch now epoch e) = e_wire e"
  "e_peerQ (advanceEpoch now epoch e) = e_peerQ e" "e_snapStage (advanceEpoch now epoch e) = e_snapStage e"
  "e_leaseExpiry (advanceEpoch now epoch e) = e_leaseExpiry e"
  by (simp_all add: advanceEpoch_def clearLearnersLocked_def clearEffISRLocked_def)

lemma adopt_good: "eng_inv A e \<Longrightarrow> step_good A A R {} e (AdoptEpoch now epoch e)"
  by (simp add: AdoptEpoch_def advance_good step_good_refl)

lemma grant_good: "eng_inv A e \<Longrightarrow> step_good A A R {} e (GrantLease now epoch expiry e)"
proof -
  assume inv: "eng_inv A e"
  let ?l = "e\<lparr>e_leaseEpoch := epoch, e_leaseExpiry := expiry\<rparr>"
  let ?e1 = "clearLearnersLocked (clearEffISRLocked (?l\<lparr>e_epoch := epoch\<rparr>))"
  have "core ?e1 = core (?l\<lparr>e_epoch := epoch\<rparr>)" by simp
  note C = fields_core [OF this]
  consider "epoch < e_leaseEpoch e" | "epoch > e_epoch e" "\<not> epoch < e_leaseEpoch e"
    | "\<not> epoch < e_leaseEpoch e" "\<not> epoch > e_epoch e" by blast
  then show ?thesis
  proof cases
    case 1
    then show ?thesis using inv by (simp add: GrantLease_def step_good_refl)
  next
    case 2
    have "step_good A A R {} e (flushEpochLocked now epoch ?e1) \<and> fifo (flushEpochLocked now epoch ?e1) = []"
      by (rule epoch_good [OF inv 2(1)]) (use inv in \<open>simp_all add: C frontier_max eng_inv_def\<close>)
    then show ?thesis using 2 by (simp add: GrantLease_def advanceEpoch_def)
  next
    case 3
    have "fifo ?l = fifo e" "pipe_wf ?l = pipe_wf e" by (rule pipe_eqI; simp)+
    then have "eng_inv A ?l" "absQ A R ?l = absQ A R e"
      using inv 3 by (auto simp: eng_inv_def inflight_inv_def admit_inv_def frontier_max absQ_def)
    then show ?thesis using 3 by (simp add: GrantLease_def step_good_def)
  qed
qed

lemma promote_good:
  assumes inv: "eng_inv A e" and ok: "epoch \<le> e_epoch e \<or> e_poisoned e \<or> e_lastSeq e \<le> e_lastApplied e"
  shows "step_good A A R {} e (Promote now epoch expiry e)"
proof (cases "epoch \<le> e_epoch e \<or> e_poisoned e")
  case True
  then show ?thesis using inv by (auto simp: Promote_def step_good_refl)
next
  case False
  define b where "b = ring_reset (e_backlog e)"
  define p where "p = e\<lparr>e_lastSeq := e_lastApplied e, e_lastSeqEpoch := e_lastAppliedEpoch e,
      e_committed := max (e_committed e) (e_lastApplied e),
      e_epoch := epoch, e_leaseEpoch := epoch, e_leaseExpiry := expiry,
      e_backlog := fst b, e_released := e_released e @ snd b\<rparr>"
  have eq: "Promote now epoch expiry e = flushEpochLocked now epoch (clearLearnersLocked (clearEffISRLocked p))"
    using False by (simp add: Promote_def Let_def p_def b_def max_def split: prod.split)
  have "core (clearLearnersLocked (clearEffISRLocked p)) = core p" by simp
  note C = fields_core [OF this]
  have "e_committed e \<le> e_lastApplied e" using inv False ok by (simp add: eng_inv_def frontier_max max_def)
  then show ?thesis unfolding eq
    by (intro conjunct1 [OF epoch_good [OF inv]])
       (use False in \<open>simp_all add: C frontier_max not_le\<close>, simp_all add: p_def)
qed

section \<open>The write path\<close>

lemma unat_Suc: "unat (x :: u64) + 1 < 2 ^ 64 \<Longrightarrow> unat (x + 1) = unat x + 1"
  by (simp add: unat_word_ariths)

lemma window_room:
  assumes "inflight_inv e" "\<not> windowFullLocked e"
  shows "e_inflightN e < pipelineWindow"
proof (cases "fifo e = []")
  case True
  then have "e_inflightN e = 0" by (metis length_fifo list.size(3))
  then show ?thesis by (simp add: pipelineWindow_def)
next
  case False
  then have a: "unat (e_lastSeq e) + 1 = unat (e_baseSeq e) + e_inflightN e" "e_committed e < e_baseSeq e"
    "0 < e_inflightN e"
    using assms(1) by (auto simp: inflight_inv_def simp flip: length_fifo)
  then have "e_committed e \<le> e_lastSeq e" by (simp add: word_le_nat_alt word_less_nat_alt)
  then have "unat (e_lastSeq e - e_committed e) = unat (e_lastSeq e) - unat (e_committed e)"
    by (rule unat_sub)
  moreover have "unat (e_lastSeq e - e_committed e) < pipelineWindow"
    using assms(2) by (simp add: windowFullLocked_def pipelineWindow_def word_le_nat_alt)
  ultimately show ?thesis using a by (simp add: word_less_nat_alt)
qed

text \<open>The state in which a fresh sequence number is dense.\<close>

lemma frontier_dense:
  assumes "inflight_inv e" "fifo e \<noteq> []"
  shows "unat (fst (appliedFrontierLocked e)) + 1 = unat (e_baseSeq e) + e_inflightN e"
    "e_lastSeq e = fst (appliedFrontierLocked e)"
proof -
  have a: "unat (e_lastSeq e) + 1 = unat (e_baseSeq e) + e_inflightN e" "e_lastApplied e < e_baseSeq e"
    "0 < e_inflightN e"
    using assms by (auto simp: inflight_inv_def simp flip: length_fifo)
  then have "e_lastApplied e \<le> e_lastSeq e" by (simp add: word_le_nat_alt word_less_nat_alt)
  then show "e_lastSeq e = fst (appliedFrontierLocked e)" by (simp add: frontier_max max_def)
  then show "unat (fst (appliedFrontierLocked e)) + 1 = unat (e_baseSeq e) + e_inflightN e" using a by simp
qed

lemma register_good:
  assumes inv: "eng_inv A e" and lease: "e_leaseEpoch e = e_epoch e" and room: "\<not> windowFullLocked e"
    and nw: "unat (fst (appliedFrontierLocked e)) + 1 < 2 ^ 64"
  defines "seq \<equiv> fst (appliedFrontierLocked e) + 1"
  obtains e' where "registerInflightLocked (e_epoch e) seq peers e = Some e'"
    "step_good A (A @ [(e_epoch e, seq, set peers)]) R {} e e'"
    "\<exists>r h n b. e' = e\<lparr>e_inflightRing := r, e_inflightHead := h, e_inflightN := n, e_baseSeq := b,
       e_lastSeq := seq, e_lastSeqEpoch := e_epoch e\<rparr>"
proof -
  have ii: "inflight_inv e" and wf: "pipe_wf e" using inv by (auto simp: eng_inv_def inflight_inv_def)
  have us: "unat seq = unat (fst (appliedFrontierLocked e)) + 1" unfolding seq_def using nw by (rule unat_Suc)
  have gt: "e_lastSeq e < seq" "e_lastApplied e < seq" "e_committed e < seq"
    using us inv by (auto simp: frontier_max word_less_nat_alt word_le_nat_alt eng_inv_def max_def split: if_splits)
  have n: "e_inflightN e < pipelineWindow" by (rule window_room [OF ii room])
  have ds: "unat seq = unat (e_baseSeq e) + e_inflightN e" if "e_inflightN e \<noteq> 0"
    using frontier_dense(1) [OF ii] us that by (metis length_fifo list.size(3))
  have sq: "seq = e_baseSeq e + of_nat (e_inflightN e)" if "e_inflightN e \<noteq> 0"
  proof -
    have l: "unat (e_baseSeq e) + e_inflightN e < 2 ^ 64" using ds [OF that] unat_lt [of seq] by simp
    then have "unat (e_baseSeq e + of_nat (e_inflightN e)) = unat (e_baseSeq e) + e_inflightN e"
      by (simp add: unat_word_ariths unat_of_nat)
    then show ?thesis using ds [OF that] by (metis word_unat_eq_iff)
  qed
  have n64: "Suc (e_inflightN e) < 2 ^ 64" using n by (simp add: pipelineWindow_def)
  obtain e' where E: "registerInflightLocked (e_epoch e) seq peers e = Some e'"
    "fifo e' = fifo e @ [newInflight (e_epoch e) seq peers]" "pipe_wf e'"
    "e_baseSeq e' = (if e_inflightN e = 0 then seq else e_baseSeq e)" "e_inflightN e' = Suc (e_inflightN e)"
    "\<exists>r h n b. e' = register_seq (e_epoch e) seq
        (e\<lparr>e_inflightRing := r, e_inflightHead := h, e_inflightN := n, e_baseSeq := b\<rparr>)"
    using fifo_register [OF wf n64 sq] by blast
  have up: "\<exists>r h n b. e' = e\<lparr>e_inflightRing := r, e_inflightHead := h, e_inflightN := n, e_baseSeq := b,
       e_lastSeq := seq, e_lastSeqEpoch := e_epoch e\<rparr>"
    using E(6) gt(1) by (auto simp: register_seq_def)
  then have fl: "e_lastSeq e' = seq" "e_lastApplied e' = e_lastApplied e" "e_epoch e' = e_epoch e"
    "e_leaseEpoch e' = e_leaseEpoch e" "e_committed e' = e_committed e" "e_commitLevel e' = e_commitLevel e"
    "e_done e' = e_done e" by auto
  have "inflight_inv e'"
  proof -
    have "\<forall>r\<in>set (fifo e'). if_epoch r = e_epoch e'" using ii fl E(2) by (auto simp: inflight_inv_def)
    moreover have "unat (e_lastSeq e') + 1 = unat (e_baseSeq e') + e_inflightN e'"
      using fl(1) E(4,5) ds by simp
    moreover have "e_lastApplied e' < e_baseSeq e'" "e_committed e' < e_baseSeq e'"
      using fl E(4) gt ii by (auto simp: inflight_inv_def simp flip: length_fifo)
    ultimately show ?thesis using E(3,5) lease n fl by (simp add: inflight_inv_def)
  qed
  moreover have "e_committed e' \<le> fst (appliedFrontierLocked e')"
    using gt fl by (simp add: frontier_max le_max_iff_disj)
  moreover have ai: "admit_inv (A @ [(e_epoch e, seq, set peers)]) e'"
    using inv gt(1) lease fl by (fastforce simp: admit_inv_def eng_inv_def)
  ultimately have i': "eng_inv (A @ [(e_epoch e, seq, set peers)]) e'" using lease fl by (simp add: eng_inv_def)
  have "\<forall>(ep', s', _)\<in>set A. ep' < e_epoch e \<or> ep' = e_epoch e \<and> s' < seq"
    using inv gt(1) by (fastforce simp: admit_inv_def eng_inv_def)
  then have "qrun (e_commitLevel e) (absQ A R e) (absQ (A @ [(e_epoch e, seq, set peers)]) R e')"
    using qr_admit [of "absQ A R e" "e_epoch e" seq "e_commitLevel e" "set peers"] E(2) fl
    by (simp add: absQ_def arec_def)
  then have "step_good A (A @ [(e_epoch e, seq, set peers)]) R {} e e'"
    using i' fl(6) by (simp add: step_good_def r_into_rtranclp)
  then show thesis using that E(1) up by blast
qed

lemma step_good_same:
  assumes inv: "eng_inv A e"
    and q: "e_inflightRing e' = e_inflightRing e" "e_inflightHead e' = e_inflightHead e"
      "e_inflightN e' = e_inflightN e" "e_baseSeq e' = e_baseSeq e"
    and m: "e_committed e' = e_committed e" "e_done e' = e_done e" "e_commitLevel e' = e_commitLevel e"
      "same_marks e e'"
  shows "step_good A A R {} e e'"
proof -
  note P = pipe_eqI [OF q]
  have "eng_inv A e'" using inv m P q
    by (simp add: eng_inv_def inflight_inv_def admit_inv_def frontier_max same_marks_def)
  moreover have "absQ A R e' = absQ A R e" using P m by (simp add: absQ_def)
  ultimately show ?thesis using m(3) by (simp add: step_good_def)
qed

lemma core_ship: "core (foldl (\<lambda>e l. submitLearnerLocked l msg e) (foldl (\<lambda>e p. submitPeerLocked inl p msg e) e ps) ls) = core e"
  by (simp add: core_foldl)

lemma ship_good:
  assumes "eng_inv A e"
  shows "step_good A A R {} e (proposeShip inl now ps ls msg e)"
proof -
  let ?e = "foldl (\<lambda>e l. submitLearnerLocked l msg e) (foldl (\<lambda>e p. submitPeerLocked inl p msg e) e ps) ls"
  have g: "step_good A A R {} e ?e" by (rule step_good_core [OF assms core_ship])
  note s = step_good_trans0 [OF g sweep_good [OF step_goodD [OF g], of R "{}" now]]
  show ?thesis unfolding proposeShip_def Let_def
    using g s step_good_refl [OF assms, of R "{}"] by (simp only: split: if_split) blast
qed

lemma fence_admits:
  "proposeFence primary isr minISR now e = None \<Longrightarrow> \<not> e_poisoned e \<and> primary = e_nodeID e \<and>
   e_leaseEpoch e = e_epoch e \<and> now < e_leaseExpiry e \<and> minISR \<le> int (length isr) \<and> \<not> windowFullLocked e"
  by (auto simp: proposeFence_def split: if_splits)

lemma proposeRegister_good:
  assumes inv: "eng_inv A e" and lease: "e_leaseEpoch e = e_epoch e" and room: "\<not> windowFullLocked e"
    and nw: "unat (fst (appliedFrontierLocked e)) + 1 < 2 ^ 64"
  shows "snd (proposeRegister inl now isr (e_epoch e) data result e) =
      ProposeSeq (fst (appliedFrontierLocked e) + 1) result"
    "step_good A (A @ [(e_epoch e, fst (appliedFrontierLocked e) + 1, set (requiredPeers isr e))]) R {} e
      (fst (proposeRegister inl now isr (e_epoch e) data result e))"
proof -
  obtain ps pe where f: "appliedFrontierLocked e = (ps, pe)" by fastforce
  let ?seq = "ps + 1" and ?peers = "requiredPeers isr e"
  let ?A = "A @ [(e_epoch e, ?seq, set ?peers)]"
  obtain b ev where b: "ring_append (e_backlog e)
      \<lparr>re_epoch = e_epoch e, re_seq = ?seq, re_prevEpoch = pe, re_data = data\<rparr> = (b, ev)" by fastforce
  define e1 where "e1 = e\<lparr>e_backlog := b, e_released := e_released e @ (case ev of None \<Rightarrow> [] | Some d \<Rightarrow> [d])\<rparr>"
  have g1: "step_good A A R {} e e1"
    by (rule step_good_same [OF inv]) (simp_all add: e1_def same_marks_def)
  have f1: "appliedFrontierLocked e1 = appliedFrontierLocked e"
    by (simp add: e1_def appliedFrontierLocked_def cong: if_cong)
  have s1: "e_epoch e1 = e_epoch e" "e_leaseEpoch e1 = e_epoch e1" "\<not> windowFullLocked e1"
    "appliedFrontierLocked e1 = (ps, pe)" "unat (fst (appliedFrontierLocked e1)) + 1 < 2 ^ 64"
    using lease room nw f f1 by (simp_all, simp_all add: e1_def windowFullLocked_def)
  obtain e2 where e2: "registerInflightLocked (e_epoch e) ?seq ?peers e1 = Some e2"
    "step_good A ?A R {} e1 e2"
    using register_good [OF step_goodD [OF g1] s1(2,3,5), of ?peers R] s1(1,4) by (metis fst_conv)
  have g3: "step_good ?A ?A R {} e2 (noteFrontierLocked e2)" (is "step_good _ _ _ _ _ ?e3")
    by (rule step_good_core [OF step_goodD [OF e2(2)]]) simp
  let ?e4 = "if ?peers = [] then sweepLocked now ?e3 else ?e3"
  have g4: "step_good ?A ?A R {} ?e3 ?e4"
    using sweep_good [OF step_goodD [OF g3], of R "{}" now] step_good_refl [OF step_goodD [OF g3]]
    by (simp only: split: if_split) blast
  let ?msg = "\<lparr>m_Epoch = e_epoch e, m_Seq = ?seq, m_PrevSeq = ps, m_PrevEpoch = pe, m_Data = data\<rparr>"
  have p: "proposeRegister inl now isr (e_epoch e) data result e =
      (proposeShip inl now ?peers (learnerShipSetLocked ?peers ?e4) ?msg ?e4, ProposeSeq ?seq result)"
    using e2(1) unfolding proposeRegister_def requiredPeers_def by (simp add: Let_def f b e1_def)
  show "snd (proposeRegister inl now isr (e_epoch e) data result e) =
      ProposeSeq (fst (appliedFrontierLocked e) + 1) result" unfolding p f by simp
  have "step_good ?A ?A R {} e2 (proposeShip inl now ?peers (learnerShipSetLocked ?peers ?e4) ?msg ?e4)"
    by (rule step_good_trans0 [OF g3 step_good_trans0 [OF g4 ship_good [OF step_goodD [OF g4]]]])
  then have "step_good A ?A R {} e1 (proposeShip inl now ?peers (learnerShipSetLocked ?peers ?e4) ?msg ?e4)"
    using step_good_trans [OF e2(2)] by (metis sup_bot.right_neutral)
  then show "step_good A (A @ [(e_epoch e, fst (appliedFrontierLocked e) + 1, set ?peers)]) R {} e
      (fst (proposeRegister inl now isr (e_epoch e) data result e))"
    unfolding p f using step_good_trans0 [OF g1] by simp
qed

lemma propose_good:
  assumes inv: "eng_inv A e" and nw: "unat (fst (appliedFrontierLocked e)) + 1 < 2 ^ 64"
  shows "step_good A (A @ admits ap (DoPropose inl primary isr minISR now now' data) e) R {} e
      (fst (proposeSequenced ap inl primary isr minISR now now' data e))"
    "snd (proposeSequenced ap inl primary isr minISR now now' data e) \<noteq> ProposePanic"
proof -
  have "step_good A (A @ admits ap (DoPropose inl primary isr minISR now now' data) e) R {} e
      (fst (proposeSequenced ap inl primary isr minISR now now' data e)) \<and>
    snd (proposeSequenced ap inl primary isr minISR now now' data e) \<noteq> ProposePanic"
  proof (cases "proposeFence primary isr minISR now e")
    case (Some r)
    then show ?thesis using step_good_refl [OF inv]
      by (auto simp: proposeSequenced_def admits_def proposeFence_def split: if_splits)
  next
    case None
    show ?thesis
    proof (cases "ap (e_fsm e) data")
      case (Inl err)
      then show ?thesis using None step_good_refl [OF inv] by (simp add: proposeSequenced_def admits_def)
    next
      case (Inr sr)
      obtain s result where sr: "sr = (s, result)" by fastforce
      let ?e = "e\<lparr>e_fsm := s\<rparr>"
      have g: "step_good A A R {} e ?e"
        by (rule step_good_same [OF inv]) (simp_all add: same_marks_def)
      have q: "e_epoch ?e = e_epoch e" "appliedFrontierLocked ?e = appliedFrontierLocked e"
        "requiredPeers isr ?e = requiredPeers isr e"
        by (simp_all add: appliedFrontierLocked_def requiredPeers_def Let_def cong: if_cong)
      have "e_leaseEpoch ?e = e_epoch ?e" "\<not> windowFullLocked ?e" "unat (fst (appliedFrontierLocked ?e)) + 1 < 2 ^ 64"
        using fence_admits [OF None] nw by (simp_all add: windowFullLocked_def q)
      note G = proposeRegister_good [OF step_goodD [OF g] this, where inl = inl and now = now' and isr = isr
          and data = data and result = result, unfolded q]
      show ?thesis using None Inr sr G(1) step_good_trans0 [OF g G(2)]
        by (simp add: proposeSequenced_def admits_def)
    qed
  qed
  then show "step_good A (A @ admits ap (DoPropose inl primary isr minISR now now' data) e) R {} e
      (fst (proposeSequenced ap inl primary isr minISR now now' data e))"
    "snd (proposeSequenced ap inl primary isr minISR now now' data e) \<noteq> ProposePanic" by auto
qed

section \<open>The receive paths\<close>

text \<open>An engine that leads no epoch has nothing in flight: it may move its watermarks.\<close>

lemma not_leading:
  "inflight_inv e \<Longrightarrow> e_leaseEpoch e \<noteq> e_epoch e \<Longrightarrow> fifo e = []"
  by (auto simp: inflight_inv_def)

lemma rebase_good:
  assumes inv: "eng_inv A e" and nl: "e_leaseEpoch e \<noteq> e_epoch e"
    and q: "e_inflightRing e' = e_inflightRing e" "e_inflightHead e' = e_inflightHead e"
      "e_inflightN e' = e_inflightN e" "e_baseSeq e' = e_baseSeq e" "e_done e' = e_done e"
    and m: "e_epoch e' = e_epoch e" "e_leaseEpoch e' = e_leaseEpoch e" "e_commitLevel e' = e_commitLevel e"
      "e_committed e' \<le> fst (appliedFrontierLocked e')"
  shows "step_good A A R {} e e'"
proof -
  note P = pipe_eqI [OF q(1-4)]
  have fe: "fifo e = []" using inv nl not_leading by (auto simp: eng_inv_def)
  have "admit_inv A e'" using inv nl m by (fastforce simp: eng_inv_def admit_inv_def)
  then have "eng_inv A e'" using inv P fe m by (auto simp: eng_inv_def inflight_inv_def)
  moreover have "qrun (e_commitLevel e) (absQ A R e) (absQ A R e')"
    using qr_rebase [of "e_commitLevel e" "absQ A R e" "e_committed e'"] P q(5) by (simp add: absQ_def)
  ultimately show ?thesis using m(3) by (simp add: step_good_def r_into_rtranclp)
qed

text \<open>What every receive path does first with the epoch it is shown.\<close>

lemma observe_good:
  fixes now :: int
  assumes inv: "eng_inv A e" and ep: "epoch \<noteq> e_leaseEpoch e" "\<not> epoch < e_epoch e"
  defines "e1 \<equiv> (if epoch > e_epoch e then advanceEpoch now epoch e else e)"
  shows "step_good A A R {} e e1" "e_epoch e1 = epoch" "e_leaseEpoch e1 = e_leaseEpoch e"
    "appliedFrontierLocked e1 = appliedFrontierLocked e" "e_fsm e1 = e_fsm e" "e_poisoned e1 = e_poisoned e"
  using advance_good [OF inv, of epoch R now] step_good_refl [OF inv] ep
  by (auto simp: e1_def appliedFrontierLocked_def)

lemmas note_core = fields_core [OF core_simps(8)] queue_core(5) [OF core_simps(8)]

lemma receive_good:
  assumes inv: "eng_inv A e" and ep: "m_Epoch msg \<noteq> e_leaseEpoch e"
    and nw: "unat (fst (appliedFrontierLocked e)) + 1 < 2 ^ 64"
  shows "step_good A A R {} e (fst (receiveLocked ap now msg e)) \<and>
    e_leaseEpoch (fst (receiveLocked ap now msg e)) = e_leaseEpoch e \<and>
    unat (fst (appliedFrontierLocked (fst (receiveLocked ap now msg e)))) \<le> unat (fst (appliedFrontierLocked e)) + 1"
proof (cases "e_poisoned e \<or> m_Epoch msg < e_epoch e")
  case True
  then show ?thesis using step_good_refl [OF inv] by (auto simp: receiveLocked_def)
next
  case False
  define e1 where "e1 = (if m_Epoch msg > e_epoch e then advanceEpoch now (m_Epoch msg) e else e)"
  have np: "\<not> m_Epoch msg < e_epoch e" "\<not> e_poisoned e" using False by auto
  note O = observe_good [OF inv ep np(1), where now = now, folded e1_def]
  let ?nack = "\<lparr>a_Epoch = m_Epoch msg, a_Seq = m_Seq msg, a_OK = False\<rparr>"
  let ?acc = "m_Seq msg = m_PrevSeq msg + 1 \<and> (m_PrevSeq msg, m_PrevEpoch msg) = appliedFrontierLocked e1"
  have eq: "receiveLocked ap now msg e = (if ?acc then (case ap (e_fsm e1) (m_Data msg) of Inl _ \<Rightarrow> (e1, ?nack)
      | Inr (s, _) \<Rightarrow> (noteFrontierLocked (e1\<lparr>e_fsm := s, e_lastApplied := m_Seq msg, e_lastAppliedEpoch := m_Epoch msg\<rparr>),
           \<lparr>a_Epoch = m_Epoch msg, a_Seq = m_Seq msg, a_OK = True\<rparr>)) else (e1, ?nack))"
    using np unfolding receiveLocked_def Let_def e1_def [symmetric] by (auto split: prod.split)
  have base: "step_good A A R {} e e1 \<and> e_leaseEpoch e1 = e_leaseEpoch e \<and>
      unat (fst (appliedFrontierLocked e1)) \<le> unat (fst (appliedFrontierLocked e)) + 1"
    using O(1,3,4) by simp
  show ?thesis
  proof (cases "\<exists>s r. ?acc \<and> ap (e_fsm e1) (m_Data msg) = Inr (s, r)")
    case False
    then show ?thesis using base unfolding eq by (auto split: sum.split)
  next
    case True
    then obtain s r where acc: ?acc and ok: "ap (e_fsm e1) (m_Data msg) = Inr (s, r)" by blast
    let ?e2 = "e1\<lparr>e_fsm := s, e_lastApplied := m_Seq msg, e_lastAppliedEpoch := m_Epoch msg\<rparr>"
    have sq: "unat (m_Seq msg) = unat (fst (appliedFrontierLocked e1)) + 1"
      using acc nw O(4) unat_Suc by (metis fst_conv)
    have gt: "fst (appliedFrontierLocked e1) < m_Seq msg" using sq by (simp add: word_less_nat_alt)
    then have fr: "fst (appliedFrontierLocked ?e2) = m_Seq msg"
      by (simp add: frontier_max max_absorb2 order.strict_implies_order)
    have "e_committed e1 \<le> m_Seq msg"
      using step_goodD [OF O(1)] gt by (auto simp: eng_inv_def)
    then have "step_good A A R {} e1 ?e2"
      using fr O(2,3) ep by (intro rebase_good [OF step_goodD [OF O(1)]]) auto
    then have "step_good A A R {} e1 (noteFrontierLocked ?e2)"
      using step_good_trans0 step_good_core step_goodD by (metis core_simps(8))
    then have "step_good A A R {} e (noteFrontierLocked ?e2)"
      using step_good_trans0 [OF O(1)] by blast
    moreover have "fst (receiveLocked ap now msg e) = noteFrontierLocked ?e2"
      unfolding eq if_P [OF acc] ok by simp
    moreover have "e_leaseEpoch ?e2 = e_leaseEpoch e" using O(3) by simp
    ultimately show ?thesis using fr sq O(4) by (simp only: note_core) simp
  qed
qed

lemma receiveAll_good:
  assumes "eng_inv A e" "\<forall>m\<in>set ms. m_Epoch m \<noteq> e_leaseEpoch e"
    "unat (fst (appliedFrontierLocked e)) + length ms < 2 ^ 64"
  shows "step_good A A R {} e (fst (receiveAll ap now ep lastOK ms e))"
  using assms
proof (induction ms arbitrary: e lastOK)
  case Nil
  then show ?case by (simp add: step_good_refl)
next
  case (Cons m ms)
  obtain e1 ack where r: "receiveLocked ap now m e = (e1, ack)" by fastforce
  have g: "step_good A A R {} e e1" "e_leaseEpoch e1 = e_leaseEpoch e"
    "unat (fst (appliedFrontierLocked e1)) \<le> unat (fst (appliedFrontierLocked e)) + 1"
    using receive_good [OF Cons.prems(1), of m R ap now] Cons.prems(2,3) r by auto
  have "step_good A A R {} e1 (fst (receiveAll ap now ep (m_Seq m) ms e1))"
    using Cons.IH [OF step_goodD [OF g(1)]] Cons.prems(2,3) g(2,3) by simp
  then show ?case using r g(1) step_good_trans0 [OF g(1)] by simp
qed

lemma group_good:
  assumes "eng_inv A e" "\<forall>m\<in>set ms. m_Epoch m \<noteq> e_leaseEpoch e"
    "unat (fst (appliedFrontierLocked e)) + length ms < 2 ^ 64"
  shows "step_good A A R {} e (fst (ReceiveGroup ap now ms e))"
proof (cases ms)
  case (Cons m q)
  then show ?thesis using receiveAll_good [OF assms] step_good_refl [OF assms(1)] by (simp add: ReceiveGroup_def)
qed (simp add: ReceiveGroup_def step_good_refl [OF assms(1)])

text \<open>A snapshot arrives at an engine that leads no epoch: there is nothing in flight to drop.\<close>

lemma dropInflight_empty: "fifo e = [] \<Longrightarrow> dropInflight e = e"
proof -
  assume "fifo e = []"
  then have "e_inflightN e = 0" by (metis length_fifo list.size(3))
  then show ?thesis by (simp add: dropInflight_def)
qed

lemma install_good:
  assumes inv: "eng_inv A e" and nl: "e_leaseEpoch e \<noteq> e_epoch e"
  shows "step_good A A R {} e (fst (installSnapshot oss E fseq fepoch blob e))"
proof (cases oss)
  case None
  then show ?thesis by (simp add: installSnapshot_def step_good_refl [OF inv])
next
  case (Some ss)
  show ?thesis
  proof (cases "\<not> ss_begin ss fseq fepoch \<or> e_closed e \<or> E < e_epoch e")
    case True
    then show ?thesis using Some step_good_refl [OF inv] by (auto simp: installSnapshot_def)
  next
    case False
    obtain s ok where i: "ss_install ss blob (e_fsm e) = (s, ok)" by fastforce
    let ?e2 = "e\<lparr>e_poisoned := True, e_fsm := s\<rparr>"
    let ?e3 = "?e2\<lparr>e_lastApplied := fseq, e_lastAppliedEpoch := fepoch, e_lastSeq := fseq,
        e_lastSeqEpoch := fepoch, e_committed := fseq\<rparr>"
    let ?e5 = "?e3\<lparr>e_backlog := newRing (int (length (r_buf (e_backlog e))))\<rparr>"
    let ?e6 = "clearLearnersLocked (clearEffISRLocked ?e5)"
    have f: "fifo ?e3 = []"
      using not_leading [OF _ nl] inv pipe_eqI(1) [of ?e3 e] by (simp add: eng_inv_def)
    have g2: "step_good A A R {} e ?e2" by (rule step_good_same [OF inv]) (simp_all add: same_marks_def)
    have g5: "step_good A A R {} e ?e5"
      by (rule rebase_good [OF inv nl]) (simp_all add: frontier_max)
    have c: "core ?e6 = core ?e5" by simp
    have g6: "step_good A A R {} e ?e6" "step_good A A R {} e (?e6\<lparr>e_poisoned := False\<rparr>)"
    proof -
      show g: "step_good A A R {} e ?e6" by (rule step_good_trans0 [OF g5 step_good_core [OF step_goodD [OF g5] c]])
      have "step_good A A R {} ?e6 (?e6\<lparr>e_poisoned := False\<rparr>)"
        by (rule step_good_same [OF step_goodD [OF g]]) (simp_all add: same_marks_def)
      then show "step_good A A R {} e (?e6\<lparr>e_poisoned := False\<rparr>)" by (rule step_good_trans0 [OF g])
    qed
    have "fst (installSnapshot oss E fseq fepoch blob e) \<in> {?e2, ?e6, ?e6\<lparr>e_poisoned := False\<rparr>}"
      using False Some i dropInflight_empty [OF f] by (simp add: installSnapshot_def Let_def)
    then show ?thesis using g2 g6 by auto
  qed
qed

lemma fst_case_opt: "fst (case x of (a, None) \<Rightarrow> (a, p) | (a, Some y) \<Rightarrow> (a, q)) = fst x"
  by (auto split: prod.split option.split)

lemma chunk_good:
  assumes inv: "eng_inv A e" and ep: "sc_Epoch c \<noteq> e_leaseEpoch e"
  shows "step_good A A R {} e (fst (ReceiveSnapshotChunk oss now c e))"
proof (cases "sc_Epoch c < e_epoch e")
  case True
  then show ?thesis using step_good_core [OF inv] by (simp add: ReceiveSnapshotChunk_def)
next
  case False
  define e0 where "e0 = (if sc_Epoch c > e_epoch e then advanceEpoch now (sc_Epoch c) e else e)"
  define e1 where "e1 = (if sc_Epoch c > e_epoch e
      then (advanceEpoch now (sc_Epoch c) e)\<lparr>e_snapStage := None\<rparr> else e)"
  note O = observe_good [OF inv ep False, where now = now, folded e0_def]
  have "core e1 = core e0" by (simp add: e0_def e1_def)
  then have g1: "step_good A A R {} e e1" for R
    by (rule step_good_trans0 [OF O(1) step_good_core [OF step_goodD [OF O(1)]]])
  have nl: "e_leaseEpoch e1 \<noteq> e_epoch e1" using O(2,3) ep by (auto simp: e0_def e1_def)
  have stage: "step_good A A R {} e (e1\<lparr>e_snapStage := x\<rparr>)" for x R
    by (rule step_good_trans0 [OF g1 step_good_core [OF step_goodD [OF g1]]]) simp
  have "step_good A A R {} (e1\<lparr>e_snapStage := None\<rparr>)
      (fst (installSnapshot oss (sc_Epoch c) (sc_FrontierSeq c) (sc_FrontierEpoch c) b (e1\<lparr>e_snapStage := None\<rparr>)))" for b
    by (rule install_good [OF step_goodD [OF stage]]) (use nl in simp)
  then have inst: "step_good A A R {} e
      (fst (installSnapshot oss (sc_Epoch c) (sc_FrontierSeq c) (sc_FrontierEpoch c) b (e1\<lparr>e_snapStage := None\<rparr>)))" for b
    by (rule step_good_trans0 [OF stage])
  define P where "P = step_good A A R {} e"
  have P: "P (e1\<lparr>e_snapStage := x\<rparr>)" "P (fst (installSnapshot oss (sc_Epoch c) (sc_FrontierSeq c)
      (sc_FrontierEpoch c) b (e1\<lparr>e_snapStage := None\<rparr>)))" for x b
    using stage inst by (simp_all add: P_def)
  have "P (fst (ReceiveSnapshotChunk oss now c e))"
    using False unfolding ReceiveSnapshotChunk_def Let_def e1_def [symmetric]
    by (simp add: P fst_case_opt)
  then show ?thesis by (simp add: P_def)
qed

section \<open>Runs\<close>

lemma exec_good:
  assumes inv: "eng_inv A e" and ok: "op_ok op e"
  shows "step_good A (A @ admits ap op e) R (releases op) e (engine_exec ap oss op e)"
proof (cases op)
  case (DoAdopt now epoch)
  then show ?thesis using adopt_good [OF inv] by (simp add: admits_def releases_def)
next
  case (DoGrant now epoch expiry)
  then show ?thesis using grant_good [OF inv] by (simp add: admits_def releases_def)
next
  case (DoPromote now epoch expiry)
  then show ?thesis using promote_good [OF inv] ok by (simp add: admits_def releases_def op_ok_def)
next
  case (DoPropose inl primary isr minISR now now' data)
  then show ?thesis using propose_good [OF inv] op_okD(1) [OF ok [unfolded DoPropose]] by (simp add: releases_def)
next
  case (DoTimeout epoch seq)
  then show ?thesis using timeout_good [OF inv] by (simp add: admits_def releases_def)
next
  case (DoComplete now peer msg res)
  then show ?thesis using complete_good [OF inv, of R now peer msg res] by (simp add: admits_def)
next
  case (DoCompleteGroup now peer epoch f l res)
  then show ?thesis using complete_group_good [OF inv, of R now peer epoch f l res] by (simp add: admits_def)
next
  case (DoReceive now msg)
  then show ?thesis using receive_good [OF inv] op_okD(2) [OF ok [unfolded DoReceive]]
    by (simp add: admits_def releases_def Receive_def)
next
  case (DoReceiveGroup now msgs)
  then show ?thesis using group_good [OF inv] op_okD(3) [OF ok [unfolded DoReceiveGroup]]
    by (simp add: admits_def releases_def)
next
  case (DoSnapshotChunk now c)
  then show ?thesis using chunk_good [OF inv] ok by (simp add: admits_def releases_def op_ok_def)
next
  case (DoShrink now epoch isr)
  then show ?thesis using shrink_good [OF inv, of isr epoch "releases op"] by (simp add: admits_def releases_def)
next
  case (DoFlip now peer E k)
  have "core (engine_exec ap oss op e) = core e"
    unfolding DoFlip using core_flip [of now peer E k e] by (auto split: flipResult.split)
  then show ?thesis using step_good_core [OF inv] DoFlip by (simp add: admits_def releases_def)
qed (simp_all add: admits_def releases_def step_good_core [OF inv])

lemma run_good:
  assumes "eng_inv A e" "run_ok ap oss ops e"
  shows "step_good A (A @ admitted ap oss ops e) R (released ops) e (engine_run ap oss ops e)"
  using assms
proof (induction ops arbitrary: A R e)
  case Nil
  then show ?case by (simp add: step_good_refl released_def)
next
  case (Cons op ops)
  have g: "step_good A (A @ admits ap op e) R (releases op) e (engine_exec ap oss op e)"
    by (rule exec_good) (use Cons.prems in auto)
  have "step_good (A @ admits ap op e) ((A @ admits ap op e) @ admitted ap oss ops (engine_exec ap oss op e))
      (R \<union> releases op) (released ops) (engine_exec ap oss op e) (engine_run ap oss ops (engine_exec ap oss op e))"
    using Cons.IH [OF step_goodD [OF g]] Cons.prems by simp
  then show ?case using step_good_trans [OF g] by (simp add: released_def)
qed

lemma new_inv:
  assumes "NewWithRingCapacity n sh cap lv pend s = Some e"
  shows "eng_inv [] e" "e_commitLevel e = lv" "q_init (absQ [] {} e)" "e_done e = []"
proof -
  have e: "e_inflightN e = 0" "e_inflightRing e = []" "e_leaseEpoch e = 0" "e_committed e = 0" "e_commitLevel e = lv"
    "e_done e = []"
    using assms by (auto simp: NewWithRingCapacity_def split: if_splits)
  then have f: "fifo e = []" "pipe_wf e" by (simp_all add: fifo_def pipe_wf_def)
  then show "eng_inv [] e" using e by (simp add: eng_inv_def inflight_inv_def admit_inv_def)
  show "e_commitLevel e = lv" "q_init (absQ [] {} e)" "e_done e = []" using e f by (simp_all add: q_init_def absQ_def)
qed

lemma run_queue:
  assumes "NewWithRingCapacity n sh cap lv pend s = Some e0" "run_ok ap oss ops e0"
  shows "(qrun lv)\<^sup>*\<^sup>* (absQ [] {} e0) (absQ (admitted ap oss ops e0) (released ops) (engine_run ap oss ops e0))"
  using run_good [OF new_inv(1) [OF assms(1)] assms(2), of "{}"] new_inv(2) [OF assms(1)]
  by (simp add: step_good_def)

text \<open>A short run, for the witnesses: a promotion, one write to two nodes, its acknowledgement.\<close>

definition example_ops :: "engineOp list" where
  "example_ops = [DoPromote 0 1 100, DoPropose (\<lambda>_ _. False) ''a'' [''a'', ''b''] 1 10 11 [7],
     DoSend False ''b'',
     DoComplete 20 ''b'' \<lparr>m_Epoch = 1, m_Seq = 1, m_PrevSeq = 0, m_PrevEpoch = 0, m_Data = [7]\<rparr>
       (Inr \<lparr>a_Epoch = 1, a_Seq = 1, a_OK = True\<rparr>)]"

definition logApplier :: "bytes list applier" where
  "logApplier s d = Inr (s @ [d], [])"

definition example_engine :: "bytes list Engine" where
  "example_engine = the (NewWithRingCapacity ''a'' 0 256 CommitFullISR False [])"

lemma example_new: "NewWithRingCapacity ''a'' 0 256 CommitFullISR False [] = Some example_engine"
  by (simp add: example_engine_def NewWithRingCapacity_def pipelineWindow_def)

lemma example_run:
  "run_ok logApplier None example_ops example_engine"
  "e_done (engine_run logApplier None example_ops example_engine) = [(1, 1, None)]"
  "admitted logApplier None example_ops example_engine = [(1, 1, {''b''})]"
  by code_simp+

end
