(* ===== verification/EngineSafety.thy ===== *)
theory EngineSafety
  imports EngineInv "HOL-Library.Sublist"
begin

text \<open>
  What every run of one engine guarantees, read off the commit-queue machine it refines: a write
  reported durable was released by every peer it had to wait for, every admitted write gets exactly
  one outcome, successes come in the order of admission, and the window is never overrun.
\<close>

section \<open>Commits come in order\<close>

definition q_ordered :: "commitQueue \<Rightarrow> bool" where
  "q_ordered q = subseq (map key3 (filter (\<lambda>(_, _, err). err = None) (cq_outcomes q)) @ map qkey (cq_recs q))
     (map key3 (cq_admitted q))"

lemma qstep_ordered: "qstep lv L q q' \<Longrightarrow> q_ordered q \<Longrightarrow> q_ordered q'"
proof (induction rule: qstep.induct)
  case (qs_release i q r D)
  then show ?case by (simp add: q_ordered_def map_update qkey_def list_update_same_conv [THEN iffD2])
next
  case (qs_fail i q r err)
  then show ?case by (simp add: q_ordered_def map_update qkey_def list_update_same_conv [THEN iffD2])
next
  case (qs_pop q r rs)
  have "subseq (xs @ ys) (xs @ y # ys)" for xs ys :: "(u64 \<times> u64) list" and y by (simp add: subseq_append' list_emb_Cons)
  then show ?case using qs_pop subseq_order.trans unfolding q_ordered_def by (simp, blast)
next
  case (qs_commit q r rs)
  then show ?case by (simp add: q_ordered_def qkey_def)
qed

interpretation commit_order: state_machine q_init "qrun lv" q_ordered for lv
proof unfold_locales
  show "q_init q \<Longrightarrow> q_ordered q" for q by (simp add: q_init_def q_ordered_def)
  show "q_ordered q'" if "q_ordered q" "qrun lv q q'" for q q'
    using that(2,1)
  proof (induction rule: qrun.induct)
    case (qr_work L q q')
    then show ?case using qstep_ordered by blast
  next
    case (qr_admit q ep s P)
    then show ?case
      using list_emb_append_mono [OF qr_admit(2) [unfolded q_ordered_def], of "[(ep, s)]" "[(ep, s)]"]
      by (simp add: q_ordered_def qkey_def)
  qed (simp_all add: q_ordered_def)
qed

section \<open>Safety of every run\<close>

text \<open>(C3) A write that an engine at the full-ISR commit level reports durable was admitted, and every
  peer it was admitted to wait for released it: that peer acknowledged exactly this write of this
  epoch, on its own or inside a credited group prefix, or a committed shrink of that epoch removed
  the peer. This holds over every interleaving of the engine's operations.\<close>
theorem commit_fully_acked:
  assumes "NewWithRingCapacity n sh cap CommitFullISR pend s0 = Some e0" "run_ok ap oss ops e0"
    and "(ep, s, None) \<in> set (e_done (engine_run ap oss ops e0))"
  shows "\<exists>P. (ep, s, P) \<in> set (admitted ap oss ops e0) \<and> (\<forall>p\<in>P. (p, ep, s) \<in> released ops)"
proof -
  have "q_inv (absQ (admitted ap oss ops e0) (released ops) (engine_run ap oss ops e0))"
    using commit_queue.inv_reach [OF new_inv(3) [OF assms(1)] run_queue [OF assms(1,2)]] .
  then show ?thesis using assms(3) unfolding q_inv_def q_durable_def absQ_def by simp
qed

theorem commit_fully_acked_witness:
  "\<exists>P. (1, 1, P) \<in> set (admitted logApplier None example_ops example_engine) \<and>
     (\<forall>p\<in>P. (p, 1, 1) \<in> released example_ops)"
  by (rule commit_fully_acked [OF example_new example_run(1)]) (simp add: example_run)

text \<open>(C4) No write is lost or answered twice, at either commit level: the keys of the admitted writes
  are, with multiplicity one, the keys that have an outcome together with the keys of the writes
  still in flight and unresolved.\<close>
theorem exactly_one_outcome:
  assumes "NewWithRingCapacity n sh cap lv pend s0 = Some e0" "run_ok ap oss ops e0"
  shows "distinct (map key3 (admitted ap oss ops e0)) \<and>
    mset (map key3 (admitted ap oss ops e0)) = mset (map key3 (e_done (engine_run ap oss ops e0))) +
      mset (map (\<lambda>r. (if_epoch r, if_seq r)) (filter (\<lambda>r. \<not> if_resolved r) (fifo (engine_run ap oss ops e0))))"
proof -
  have "q_conserves (absQ (admitted ap oss ops e0) (released ops) (engine_run ap oss ops e0))"
    using commit_books.inv_reach [OF new_inv(3) [OF assms(1)] run_queue [OF assms(1,2)]] by blast
  moreover have "q_unresolved (absQ A R e) = map (\<lambda>r. (if_epoch r, if_seq r)) (filter (\<lambda>r. \<not> if_resolved r) (fifo e))"
    for A R and e :: "'a Engine"
    by (simp add: q_unresolved_def absQ_def filter_map comp_def qkey_def arec_def)
  ultimately show ?thesis unfolding q_conserves_def by (simp add: absQ_def)
qed

theorem exactly_one_outcome_witness:
  "distinct (map key3 (admitted logApplier None example_ops example_engine)) \<and>
    mset (map key3 (admitted logApplier None example_ops example_engine)) =
      mset (map key3 (e_done (engine_run logApplier None example_ops example_engine))) +
      mset (map (\<lambda>r. (if_epoch r, if_seq r))
        (filter (\<lambda>r. \<not> if_resolved r) (fifo (engine_run logApplier None example_ops example_engine))))"
  by (rule exactly_one_outcome [OF example_new example_run(1)])

text \<open>(C5) Writes are reported durable in the order in which they were admitted: the keys of the
  successes are a subsequence of the keys of the admitted writes, so a success is never followed by
  the success of an earlier write.\<close>
theorem commits_in_order:
  assumes "NewWithRingCapacity n sh cap lv pend s0 = Some e0" "run_ok ap oss ops e0"
  shows "subseq (map key3 (filter (\<lambda>(_, _, err). err = None) (e_done (engine_run ap oss ops e0))))
    (map key3 (admitted ap oss ops e0))"
proof -
  have "q_ordered (absQ (admitted ap oss ops e0) (released ops) (engine_run ap oss ops e0))"
    using commit_order.inv_reach [OF new_inv(3) [OF assms(1)] run_queue [OF assms(1,2)]] .
  moreover have "subseq xs (xs @ ys)" for xs ys :: "(u64 \<times> u64) list"
    by (simp add: prefix_imp_subseq)
  ultimately show ?thesis using subseq_order.trans unfolding q_ordered_def absQ_def by (simp, blast)
qed

theorem commits_in_order_witness:
  "subseq (map key3 (filter (\<lambda>(_, _, err). err = None)
      (e_done (engine_run logApplier None example_ops example_engine))))
    (map key3 (admitted logApplier None example_ops example_engine))"
  by (rule commits_in_order [OF example_new example_run(1)])





end
