(* ===== verification/EngineFindings.thy ===== *)
theory EngineFindings
  imports EngineInv
begin

text \<open>
  Two behaviours of one engine that the comments of \<^verbatim>\<open>shard/pbisr/engine.go\<close> rule out, as runs of the
  model: a promotion that takes the applied frontier back, and a write window that stays full with
  nothing in flight.
\<close>

section \<open>Promotion and the node's own proposals\<close>

text \<open>\<open>Promote\<close> continues from what the node received as a backup. A node that was primary before, was
  re-added without any new write, and is promoted again has applied its own proposals too: its
  frontier goes back from 1 to 0 although its state machine has taken the write and has reported it
  durable. The window test then underflows, and every later write is told to wait.\<close>

definition repromoted :: "bytes list Engine" where
  "repromoted = engine_run logApplier None (example_ops @ [DoAdopt 200 2, DoPromote 210 3 400]) example_engine"

lemma promote_regresses:
  "appliedFrontierLocked (engine_run logApplier None example_ops example_engine) = (1, 1) \<and>
   e_done (engine_run logApplier None example_ops example_engine) = [(1, 1, None)] \<and>
   e_fsm repromoted = [[7]] \<and> appliedFrontierLocked repromoted = (0, 0) \<and> e_committed repromoted = 1 \<and>
   proposeFence ''a'' [''a''] 1 220 repromoted = Some ProposeRetry"
  by code_simp

section \<open>A window that stays full\<close>

text \<open>A failed record leaves the queue without moving the commit mark, so the distance the window test
  measures grows by one with every failed write.\<close>

definition failing :: "int \<Rightarrow> engineOp list" where
  "failing n = concat (map (\<lambda>i. [DoPropose (\<lambda>_ _. False) ''a'' [''a'', ''b''] 1 10 11 [7], DoSend False ''b'',
     DoComplete 20 ''b'' \<lparr>m_Epoch = 1, m_Seq = word_of_int i, m_PrevSeq = word_of_int (i - 1), m_PrevEpoch = 1, m_Data = [7]\<rparr>
       (Inl ErrReplicationTimeout)]) [1..n])"

lemma failures_widen_the_gap:
  "let e = engine_run logApplier None (DoPromote 0 1 100 # failing 8) example_engine
   in e_inflightN e = 0 \<and> e_lastSeq e = 8 \<and> e_committed e = 0"
  by code_simp

lemma idle_sweep [simp]: "e_inflightN e = 0 \<Longrightarrow> sweepLocked now e = e"
  by (simp add: sweepLocked.simps)

lemma idle_index [simp]: "e_inflightN e = 0 \<Longrightarrow> inflightIndexLocked s e = None"
  by (simp add: inflightIndexLocked_def)

text \<open>Once the window is full with nothing in flight, no write, completion, timeout, shrink, growth or
  renewal of the present epoch opens it again.\<close>

definition sameEpochOp :: "engineOp \<Rightarrow> 's Engine \<Rightarrow> bool" where
  "sameEpochOp op e = (case op of
     DoPropose _ _ _ _ _ _ _ \<Rightarrow> True | DoTimeout _ _ \<Rightarrow> True | DoComplete _ _ _ _ \<Rightarrow> True
   | DoCompleteGroup _ _ _ _ _ _ \<Rightarrow> True | DoShrink _ _ _ \<Rightarrow> True | DoGrow _ _ \<Rightarrow> True | DoSend _ _ \<Rightarrow> True
   | DoGrant _ epoch _ \<Rightarrow> epoch \<le> e_epoch e | _ \<Rightarrow> False)"

definition wedged :: "'s Engine \<Rightarrow> bool" where
  "wedged e = (e_inflightN e = 0 \<and> windowFullLocked e)"

lemma wedged_marks:
  assumes "wedged e" "e_inflightN e' = e_inflightN e" "e_lastSeq e' = e_lastSeq e" "e_committed e' = e_committed e"
  shows "wedged e'"
  using assms by (simp add: wedged_def windowFullLocked_def)

lemma idle_fold:
  assumes "\<And>e x. e_inflightN e = 0 \<Longrightarrow> f e x = e" "e_inflightN e = 0"
  shows "foldl f e xs = e"
  using assms(2) by (induction xs) (auto simp: assms(1))

lemma drops_marks:
  "e_inflightN (foldl (\<lambda>e p. dropPeerLocked p e) e ps) = e_inflightN e \<and>
   e_lastSeq (foldl (\<lambda>e p. dropPeerLocked p e) e ps) = e_lastSeq e \<and>
   e_committed (foldl (\<lambda>e p. dropPeerLocked p e) e ps) = e_committed e"
  by (induction ps arbitrary: e) (simp_all add: dropPeerLocked_def)

lemma wedged_group:
  assumes "wedged e"
  shows "wedged (completeGroupSend now peer epoch f l res e)"
proof -
  let ?e2 = "let c = groupCredit epoch f l res;
    e1 = (if c = l then notePeerSuccessLocked peer e else notePeerFailureLocked peer e)
    in if c \<ge> f then creditPeerAckedLocked peer c e1 else e1"
  have m: "e_inflightN ?e2 = e_inflightN e" "e_lastSeq ?e2 = e_lastSeq e" "e_committed ?e2 = e_committed e"
    by (simp_all add: Let_def creditPeerAckedLocked_def notePeerSuccessLocked_def notePeerFailureLocked_def)
  moreover have "e_inflightN ?e2 = 0" using m assms by (simp add: wedged_def)
  then have "completeGroupSend now peer epoch f l res e = ?e2"
    unfolding completeGroupSend_def Let_def by (subst idle_fold) simp_all
  ultimately show ?thesis using wedged_marks [OF assms] by simp
qed

lemma window_wedge_permanent:
  assumes w: "wedged e" and op: "sameEpochOp op e"
  shows "wedged (engine_exec ap oss op e)"
proof (cases op)
  case (DoPropose inl primary isr minISR now now' data)
  have "proposeFence primary isr minISR now e \<noteq> None" using w by (auto simp: proposeFence_def wedged_def)
  then show ?thesis using w by (auto simp: DoPropose proposeSequenced_def)
next
  case (DoTimeout epoch seq)
  then show ?thesis using w by (simp add: proposeTimeout_def wedged_def)
next
  case (DoComplete now peer msg res)
  have "e_inflightN e = 0" using w by (simp add: wedged_def)
  then have "e_inflightN (completeSend now peer msg res e) = e_inflightN e \<and>
      e_lastSeq (completeSend now peer msg res e) = e_lastSeq e \<and> e_committed (completeSend now peer msg res e) = e_committed e"
    by (auto simp: completeSend_def completeSendFail_def ackInflightLocked_def creditPeerAckedLocked_def
        notePeerSuccessLocked_def notePeerFailureLocked_def split: sum.split)
  then show ?thesis using wedged_marks [OF w, of "completeSend now peer msg res e"] by (simp add: DoComplete)
next
  case (DoCompleteGroup now peer epoch f l res)
  then show ?thesis using wedged_group [OF w] by simp
next
  case (DoShrink now epoch isr)
  have "wedged (ShrinkISR now epoch isr e)"
    using w drops_marks by (auto simp: ShrinkISR_def Let_def wedged_def windowFullLocked_def)
  then show ?thesis by (simp add: DoShrink)
next
  case (DoGrow epoch isr)
  then show ?thesis using w by (simp add: GrowISR_def wedged_def windowFullLocked_def)
next
  case (DoSend grp peer)
  then show ?thesis using w by (simp add: runSender_def wedged_def windowFullLocked_def split: option.split prod.split)
next
  case (DoGrant now epoch expiry)
  then show ?thesis using w op by (auto simp: GrantLease_def Let_def wedged_def windowFullLocked_def sameEpochOp_def)
qed (use op in \<open>simp_all add: sameEpochOp_def\<close>)

end
