(* ===== verification/ReplLog.thy ===== *)
theory ReplLog
  imports EngineCore
begin

text \<open>
  What replication promises across nodes, as an abstract machine. The entries ever appended form a
  tree: an entry is known by its (sequence number, epoch) key and carries the epoch of the entry
  before it, its payload and the state the machine is in after it. Every node sits at one entry of
  the tree, its frontier. A node appends only under the lease of an epoch it owns, follows an entry
  only from exactly the entry's predecessor, and installs only states of the tree.
\<close>

section \<open>The machine\<close>

type_synonym key = "u64 \<times> u64"
type_synonym 's history = "key \<Rightarrow> (u64 \<times> bytes \<times> 's) option"

text \<open>\<open>rn_held\<close> collects the frontiers a node went through since its last install.\<close>

record 's rnode =
  rn_epoch :: u64
  rn_lease :: u64
  rn_front :: key
  rn_fsm :: 's
  rn_live :: bool
  rn_held :: "key set"

record 's rlog =
  rl_node :: "node \<Rightarrow> 's rnode"
  rl_log :: "'s history"

abbreviation set_node :: "node \<Rightarrow> 's rnode \<Rightarrow> 's rlog \<Rightarrow> 's rlog" where
  "set_node n x c \<equiv> c\<lparr>rl_node := (rl_node c)(n := x)\<rparr>"

inductive rstep :: "'s applier \<Rightarrow> (u64 \<Rightarrow> node) \<Rightarrow> 's rlog \<Rightarrow> 's rlog \<Rightarrow> bool"
  for ap :: "'s applier" and owner :: "u64 \<Rightarrow> node" where
  rs_raise: "x = rl_node c n \<Longrightarrow> rn_epoch x \<le> ep \<Longrightarrow>
    rstep ap owner c (set_node n (x\<lparr>rn_epoch := ep\<rparr>) c)"
| rs_grant: "x = rl_node c n \<Longrightarrow> owner ep = n \<Longrightarrow> ep \<le> rn_epoch x \<Longrightarrow>
    rstep ap owner c (set_node n (x\<lparr>rn_lease := ep\<rparr>) c)"
| rs_append: "x = rl_node c n \<Longrightarrow> rn_live x \<Longrightarrow> rn_lease x = rn_epoch x \<Longrightarrow> rn_epoch x \<noteq> 0 \<Longrightarrow>
    rn_front x = (s, pe) \<Longrightarrow> s \<noteq> -1 \<Longrightarrow> ap (rn_fsm x) d = Inr (st, res) \<Longrightarrow> k = (s + 1, rn_epoch x) \<Longrightarrow>
    rstep ap owner c
      ((set_node n (x\<lparr>rn_front := k, rn_fsm := st, rn_held := insert k (rn_held x)\<rparr>) c)
         \<lparr>rl_log := (rl_log c)(k \<mapsto> (pe, d, st))\<rparr>)"
| rs_accept: "x = rl_node c n \<Longrightarrow> rn_live x \<Longrightarrow> owner ep \<noteq> n \<Longrightarrow> rn_epoch x \<le> ep \<Longrightarrow>
    rn_front x = (s, pe) \<Longrightarrow> s \<noteq> -1 \<Longrightarrow> k = (s + 1, ep) \<Longrightarrow> rl_log c k = Some (pe, d, st) \<Longrightarrow>
    rstep ap owner c (set_node n (x\<lparr>rn_epoch := ep, rn_front := k, rn_fsm := st, rn_held := insert k (rn_held x)\<rparr>) c)"
| rs_install: "x = rl_node c n \<Longrightarrow> owner ep \<noteq> n \<Longrightarrow> rn_epoch x \<le> ep \<Longrightarrow> snd k \<le> ep \<Longrightarrow>
    rl_log c k = Some (pe, d, st) \<Longrightarrow>
    rstep ap owner c (set_node n (x\<lparr>rn_epoch := ep, rn_front := k, rn_fsm := st, rn_live := live, rn_held := {}\<rparr>) c)"
| rs_poison: "x = rl_node c n \<Longrightarrow> owner ep \<noteq> n \<Longrightarrow> rn_epoch x \<le> ep \<Longrightarrow>
    rstep ap owner c (set_node n (x\<lparr>rn_epoch := ep, rn_fsm := st, rn_live := False, rn_held := {}\<rparr>) c)"

definition rl_init :: "'s \<Rightarrow> 's rlog \<Rightarrow> bool" where
  "rl_init s0 c = (rl_log c = [(0, 0) \<mapsto> (0, [], s0)] \<and>
     (\<forall>n. rl_node c n = \<lparr>rn_epoch = 0, rn_lease = 0, rn_front = (0, 0), rn_fsm = s0, rn_live = True, rn_held = {}\<rparr>))"

section \<open>The invariant\<close>

text \<open>Every entry but the root has its predecessor in the tree and follows from it; epochs do not
  decrease along the tree; within an epoch entries are linked directly.\<close>

definition tree_ok :: "'s applier \<Rightarrow> 's history \<Rightarrow> bool" where
  "tree_ok ap L = (\<forall>s ep pe d st. L (s, ep) = Some (pe, d, st) \<longrightarrow> (s, ep) \<noteq> (0, 0) \<longrightarrow>
     s \<noteq> 0 \<and> ep \<noteq> 0 \<and> pe \<le> ep \<and> (L (s - 1, ep) \<noteq> None \<longrightarrow> pe = ep) \<and>
     (\<exists>pe0 d0 st0 res. L (s - 1, pe) = Some (pe0, d0, st0) \<and> ap st0 d = Inr (st, res)))"

text \<open>Every entry of an epoch was appended by the owner of the epoch and is, while the owner is in
  that epoch, not beyond its frontier.\<close>

definition owner_ok :: "(u64 \<Rightarrow> node) \<Rightarrow> 's rlog \<Rightarrow> bool" where
  "owner_ok owner c = (\<forall>s ep. rl_log c (s, ep) \<noteq> None \<longrightarrow> ep \<noteq> 0 \<longrightarrow>
     ep \<le> rn_epoch (rl_node c (owner ep)) \<and>
     (rn_epoch (rl_node c (owner ep)) = ep \<longrightarrow>
        s \<le> fst (rn_front (rl_node c (owner ep))) \<and> snd (rn_front (rl_node c (owner ep))) = ep))"

inductive ancestor :: "'s history \<Rightarrow> key \<Rightarrow> key \<Rightarrow> bool" for L :: "'s history" and a :: key where
  anc_refl: "ancestor L a a"
| anc_step: "ancestor L a (s, pe) \<Longrightarrow> s \<noteq> -1 \<Longrightarrow> L (s + 1, ep) = Some (pe, d, st) \<Longrightarrow> ancestor L a (s + 1, ep)"

definition node_ok :: "(u64 \<Rightarrow> node) \<Rightarrow> 's history \<Rightarrow> node \<Rightarrow> 's rnode \<Rightarrow> bool" where
  "node_ok owner L n x = ((\<exists>pe d st. L (rn_front x) = Some (pe, d, st) \<and> (rn_live x \<longrightarrow> st = rn_fsm x)) \<and>
     snd (rn_front x) \<le> rn_epoch x \<and> rn_lease x \<le> rn_epoch x \<and>
     (rn_lease x \<noteq> 0 \<longrightarrow> owner (rn_lease x) = n) \<and> (\<forall>k\<in>rn_held x. ancestor L k (rn_front x)))"

definition rl_inv :: "'s \<Rightarrow> 's applier \<Rightarrow> (u64 \<Rightarrow> node) \<Rightarrow> 's rlog \<Rightarrow> bool" where
  "rl_inv s0 ap owner c = (rl_log c (0, 0) = Some (0, [], s0) \<and> tree_ok ap (rl_log c) \<and> owner_ok owner c \<and>
     (\<forall>n. node_ok owner (rl_log c) n (rl_node c n)))"

lemma map_leD: "L \<subseteq>\<^sub>m L' \<Longrightarrow> L k = Some v \<Longrightarrow> L' k = Some v"
  unfolding map_le_def using domI [of L k v] by simp

lemma ancestor_mono: "ancestor L a b \<Longrightarrow> L \<subseteq>\<^sub>m L' \<Longrightarrow> ancestor L' a b"
proof (induction rule: ancestor.induct)
  case (anc_step s pe ep d st)
  have "L' (s + 1, ep) = Some (pe, d, st)" by (rule map_leD [OF anc_step.prems anc_step.hyps(3)])
  then show ?case by (rule ancestor.anc_step [OF anc_step.IH [OF anc_step.prems] anc_step.hyps(2)])
qed (rule anc_refl)

lemma node_ok_mono: "node_ok owner L n x \<Longrightarrow> L \<subseteq>\<^sub>m L' \<Longrightarrow> node_ok owner L' n x"
proof -
  assume N: "node_ok owner L n x" and le: "L \<subseteq>\<^sub>m L'"
  then obtain pe d st where p: "L (rn_front x) = Some (pe, d, st)" "rn_live x \<longrightarrow> st = rn_fsm x"
    unfolding node_ok_def by blast
  have "L' (rn_front x) = Some (pe, d, st)" by (rule map_leD [OF le p(1)])
  moreover have "\<forall>k\<in>rn_held x. ancestor L' k (rn_front x)"
    using N ancestor_mono [OF _ le] unfolding node_ok_def by simp
  ultimately show ?thesis using N p(2) unfolding node_ok_def by simp
qed

lemma rl_inv_node:
  assumes "rl_inv s0 ap owner c" "node_ok owner (rl_log c) n x"
    and own: "\<And>s ep. owner ep = n \<Longrightarrow> rl_log c (s, ep) \<noteq> None \<Longrightarrow> ep \<noteq> 0 \<Longrightarrow> ep \<le> rn_epoch x \<and>
      (rn_epoch x = ep \<longrightarrow> s \<le> fst (rn_front x) \<and> snd (rn_front x) = ep)"
  shows "rl_inv s0 ap owner (set_node n x c)"
  using assms(1,2) own unfolding rl_inv_def owner_ok_def by simp

lemma ownerD:
  assumes "rl_inv s0 ap owner c" "rl_log c (s, ep) \<noteq> None" "ep \<noteq> 0"
  shows "ep \<le> rn_epoch (rl_node c (owner ep))"
    "rn_epoch (rl_node c (owner ep)) = ep \<Longrightarrow> s \<le> fst (rn_front (rl_node c (owner ep)))"
    "rn_epoch (rl_node c (owner ep)) = ep \<Longrightarrow> snd (rn_front (rl_node c (owner ep))) = ep"
  using assms unfolding rl_inv_def owner_ok_def by blast+

lemma owner_raise:
  assumes "rl_inv s0 ap owner c" "owner ep' \<noteq> n" "rn_epoch (rl_node c n) \<le> ep'"
    and "owner ep = n" "rl_log c (s, ep) \<noteq> None" "ep \<noteq> 0"
  shows "ep < ep'"
proof -
  have "ep \<le> rn_epoch (rl_node c n)" using ownerD(1) [OF assms(1,5,6)] assms(4) by simp
  moreover have "ep \<noteq> ep'" using assms(2,4) by auto
  ultimately show ?thesis using assms(3) by (meson order_trans order.not_eq_order_implies_strict)
qed

lemma nodeD: "rl_inv s0 ap owner c \<Longrightarrow> node_ok owner (rl_log c) n (rl_node c n)"
  by (simp add: rl_inv_def)

lemma append_fresh:
  assumes inv: "rl_inv s0 ap owner c" and x: "x = rl_node c n" "rn_lease x = rn_epoch x" "rn_epoch x \<noteq> 0"
    and f: "rn_front x = (s, pe)" "s \<noteq> -1"
  shows "rl_log c (s + 1, rn_epoch x) = None" "owner (rn_epoch x) = n"
    "rl_log c (s, rn_epoch x) \<noteq> None \<Longrightarrow> pe = rn_epoch x"
    "rl_log c (s', rn_epoch x) \<noteq> None \<Longrightarrow> s' \<le> s"
proof -
  show ow: "owner (rn_epoch x) = n" using nodeD [OF inv, of n] x unfolding node_ok_def by metis
  have o: "rl_log c (s', rn_epoch x) \<noteq> None \<Longrightarrow> s' \<le> s \<and> pe = rn_epoch x" for s'
    using ownerD(2,3) [OF inv _ x(3), of s'] x(1) f(1) ow by simp
  then show "rl_log c (s, rn_epoch x) \<noteq> None \<Longrightarrow> pe = rn_epoch x" "rl_log c (s', rn_epoch x) \<noteq> None \<Longrightarrow> s' \<le> s"
    by blast+
  have "\<not> s + 1 \<le> s" using f(2) by (simp add: word_le_nat_alt unat_succ)
  then show "rl_log c (s + 1, rn_epoch x) = None" using o by blast
qed

lemma tree_append:
  assumes t: "tree_ok ap L" and p: "L (s, pe) = Some (pe0, d0, st0)" "ap st0 d = Inr (st, res)" "pe \<le> ep" "ep \<noteq> 0"
    and fresh: "L (s + 1, ep) = None" "s \<noteq> -1" "L (s, ep) \<noteq> None \<Longrightarrow> pe = ep" "\<And>s'. L (s', ep) \<noteq> None \<Longrightarrow> s' \<le> s"
  shows "tree_ok ap (L((s + 1, ep) \<mapsto> (pe, d, st)))" (is "tree_ok ap ?L")
  unfolding tree_ok_def
proof (intro allI impI)
  fix a b pa da sa assume e: "?L (a, b) = Some (pa, da, sa)" "(a, b) \<noteq> (0, 0)"
  have nz: "s + 1 \<noteq> 0" using fresh(2) by (metis add.commute add_eq_0_iff)
  show "a \<noteq> 0 \<and> b \<noteq> 0 \<and> pa \<le> b \<and> (?L (a - 1, b) \<noteq> None \<longrightarrow> pa = b) \<and>
     (\<exists>pe0 d0 st0 res. ?L (a - 1, pa) = Some (pe0, d0, st0) \<and> ap st0 da = Inr (sa, res))"
  proof (cases "(a, b) = (s + 1, ep)")
    case True
    then have v: "pa = pe" "da = d" "sa = st" "a = s + 1" "b = ep" using e(1) by auto
    have "?L (a - 1, b) \<noteq> None \<longrightarrow> pa = b" unfolding v using fresh(3) by simp
    moreover have "?L (a - 1, pa) = Some (pe0, d0, st0)" unfolding v using p(1) by simp
    ultimately show ?thesis using p(2-4) nz unfolding v by blast
  next
    case False
    then have o: "L (a, b) = Some (pa, da, sa)" using e(1) by auto
    note T = t [unfolded tree_ok_def, rule_format, OF o e(2)]
    have "?L (a - 1, b) = L (a - 1, b)"
    proof -
      have "a - 1 \<noteq> s + 1 \<or> b \<noteq> ep"
      proof (rule ccontr)
        assume "\<not> (a - 1 \<noteq> s + 1 \<or> b \<noteq> ep)"
        then have e: "a - 1 = s + 1" "b = ep" by auto
        have "unat a \<le> unat s" using fresh(4) [of a] o e(2) by (simp add: word_le_nat_alt)
        moreover have "unat a - 1 = unat (a - 1)" using T by (simp add: unat_minus_one)
        moreover have "unat (a - 1) = Suc (unat s)" unfolding e(1) by (rule unat_succ [OF fresh(2)])
        ultimately show False by linarith
      qed
      then show ?thesis by auto
    qed
    moreover have "\<exists>pe0 d0 st0 res. ?L (a - 1, pa) = Some (pe0, d0, st0) \<and> ap st0 da = Inr (sa, res)"
    proof -
      from T obtain pe0 d0 st0 res where q: "L (a - 1, pa) = Some (pe0, d0, st0)" "ap st0 da = Inr (sa, res)" by blast
      then have "(a - 1, pa) \<noteq> (s + 1, ep)" using fresh(1) by (metis option.distinct(1))
      then show ?thesis using q by auto
    qed
    ultimately show ?thesis using T by auto
  qed
qed

text \<open>A node that moves from its frontier to a child of it.\<close>

lemma node_follow:
  assumes N: "node_ok owner L n x" and f: "rn_front x = (s, pe)" "s \<noteq> -1" and L: "L (s + 1, ep) = Some (pe, d, st)"
    and y: "rn_front y = (s + 1, ep)" "rn_fsm y = st" "rn_epoch y = ep" "rn_lease y = rn_lease x"
      "rn_held y = insert (s + 1, ep) (rn_held x)" and ep: "rn_epoch x \<le> ep"
  shows "node_ok owner L n y"
proof -
  have "ancestor L a (s + 1, ep)" if "ancestor L a (s, pe)" for a using anc_step [OF that f(2) L] .
  then have "\<forall>k\<in>rn_held y. ancestor L k (rn_front y)"
    using N anc_refl [of L "(s + 1, ep)"] unfolding node_ok_def y f(1) by simp
  moreover have "rn_lease x \<le> ep" using N ep unfolding node_ok_def by (meson order_trans)
  ultimately show ?thesis using N L unfolding node_ok_def y by simp
qed

lemma node_raise: "node_ok owner L n x \<Longrightarrow> rn_epoch x \<le> ep \<Longrightarrow> snd (rn_front x) \<le> ep \<and> rn_lease x \<le> ep"
  unfolding node_ok_def by (meson order_trans)

lemma append_owner_ok:
  assumes inv: "rl_inv s0 ap owner c" and x: "x = rl_node c n" "owner (rn_epoch x) = n"
    and s: "s \<le> s + 1" "\<And>a. rl_log c (a, rn_epoch x) \<noteq> None \<Longrightarrow> a \<le> s"
    and y: "rn_epoch y = rn_epoch x" "rn_front y = (s + 1, rn_epoch x)"
  shows "owner_ok owner ((set_node n y c)\<lparr>rl_log := (rl_log c)((s + 1, rn_epoch x) \<mapsto> v)\<rparr>)" (is "owner_ok owner ?c")
  unfolding owner_ok_def
proof (intro allI impI)
  fix a b assume a: "rl_log ?c (a, b) \<noteq> None" "b \<noteq> 0"
  show "b \<le> rn_epoch (rl_node ?c (owner b)) \<and> (rn_epoch (rl_node ?c (owner b)) = b \<longrightarrow>
      a \<le> fst (rn_front (rl_node ?c (owner b))) \<and> snd (rn_front (rl_node ?c (owner b))) = b)"
  proof (cases "b = rn_epoch x")
    case True
    then have "a = s + 1 \<or> rl_log c (a, rn_epoch x) \<noteq> None" using a(1) by (auto split: if_splits)
    then have "a \<le> s + 1" using s(1) order_trans [OF s(2) s(1)] by blast
    then show ?thesis using True x y by simp
  next
    case False
    then have o: "rl_log c (a, b) \<noteq> None" using a(1) by auto
    show ?thesis using ownerD [OF inv o a(2)] False x y by (cases "owner b = n") auto
  qed
qed

lemma append_inv:
  assumes inv: "rl_inv s0 ap owner c" and x: "x = rl_node c n" "rn_live x" "rn_lease x = rn_epoch x" "rn_epoch x \<noteq> 0"
    and f: "rn_front x = (s, pe)" "s \<noteq> -1" "ap (rn_fsm x) d = Inr (st, res)" "k = (s + 1, rn_epoch x)"
  shows "rl_inv s0 ap owner ((set_node n (x\<lparr>rn_front := k, rn_fsm := st, rn_held := insert k (rn_held x)\<rparr>) c)
         \<lparr>rl_log := (rl_log c)(k \<mapsto> (pe, d, st))\<rparr>)"
proof -
  let ?L = "(rl_log c)(k \<mapsto> (pe, d, st))"
    and ?x = "x\<lparr>rn_front := k, rn_fsm := st, rn_held := insert k (rn_held x)\<rparr>"
  note F = append_fresh [OF inv x(1,3,4) f(1,2)]
  have N: "node_ok owner (rl_log c) n x" using nodeD [OF inv] x(1) by blast
  then obtain pe0 d0 where p: "rl_log c (s, pe) = Some (pe0, d0, rn_fsm x)" "pe \<le> rn_epoch x"
    using x(2) f(1) unfolding node_ok_def by auto
  have le: "rl_log c \<subseteq>\<^sub>m ?L" using F(1) f(4) by (auto simp: map_le_def)
  have "tree_ok ap (rl_log c)" using inv by (simp add: rl_inv_def)
  then have tree: "tree_ok ap ?L" unfolding f(4)
    by (rule tree_append [where L = "rl_log c" and ap = ap, OF _ p(1) f(3) p(2) x(4) F(1) f(2)]) (use F(3,4) in blast)+
  have "node_ok owner ?L n ?x"
    by (rule node_follow [OF node_ok_mono [OF N le] f(1,2), of "rn_epoch x" d st]) (simp_all add: f(4))
  moreover have "node_ok owner ?L m (rl_node c m)" for m using node_ok_mono [OF nodeD [OF inv] le] .
  moreover have "s \<le> s + 1" using f(2) by (simp add: word_le_nat_alt unat_succ)
  then have "owner_ok owner ((set_node n ?x c)\<lparr>rl_log := ?L\<rparr>)"
    unfolding f(4) by (intro append_owner_ok [OF inv x(1) F(2)] F(4)) simp_all
  moreover have "?L (0, 0) = Some (0, [], s0)" using inv x(4) unfolding rl_inv_def f(4) by simp
  ultimately show ?thesis using tree unfolding rl_inv_def by simp
qed

lemma rstep_inv: "rstep ap owner c c' \<Longrightarrow> rl_inv s0 ap owner c \<Longrightarrow> rl_inv s0 ap owner c'"
proof (induction rule: rstep.induct)
  case (rs_raise x c n ep)
  have N: "node_ok owner (rl_log c) n x" using nodeD [OF rs_raise(3)] rs_raise(1) by blast
  show ?case
  proof (rule rl_inv_node [OF rs_raise(3)])
    show "node_ok owner (rl_log c) n (x\<lparr>rn_epoch := ep\<rparr>)" using node_raise [OF N rs_raise(2)] N
      unfolding node_ok_def by simp
    fix s e assume "owner e = n" "rl_log c (s, e) \<noteq> None" "e \<noteq> 0"
    note O = ownerD [OF rs_raise(3) this(2,3), unfolded this(1), folded rs_raise(1)]
    show "e \<le> rn_epoch (x\<lparr>rn_epoch := ep\<rparr>) \<and> (rn_epoch (x\<lparr>rn_epoch := ep\<rparr>) = e \<longrightarrow>
        s \<le> fst (rn_front (x\<lparr>rn_epoch := ep\<rparr>)) \<and> snd (rn_front (x\<lparr>rn_epoch := ep\<rparr>)) = e)"
      using O rs_raise(2) by auto
  qed
next
  case (rs_grant x c n ep)
  have N: "node_ok owner (rl_log c) n x" using nodeD [OF rs_grant(4)] rs_grant(1) by blast
  show ?case
  proof (rule rl_inv_node [OF rs_grant(4)])
    show "node_ok owner (rl_log c) n (x\<lparr>rn_lease := ep\<rparr>)" using N rs_grant(2,3) unfolding node_ok_def by auto
    fix s e assume "owner e = n" "rl_log c (s, e) \<noteq> None" "e \<noteq> 0"
    note O = ownerD [OF rs_grant(4) this(2,3), unfolded this(1), folded rs_grant(1)]
    show "e \<le> rn_epoch (x\<lparr>rn_lease := ep\<rparr>) \<and> (rn_epoch (x\<lparr>rn_lease := ep\<rparr>) = e \<longrightarrow>
        s \<le> fst (rn_front (x\<lparr>rn_lease := ep\<rparr>)) \<and> snd (rn_front (x\<lparr>rn_lease := ep\<rparr>)) = e)"
      using O by auto
  qed
next
  case (rs_append x c n s pe d st res k)
  then show ?case by (intro append_inv) auto
next
  case (rs_accept x c n ep s pe k d st)
  let ?y = "x\<lparr>rn_epoch := ep, rn_front := k, rn_fsm := st, rn_held := insert k (rn_held x)\<rparr>"
  have N: "node_ok owner (rl_log c) n x" using nodeD [OF rs_accept(9)] rs_accept(1) by blast
  show ?case
  proof (rule rl_inv_node [OF rs_accept(9)])
    show "node_ok owner (rl_log c) n ?y"
      by (rule node_follow [OF N rs_accept(5,6), of ep d st]) (use rs_accept in simp_all)
    fix s e assume "owner e = n" "rl_log c (s, e) \<noteq> None" "e \<noteq> 0"
    then have "e < ep" using owner_raise [OF rs_accept(9,3)] rs_accept(1,4) by blast
    then show "e \<le> rn_epoch ?y \<and> (rn_epoch ?y = e \<longrightarrow> s \<le> fst (rn_front ?y) \<and> snd (rn_front ?y) = e)" by auto
  qed
next
  case (rs_install x c n ep k pe d st live)
  let ?y = "x\<lparr>rn_epoch := ep, rn_front := k, rn_fsm := st, rn_live := live, rn_held := {}\<rparr>"
  have N: "node_ok owner (rl_log c) n x" using nodeD [OF rs_install(6)] rs_install(1) by blast
  show ?case
  proof (rule rl_inv_node [OF rs_install(6)])
    show "node_ok owner (rl_log c) n ?y"
      using node_raise [OF N rs_install(3)] N rs_install(4,5) unfolding node_ok_def by simp
    fix s e assume "owner e = n" "rl_log c (s, e) \<noteq> None" "e \<noteq> 0"
    then have "e < ep" using owner_raise [OF rs_install(6,2)] rs_install(1,3) by blast
    then show "e \<le> rn_epoch ?y \<and> (rn_epoch ?y = e \<longrightarrow> s \<le> fst (rn_front ?y) \<and> snd (rn_front ?y) = e)" by auto
  qed
next
  case (rs_poison x c n ep st)
  let ?y = "x\<lparr>rn_epoch := ep, rn_fsm := st, rn_live := False, rn_held := {}\<rparr>"
  have N: "node_ok owner (rl_log c) n x" using nodeD [OF rs_poison(4)] rs_poison(1) by blast
  show ?case
  proof (rule rl_inv_node [OF rs_poison(4)])
    show "node_ok owner (rl_log c) n ?y"
      using node_raise [OF N rs_poison(3)] N unfolding node_ok_def by auto
    fix s e assume "owner e = n" "rl_log c (s, e) \<noteq> None" "e \<noteq> 0"
    then have "e < ep" using owner_raise [OF rs_poison(4,2)] rs_poison(1,3) by blast
    then show "e \<le> rn_epoch ?y \<and> (rn_epoch ?y = e \<longrightarrow> s \<le> fst (rn_front ?y) \<and> snd (rn_front ?y) = e)" by auto
  qed
qed

interpretation replicated_log: state_machine "rl_init s0" "rstep ap owner" "rl_inv s0 ap owner" for s0 ap owner
proof unfold_locales
  show "rl_init s0 c \<Longrightarrow> rl_inv s0 ap owner c" for c
    by (auto simp: rl_init_def rl_inv_def tree_ok_def owner_ok_def node_ok_def split: if_splits)
  show "rl_inv s0 ap owner c \<Longrightarrow> rstep ap owner c c' \<Longrightarrow> rl_inv s0 ap owner c'" for c c'
    by (rule rstep_inv)
qed

section \<open>What the invariant gives\<close>

text \<open>Two live nodes at the same entry are in the same state.\<close>

lemma rl_matching:
  assumes "rl_inv s0 ap owner c" "rn_live (rl_node c n)" "rn_live (rl_node c m)"
    "rn_front (rl_node c n) = rn_front (rl_node c m)"
  shows "rn_fsm (rl_node c n) = rn_fsm (rl_node c m)"
  using nodeD [OF assms(1), of n] nodeD [OF assms(1), of m] assms(2-4) unfolding node_ok_def by auto

fun applyAll :: "'s applier \<Rightarrow> 's \<Rightarrow> bytes list \<Rightarrow> 's option" where
  "applyAll ap s [] = Some s"
| "applyAll ap s (d # ds) = (case ap s d of Inl _ \<Rightarrow> None | Inr (s', _) \<Rightarrow> applyAll ap s' ds)"

lemma applyAll_append:
  "applyAll ap s (ds @ ds') = (case applyAll ap s ds of None \<Rightarrow> None | Some s' \<Rightarrow> applyAll ap s' ds')"
  by (induction ds arbitrary: s) (auto split: sum.split)

text \<open>The payloads on the path from the root to an entry.\<close>

inductive path :: "'s history \<Rightarrow> key \<Rightarrow> bytes list \<Rightarrow> bool" for L :: "'s history" where
  path_root: "path L (0, 0) []"
| path_step: "path L (s, pe) ds \<Longrightarrow> s \<noteq> -1 \<Longrightarrow> L (s + 1, ep) = Some (pe, d, st) \<Longrightarrow> path L (s + 1, ep) (ds @ [d])"

text \<open>Every entry has a path, with as many payloads as its sequence number says, and its state is
  the initial state after these payloads.\<close>

lemma path_exists:
  assumes "tree_ok ap L" "L (0, 0) = Some (0, [], s0)" "L (s, ep) = Some (pe, d, st)"
  shows "\<exists>ds. path L (s, ep) ds \<and> length ds = unat s \<and> applyAll ap s0 ds = Some st"
  using assms(3)
proof (induction "unat s" arbitrary: s ep pe d st)
  case 0
  then have "s = 0" by (simp add: unat_eq_0)
  moreover have "ep = 0" using assms(1) 0(2) \<open>s = 0\<close> unfolding tree_ok_def by blast
  ultimately show ?case using 0(2) assms(2) path_root by (intro exI [of _ "[]"]) simp
next
  case (Suc k)
  have nz: "s \<noteq> 0" using Suc(2) by auto
  then have "(s, ep) \<noteq> (0, 0)" by simp
  from assms(1) [unfolded tree_ok_def, rule_format, OF Suc(3) this] obtain pe0 d0 st0 res
    where p: "L (s - 1, pe) = Some (pe0, d0, st0)" "ap st0 d = Inr (st, res)" by blast
  have u: "unat (s - 1) = k" using Suc(2) nz by (simp add: unat_minus_one)
  obtain ds where ds: "path L (s - 1, pe) ds" "length ds = unat (s - 1)" "applyAll ap s0 ds = Some st0"
    using Suc(1) [OF u [symmetric] p(1)] by blast
  have "s - 1 \<noteq> -1" using nz by simp
  then have "path L (s - 1 + 1, ep) (ds @ [d])" using Suc(3) by (intro path_step [OF ds(1)]) simp_all
  moreover have "applyAll ap s0 (ds @ [d]) = Some st" using ds(3) p(2) by (simp add: applyAll_append)
  ultimately show ?case using ds(2) u Suc(2) by (intro exI [of _ "ds @ [d]"]) simp
qed

text \<open>The path of an entry extends the path of every ancestor.\<close>

lemma path_ancestor: "ancestor L a b \<Longrightarrow> path L a ds \<Longrightarrow> \<exists>ds'. path L b (ds @ ds')"
proof (induction rule: ancestor.induct)
  case anc_refl
  then show ?case by (intro exI [of _ "[]"]) simp
next
  case (anc_step s pe ep d st)
  then obtain ds' where "path L (s, pe) (ds @ ds')" by blast
  then have "path L (s + 1, ep) ((ds @ ds') @ [d])" using anc_step.hyps(2,3) by (rule path_step)
  then show ?case by (intro exI [of _ "ds' @ [d]"]) simp
qed

end
