(* ===== verification/ReplPath.thy ===== *)
theory ReplPath
  imports EngineInv ReplLog
begin

text \<open>
  The path of a write from the primary's sender to a backup and back: how a sender cuts its queue
  into groups, what a backup accepts, and what the primary credits for a group answer.
\<close>

section \<open>Cutting the queue into groups\<close>

text \<open>A run of messages of one epoch with consecutive sequence numbers from \<open>s\<close> on.\<close>

fun dense_from :: "u64 \<Rightarrow> u64 \<Rightarrow> ReplicateMsg list \<Rightarrow> bool" where
  "dense_from ep s [] = True"
| "dense_from ep s (m # ms) = (m_Epoch m = ep \<and> m_Seq m = s \<and> dense_from ep (s + 1) ms)"

definition payload :: "ReplicateMsg list \<Rightarrow> nat" where
  "payload ms = sum_list (map (length \<circ> m_Data) ms)"

lemma payload_simps [simp]: "payload [] = 0" "payload (m # ms) = length (m_Data m) + payload ms"
  by (simp_all add: payload_def)

lemma drainMore_batch:
  "drainMore ep s n b q = (bs, r) \<Longrightarrow> n \<le> pbGroupBatchMax \<Longrightarrow>
   dense_from ep (s + 1) bs \<and> n + length bs \<le> pbGroupBatchMax \<and> (bs = [] \<or> b + payload bs \<le> pbGroupBytesMax)"
proof (induction ep s n b q arbitrary: bs rule: drainMore.induct)
  case (2 ep s n b m q)
  show ?case
  proof (cases "n \<ge> pbGroupBatchMax \<or> m_Epoch m \<noteq> ep \<or> m_Seq m \<noteq> s + 1 \<or> b + length (m_Data m) > pbGroupBytesMax")
    case True
    then show ?thesis using 2(2,3) by (auto split: if_splits)
  next
    case False
    then obtain bs' where d: "drainMore ep (m_Seq m) (n + 1) (b + length (m_Data m)) q = (bs', r)" "bs = m # bs'"
      using 2(2) by (auto split: prod.splits)
    then show ?thesis using False 2(1) [OF _ _ d(1)] by (auto simp: add.assoc)
  qed
qed simp

lemma drainBatch_batch:
  assumes "drainBatch grp (m # q) = (b, r)"
  shows "m # q = b @ r" "\<exists>bs. b = m # bs" "dense_from (m_Epoch m) (m_Seq m) b" "length b \<le> pbGroupBatchMax"
    "length b = 1 \<or> payload b \<le> pbGroupBytesMax"
proof -
  have "m # q = b @ r \<and> (\<exists>bs. b = m # bs) \<and> dense_from (m_Epoch m) (m_Seq m) b \<and> length b \<le> pbGroupBatchMax \<and>
      (length b = 1 \<or> payload b \<le> pbGroupBytesMax)"
  proof (cases grp)
    case True
    then obtain bs where d: "drainMore (m_Epoch m) (m_Seq m) 1 (length (m_Data m)) q = (bs, r)" "b = m # bs"
      using assms by (auto split: prod.splits)
    show ?thesis using drainMore_append [OF d(1)] drainMore_batch [OF d(1)] d(2)
      by (auto simp: pbGroupBatchMax_def)
  next
    case False
    then show ?thesis using assms by (auto simp: pbGroupBatchMax_def)
  qed
  then show "m # q = b @ r" "\<exists>bs. b = m # bs" "dense_from (m_Epoch m) (m_Seq m) b" "length b \<le> pbGroupBatchMax"
    "length b = 1 \<or> payload b \<le> pbGroupBytesMax" by blast+
qed

text \<open>What a sender may put into one frame.\<close>

definition batch_ok :: "ReplicateMsg list \<Rightarrow> bool" where
  "batch_ok b = (b \<noteq> [] \<and> dense_from (m_Epoch (hd b)) (m_Seq (hd b)) b \<and> length b \<le> pbGroupBatchMax \<and>
     (length b = 1 \<or> payload b \<le> pbGroupBytesMax))"

lemma batch_ok_drain:
  assumes "drainBatch grp (m # q) = (b, r)" shows "batch_ok b"
  using drainBatch_batch(2-5) [OF assms] by (auto simp: batch_ok_def)

lemma drain_parts: "concat (drainAll grp q) = q \<and> list_all batch_ok (drainAll grp q)"
proof (induction grp q rule: drainAll.induct)
  case (2 grp m q)
  obtain b r where d: "drainBatch grp (m # q) = (b, r)" by fastforce
  have "concat (drainAll grp r) = r \<and> list_all batch_ok (drainAll grp r)" using 2 d by simp
  moreover have "drainAll grp (m # q) = b # drainAll grp r" using d by simp
  ultimately show ?case using drainBatch_batch(1) [OF d] batch_ok_drain [OF d] by simp
qed simp

text \<open>(C10) The sender loses, duplicates and reorders nothing: the batches it drains from its queue,
  one after the other, make up the queue. Each is non-empty, belongs to one epoch, has consecutive
  sequence numbers, holds at most 64 messages and, unless it is a single message, at most 1 MiB.\<close>
theorem drainAll_partition:
  "concat (drainAll grp q) = q \<and> list_all batch_ok (drainAll grp q)"
  by (rule drain_parts)

section \<open>What a backup accepts\<close>

definition accepts :: "'s applier \<Rightarrow> ReplicateMsg \<Rightarrow> 's Engine \<Rightarrow> bool" where
  "accepts ap msg e = (\<not> e_poisoned e \<and> e_epoch e \<le> m_Epoch msg \<and> m_Seq msg = m_PrevSeq msg + 1 \<and>
     appliedFrontierLocked e = (m_PrevSeq msg, m_PrevEpoch msg) \<and>
     (case ap (e_fsm e) (m_Data msg) of Inl _ \<Rightarrow> False | Inr _ \<Rightarrow> True))"

lemma frontier_advance [simp]: "appliedFrontierLocked (advanceEpoch now ep e) = appliedFrontierLocked e"
  by (simp add: appliedFrontierLocked_def)

lemma frontier_note [simp]: "appliedFrontierLocked (noteFrontierLocked e) = appliedFrontierLocked e"
  by (simp add: note_core)

lemma receive_reject:
  assumes "\<not> accepts ap msg e" "receiveLocked ap now msg e = (e', ack)"
  shows "\<not> a_OK ack" "e_fsm e' = e_fsm e" "appliedFrontierLocked e' = appliedFrontierLocked e"
    "e_poisoned e' = e_poisoned e"
  using assms by (auto simp: receiveLocked_def accepts_def Let_def not_less split: if_splits prod.splits sum.splits)

lemma receive_accept:
  assumes "accepts ap msg e" "m_Seq msg \<noteq> 0" "receiveLocked ap now msg e = (e', ack)"
  shows "ack = \<lparr>a_Epoch = m_Epoch msg, a_Seq = m_Seq msg, a_OK = True\<rparr>"
    "\<exists>r. ap (e_fsm e) (m_Data msg) = Inr (e_fsm e', r)"
    "appliedFrontierLocked e' = (m_Seq msg, m_Epoch msg)" "e_poisoned e' = e_poisoned e" "e_epoch e' = m_Epoch msg"
proof -
  define e1 where "e1 = (if m_Epoch msg > e_epoch e then advanceEpoch now (m_Epoch msg) e else e)"
  have e1: "appliedFrontierLocked e1 = (m_PrevSeq msg, m_PrevEpoch msg)" "e_fsm e1 = e_fsm e"
    "e_poisoned e1 = e_poisoned e" "e_epoch e1 = m_Epoch msg"
    using assms(1) by (auto simp: e1_def accepts_def)
  obtain s r where s: "ap (e_fsm e) (m_Data msg) = Inr (s, r)"
    using assms(1) by (auto simp: accepts_def split: sum.splits)
  let ?e2 = "e1\<lparr>e_fsm := s, e_lastApplied := m_Seq msg, e_lastAppliedEpoch := m_Epoch msg\<rparr>"
  have eq: "receiveLocked ap now msg e = (noteFrontierLocked ?e2, \<lparr>a_Epoch = m_Epoch msg, a_Seq = m_Seq msg, a_OK = True\<rparr>)"
    using assms(1) s e1 unfolding receiveLocked_def Let_def e1_def [symmetric] by (auto simp: accepts_def)
  have "m_PrevSeq msg \<noteq> -1" "m_Seq msg = m_PrevSeq msg + 1" using assms(1,2) by (auto simp: accepts_def)
  then have lt: "m_PrevSeq msg < m_Seq msg" by (simp add: word_less_nat_alt unat_succ)
  have "e_lastSeq e1 \<le> m_PrevSeq msg" using e1(1) frontier_max [of e1] by simp
  then have fr: "appliedFrontierLocked ?e2 = (m_Seq msg, m_Epoch msg)"
    using lt by (simp add: appliedFrontierLocked_def order.strict_trans1)
  show "ack = \<lparr>a_Epoch = m_Epoch msg, a_Seq = m_Seq msg, a_OK = True\<rparr>"
    "\<exists>r. ap (e_fsm e) (m_Data msg) = Inr (e_fsm e', r)"
    "appliedFrontierLocked e' = (m_Seq msg, m_Epoch msg)" "e_poisoned e' = e_poisoned e" "e_epoch e' = m_Epoch msg"
    using eq assms(3) s fr e1 by (auto simp: note_core)
qed



section \<open>Groups and their credit\<close>

lemma receiveAll_prefix:
  assumes "dense_from ep (lastOK + 1) ms" "unat lastOK + length ms < 2 ^ 64"
    and "receiveAll ap now ep lastOK ms e = (e', ack)"
  shows "\<exists>n\<le>length ms. applyAll ap (e_fsm e) (map m_Data (take n ms)) = Some (e_fsm e') \<and>
    appliedFrontierLocked e' = (if n = 0 then appliedFrontierLocked e else (lastOK + of_nat n, ep)) \<and>
    ack = \<lparr>a_Epoch = ep, a_Seq = lastOK + of_nat n, a_OK = (n = length ms)\<rparr>"
  using assms
proof (induction ms arbitrary: lastOK e)
  case Nil
  then show ?case by auto
next
  case (Cons m ms)
  obtain e1 ack1 where r: "receiveLocked ap now m e = (e1, ack1)" by fastforce
  have m: "m_Epoch m = ep" "m_Seq m = lastOK + 1" using Cons.prems(1) by auto
  have "unat lastOK + 1 < 2 ^ 64" using Cons.prems(2) by simp
  then have u: "unat (m_Seq m) = unat lastOK + 1" using unat_Suc m by simp
  then have nz: "m_Seq m \<noteq> 0" by (metis unat_0 add_is_0 zero_neq_one)
  show ?case
  proof (cases "accepts ap m e")
    case False
    note R = receive_reject [OF False r]
    show ?thesis using R r Cons.prems(3) by (intro exI [of _ 0]) simp
  next
    case True
    note A = receive_accept [OF True nz r]
    have "receiveAll ap now ep (m_Seq m) ms e1 = (e', ack)" using Cons.prems(3) r A(1) by simp
    then obtain n where n: "n \<le> length ms" "applyAll ap (e_fsm e1) (map m_Data (take n ms)) = Some (e_fsm e')"
      "appliedFrontierLocked e' = (if n = 0 then appliedFrontierLocked e1 else (m_Seq m + of_nat n, ep))"
      "ack = \<lparr>a_Epoch = ep, a_Seq = m_Seq m + of_nat n, a_OK = (n = length ms)\<rparr>"
      using Cons.IH [of "m_Seq m" e1] Cons.prems(1,2) m u by auto
    show ?thesis using n A m by (intro exI [of _ "Suc n"]) (auto simp: algebra_simps)
  qed
qed

lemma dense_from_nth: "dense_from ep s ms \<Longrightarrow> i < length ms \<Longrightarrow> m_Seq (ms ! i) = s + of_nat i \<and> m_Epoch (ms ! i) = ep"
proof (induction ms arbitrary: s i)
  case (Cons m ms)
  then show ?case by (cases i) (auto simp: algebra_simps)
qed simp

lemma groupCredit_prefix:
  assumes "unat first - 1 + len < 2 ^ 64" "first \<noteq> 0" "n \<le> len" "0 < len" "i < len"
  shows "first + of_nat i \<le> groupCredit ep first (first - 1 + of_nat len)
      (Inr \<lparr>a_Epoch = ep, a_Seq = first - 1 + of_nat n, a_OK = (n = len)\<rparr>) \<longleftrightarrow> i < n"
proof -
  have f: "unat (first - 1) = unat first - 1" "0 < unat first"
    using assms(2) by (simp_all add: unat_minus_one unat_gt_0)
  have u: "unat (first - 1 + of_nat k) = unat first - 1 + k" if "k \<le> len" for k
    using that assms(1) f by (subst unat_word_ariths) (simp add: unat_of_nat)
  have s: "first + of_nat i = first - 1 + of_nat (Suc i)" by simp
  have "groupCredit ep first (first - 1 + of_nat len)
      (Inr \<lparr>a_Epoch = ep, a_Seq = first - 1 + of_nat n, a_OK = (n = len)\<rparr>) = first - 1 + of_nat n"
    using u [of n] u [of len] u [of 0] assms(3) by (auto simp: groupCredit_def word_le_nat_alt word_less_nat_alt)
  then show ?thesis unfolding s using u [of "Suc i"] u [of n] assms(3,5) by (simp only: word_le_nat_alt) auto
qed

text \<open>(C9) Group credit is exact. Whatever a backup does with a group cut by a sender, it applies a
  prefix of it, in order; and the answer it gives makes the primary credit exactly that prefix: the
  message at position \<open>i\<close> is credited if and only if it was applied.\<close>
theorem group_credit_exact:
  assumes "batch_ok msgs" "m_Seq (hd msgs) \<noteq> 0" "unat (m_Seq (hd msgs)) + length msgs \<le> 2 ^ 64"
    and "ReceiveGroup ap now msgs e = (e', ack)"
  shows "\<exists>n\<le>length msgs. applyAll ap (e_fsm e) (map m_Data (take n msgs)) = Some (e_fsm e') \<and>
    appliedFrontierLocked e' = (if n = 0 then appliedFrontierLocked e else (m_Seq (msgs ! (n - 1)), m_Epoch (hd msgs))) \<and>
    (\<forall>i<length msgs. m_Seq (msgs ! i) \<le>
       groupCredit (m_Epoch (hd msgs)) (m_Seq (hd msgs)) (m_Seq (last msgs)) (Inr ack) \<longleftrightarrow> i < n)"
proof -
  obtain m ms where m: "msgs = m # ms" using assms(1) by (cases msgs) (auto simp: batch_ok_def)
  have d: "dense_from (m_Epoch m) (m_Seq m - 1 + 1) msgs" using assms(1) m by (simp add: batch_ok_def)
  have nz: "m_Seq m \<noteq> 0" using assms(2) m by simp
  have len: "unat (m_Seq m - 1) = unat (m_Seq m) - 1" "0 < unat (m_Seq m)"
    using nz by (simp_all add: unat_minus_one unat_gt_0)
  then have b: "unat (m_Seq m - 1) + length msgs < 2 ^ 64" using assms(3) m by simp
  have "receiveAll ap now (m_Epoch m) (m_Seq m - 1) msgs e = (e', ack)"
    using assms(4) nz by (simp add: ReceiveGroup_def m)
  then obtain n where n: "n \<le> length msgs" "applyAll ap (e_fsm e) (map m_Data (take n msgs)) = Some (e_fsm e')"
    "appliedFrontierLocked e' = (if n = 0 then appliedFrontierLocked e else (m_Seq m - 1 + of_nat n, m_Epoch m))"
    "ack = \<lparr>a_Epoch = m_Epoch m, a_Seq = m_Seq m - 1 + of_nat n, a_OK = (n = length msgs)\<rparr>"
    using receiveAll_prefix [OF d b] by blast
  have s: "m_Seq (msgs ! i) = m_Seq m + of_nat i" if "i < length msgs" for i
    using dense_from_nth [OF d that] by simp
  have "last msgs = msgs ! (length msgs - 1)" by (simp add: m last_conv_nth)
  then have l: "m_Seq (last msgs) = m_Seq m - 1 + of_nat (length msgs)" using s [of "length msgs - 1"] m by simp
  have c: "m_Seq (msgs ! i) \<le> groupCredit (m_Epoch m) (m_Seq m) (m_Seq (last msgs)) (Inr ack) \<longleftrightarrow> i < n"
    if "i < length msgs" for i
    unfolding s [OF that] l n(4) using groupCredit_prefix [OF _ nz n(1) _ that] b len m by simp
  have f: "m_Seq (msgs ! (n - 1)) = m_Seq m - 1 + of_nat n" if "n \<noteq> 0"
    using s [of "n - 1"] n(1) that by (simp add: of_nat_diff)
  show ?thesis using n(1-3) c f by (intro exI [of _ n]) (auto simp: m)
qed

theorem group_credit_exact_witness:
  "let msgs = [\<lparr>m_Epoch = 1, m_Seq = 1, m_PrevSeq = 0, m_PrevEpoch = 0, m_Data = [7]\<rparr>,
               \<lparr>m_Epoch = 1, m_Seq = 2, m_PrevSeq = 0, m_PrevEpoch = 0, m_Data = [8]\<rparr>];
       (e', ack) = ReceiveGroup logApplier 0 msgs example_engine
   in \<exists>n\<le>length msgs. applyAll logApplier (e_fsm example_engine) (map m_Data (take n msgs)) = Some (e_fsm e') \<and>
    appliedFrontierLocked e' = (if n = 0 then appliedFrontierLocked example_engine
      else (m_Seq (msgs ! (n - 1)), m_Epoch (hd msgs))) \<and>
    (\<forall>i<length msgs. m_Seq (msgs ! i) \<le>
       groupCredit (m_Epoch (hd msgs)) (m_Seq (hd msgs)) (m_Seq (last msgs)) (Inr ack) \<longleftrightarrow> i < n)"
  unfolding Let_def case_prod_beta
  by (rule group_credit_exact [OF _ _ _ prod.collapse [symmetric]])
    (simp_all add: batch_ok_def pbGroupBatchMax_def pbGroupBytesMax_def)

end
