(* ===== verification/Placement.thy ===== *)
theory Placement
  imports Prelude "HOL-Library.List_Lexorder" "HOL-Library.Char_ord"
begin

text \<open>
  Shard placement (\<^verbatim>\<open>cluster/placement.go\<close>, \<^verbatim>\<open>cluster/peer.go\<close>): which nodes own which
  shard, a pure function of the member list, the shard count and the replication factor. Node
  ids are ordered as Go orders strings, byte by byte.
\<close>

record Peer =
  p_NodeID :: node
  p_RaftAddr :: string
  p_ServerAddr :: string
  p_PBAddr :: string

definition computePlacement :: "Peer list \<Rightarrow> int \<Rightarrow> int \<Rightarrow> node list list" where
  "computePlacement members numShards rf =
     (let ids = sort (map p_NodeID members); n = length ids; m = nat numShards
      in if n = 0 then replicate m []
         else if rf \<le> 0 \<or> rf \<ge> int n then replicate m ids
         else map (\<lambda>s. map (\<lambda>j. ids ! ((s + j) mod n)) [0..<nat rf]) [0..<m])"

definition placementContains :: "node list \<Rightarrow> node \<Rightarrow> bool" where
  "placementContains owners nodeID = (nodeID \<in> set owners)"

definition peersForOwners :: "Peer list \<Rightarrow> node list \<Rightarrow> Peer list" where
  "peersForOwners peers owners = filter (\<lambda>p. placementContains owners (p_NodeID p)) peers"

definition peerSlicesEqual :: "Peer list \<Rightarrow> Peer list \<Rightarrow> bool" where
  "peerSlicesEqual a b = (if length a \<noteq> length b then False
     else list_all (\<lambda>i. a ! i = b ! i) [0..<length a])"

section \<open>Owner sets\<close>

lemma peerSlicesEqual_iff: "peerSlicesEqual a b \<longleftrightarrow> a = b"
  by (auto simp: peerSlicesEqual_def list_all_iff intro: nth_equalityI)

lemma window_distinct:
  assumes "distinct ids" "k \<le> length ids"
  shows "distinct (map (\<lambda>j. ids ! ((s + j) mod length ids)) [0..<k])"
proof (cases "ids = []")
  case False
  have "inj_on (\<lambda>j. ids ! ((s + j) mod length ids)) {0..<k}"
  proof (rule inj_onI)
    fix i j assume ij: "i \<in> {0..<k}" "j \<in> {0..<k}"
      and eq: "ids ! ((s + i) mod length ids) = ids ! ((s + j) mod length ids)"
    have "(s + i) mod length ids = (s + j) mod length ids"
      using eq assms False nth_eq_iff_index_eq by (metis length_greater_0_conv mod_less_divisor)
    moreover have "i < length ids" "j < length ids" using ij assms by auto
    ultimately show "i = j" using mod_add_eq_iff [of i "length ids" j s] by simp
  qed
  then show ?thesis by (simp add: distinct_map)
qed (use assms in simp)

text \<open>(C19) Placement. For a non-empty member list with distinct ids, every shard gets exactly
  \<open>rf\<close> distinct owners, all of them members, when the replication factor is between one and the
  member count, and every member when it is zero, negative or at least the member count.\<close>

theorem computePlacement_owners:
  assumes "members \<noteq> []" "distinct (map p_NodeID members)" "0 \<le> s" "s < numShards"
  shows "length (computePlacement members numShards rf) = nat numShards \<and>
    distinct (computePlacement members numShards rf ! nat s) \<and>
    set (computePlacement members numShards rf ! nat s) \<subseteq> p_NodeID ` set members \<and>
    length (computePlacement members numShards rf ! nat s) =
      (if 0 < rf \<and> rf < int (length members) then nat rf else length members)"
proof -
  let ?ids = "sort (map p_NodeID members)"
  have d: "distinct ?ids" "?ids \<noteq> []" "set ?ids = p_NodeID ` set members" "length ?ids = length members"
    using assms by (auto simp flip: length_greater_0_conv)
  have l: "nat s < nat numShards" using assms by simp
  show ?thesis
  proof (cases "0 < rf \<and> rf < int (length members)")
    case True
    have "computePlacement members numShards rf ! nat s =
        map (\<lambda>j. ?ids ! ((nat s + j) mod length ?ids)) [0..<nat rf]"
      using True assms l d(2) by (simp add: computePlacement_def Let_def)
    moreover have "distinct (map (\<lambda>j. ?ids ! ((nat s + j) mod length ?ids)) [0..<nat rf])"
      using True d by (intro window_distinct) auto
    moreover have "?ids ! (k mod length ?ids) \<in> p_NodeID ` set members" for k
      using d by (metis length_greater_0_conv mod_less_divisor nth_mem)
    ultimately show ?thesis using True assms d(2) by (auto simp: computePlacement_def Let_def)
  next
    case False
    then show ?thesis using assms d l by (auto simp: computePlacement_def Let_def)
  qed
qed

theorem computePlacement_owners_witness:
  "length (computePlacement [\<lparr>p_NodeID = ''c'', p_RaftAddr = [], p_ServerAddr = [], p_PBAddr = []\<rparr>,
      \<lparr>p_NodeID = ''a'', p_RaftAddr = [], p_ServerAddr = [], p_PBAddr = []\<rparr>,
      \<lparr>p_NodeID = ''b'', p_RaftAddr = [], p_ServerAddr = [], p_PBAddr = []\<rparr>] 4 2 ! nat 3) = 2"
  using computePlacement_owners [of "[\<lparr>p_NodeID = ''c'', p_RaftAddr = [], p_ServerAddr = [], p_PBAddr = []\<rparr>,
      \<lparr>p_NodeID = ''a'', p_RaftAddr = [], p_ServerAddr = [], p_PBAddr = []\<rparr>,
      \<lparr>p_NodeID = ''b'', p_RaftAddr = [], p_ServerAddr = [], p_PBAddr = []\<rparr>]" 3 4 2]
  by simp

end
