(* ===== verification/KVIndexWire.thy ===== *)
theory KVIndexWire
  imports Prelude
begin

text \<open>
  KV index definitions on the wire (\<^verbatim>\<open>sdk/wire/kvindex.go\<close>): validation, the
  length-prefixed encoding of one definition and of a list of definitions. Go strings are byte
  strings; a \<open>string\<close> is its list of bytes read as characters.
\<close>

definition string_bytes :: "string \<Rightarrow> bytes" where "string_bytes s = map (\<lambda>c. of_nat (of_char c)) s"
definition bytes_string :: "bytes \<Rightarrow> string" where "bytes_string b = map (\<lambda>w. char_of (unat w)) b"

definition KVIndexKindScalar :: u8 where "KVIndexKindScalar = 0"
definition KVIndexKindCount :: u8 where "KVIndexKindCount = 1"
definition KVIndexMaxNameLen :: nat where "KVIndexMaxNameLen = 64"
definition KVIndexMaxPrefixLen :: nat where "KVIndexMaxPrefixLen = 255"
definition KVIndexMaxPathLen :: nat where "KVIndexMaxPathLen = 255"
definition KVIndexMaxDefs :: nat where "KVIndexMaxDefs = 64"
definition kvIndexDefMinBytes :: nat where "kvIndexDefMinBytes = 6"

record KVIndexDef =
  kd_Name :: string
  kd_KeyPrefix :: bytes
  kd_PayloadPath :: string
  kd_Kind :: u8
  kd_Enabled :: bool

datatype kvIndexErr = ErrShortArgs | ErrKVIndexDef string

definition kvNameChar :: "char \<Rightarrow> bool" where
  "kvNameChar c = (let n = (of_char c :: nat)
     in (65 \<le> n \<and> n \<le> 90) \<or> (97 \<le> n \<and> n \<le> 122) \<or> (48 \<le> n \<and> n \<le> 57) \<or>
        c = CHR ''_'' \<or> c = CHR ''.'' \<or> c = CHR '':'' \<or> c = CHR ''-'')"

definition validKVName :: "string \<Rightarrow> bool" where
  "validKVName s = (if length s = 0 \<or> length s > KVIndexMaxNameLen then False
     else list_all kvNameChar s)"

definition hasSuffix :: "string \<Rightarrow> string \<Rightarrow> bool" where
  "hasSuffix s x = (length x \<le> length s \<and> drop (length s - length x) s = x)"

definition Validate :: "KVIndexDef \<Rightarrow> kvIndexErr option" where
  "Validate d =
     (if \<not> validKVName (kd_Name d) then Some (ErrKVIndexDef ''name'')
      else if length (kd_KeyPrefix d) > KVIndexMaxPrefixLen then Some (ErrKVIndexDef ''key prefix too long'')
      else if kd_PayloadPath d = [] then Some (ErrKVIndexDef ''empty payload path'')
      else if length (kd_PayloadPath d) > KVIndexMaxPathLen then Some (ErrKVIndexDef ''payload path too long'')
      else if CHR ''/'' \<in> set (kd_PayloadPath d) then Some (ErrKVIndexDef ''top-level field'')
      else let isCount = hasSuffix (kd_PayloadPath d) ''#count''
           in if kd_Kind d = KVIndexKindScalar then (if isCount then Some (ErrKVIndexDef ''scalar'') else None)
              else if kd_Kind d = KVIndexKindCount then (if \<not> isCount then Some (ErrKVIndexDef ''count'') else None)
              else Some (ErrKVIndexDef ''unknown kind''))"

definition AppendKVIndexDef :: "bytes \<Rightarrow> KVIndexDef \<Rightarrow> bytes" where
  "AppendKVIndexDef dst d = dst @ [of_nat (length (kd_Name d))] @ string_bytes (kd_Name d) @
     [of_nat (length (kd_KeyPrefix d))] @ kd_KeyPrefix d @
     [of_nat (length (kd_PayloadPath d))] @ string_bytes (kd_PayloadPath d) @
     [kd_Kind d] @ [bool_byte (kd_Enabled d)]"

text \<open>The result carries the number of bytes consumed.\<close>

definition DecodeKVIndexDef :: "bytes \<Rightarrow> kvIndexErr + KVIndexDef \<times> nat" where
  "DecodeKVIndexDef b =
     (if length b < 1 then Inl ErrShortArgs
      else let nameLen = unat (b ! 0); o1 = 1
      in if length b - o1 < nameLen then Inl ErrShortArgs
      else let name = bytes_string (gslice o1 (o1 + nameLen) b); o2 = o1 + nameLen
      in if length b - o2 < 1 then Inl ErrShortArgs
      else let prefixLen = unat (b ! o2); o3 = o2 + 1
      in if length b - o3 < prefixLen then Inl ErrShortArgs
      else let prefix = gslice o3 (o3 + prefixLen) b; o4 = o3 + prefixLen
      in if length b - o4 < 1 then Inl ErrShortArgs
      else let pathLen = unat (b ! o4); o5 = o4 + 1
      in if length b - o5 < pathLen then Inl ErrShortArgs
      else let path = bytes_string (gslice o5 (o5 + pathLen) b); o6 = o5 + pathLen
      in if length b - o6 < 2 then Inl ErrShortArgs
      else Inr (\<lparr>kd_Name = name, kd_KeyPrefix = prefix, kd_PayloadPath = path, kd_Kind = b ! o6,
                 kd_Enabled = (b ! (o6 + 1) \<noteq> 0)\<rparr>, o6 + 2))"

definition EncodeKVIndexSetArgs :: "KVIndexDef \<Rightarrow> bytes" where
  "EncodeKVIndexSetArgs d = AppendKVIndexDef [] d"

definition DecodeKVIndexSetArgs :: "bytes \<Rightarrow> kvIndexErr + KVIndexDef" where
  "DecodeKVIndexSetArgs args = (case DecodeKVIndexDef args of Inl e \<Rightarrow> Inl e
     | Inr (d, n) \<Rightarrow> if n \<noteq> length args then Inl (ErrKVIndexDef ''trailing bytes'') else Inr d)"

definition be16 :: "nat \<Rightarrow> bytes" where "be16 n = be_put 2 n"
definition rd_be16 :: "bytes \<Rightarrow> nat" where "rd_be16 b = be_get (take 2 b)"

fun encodeKVIndexItems :: "bytes \<Rightarrow> KVIndexDef list \<Rightarrow> bool list \<Rightarrow> bytes" where
  "encodeKVIndexItems buf [] ready = buf"
| "encodeKVIndexItems buf (d # ds) ready =
     encodeKVIndexItems (AppendKVIndexDef buf d @
       [case ready of [] \<Rightarrow> 0 | r # _ \<Rightarrow> bool_byte r]) ds (tl ready)"

definition EncodeKVIndexList :: "KVIndexDef list \<Rightarrow> bool list \<Rightarrow> bytes" where
  "EncodeKVIndexList defs ready = encodeKVIndexItems (be16 (length defs)) defs ready"

definition CountFitsIn :: "int \<Rightarrow> int \<Rightarrow> int \<Rightarrow> bool" where
  "CountFitsIn n remaining minBytesPerElem =
     (if n < 0 \<or> remaining < 0 \<or> minBytesPerElem < 1 then False else n \<le> remaining div minBytesPerElem)"

fun decodeKVIndexItems :: "nat \<Rightarrow> bytes \<Rightarrow> kvIndexErr + (KVIndexDef \<times> bool) list \<times> bytes" where
  "decodeKVIndexItems 0 b = Inr ([], b)"
| "decodeKVIndexItems (Suc n) b = (case DecodeKVIndexDef b of Inl e \<Rightarrow> Inl e
     | Inr (d, dn) \<Rightarrow> let b1 = drop dn b
         in if length b1 < 1 then Inl ErrShortArgs
            else case decodeKVIndexItems n (drop 1 b1) of Inl e \<Rightarrow> Inl e
              | Inr (ds, r) \<Rightarrow> Inr ((d, b1 ! 0 \<noteq> 0) # ds, r))"

definition DecodeKVIndexList :: "bytes \<Rightarrow> kvIndexErr + (KVIndexDef \<times> bool) list" where
  "DecodeKVIndexList b =
     (if length b < 2 then Inl ErrShortArgs
      else let n = rd_be16 b
      in if \<not> CountFitsIn (int n) (int (length b - 2)) (int kvIndexDefMinBytes) then Inl ErrShortArgs
      else if n > KVIndexMaxDefs then Inl (ErrKVIndexDef ''definitions exceed cap'')
      else case decodeKVIndexItems n (drop 2 b) of Inl e \<Rightarrow> Inl e
        | Inr (ds, r) \<Rightarrow> if r \<noteq> [] then Inl (ErrKVIndexDef ''trailing bytes'') else Inr ds)"

section \<open>Round trips\<close>

lemma bytes_string_string_bytes [simp]: "bytes_string (string_bytes s) = s"
proof -
  have "char_of (unat (of_nat (of_char c) :: u8)) = c" for c
    by (simp add: unat_of_nat)
  then show ?thesis by (simp add: bytes_string_def string_bytes_def comp_def)
qed

lemma length_string_bytes [simp]: "length (string_bytes s) = length s"
  by (simp add: string_bytes_def)

definition def_fits :: "KVIndexDef \<Rightarrow> bool" where
  "def_fits d = (length (kd_Name d) < 256 \<and> length (kd_KeyPrefix d) < 256 \<and> length (kd_PayloadPath d) < 256)"

lemma Validate_fits: "Validate d = None \<Longrightarrow> def_fits d"
  by (auto simp: Validate_def def_fits_def validKVName_def KVIndexMaxNameLen_def KVIndexMaxPrefixLen_def
      KVIndexMaxPathLen_def split: if_splits)

lemma unat_len8: "n < 256 \<Longrightarrow> unat (of_nat n :: u8) = n"
  by (simp add: unat_of_nat)

lemma DecodeKVIndexDef_Append:
  assumes "def_fits d"
  shows "DecodeKVIndexDef (AppendKVIndexDef [] d @ r) = Inr (d, length (AppendKVIndexDef [] d))"
proof -
  obtain nm kp pp ki en where d: "d = \<lparr>kd_Name = nm, kd_KeyPrefix = kp, kd_PayloadPath = pp, kd_Kind = ki,
      kd_Enabled = en\<rparr>" by (cases d)
  have l: "unat (of_nat (length nm) :: u8) = length nm" "unat (of_nat (length kp) :: u8) = length kp"
    "unat (of_nat (length pp) :: u8) = length pp"
    using assms by (auto simp: def_fits_def d unat_len8)
  let ?n = "of_nat (length nm) :: u8" and ?k = "of_nat (length kp) :: u8" and ?p = "of_nat (length pp) :: u8"
  let ?nm = "string_bytes nm" and ?pp = "string_bytes pp" and ?z = "[ki, bool_byte en] @ r"
  define o2 where "o2 = 1 + length nm"
  define o4 where "o4 = o2 + 1 + length kp"
  define o6 where "o6 = o4 + 1 + length pp"
  define B where "B = ?n # ?nm @ ?k # kp @ ?p # ?pp @ ?z"
  have B: "AppendKVIndexDef [] d @ r = B" by (simp add: AppendKVIndexDef_def d B_def)
  have L: "length (AppendKVIndexDef [] d) = o6 + 2" by (simp add: AppendKVIndexDef_def d o2_def o4_def o6_def)
  have len: "length B = o6 + 2 + length r" by (simp add: B_def o2_def o4_def o6_def)
  have i: "B ! 0 = ?n" "B ! o2 = ?k" "B ! o4 = ?p" "B ! o6 = ki" "B ! (o6 + 1) = bool_byte en"
    by (simp_all add: B_def o2_def o4_def o6_def nth_append)
  have s: "gslice 1 o2 B = ?nm" "gslice (o2 + 1) o4 B = kp" "gslice (o4 + 1) o6 B = ?pp"
    by (simp_all add: gslice_def B_def o2_def o4_def o6_def)
  have en: "(bool_byte en \<noteq> 0) = en" by (simp add: bool_byte_def)
  have ge: "\<not> length B < 1" "\<not> length B - 1 < length nm" "\<not> length B - o2 < 1"
    "\<not> length B - (o2 + 1) < length kp" "\<not> length B - o4 < 1" "\<not> length B - (o4 + 1) < length pp"
    "\<not> length B - o6 < 2"
    using len by (simp_all add: o2_def o4_def o6_def)
  show ?thesis unfolding B L DecodeKVIndexDef_def Let_def i(1) l(1) o2_def [symmetric]
    unfolding i(2) l(2) o4_def [symmetric] unfolding i(3) l(3) o6_def [symmetric]
    by (simp only: ge if_False s i(4,5) en d bytes_string_string_bytes)
qed

interpretation kvdef_codec: codec EncodeKVIndexSetArgs DecodeKVIndexSetArgs def_fits
  by unfold_locales
     (use DecodeKVIndexDef_Append [where r = "[]"] in
       \<open>simp add: EncodeKVIndexSetArgs_def DecodeKVIndexSetArgs_def\<close>)

definition kv_item :: "KVIndexDef \<times> bool \<Rightarrow> bytes" where
  "kv_item x = AppendKVIndexDef [] (fst x) @ [bool_byte (snd x)]"

lemma AppendKVIndexDef_dst: "AppendKVIndexDef dst d = dst @ AppendKVIndexDef [] d"
  by (simp add: AppendKVIndexDef_def)

lemma encodeKVIndexItems_eq:
  "length ready = length ds \<Longrightarrow> encodeKVIndexItems buf ds ready = buf @ concat (map kv_item (zip ds ready))"
proof (induction buf ds ready rule: encodeKVIndexItems.induct)
  case (2 buf d ds ready)
  then obtain r rs where "ready = r # rs" by (cases ready) auto
  with 2 show ?case by (simp add: kv_item_def AppendKVIndexDef_dst [of buf])
qed simp

lemma decodeKVIndexItems_items:
  "list_all def_fits (map fst xs) \<Longrightarrow> decodeKVIndexItems (length xs) (concat (map kv_item xs) @ r) = Inr (xs, r)"
proof (induction xs)
  case (Cons x xs)
  have "DecodeKVIndexDef (AppendKVIndexDef [] (fst x) @ (bool_byte (snd x) # concat (map kv_item xs) @ r)) =
      Inr (fst x, length (AppendKVIndexDef [] (fst x)))"
    using Cons.prems by (intro DecodeKVIndexDef_Append) simp
  moreover have "(bool_byte (snd x) \<noteq> 0) = snd x" by (simp add: bool_byte_def)
  ultimately show ?case using Cons by (simp add: kv_item_def [of x] Let_def)
qed simp

lemma kv_item_min: "6 \<le> length (kv_item x)"
  by (simp add: kv_item_def AppendKVIndexDef_def)

lemma concat_kv_item_min: "6 * length xs \<le> length (concat (map kv_item xs))"
  by (induction xs) (use kv_item_min in \<open>auto simp: add_le_mono\<close>)

text \<open>KV index definitions on the wire. A valid definition survives the encoding of an
  index-set request, and a list of at most 64 valid definitions with their readiness flags
  survives the encoding of a listing.\<close>

theorem KVIndex_wire_roundtrip:
  assumes "list_all (\<lambda>d. Validate d = None) defs" "length defs \<le> KVIndexMaxDefs" "length ready = length defs"
  shows "map (\<lambda>d. DecodeKVIndexSetArgs (EncodeKVIndexSetArgs d)) defs = map Inr defs \<and>
    DecodeKVIndexList (EncodeKVIndexList defs ready) = Inr (zip defs ready)"
proof
  have fits: "list_all def_fits defs" using assms(1) Validate_fits by (auto simp: list_all_iff)
  show "map (\<lambda>d. DecodeKVIndexSetArgs (EncodeKVIndexSetArgs d)) defs = map Inr defs"
    using fits by (auto simp: list_all_iff kvdef_codec.dec_enc)
  let ?xs = "zip defs ready"
  have n: "length defs \<le> 64" "length ?xs = length defs" using assms by (simp_all add: KVIndexMaxDefs_def)
  have "be_get (be_put 2 (length defs)) = length defs mod 256 ^ 2"
    by (simp add: be_get_def be_put_def le_get_le_put)
  then have rd: "rd_be16 (be16 (length defs) @ b) = length defs" for b
    using n by (simp add: rd_be16_def be16_def)
  have "6 * length defs \<le> length (concat (map kv_item ?xs))" using concat_kv_item_min [of ?xs] n by simp
  then have "int (length defs) \<le> int (length (concat (map kv_item ?xs))) div 6" by linarith
  moreover have "map fst ?xs = defs" using assms(3) by simp
  ultimately show "DecodeKVIndexList (EncodeKVIndexList defs ready) = Inr ?xs"
    using decodeKVIndexItems_items [of ?xs "[]"] fits n rd assms(2,3)
    by (simp add: DecodeKVIndexList_def EncodeKVIndexList_def encodeKVIndexItems_eq CountFitsIn_def
        kvIndexDefMinBytes_def Let_def) (simp add: be16_def)
qed

theorem KVIndex_wire_roundtrip_witness:
  "DecodeKVIndexList (EncodeKVIndexList
     [\<lparr>kd_Name = ''ix'', kd_KeyPrefix = [1, 2], kd_PayloadPath = ''a#count'', kd_Kind = 1, kd_Enabled = True\<rparr>]
     [True]) =
   Inr [(\<lparr>kd_Name = ''ix'', kd_KeyPrefix = [1, 2], kd_PayloadPath = ''a#count'', kd_Kind = 1, kd_Enabled = True\<rparr>,
         True)]"
  using KVIndex_wire_roundtrip
    [of "[\<lparr>kd_Name = ''ix'', kd_KeyPrefix = [1, 2], kd_PayloadPath = ''a#count'', kd_Kind = 1, kd_Enabled = True\<rparr>]"
        "[True]"]
  by (simp add: Validate_def validKVName_def KVIndexMaxNameLen_def KVIndexMaxPrefixLen_def KVIndexMaxPathLen_def
      KVIndexMaxDefs_def KVIndexKindScalar_def KVIndexKindCount_def hasSuffix_def kvNameChar_def Let_def)

end
