(* ===== verification/MetaFSM.thy ===== *)
theory MetaFSM
  imports Placement KVIndexWire
begin

text \<open>
  The replicated control-plane state machine (\<^verbatim>\<open>cluster/meta_state.go\<close>,
  \<^verbatim>\<open>cluster/meta_fsm.go\<close>): the cluster state every node derives from the same log, and the
  application of one log entry to it. Each operation of the log is a definition of its own;
  \<open>Apply\<close> decodes, dispatches and moves the applied index.

  The bodies of entries and snapshots are gob streams: the codec is the parameter \<open>gob\<close> of the
  definitions that decode. The results of an application are the reply to the proposer, the lease
  renewals handed to the observer, and whether the node halts.
\<close>

section \<open>State and entries\<close>

record KVIndexEntry =
  ke_Def :: KVIndexDef
  ke_MetaIndex :: u64

record ReshardEntry =
  rh_Status :: u8
  rh_TargetP :: int
  rh_TargetGen :: u32
  rh_SourceP :: int
  rh_SourceGen :: u32

record ShardEpochPair =
  sp_ShardID :: int
  sp_Epoch :: u64

record AliasAction =
  aa_Alias :: string
  aa_Canonical :: string
  aa_Delete :: bool

record State =
  s_NumShards :: int
  s_Members :: "Peer list"
  s_Placement :: "node list list"
  s_Catalog :: "(string, u32) gomap"
  s_CatalogGen :: "(string, u32) gomap"
  s_CatalogReshard :: "(string, ReshardEntry) gomap"
  s_Aliases :: "(string, string) gomap"
  s_ShardEpoch :: "(int, u64) gomap"
  s_ShardPrimary :: "(int, node) gomap"
  s_ShardFormer :: "(int, node) gomap"
  s_ShardISR :: "(int, node list) gomap"
  s_KVIndexes :: "(string, KVIndexEntry) gomap"
  s_MinISR :: int
  s_ReplicationFactor :: int
  s_ReplicationFactorSet :: bool
  s_LastIndex :: u64
  s_PopulatedFields :: "string list"

definition emptyState :: State where
  "emptyState = \<lparr>s_NumShards = 0, s_Members = [], s_Placement = [], s_Catalog = [], s_CatalogGen = [],
     s_CatalogReshard = [], s_Aliases = [], s_ShardEpoch = [], s_ShardPrimary = [], s_ShardFormer = [],
     s_ShardISR = [], s_KVIndexes = [], s_MinISR = 0, s_ReplicationFactor = 0,
     s_ReplicationFactorSet = False, s_LastIndex = 0, s_PopulatedFields = []\<rparr>"

definition OpSetMembers :: u8 where "OpSetMembers = 1"
definition OpSetPlacement :: u8 where "OpSetPlacement = 4"
definition OpSetCatalogEntry :: u8 where "OpSetCatalogEntry = 5"
definition OpSetCatalogReshard :: u8 where "OpSetCatalogReshard = 6"
definition OpSetAliasBatch :: u8 where "OpSetAliasBatch = 7"
definition OpSetShardEpoch :: u8 where "OpSetShardEpoch = 8"
definition OpSetShardISR :: u8 where "OpSetShardISR = 9"
definition OpShardLeaseRenew :: u8 where "OpShardLeaseRenew = 10"
definition OpSetShardFormer :: u8 where "OpSetShardFormer = 11"
definition OpSetKVIndex :: u8 where "OpSetKVIndex = 12"

lemmas op_defs = OpSetMembers_def OpSetPlacement_def OpSetCatalogEntry_def OpSetCatalogReshard_def
  OpSetAliasBatch_def OpSetShardEpoch_def OpSetShardISR_def OpShardLeaseRenew_def OpSetShardFormer_def
  OpSetKVIndex_def

record logBody =
  l_Members :: "Peer list"
  l_NumShards :: int
  l_ReplicationFactor :: int
  l_ShardID :: int
  l_Owners :: "node list"
  l_Collection :: string
  l_Partitions :: u32
  l_Generation :: u32
  l_ReshardStatus :: u8
  l_ReshardTargetP :: int
  l_ReshardTargetGen :: u32
  l_ReshardSourceP :: int
  l_ReshardSourceGen :: u32
  l_AliasBatch :: "AliasAction list"
  l_Epoch :: u64
  l_Primary :: node
  l_ISR :: "node list"
  l_Node :: node
  l_LeaseRenew :: "ShardEpochPair list"
  l_MinISR :: int
  l_KVIndex :: KVIndexDef

text \<open>A log entry is its operation byte and the fields of the body.\<close>

record LogEntry =
  le_Op :: u8
  le_Body :: logBody

datatype metaErr =
    errTooShort | errDecode | errNegativeShard int | errEmptyNode int | errKVIndex kvIndexErr
  | errKVIndexCap | errMetaUnknownOp u8 u64 | errEmptyState | errUnknownFields "string list"

text \<open>The gob codec of entry bodies and of snapshots.\<close>

record gobCodec =
  gob_encBody :: "logBody \<Rightarrow> bytes"
  gob_decBody :: "bytes \<Rightarrow> logBody option"
  gob_encState :: "State \<Rightarrow> bytes"
  gob_decState :: "bytes \<Rightarrow> State option"

definition encodeLogEntry :: "gobCodec \<Rightarrow> LogEntry \<Rightarrow> bytes" where
  "encodeLogEntry gob e = le_Op e # gob_encBody gob (le_Body e)"

definition decodeLogEntry :: "gobCodec \<Rightarrow> bytes \<Rightarrow> metaErr + LogEntry" where
  "decodeLogEntry gob b = (if length b < 1 then Inl errTooShort
     else case gob_decBody gob (drop 1 b) of None \<Rightarrow> Inl errDecode
       | Some body \<Rightarrow> Inr \<lparr>le_Op = b ! 0, le_Body = body\<rparr>)"

section \<open>The operations\<close>

datatype applyResult = ResNil | ResBool bool | ResErr metaErr

definition applySetMembers :: "logBody \<Rightarrow> State \<Rightarrow> State" where
  "applySetMembers l s =
     (let sorted = sort_key p_NodeID (l_Members l);
          backfill = (\<not> s_ReplicationFactorSet s \<and> s_NumShards s = l_NumShards l \<and>
                      peerSlicesEqual (s_Members s) sorted);
          s1 = s\<lparr>s_Members := sorted, s_NumShards := l_NumShards l,
                 s_ReplicationFactor := l_ReplicationFactor l, s_ReplicationFactorSet := True\<rparr>;
          s2 = (if backfill then s1
                else s1\<lparr>s_Placement := computePlacement sorted (l_NumShards l) (l_ReplicationFactor l)\<rparr>)
      in if l_MinISR l > 0 then s2\<lparr>s_MinISR := l_MinISR l\<rparr> else s2)"

definition applySetPlacement :: "logBody \<Rightarrow> State \<Rightarrow> State \<times> applyResult" where
  "applySetPlacement l s =
     (if l_ShardID l < 0 then (s, ResErr (errNegativeShard (l_ShardID l)))
      else let want = max (l_NumShards l) (l_ShardID l + 1);
               s1 = (if s_NumShards s < want then s\<lparr>s_NumShards := want\<rparr> else s);
               table = s_Placement s1 @ replicate (nat want - length (s_Placement s1)) []
           in (s1\<lparr>s_Placement := table[nat (l_ShardID l) := l_Owners l]\<rparr>, ResNil))"

definition applySetCatalogEntry :: "logBody \<Rightarrow> State \<Rightarrow> State" where
  "applySetCatalogEntry l s =
     s\<lparr>s_Catalog := AList.update (l_Collection l) (l_Partitions l) (s_Catalog s),
       s_CatalogGen := AList.update (l_Collection l) (l_Generation l) (s_CatalogGen s)\<rparr>"

definition applySetCatalogReshard :: "logBody \<Rightarrow> State \<Rightarrow> State" where
  "applySetCatalogReshard l s = (if l_ReshardStatus l = 0
     then s\<lparr>s_CatalogReshard := AList.delete (l_Collection l) (s_CatalogReshard s)\<rparr>
     else s\<lparr>s_CatalogReshard := AList.update (l_Collection l)
              \<lparr>rh_Status = l_ReshardStatus l, rh_TargetP = l_ReshardTargetP l,
               rh_TargetGen = l_ReshardTargetGen l, rh_SourceP = l_ReshardSourceP l,
               rh_SourceGen = l_ReshardSourceGen l\<rparr> (s_CatalogReshard s)\<rparr>)"

definition applySetAliasBatch :: "logBody \<Rightarrow> State \<Rightarrow> State" where
  "applySetAliasBatch l s = s\<lparr>s_Aliases := foldl (\<lambda>m a. if aa_Delete a then AList.delete (aa_Alias a) m
       else AList.update (aa_Alias a) (aa_Canonical a) m) (s_Aliases s) (l_AliasBatch l)\<rparr>"

definition seedISRForEpoch :: "node \<Rightarrow> node list \<Rightarrow> node list" where
  "seedISRForEpoch primary isr = (if primary \<in> set isr then isr else [primary])"

definition applySetShardEpoch :: "logBody \<Rightarrow> State \<Rightarrow> State" where
  "applySetShardEpoch l s =
     (if l_Epoch l \<le> gget 0 (s_ShardEpoch s) (l_ShardID l) then s
      else s\<lparr>s_ShardEpoch := AList.update (l_ShardID l) (l_Epoch l) (s_ShardEpoch s),
             s_ShardPrimary := AList.update (l_ShardID l) (l_Primary l) (s_ShardPrimary s),
             s_ShardISR := AList.update (l_ShardID l) (seedISRForEpoch (l_Primary l) (l_ISR l)) (s_ShardISR s)\<rparr>)"

definition applySetShardISR :: "logBody \<Rightarrow> State \<Rightarrow> State" where
  "applySetShardISR l s =
     (if l_Epoch l \<noteq> gget 0 (s_ShardEpoch s) (l_ShardID l) then s
      else if length (l_ISR l) = 0 \<or> (s_MinISR s > 0 \<and> int (length (l_ISR l)) < s_MinISR s) then s
      else s\<lparr>s_ShardISR := AList.update (l_ShardID l) (l_ISR l) (s_ShardISR s)\<rparr>)"

definition leaseRenewals :: "logBody \<Rightarrow> State \<Rightarrow> (int \<times> u64) list" where
  "leaseRenewals l s = map (\<lambda>p. (sp_ShardID p, sp_Epoch p)) (filter (\<lambda>p. l_Node l \<noteq> [] \<and>
     l_Node l = gget [] (s_ShardPrimary s) (sp_ShardID p) \<and>
     sp_Epoch p = gget 0 (s_ShardEpoch s) (sp_ShardID p)) (l_LeaseRenew l))"

definition applySetKVIndex :: "u64 \<Rightarrow> logBody \<Rightarrow> State \<Rightarrow> State \<times> applyResult" where
  "applySetKVIndex index l s =
     (case Validate (l_KVIndex l) of Some e \<Rightarrow> (s, ResErr (errKVIndex e)) | None \<Rightarrow>
        let name = kd_Name (l_KVIndex l)
        in if \<not> kd_Enabled (l_KVIndex l)
           then (s\<lparr>s_KVIndexes := AList.delete name (s_KVIndexes s)\<rparr>, ResNil)
           else if \<not> ghas (s_KVIndexes s) name \<and> length (s_KVIndexes s) \<ge> KVIndexMaxDefs
           then (s, ResErr errKVIndexCap)
           else (s\<lparr>s_KVIndexes := AList.update name \<lparr>ke_Def = l_KVIndex l, ke_MetaIndex = index\<rparr>
                   (s_KVIndexes s)\<rparr>, ResNil))"

definition applySetShardFormer :: "logBody \<Rightarrow> State \<Rightarrow> State \<times> applyResult" where
  "applySetShardFormer l s =
     (if l_ShardID l < 0 then (s, ResErr (errNegativeShard (l_ShardID l)))
      else if l_Node l = [] then (s, ResErr (errEmptyNode (l_ShardID l)))
      else if ghas (s_ShardFormer s) (l_ShardID l) then (s, ResBool False)
      else (s\<lparr>s_ShardFormer := AList.update (l_ShardID l) (l_Node l) (s_ShardFormer s)\<rparr>, ResBool True))"

section \<open>The state machine\<close>

record MetaFSM =
  mf_state :: State
  mf_nodeID :: node
  mf_appliedIndex :: u64

record raftLog =
  rl_Index :: u64
  rl_Data :: bytes

record applyEffect =
  ae_result :: applyResult
  ae_renewed :: "(int \<times> u64) list"
  ae_fatal :: bool

definition advanceApplied :: "u64 \<Rightarrow> MetaFSM \<Rightarrow> MetaFSM" where
  "advanceApplied idx m = (if idx \<le> mf_appliedIndex m then m else m\<lparr>mf_appliedIndex := idx\<rparr>)"

text \<open>The dispatch on the operation of a decoded entry.\<close>

definition applyOp :: "u64 \<Rightarrow> LogEntry \<Rightarrow> State \<Rightarrow> (State \<times> applyResult \<times> (int \<times> u64) list) option" where
  "applyOp index e s =
     (let l = le_Body e; op = le_Op e; quiet = (\<lambda>s. Some (s, ResNil, []));
          res = (\<lambda>(s, r). Some (s, r, []))
      in if op = OpSetMembers then quiet (applySetMembers l s)
         else if op = OpSetPlacement then res (applySetPlacement l s)
         else if op = OpSetCatalogEntry then quiet (applySetCatalogEntry l s)
         else if op = OpSetCatalogReshard then quiet (applySetCatalogReshard l s)
         else if op = OpSetAliasBatch then quiet (applySetAliasBatch l s)
         else if op = OpSetShardEpoch then quiet (applySetShardEpoch l s)
         else if op = OpSetShardISR then quiet (applySetShardISR l s)
         else if op = OpShardLeaseRenew then Some (s, ResNil, leaseRenewals l s)
         else if op = OpSetKVIndex then res (applySetKVIndex index l s)
         else if op = OpSetShardFormer then res (applySetShardFormer l s)
         else None)"

definition Apply :: "gobCodec \<Rightarrow> raftLog \<Rightarrow> MetaFSM \<Rightarrow> MetaFSM \<times> applyEffect" where
  "Apply gob log m =
     (case decodeLogEntry gob (rl_Data log) of
        Inl e \<Rightarrow> (m, \<lparr>ae_result = ResErr e, ae_renewed = [], ae_fatal = False\<rparr>)
      | Inr entry \<Rightarrow>
          (case applyOp (rl_Index log) entry (mf_state m) of
             None \<Rightarrow> (m, \<lparr>ae_result = ResErr (errMetaUnknownOp (le_Op entry) (rl_Index log)),
                          ae_renewed = [], ae_fatal = True\<rparr>)
           | Some (s, r, ren) \<Rightarrow> (advanceApplied (rl_Index log) (m\<lparr>mf_state := s\<rparr>),
               \<lparr>ae_result = r, ae_renewed = ren, ae_fatal = False\<rparr>)))"

section \<open>Reads\<close>

definition ShardEpoch :: "int \<Rightarrow> State \<Rightarrow> u64" where "ShardEpoch sh s = gget 0 (s_ShardEpoch s) sh"
definition ShardPrimary :: "int \<Rightarrow> State \<Rightarrow> node" where "ShardPrimary sh s = gget [] (s_ShardPrimary s) sh"
definition ShardISR :: "int \<Rightarrow> State \<Rightarrow> node list" where "ShardISR sh s = gget [] (s_ShardISR s) sh"
definition ShardFormer :: "int \<Rightarrow> State \<Rightarrow> node" where "ShardFormer sh s = gget [] (s_ShardFormer s) sh"

definition CatalogLookup :: "string \<Rightarrow> State \<Rightarrow> u32 option" where
  "CatalogLookup c s = map_of (s_Catalog s) c"

definition CatalogLookupGen :: "string \<Rightarrow> State \<Rightarrow> u32 \<times> u32 \<times> bool" where
  "CatalogLookupGen c s = (gget 0 (s_Catalog s) c, gget 0 (s_CatalogGen s) c, ghas (s_Catalog s) c)"

definition zeroReshard :: ReshardEntry where
  "zeroReshard = \<lparr>rh_Status = 0, rh_TargetP = 0, rh_TargetGen = 0, rh_SourceP = 0, rh_SourceGen = 0\<rparr>"

definition CatalogReshardLookup :: "string \<Rightarrow> State \<Rightarrow> ReshardEntry \<times> bool" where
  "CatalogReshardLookup c s = (let e = gget zeroReshard (s_CatalogReshard s) c in (e, rh_Status e \<noteq> 0))"

definition AliasLookup :: "string \<Rightarrow> State \<Rightarrow> string option" where
  "AliasLookup a s = map_of (s_Aliases s) a"

definition KVIndexLookup :: "string \<Rightarrow> State \<Rightarrow> KVIndexEntry option" where
  "KVIndexLookup n s = map_of (s_KVIndexes s) n"

fun ServerAddrForRaftAddr :: "string \<Rightarrow> Peer list \<Rightarrow> string" where
  "ServerAddrForRaftAddr a [] = []"
| "ServerAddrForRaftAddr a (p # ps) = (if p_RaftAddr p = a then p_ServerAddr p else ServerAddrForRaftAddr a ps)"

section \<open>Snapshots\<close>

text \<open>\<open>populated\<close> lists the paths of the non-empty fields (a walk by reflection in the source),
  \<open>known\<close> the paths this binary has.\<close>

definition SnapshotBytes :: "gobCodec \<Rightarrow> (State \<Rightarrow> string list) \<Rightarrow> MetaFSM \<Rightarrow> bytes" where
  "SnapshotBytes gob populated m =
     (let snap = (mf_state m)\<lparr>s_LastIndex := mf_appliedIndex m\<rparr>
      in gob_encState gob (snap\<lparr>s_PopulatedFields := populated snap\<rparr>))"

definition Restore :: "gobCodec \<Rightarrow> string list \<Rightarrow> bytes \<Rightarrow> MetaFSM \<Rightarrow> MetaFSM \<times> metaErr option" where
  "Restore gob known b m =
     (if b = [] then (m, Some errEmptyState)
      else case gob_decState gob b of None \<Rightarrow> (m, Some errDecode)
        | Some s \<Rightarrow>
            let unknown = filter (\<lambda>p. p \<notin> set known) (s_PopulatedFields s)
            in if unknown \<noteq> [] then (m, Some (errUnknownFields unknown))
               else (advanceApplied (s_LastIndex s) (m\<lparr>mf_state := s\<lparr>s_PopulatedFields := []\<rparr>\<rparr>), None))"

end
