(* ===== verification/MetaSafety.thy ===== *)
theory MetaSafety
  imports MetaFSM
begin

text \<open>
  What the control plane promises the data plane: a shard's epoch only grows, one epoch has one
  primary, an in-sync set changes only with its epoch's approval and above the floor, a shard's
  founder is written once, the index catalogue stays within its bounds, and a restored snapshot
  is the state it was taken from.
\<close>

section \<open>Epoch registers\<close>

text \<open>A register whose epoch never goes back and whose owner changes only with the epoch.\<close>

locale epoch_register =
  fixes step :: "'c \<Rightarrow> 's \<Rightarrow> 's" and ep :: "'s \<Rightarrow> u64" and owner :: "'s \<Rightarrow> 'o"
  assumes ep_mono: "ep s \<le> ep (step c s)"
    and owner_stable: "ep (step c s) = ep s \<Longrightarrow> owner (step c s) = owner s"
begin

lemma run_mono: "ep s \<le> ep (fold step cs s)"
proof (induction cs arbitrary: s)
  case (Cons c cs)
  have "ep s \<le> ep (step c s)" by (rule ep_mono)
  also have "\<dots> \<le> ep (fold step cs (step c s))" by (rule Cons)
  finally show ?case by simp
qed simp

lemma run_owner: "ep (fold step cs s) = ep s \<Longrightarrow> owner (fold step cs s) = owner s"
proof (induction cs arbitrary: s)
  case (Cons c cs)
  have "ep s \<le> ep (step c s)" "ep (step c s) \<le> ep (fold step cs (step c s))"
    using ep_mono run_mono by blast+
  with Cons.prems have "ep (step c s) = ep s" "ep (fold step cs (step c s)) = ep (step c s)" by auto
  then show ?case using Cons.IH owner_stable by simp
qed simp

text \<open>Two points of one run with the same epoch have the same owner.\<close>

lemma one_owner_per_epoch:
  assumes "ep (fold step (take i cs) s) = ep (fold step (take j cs) s)"
  shows "owner (fold step (take i cs) s) = owner (fold step (take j cs) s)"
proof -
  have later: "owner (fold step (take (m + k) cs) s) = owner (fold step (take m cs) s)"
    if "ep (fold step (take (m + k) cs) s) = ep (fold step (take m cs) s)" for m k
    using that run_owner [of "take k (drop m cs)" "fold step (take m cs) s"] by (simp add: take_add)
  show ?thesis
  proof (cases "i \<le> j")
    case True
    then show ?thesis using later [of i "j - i"] assms by simp
  next
    case False
    then show ?thesis using later [of j "i - j"] assms by simp
  qed
qed

end

text \<open>The state after an entry; an entry the binary does not know changes nothing.\<close>

definition applyState :: "u64 \<times> LogEntry \<Rightarrow> State \<Rightarrow> State" where
  "applyState c s = (case applyOp (fst c) (snd c) s of None \<Rightarrow> s | Some (s', _, _) \<Rightarrow> s')"

lemma applyState_eq:
  "applyState (i, e) s = (let op = le_Op e; l = le_Body e
     in if op = OpSetMembers then applySetMembers l s
        else if op = OpSetPlacement then fst (applySetPlacement l s)
        else if op = OpSetCatalogEntry then applySetCatalogEntry l s
        else if op = OpSetCatalogReshard then applySetCatalogReshard l s
        else if op = OpSetAliasBatch then applySetAliasBatch l s
        else if op = OpSetShardEpoch then applySetShardEpoch l s
        else if op = OpSetShardISR then applySetShardISR l s
        else if op = OpShardLeaseRenew then s
        else if op = OpSetKVIndex then fst (applySetKVIndex i l s)
        else if op = OpSetShardFormer then fst (applySetShardFormer l s)
        else s)"
  by (simp add: applyState_def applyOp_def Let_def prod.case_eq_if)

text \<open>A property of the state after an entry, by the operation of the entry.\<close>

lemma applyState_rule:
  assumes "\<And>l. P (applySetMembers l s)" "\<And>l. P (fst (applySetPlacement l s))"
    "\<And>l. P (applySetCatalogEntry l s)" "\<And>l. P (applySetCatalogReshard l s)"
    "\<And>l. P (applySetAliasBatch l s)" "\<And>l. P (applySetShardEpoch l s)" "\<And>l. P (applySetShardISR l s)"
    "\<And>i l. P (fst (applySetKVIndex i l s))" "\<And>l. P (fst (applySetShardFormer l s))" "P s"
  shows "P (applyState c s)"
proof (cases c)
  case (Pair i e)
  show ?thesis unfolding Pair applyState_eq Let_def using assms by presburger
qed

named_theorems meta_frame "fields an operation of the control plane leaves alone"

lemma shard_frame [meta_frame]:
  "ShardEpoch sh (applySetMembers l s) = ShardEpoch sh s"
  "ShardPrimary sh (applySetMembers l s) = ShardPrimary sh s"
  "ShardISR sh (applySetMembers l s) = ShardISR sh s"
  "ShardEpoch sh (fst (applySetPlacement l s)) = ShardEpoch sh s"
  "ShardPrimary sh (fst (applySetPlacement l s)) = ShardPrimary sh s"
  "ShardISR sh (fst (applySetPlacement l s)) = ShardISR sh s"
  "ShardEpoch sh (applySetCatalogEntry l s) = ShardEpoch sh s"
  "ShardPrimary sh (applySetCatalogEntry l s) = ShardPrimary sh s"
  "ShardISR sh (applySetCatalogEntry l s) = ShardISR sh s"
  "ShardEpoch sh (applySetCatalogReshard l s) = ShardEpoch sh s"
  "ShardPrimary sh (applySetCatalogReshard l s) = ShardPrimary sh s"
  "ShardISR sh (applySetCatalogReshard l s) = ShardISR sh s"
  "ShardEpoch sh (applySetAliasBatch l s) = ShardEpoch sh s"
  "ShardPrimary sh (applySetAliasBatch l s) = ShardPrimary sh s"
  "ShardISR sh (applySetAliasBatch l s) = ShardISR sh s"
  "ShardEpoch sh (fst (applySetKVIndex i l s)) = ShardEpoch sh s"
  "ShardPrimary sh (fst (applySetKVIndex i l s)) = ShardPrimary sh s"
  "ShardISR sh (fst (applySetKVIndex i l s)) = ShardISR sh s"
  "ShardEpoch sh (fst (applySetShardFormer l s)) = ShardEpoch sh s"
  "ShardPrimary sh (fst (applySetShardFormer l s)) = ShardPrimary sh s"
  "ShardISR sh (fst (applySetShardFormer l s)) = ShardISR sh s"
  by (simp_all add: ShardEpoch_def ShardPrimary_def ShardISR_def applySetMembers_def applySetPlacement_def
      applySetCatalogEntry_def applySetCatalogReshard_def applySetAliasBatch_def applySetKVIndex_def
      applySetShardFormer_def Let_def split: option.splits)

lemma shard_epoch_op:
  "ShardEpoch sh (applySetShardEpoch l s) =
     (if l_ShardID l = sh \<and> l_Epoch l > ShardEpoch sh s then l_Epoch l else ShardEpoch sh s)"
  "ShardPrimary sh (applySetShardEpoch l s) =
     (if l_ShardID l = sh \<and> l_Epoch l > ShardEpoch sh s then l_Primary l else ShardPrimary sh s)"
  "ShardISR sh (applySetShardEpoch l s) =
     (if l_ShardID l = sh \<and> l_Epoch l > ShardEpoch sh s then seedISRForEpoch (l_Primary l) (l_ISR l)
      else ShardISR sh s)"
  by (auto simp: applySetShardEpoch_def ShardEpoch_def ShardPrimary_def ShardISR_def)

lemma shard_isr_op:
  "ShardEpoch sh (applySetShardISR l s) = ShardEpoch sh s"
  "ShardPrimary sh (applySetShardISR l s) = ShardPrimary sh s"
  "ShardISR sh (applySetShardISR l s) =
     (if l_ShardID l = sh \<and> l_Epoch l = ShardEpoch sh s \<and> l_ISR l \<noteq> [] \<and>
         (s_MinISR s \<le> 0 \<or> s_MinISR s \<le> int (length (l_ISR l))) then l_ISR l else ShardISR sh s)"
  by (auto simp: applySetShardISR_def ShardEpoch_def ShardPrimary_def ShardISR_def)

lemmas shard_ops = shard_epoch_op shard_isr_op meta_frame

interpretation meta_epoch: epoch_register applyState "ShardEpoch sh" "ShardPrimary sh" for sh
proof
  fix c s
  show "ShardEpoch sh s \<le> ShardEpoch sh (applyState c s)"
    by (rule applyState_rule) (auto simp: shard_ops)
  show "ShardEpoch sh (applyState c s) = ShardEpoch sh s \<Longrightarrow> ShardPrimary sh (applyState c s) = ShardPrimary sh s"
    by (rule applyState_rule [where P = "\<lambda>t. ShardEpoch sh t = ShardEpoch sh s \<longrightarrow>
          ShardPrimary sh t = ShardPrimary sh s", rule_format])
       (auto simp: shard_ops split: if_splits)
qed

section \<open>Runs of the state machine\<close>

definition NewMetaFSM :: "node \<Rightarrow> MetaFSM" where
  "NewMetaFSM nodeID = \<lparr>mf_state = emptyState, mf_nodeID = nodeID, mf_appliedIndex = 0\<rparr>"

definition metaRun :: "gobCodec \<Rightarrow> raftLog list \<Rightarrow> MetaFSM \<Rightarrow> MetaFSM" where
  "metaRun gob logs m = fold (\<lambda>log m. fst (Apply gob log m)) logs m"

lemma advanceApplied_state [simp]: "mf_state (advanceApplied i m) = mf_state m"
  by (simp add: advanceApplied_def)

lemma Apply_state:
  "mf_state (fst (Apply gob log m)) = (case decodeLogEntry gob (rl_Data log) of
     Inl _ \<Rightarrow> mf_state m | Inr e \<Rightarrow> applyState (rl_Index log, e) (mf_state m))"
  by (auto simp: Apply_def applyState_def split: sum.splits option.splits)

lemma Apply_state_rule:
  "P (mf_state m) \<Longrightarrow> (\<And>c. P (applyState c (mf_state m))) \<Longrightarrow> P (mf_state (fst (Apply gob log m)))"
  by (simp add: Apply_state split: sum.split)

interpretation meta_log: epoch_register "\<lambda>log m. fst (Apply gob log m)"
  "\<lambda>m. ShardEpoch sh (mf_state m)" "\<lambda>m. ShardPrimary sh (mf_state m)" for gob sh
proof
  fix log m
  show "ShardEpoch sh (mf_state m) \<le> ShardEpoch sh (mf_state (fst (Apply gob log m)))"
    by (simp add: Apply_state meta_epoch.ep_mono split: sum.split)
  show "ShardEpoch sh (mf_state (fst (Apply gob log m))) = ShardEpoch sh (mf_state m) \<Longrightarrow>
    ShardPrimary sh (mf_state (fst (Apply gob log m))) = ShardPrimary sh (mf_state m)"
    by (auto simp: Apply_state meta_epoch.owner_stable split: sum.splits)
qed

text \<open>(C11) One primary per epoch. Whatever entries the control-plane log holds, the epoch of a
  shard never decreases along it, and any two positions of the log at which the shard has the same
  epoch name the same primary, so two nodes that have applied different prefixes never disagree on
  who may lead an epoch.\<close>

theorem meta_one_primary_per_epoch:
  "ShardEpoch sh (mf_state (metaRun gob (take i logs) m)) \<le>
     ShardEpoch sh (mf_state (metaRun gob (take (i + k) logs) m)) \<and>
   (ShardEpoch sh (mf_state (metaRun gob (take i logs) m)) =
      ShardEpoch sh (mf_state (metaRun gob (take j logs) m)) \<longrightarrow>
    ShardPrimary sh (mf_state (metaRun gob (take i logs) m)) =
      ShardPrimary sh (mf_state (metaRun gob (take j logs) m)))"
  using meta_log.run_mono [of sh "metaRun gob (take i logs) m" gob "take k (drop i logs)"]
    meta_log.one_owner_per_epoch [of sh gob i logs m j]
  by (simp add: metaRun_def take_add)

text \<open>A concrete log for the witnesses: a codec whose bodies are looked up by their first byte.\<close>

definition emptyBody :: logBody where
  "emptyBody = \<lparr>l_Members = [], l_NumShards = 0, l_ReplicationFactor = 0, l_ShardID = 0, l_Owners = [],
     l_Collection = [], l_Partitions = 0, l_Generation = 0, l_ReshardStatus = 0, l_ReshardTargetP = 0,
     l_ReshardTargetGen = 0, l_ReshardSourceP = 0, l_ReshardSourceGen = 0, l_AliasBatch = [], l_Epoch = 0,
     l_Primary = [], l_ISR = [], l_Node = [], l_LeaseRenew = [], l_MinISR = 0,
     l_KVIndex = \<lparr>kd_Name = [], kd_KeyPrefix = [], kd_PayloadPath = [], kd_Kind = 0, kd_Enabled = False\<rparr>\<rparr>"

definition tableGob :: "logBody list \<Rightarrow> State \<Rightarrow> gobCodec" where
  "tableGob bodies st = \<lparr>gob_encBody = (\<lambda>_. [0]),
     gob_decBody = (\<lambda>b. case b of [] \<Rightarrow> None | x # _ \<Rightarrow> if unat x < length bodies then Some (bodies ! unat x) else None),
     gob_encState = (\<lambda>_. [0]), gob_decState = (\<lambda>_. Some st)\<rparr>"

theorem meta_one_primary_per_epoch_witness:
  "let gob = tableGob [emptyBody\<lparr>l_Epoch := 1, l_Primary := ''a'', l_ISR := [''a'', ''b'']\<rparr>,
                       emptyBody\<lparr>l_Epoch := 1, l_Primary := ''b''\<rparr>] emptyState;
       logs = [\<lparr>rl_Index = 1, rl_Data = [8, 0]\<rparr>, \<lparr>rl_Index = 2, rl_Data = [8, 1]\<rparr>]
   in ShardEpoch 0 (mf_state (metaRun gob (take 1 logs) (NewMetaFSM ''a''))) = 1 \<and>
      ShardPrimary 0 (mf_state (metaRun gob (take 1 logs) (NewMetaFSM ''a''))) =
      ShardPrimary 0 (mf_state (metaRun gob (take 2 logs) (NewMetaFSM ''a'')))"
proof -
  let ?gob = "tableGob [emptyBody\<lparr>l_Epoch := 1, l_Primary := ''a'', l_ISR := [''a'', ''b'']\<rparr>,
                       emptyBody\<lparr>l_Epoch := 1, l_Primary := ''b''\<rparr>] emptyState"
  let ?logs = "[\<lparr>rl_Index = 1, rl_Data = [8, 0]\<rparr>, \<lparr>rl_Index = 2, rl_Data = [8, 1]\<rparr>]"
  have e: "ShardEpoch 0 (mf_state (metaRun ?gob (take 1 ?logs) (NewMetaFSM ''a''))) = 1"
    "ShardEpoch 0 (mf_state (metaRun ?gob (take 2 ?logs) (NewMetaFSM ''a''))) = 1"
    by code_simp+
  show ?thesis unfolding Let_def
    using e meta_one_primary_per_epoch [of 0 ?gob 1 ?logs "NewMetaFSM ''a''" 1 2] by simp
qed

text \<open>(C12) In-sync sets. One entry of the log leaves a shard's in-sync set alone, or starts a
  higher epoch whose primary is in the new set, or keeps the epoch and installs a non-empty set
  that respects the cluster's min-ISR floor.\<close>

theorem meta_isr_guarded:
  "let s = mf_state m; t = mf_state (fst (Apply gob log m))
   in ShardISR sh t = ShardISR sh s \<or>
      (ShardEpoch sh t > ShardEpoch sh s \<and> ShardPrimary sh t \<in> set (ShardISR sh t)) \<or>
      (ShardEpoch sh t = ShardEpoch sh s \<and> length (ShardISR sh t) > 0 \<and>
       (s_MinISR s \<le> 0 \<or> s_MinISR s \<le> int (length (ShardISR sh t))))"
  unfolding Let_def
  by (rule Apply_state_rule, simp, rule applyState_rule) (auto simp: shard_ops seedISRForEpoch_def)

definition knownOps :: "u8 list" where "knownOps = [1, 4, 5, 6, 7, 8, 9, 10, 11, 12]"

text \<open>(C13) The applied index. It never goes back; an entry that decodes and whose operation is
  known moves it to at least the entry's index; an entry that does not decode, or whose operation
  this binary does not know, changes nothing at all, and only the latter halts the node.\<close>

theorem Apply_frontier:
  "let r = Apply gob log m
   in mf_appliedIndex m \<le> mf_appliedIndex (fst r) \<and>
      (case decodeLogEntry gob (rl_Data log) of
         Inl e \<Rightarrow> fst r = m \<and> ae_result (snd r) = ResErr e \<and> \<not> ae_fatal (snd r)
       | Inr entry \<Rightarrow>
           if le_Op entry \<in> set knownOps
           then mf_appliedIndex (fst r) = max (mf_appliedIndex m) (rl_Index log) \<and> \<not> ae_fatal (snd r)
           else fst r = m \<and> ae_fatal (snd r) \<and>
                ae_result (snd r) = ResErr (errMetaUnknownOp (le_Op entry) (rl_Index log)))"
proof (cases "decodeLogEntry gob (rl_Data log)")
  case (Inl e)
  then show ?thesis by (simp add: Apply_def)
next
  case (Inr e)
  have k: "applyOp (rl_Index log) e (mf_state m) = None \<longleftrightarrow> le_Op e \<notin> set knownOps"
    by (simp add: applyOp_def Let_def op_defs knownOps_def prod.case_eq_if)
  show ?thesis
  proof (cases "applyOp (rl_Index log) e (mf_state m)")
    case None
    then show ?thesis using Inr k by (simp add: Apply_def Let_def)
  next
    case (Some x)
    then show ?thesis using Inr k
      by (cases x) (auto simp: Apply_def Let_def advanceApplied_def max_def)
  qed
qed

section \<open>Founders, index definitions, snapshots\<close>

lemma former_rule: "ShardFormer sh s \<noteq> [] \<Longrightarrow> ShardFormer sh (applyState c s) = ShardFormer sh s"
  by (rule applyState_rule)
     (auto simp: ShardFormer_def applySetMembers_def applySetPlacement_def applySetCatalogEntry_def
      applySetCatalogReshard_def applySetAliasBatch_def applySetShardEpoch_def applySetShardISR_def
      applySetKVIndex_def applySetShardFormer_def Let_def gget_def ghas_def split: option.splits)

lemma former_run:
  "ShardFormer sh (mf_state m) \<noteq> [] \<Longrightarrow> ShardFormer sh (mf_state (metaRun gob logs m)) = ShardFormer sh (mf_state m)"
proof (induction logs arbitrary: m)
  case (Cons log logs)
  have "ShardFormer sh (mf_state (fst (Apply gob log m))) = ShardFormer sh (mf_state m)"
    using Cons.prems former_rule by (auto simp: Apply_state split: sum.split)
  then show ?case using Cons by (simp add: metaRun_def)
qed (simp add: metaRun_def)

text \<open>(C14) The founder of a shard's group is designated once: a node that wins the designation
  (its entry answers true) stays the founder whatever the log holds after it, and every later
  designation of that shard answers false.\<close>

theorem shard_former_write_once:
  assumes "applySetShardFormer l s = (t, ResBool True)" "mf_state m = t"
  shows "ShardFormer (l_ShardID l) (mf_state (metaRun gob logs m)) = l_Node l \<and>
    (l_ShardID l' = l_ShardID l \<longrightarrow> l_Node l' = [] \<or>
     applySetShardFormer l' (mf_state (metaRun gob logs m)) = (mf_state (metaRun gob logs m), ResBool False))"
proof -
  let ?u = "mf_state (metaRun gob logs m)"
  from assms(1) have "l_Node l \<noteq> []" "\<not> l_ShardID l < 0"
    and t: "t = s\<lparr>s_ShardFormer := AList.update (l_ShardID l) (l_Node l) (s_ShardFormer s)\<rparr>"
    by (auto simp: applySetShardFormer_def split: if_splits)
  then have "ShardFormer (l_ShardID l) t = l_Node l" by (simp add: ShardFormer_def)
  then have f: "ShardFormer (l_ShardID l) ?u = l_Node l"
    using former_run [of "l_ShardID l" m gob logs] assms(2) \<open>l_Node l \<noteq> []\<close> by simp
  then have "ghas (s_ShardFormer ?u) (l_ShardID l)"
    using \<open>l_Node l \<noteq> []\<close> gget_absent by (fastforce simp: ShardFormer_def)
  then show ?thesis using f \<open>\<not> l_ShardID l < 0\<close> by (simp add: applySetShardFormer_def)
qed

theorem shard_former_write_once_witness:
  "let b = emptyBody\<lparr>l_ShardID := 3, l_Node := ''n1''\<rparr>;
       m = NewMetaFSM ''n1''\<lparr>mf_state := fst (applySetShardFormer b emptyState)\<rparr>;
       gob = tableGob [emptyBody\<lparr>l_ShardID := 3, l_Node := ''n2''\<rparr>] emptyState
   in ShardFormer 3 (mf_state (metaRun gob [\<lparr>rl_Index = 2, rl_Data = [11, 0]\<rparr>] m)) = ''n1''"
proof -
  let ?b = "emptyBody\<lparr>l_ShardID := 3, l_Node := ''n1''\<rparr>"
  have e: "applySetShardFormer ?b emptyState = (fst (applySetShardFormer ?b emptyState), ResBool True)"
    "l_ShardID ?b = 3" "l_Node ?b = ''n1''" by code_simp+
  show ?thesis unfolding Let_def
    using shard_former_write_once [OF e(1), of "NewMetaFSM ''n1''\<lparr>mf_state := fst (applySetShardFormer ?b emptyState)\<rparr>"
      "tableGob [emptyBody\<lparr>l_ShardID := 3, l_Node := ''n2''\<rparr>] emptyState" "[\<lparr>rl_Index = 2, rl_Data = [11, 0]\<rparr>]"
      emptyBody] e(2,3) by simp
qed

text \<open>The index catalogue: distinct names, at most the cap, every definition valid, enabled and
  filed under its own name.\<close>

definition kv_inv :: "State \<Rightarrow> bool" where
  "kv_inv s = (distinct (map fst (s_KVIndexes s)) \<and> length (s_KVIndexes s) \<le> KVIndexMaxDefs \<and>
     list_all (\<lambda>(n, e). kd_Name (ke_Def e) = n \<and> Validate (ke_Def e) = None \<and> kd_Enabled (ke_Def e)) (s_KVIndexes s))"

lemma length_update: "length (AList.update k v al) = (if k \<in> fst ` set al then length al else Suc (length al))"
  by (induction al) auto

lemma length_delete_le: "length (AList.delete k al) \<le> length al"
  by (simp add: AList.delete_eq)

lemma set_update_cases: "x \<in> set (AList.update k v al) \<Longrightarrow> x = (k, v) \<or> x \<in> set al"
  by (induction al) (auto split: if_splits)

lemma ghas_iff: "ghas m k \<longleftrightarrow> k \<in> fst ` set m"
  by (simp add: ghas_def map_of_eq_None_iff)

lemma kv_inv_delete: "kv_inv s \<Longrightarrow> kv_inv (s\<lparr>s_KVIndexes := AList.delete k (s_KVIndexes s)\<rparr>)"
  using length_delete_le [of k "s_KVIndexes s"]
  by (simp add: kv_inv_def distinct_delete) (simp add: AList.delete_eq list_all_iff)

lemma kv_inv_op: "kv_inv s \<Longrightarrow> kv_inv (fst (applySetKVIndex i l s))"
proof -
  assume inv: "kv_inv s"
  let ?d = "l_KVIndex l"
  let ?e = "\<lparr>ke_Def = ?d, ke_MetaIndex = i\<rparr>"
  show ?thesis
  proof (cases "Validate ?d = None \<and> kd_Enabled ?d \<and>
      (ghas (s_KVIndexes s) (kd_Name ?d) \<or> length (s_KVIndexes s) < KVIndexMaxDefs)")
    case True
    then have "fst (applySetKVIndex i l s) = s\<lparr>s_KVIndexes := AList.update (kd_Name ?d) ?e (s_KVIndexes s)\<rparr>"
      by (auto simp: applySetKVIndex_def Let_def)
    then show ?thesis using inv True
      by (auto simp: kv_inv_def list_all_iff length_update ghas_iff distinct_update dest!: set_update_cases)
  next
    case False
    then have "fst (applySetKVIndex i l s) = s \<or>
        fst (applySetKVIndex i l s) = s\<lparr>s_KVIndexes := AList.delete (kd_Name ?d) (s_KVIndexes s)\<rparr>"
      by (auto simp: applySetKVIndex_def Let_def split: option.split)
    then show ?thesis using inv kv_inv_delete by metis
  qed
qed

lemma kv_inv_apply: "kv_inv s \<Longrightarrow> kv_inv (applyState c s)"
  by (rule applyState_rule)
     (auto simp: kv_inv_op, auto simp: kv_inv_def applySetMembers_def applySetPlacement_def applySetCatalogEntry_def
      applySetCatalogReshard_def applySetAliasBatch_def applySetShardEpoch_def applySetShardISR_def
      applySetShardFormer_def Let_def)


text \<open>(C16) Snapshots. A snapshot restored by a binary that knows every field it populates gives
  back the state it was taken from, with the applied index it was taken at (never lower than the
  restoring node's own); a binary that does not know one of the populated fields refuses it and
  keeps what it had.\<close>

theorem meta_snapshot_restore:
  fixes gob populated m m0 known
  defines "snap \<equiv> (mf_state m)\<lparr>s_LastIndex := mf_appliedIndex m,
      s_PopulatedFields := populated ((mf_state m)\<lparr>s_LastIndex := mf_appliedIndex m\<rparr>)\<rparr>"
  assumes gob_roundtrip: "gob_decState gob (gob_encState gob snap) = Some snap"
    and gob_nonempty: "gob_encState gob snap \<noteq> []"
  shows "Restore gob known (SnapshotBytes gob populated m) m0 =
    (if set (s_PopulatedFields snap) \<subseteq> set known
     then (m0\<lparr>mf_state := (mf_state m)\<lparr>s_LastIndex := mf_appliedIndex m, s_PopulatedFields := []\<rparr>,
              mf_appliedIndex := max (mf_appliedIndex m0) (mf_appliedIndex m)\<rparr>, None)
     else (m0, Some (errUnknownFields (filter (\<lambda>p. p \<notin> set known) (s_PopulatedFields snap)))))"
proof -
  have b: "SnapshotBytes gob populated m = gob_encState gob snap" by (simp add: SnapshotBytes_def snap_def Let_def)
  have f: "filter (\<lambda>p. p \<notin> set known) (s_PopulatedFields snap) = [] \<longleftrightarrow> set (s_PopulatedFields snap) \<subseteq> set known"
    by (auto simp: filter_empty_conv)
  have s: "s_LastIndex snap = mf_appliedIndex m"
    "snap\<lparr>s_PopulatedFields := []\<rparr> = (mf_state m)\<lparr>s_LastIndex := mf_appliedIndex m, s_PopulatedFields := []\<rparr>"
    by (simp_all add: snap_def)
  show ?thesis
    using gob_roundtrip gob_nonempty f s unfolding Restore_def b
    by (auto simp: Let_def advanceApplied_def max_def)
qed

theorem meta_snapshot_restore_witness:
  "let m = NewMetaFSM ''a''\<lparr>mf_appliedIndex := 7\<rparr>; s = emptyState\<lparr>s_LastIndex := 7, s_PopulatedFields := [''LastIndex'']\<rparr>;
       gob = tableGob [] s
   in Restore gob [''LastIndex''] (SnapshotBytes gob (\<lambda>_. [''LastIndex'']) m) (NewMetaFSM ''b'') =
      (NewMetaFSM ''b''\<lparr>mf_state := emptyState\<lparr>s_LastIndex := 7, s_PopulatedFields := []\<rparr>, mf_appliedIndex := 7\<rparr>, None)"
  unfolding Let_def
  by (subst meta_snapshot_restore) (simp_all add: tableGob_def NewMetaFSM_def emptyState_def)

end
