(* ===== verification/EngineView.thy ===== *)
theory EngineView
  imports ReplPath
begin

text \<open>
  What the operations of an engine do to its replicated log: the part of the state the log rests on
  (\<open>logPart\<close>), the frames the engine has handed or will hand to its transport (\<open>outbox\<close>), and its
  learners.
\<close>

section \<open>The log part of an engine\<close>

record 's logPart =
  lp_node :: node
  lp_epoch :: u64
  lp_lease :: u64
  lp_expiry :: int
  lp_seq :: u64
  lp_seqEpoch :: u64
  lp_app :: u64
  lp_appEpoch :: u64
  lp_ring :: ring
  lp_poisoned :: bool
  lp_fsm :: 's
  lp_stage :: "snapshotStage option"

definition logPart :: "'s Engine \<Rightarrow> 's logPart" where
  "logPart e = \<lparr>lp_node = e_nodeID e, lp_epoch = e_epoch e, lp_lease = e_leaseEpoch e, lp_expiry = e_leaseExpiry e,
     lp_seq = e_lastSeq e, lp_seqEpoch = e_lastSeqEpoch e, lp_app = e_lastApplied e,
     lp_appEpoch = e_lastAppliedEpoch e, lp_ring = e_backlog e, lp_poisoned = e_poisoned e, lp_fsm = e_fsm e,
     lp_stage = e_snapStage e\<rparr>"

definition lp_front :: "'s logPart \<Rightarrow> u64 \<times> u64" where
  "lp_front l = (if lp_app l > lp_seq l then (lp_app l, lp_appEpoch l) else (lp_seq l, lp_seqEpoch l))"

lemma front_lp: "appliedFrontierLocked e = lp_front (logPart e)"
  by (simp add: appliedFrontierLocked_def lp_front_def logPart_def)

lemma logPart_sel [simp]:
  "lp_node (logPart e) = e_nodeID e" "lp_epoch (logPart e) = e_epoch e" "lp_lease (logPart e) = e_leaseEpoch e"
  "lp_expiry (logPart e) = e_leaseExpiry e" "lp_seq (logPart e) = e_lastSeq e"
  "lp_seqEpoch (logPart e) = e_lastSeqEpoch e" "lp_app (logPart e) = e_lastApplied e"
  "lp_appEpoch (logPart e) = e_lastAppliedEpoch e" "lp_ring (logPart e) = e_backlog e"
  "lp_poisoned (logPart e) = e_poisoned e" "lp_fsm (logPart e) = e_fsm e" "lp_stage (logPart e) = e_snapStage e"
  by (simp_all add: logPart_def)

text \<open>The frames on the wire and in the senders' queues, with their targets.\<close>

definition outbox :: "'s Engine \<Rightarrow> (node \<times> ReplicateMsg) set" where
  "outbox e = {(p, m). (\<exists>b. (p, b) \<in> set (e_wire e) \<and> m \<in> set b) \<or> (\<exists>ps. (p, ps) \<in> set (e_peerQ e) \<and> m \<in> set (ps_ch ps))}"

definition wire_ok :: "'s Engine \<Rightarrow> bool" where
  "wire_ok e = (\<forall>(p, b)\<in>set (e_wire e). batch_ok b)"

lemma outboxI:
  "(p, b) \<in> set (e_wire e) \<Longrightarrow> m \<in> set b \<Longrightarrow> (p, m) \<in> outbox e"
  "(p, ps) \<in> set (e_peerQ e) \<Longrightarrow> m \<in> set (ps_ch ps) \<Longrightarrow> (p, m) \<in> outbox e"
  by (auto simp: outbox_def)

section \<open>Operations that leave the log alone\<close>

definition keeps :: "'s Engine \<Rightarrow> 's Engine \<Rightarrow> bool" where
  "keeps e e' = (logPart e' = logPart e \<and> outbox e' \<subseteq> outbox e \<and> set (e_learners e') \<subseteq> set (e_learners e) \<and>
     (wire_ok e \<longrightarrow> wire_ok e'))"

lemma keeps_refl [simp, intro]: "keeps e e"
  by (simp add: keeps_def)

lemma keeps_trans: "keeps a b \<Longrightarrow> keeps b c \<Longrightarrow> keeps a c"
  by (auto simp: keeps_def)

lemma keeps_foldl: "(\<And>e x. keeps e (f e x)) \<Longrightarrow> keeps e (foldl f e xs)"
  by (induction xs arbitrary: e) (auto intro: keeps_trans)

text \<open>An operation that touches neither senders nor wire.\<close>

lemma keeps_plain:
  assumes "logPart e' = logPart e" "e_wire e' = e_wire e" "e_peerQ e' = e_peerQ e"
    "set (e_learners e') \<subseteq> set (e_learners e)"
  shows "keeps e e'"
  using assms by (simp add: keeps_def outbox_def wire_ok_def)

lemma keeps_frame: "pipe_frame e e' \<Longrightarrow> keeps e e'"
  using pipe_frameD [of e e'] by (intro keeps_plain) (simp_all add: logPart_def)

lemma set_update_sub: "set (AList.update k v al) \<subseteq> insert (k, v) (set al)"
  by (induction al) auto

lemma set_delete_sub: "set (AList.delete k al) \<subseteq> set al"
  by (auto simp: AList.delete_eq)

lemma keeps_drop: "keeps e (dropPeerLocked p e)"
  using set_delete_sub [of p "e_peerQ e"]
  by (auto simp: keeps_def dropPeerLocked_def outbox_def wire_ok_def logPart_def)

lemma keeps_marks:
  "keeps e (notePeerFailureLocked p e)" "keeps e (notePeerSuccessLocked p e)" "keeps e (creditPeerAckedLocked p s e)"
  "keeps e (markLearnerAbandonedLocked p s e)" "keeps e (noteFrontierLocked e)" "keeps e (clearEffISRLocked e)"
  "keeps e (clearLearnersLocked e)" "keeps e (GrowISR ep isr e)"
  by (intro keeps_plain; simp add: notePeerFailureLocked_def notePeerSuccessLocked_def creditPeerAckedLocked_def
      markLearnerAbandonedLocked_def noteFrontierLocked_def clearEffISRLocked_def clearLearnersLocked_def GrowISR_def
      logPart_def)+

lemma keeps_updates: "set l \<subseteq> set (e_learners e) \<Longrightarrow> keeps e (e\<lparr>e_learners := l\<rparr>)"
  "keeps e (e\<lparr>e_learnerTeardown := t\<rparr>)" "keeps e (e\<lparr>e_abandonedLearners := a\<rparr>)"
  "keeps e (e\<lparr>e_effISR := i, e_effISREpoch := ep\<rparr>)"
  by (intro keeps_plain; simp add: logPart_def)+

lemma keeps_sender: "keeps e (runSender grp p e)"
proof (cases "map_of (e_peerQ e) p")
  case (Some ps)
  obtain b r where d: "drainBatch grp (ps_ch ps) = (b, r)" by fastforce
  show ?thesis
  proof (cases "ps_ch ps")
    case (Cons m q)
    note B = drainBatch_batch [OF d [unfolded Cons]] batch_ok_drain [OF d [unfolded Cons]]
    have mem: "(p, ps) \<in> set (e_peerQ e)" using Some by (rule map_of_SomeD)
    have sub: "set b \<subseteq> set (ps_ch ps)" "set r \<subseteq> set (ps_ch ps)" using B(1) unfolding Cons by auto
    have "b \<noteq> []" using B(2) by auto
    then have eq: "runSender grp p e = e\<lparr>e_wire := e_wire e @ [(p, b)], e_peerQ := AList.update p
                 (ps\<lparr>ps_ch := r, ps_pending := ps_pending ps - int (length b)\<rparr>) (e_peerQ e)\<rparr>" (is "_ = ?e")
      using Some d by (simp add: runSender_def)
    have "outbox ?e \<subseteq> outbox e"
    proof
      fix x assume "x \<in> outbox ?e"
      then obtain p' m where x: "x = (p', m)" and o: "(\<exists>b'. (p', b') \<in> set (e_wire e @ [(p, b)]) \<and> m \<in> set b') \<or>
         (\<exists>ps'. (p', ps') \<in> set (e_peerQ ?e) \<and> m \<in> set (ps_ch ps'))" by (auto simp: outbox_def)
      from o show "x \<in> outbox e"
      proof
        assume "\<exists>b'. (p', b') \<in> set (e_wire e @ [(p, b)]) \<and> m \<in> set b'"
        then show ?thesis using outboxI(1) [of p' _ e m] outboxI(2) [OF mem] sub(1) x by auto
      next
        assume "\<exists>ps'. (p', ps') \<in> set (e_peerQ ?e) \<and> m \<in> set (ps_ch ps')"
        then obtain ps' where "(p', ps') \<in> insert (p, ps\<lparr>ps_ch := r, ps_pending := ps_pending ps - int (length b)\<rparr>) (set (e_peerQ e))"
          "m \<in> set (ps_ch ps')" using set_update_sub [of p _ "e_peerQ e"] by auto
        then show ?thesis using outboxI(2) [of p' _ e m] outboxI(2) [OF mem] sub(2) x by auto
      qed
    qed
    then show ?thesis using B(6) unfolding eq by (simp add: keeps_def wire_ok_def logPart_def)
  qed (use Some in \<open>simp add: runSender_def\<close>)
qed (simp add: runSender_def)

lemma keeps_shutdown: "keeps e (Shutdown grp e)"
proof (cases "e_closed e")
  case False
  let ?w = "concat (map (\<lambda>(p, ps). map (\<lambda>b. (p, b)) (drainAll grp (ps_ch ps))) (e_peerQ e))"
  have w: "\<exists>ps. (p, ps) \<in> set (e_peerQ e) \<and> b \<in> set (drainAll grp (ps_ch ps))" if "(p, b) \<in> set ?w" for p b
    using that by auto
  have b: "set b \<subseteq> set q \<and> batch_ok b" if "b \<in> set (drainAll grp q)" for b q
  proof -
    have "set (concat (drainAll grp q)) = set q" "list_all batch_ok (drainAll grp q)"
      using drain_parts [of grp q] by simp_all
    then show ?thesis using that by (auto simp: list_all_iff)
  qed
  have "outbox (Shutdown grp e) \<subseteq> outbox e"
    using False w b by (fastforce simp: Shutdown_def outbox_def)
  moreover have "wire_ok (Shutdown grp e)" if "wire_ok e"
    using that False w b by (fastforce simp: Shutdown_def wire_ok_def)
  ultimately show ?thesis using False by (simp add: keeps_def Shutdown_def logPart_def)
qed (simp add: Shutdown_def)

lemma keeps_learner:
  "keeps e (AbortLearnerCatchup p e)" "keeps e (ReclaimOrphanLearners e)" "keeps e (TeardownLearners e)"
proof -
  show "keeps e (AbortLearnerCatchup p e)"
    unfolding AbortLearnerCatchup_def
    by (intro keeps_trans [OF _ keeps_drop] keeps_plain) (auto simp: logPart_def)
  have r: "keeps e (ReclaimOrphanLearners e)" for e :: "'a Engine"
    unfolding ReclaimOrphanLearners_def
    by (intro keeps_trans [OF keeps_foldl [of "\<lambda>e p. dropPeerLocked p e"] keeps_updates(2)] keeps_drop)
  then show "keeps e (ReclaimOrphanLearners e)" .
  show "keeps e (TeardownLearners e)"
    unfolding TeardownLearners_def
    by (intro keeps_trans [OF keeps_trans [OF keeps_foldl [of "\<lambda>e p. dropPeerLocked p e"] keeps_updates(1)] r] keeps_drop) simp
qed

lemma keeps_complete: "keeps e (completeSend now peer msg res e)"
proof -
  have f: "keeps e (completeSendFail now peer msg e)"
    unfolding completeSendFail_def Let_def
    using keeps_trans [OF keeps_marks(1) keeps_frame [OF pipe_frame_trans [OF pipe_frame_resolve pipe_frame_sweep]]]
    by (auto intro: keeps_marks split: option.split)
  have "keeps e (ackInflightLocked now peer ack (creditPeerAckedLocked peer s (notePeerSuccessLocked peer e)))" for ack s
    by (intro keeps_trans [OF keeps_trans [OF keeps_marks(2) keeps_marks(3)] keeps_frame [OF pipe_frame_ack]])
  then show ?thesis using f by (auto simp: completeSend_def split: sum.split)
qed

lemma keeps_complete_group: "keeps e (completeGroupSend now peer epoch f l res e)"
proof -
  have i: "keeps e (group_iter peer epoch c e s)" for c s and e :: "'a Engine"
    using keeps_frame [OF pipe_frame_updSlot] keeps_frame [OF pipe_frame_resolve]
    by (auto simp: group_iter_def split: option.split)
  let ?c = "groupCredit epoch f l res"
  define e1 where "e1 = (if ?c = l then notePeerSuccessLocked peer e else notePeerFailureLocked peer e)"
  define e2 where "e2 = (if ?c \<ge> f then creditPeerAckedLocked peer ?c e1 else e1)"
  have "completeGroupSend now peer epoch f l res e =
      sweepLocked now (foldl (group_iter peer epoch ?c) e2 (seqRange f l))"
    by (simp add: completeGroupSend_def Let_def e1_def e2_def group_iter_def [abs_def])
  moreover have "keeps e e1" "keeps e1 e2" by (simp_all add: e1_def e2_def keeps_marks)
  moreover note keeps_foldl [of "group_iter peer epoch ?c" e2, OF i] keeps_frame [OF pipe_frame_sweep]
  ultimately show ?thesis by (metis keeps_trans)
qed

lemma keeps_timeout: "keeps e (proposeTimeout epoch seq e)"
  using keeps_frame [OF pipe_frame_resolve] by (auto simp: proposeTimeout_def split: option.split)

end
