(* ===== verification/EngineOps.thy ===== *)
theory EngineOps
  imports EngineView
begin

text \<open>
  The operations that move the log: epochs and leases, the write path, the learner flip, the receive
  path and the snapshot install, each as its effect on the log part, the outbox and the learners.
\<close>

text \<open>What an operation may send out (\<open>X\<close>) and take up as learners (\<open>P\<close>).\<close>

definition ext :: "(node \<times> ReplicateMsg) set \<Rightarrow> node set \<Rightarrow> 's Engine \<Rightarrow> 's Engine \<Rightarrow> bool" where
  "ext X P e e' = (outbox e' \<subseteq> outbox e \<union> X \<and> set (e_learners e') \<subseteq> set (e_learners e) \<union> P \<and>
     (wire_ok e \<longrightarrow> wire_ok e'))"

lemma ext_keeps: "keeps e e' \<longleftrightarrow> logPart e' = logPart e \<and> ext {} {} e e'"
  by (auto simp: keeps_def ext_def)

lemma keepsD: "keeps e e' \<Longrightarrow> logPart e' = logPart e" "keeps e e' \<Longrightarrow> ext X P e e'"
  by (auto simp: keeps_def ext_def)

lemma ext_trans: "ext X P a b \<Longrightarrow> ext X P b c \<Longrightarrow> ext X P a c"
  by (auto simp: ext_def)

lemma ext_refl [simp]: "ext X P e e"
  by (auto simp: ext_def)

lemma ext_mono: "ext X P e e' \<Longrightarrow> X \<subseteq> Y \<Longrightarrow> P \<subseteq> Q \<Longrightarrow> ext Y Q e e'"
  by (auto simp: ext_def)

lemma ext_learners: "ext X P e e' \<Longrightarrow> set (e_learners e') \<subseteq> set (e_learners e) \<union> P"
  by (simp add: ext_def)

lemma ext_foldl: "(\<And>e x. x \<in> set xs \<Longrightarrow> ext X P e (f e x)) \<Longrightarrow> ext X P e (foldl f e xs)"
proof (induction xs arbitrary: e)
  case (Cons x xs)
  then show ?case using ext_trans [of X P e "f e x"] by simp
qed simp

lemma ext_plain:
  "e_wire e' = e_wire e \<Longrightarrow> e_peerQ e' = e_peerQ e \<Longrightarrow> e_learners e' = e_learners e \<Longrightarrow> ext X P e e'"
  by (simp add: ext_def outbox_def wire_ok_def)

section \<open>Epochs, leases, promotion\<close>

lemma keeps_flush: "keeps e (flushEpochLocked now ep (clearLearnersLocked (clearEffISRLocked e)))"
  by (intro keeps_trans [OF keeps_trans [OF keeps_marks(6) keeps_marks(7)] keeps_frame [OF pipe_frame_flush]])

lemma advance_view: "logPart (advanceEpoch now ep e) = (logPart e)\<lparr>lp_epoch := ep\<rparr>" "ext X P e (advanceEpoch now ep e)"
proof -
  note k = keeps_flush [of "e\<lparr>e_epoch := ep\<rparr>" now ep, folded advanceEpoch_def]
  show "logPart (advanceEpoch now ep e) = (logPart e)\<lparr>lp_epoch := ep\<rparr>" using keepsD(1) [OF k] by (simp add: logPart_def)
  show "ext X P e (advanceEpoch now ep e)"
    by (rule ext_trans [OF ext_plain keepsD(2) [OF k]]) simp_all
qed

lemma adopt_view:
  "logPart (AdoptEpoch now ep e) = (logPart e)\<lparr>lp_epoch := max (e_epoch e) ep\<rparr>" "ext X P e (AdoptEpoch now ep e)"
  by (auto simp: AdoptEpoch_def advance_view max_def)

lemma grant_view:
  "logPart (GrantLease now ep exp e) = (if ep < e_leaseEpoch e then logPart e
     else (logPart e)\<lparr>lp_epoch := max (e_epoch e) ep, lp_lease := ep, lp_expiry := exp\<rparr>)" (is ?A)
  "ext X P e (GrantLease now ep exp e)" (is ?B)
proof -
  let ?e = "e\<lparr>e_leaseEpoch := ep, e_leaseExpiry := exp\<rparr>"
  have l: "logPart ?e = (logPart e)\<lparr>lp_lease := ep, lp_expiry := exp\<rparr>" by (simp add: logPart_def)
  have x: "ext X P e ?e" by (rule ext_plain) simp_all
  show ?A by (simp add: GrantLease_def Let_def advance_view l max_def)
  show ?B using x ext_trans [OF x advance_view(2)] by (simp add: GrantLease_def Let_def)
qed

lemma promote_view:
  "logPart (Promote now ep exp e) = (if ep \<le> e_epoch e \<or> e_poisoned e then logPart e
     else (logPart e)\<lparr>lp_epoch := ep, lp_lease := ep, lp_expiry := exp, lp_seq := e_lastApplied e,
            lp_seqEpoch := e_lastAppliedEpoch e, lp_ring := ring_clear (e_backlog e)\<rparr>)" (is ?A)
  "ext X P e (Promote now ep exp e)" (is ?B)
proof -
  obtain b rel where r: "ring_reset (e_backlog e) = (b, rel)" by fastforce
  define e1 where "e1 = e\<lparr>e_lastSeq := e_lastApplied e, e_lastSeqEpoch := e_lastAppliedEpoch e\<rparr>"
  define e2 where "e2 = (if e_lastApplied e1 > e_committed e1 then e1\<lparr>e_committed := e_lastApplied e1\<rparr> else e1)"
  define e4 where "e4 = e2\<lparr>e_epoch := ep, e_leaseEpoch := ep, e_leaseExpiry := exp, e_backlog := b,
    e_released := e_released e2 @ rel\<rparr>"
  have b2: "e_backlog e2 = e_backlog e" by (simp add: e2_def e1_def)
  note k = keeps_flush [of e4 now ep]
  have p: "Promote now ep exp e = (if ep \<le> e_epoch e \<or> e_poisoned e then e
      else flushEpochLocked now ep (clearLearnersLocked (clearEffISRLocked e4)))"
    by (simp add: Promote_def Let_def e4_def e2_def e1_def r)
  have x: "ext X P e e4" by (rule ext_plain) (simp_all add: e4_def e2_def e1_def)
  show ?A unfolding p using keepsD(1) [OF k] r
    by (simp add: ring_clear_def) (simp add: logPart_def e4_def e2_def e1_def)
  show ?B unfolding p using ext_trans [OF x keepsD(2) [OF k]] by simp
qed

lemma keeps_shrink: "keeps e (ShrinkISR now epoch I e)"
proof -
  let ?e1 = "e\<lparr>e_effISR := I, e_effISREpoch := epoch\<rparr>"
  let ?f = "\<lambda>e i. let idx = (e_inflightHead e + i) mod length (e_inflightRing e)
     in case e_inflightRing e ! idx of None \<Rightarrow> e | Some rec \<Rightarrow>
          if if_epoch rec \<noteq> epoch then e
          else updSlot idx (\<lambda>r. foldl (\<lambda>r p. removePending p r) r (filter (\<lambda>p. p \<notin> set I) (pendingPeers rec))) e"
  have f: "keeps e (?f e i)" for i and e :: "'a Engine"
    using keeps_frame [OF pipe_frame_updSlot] by (auto simp: Let_def split: option.split)
  define e2 where "e2 = foldl ?f ?e1 [0..<e_inflightN ?e1]"
  define e3 where "e3 = foldl (\<lambda>e p. dropPeerLocked p e) e2 (filter (\<lambda>p. p \<notin> set I) (map fst (e_peerQ e2)))"
  have "keeps e ?e1" by (rule keeps_updates)
  moreover have "keeps ?e1 e2" unfolding e2_def by (rule keeps_foldl) (rule f)
  moreover have "keeps e2 e3" unfolding e3_def by (rule keeps_foldl) (rule keeps_drop)
  ultimately have "keeps e (sweepLocked now e3)"
    using keeps_frame [OF pipe_frame_sweep] keeps_trans by blast
  moreover have "ShrinkISR now epoch I e = (if epoch \<noteq> e_epoch e \<or> e_leaseEpoch e \<noteq> epoch then e else sweepLocked now e3)"
    unfolding ShrinkISR_def Let_def e3_def e2_def by (rule refl)
  ultimately show ?thesis by simp
qed

section \<open>The write path\<close>

lemma outbox_sub:
  assumes "\<And>p b m. (p, b) \<in> set (e_wire e') \<Longrightarrow> m \<in> set b \<Longrightarrow> (p, m) \<in> Y"
    "\<And>p ps m. (p, ps) \<in> set (e_peerQ e') \<Longrightarrow> m \<in> set (ps_ch ps) \<Longrightarrow> (p, m) \<in> Y"
  shows "outbox e' \<subseteq> Y"
  using assms by (auto simp: outbox_def)

lemma submit_view: "logPart (submitPeerLocked inl p m e) = logPart e" "ext {(p, m)} {} e (submitPeerLocked inl p m e)"
proof -
  show "logPart (submitPeerLocked inl p m e) = logPart e" by (simp add: submitPeerLocked_def Let_def logPart_def)
  define ps where "ps = (case map_of (e_peerQ e) p of None \<Rightarrow> \<lparr>ps_ch = [], ps_pending = 0\<rparr> | Some ps \<Rightarrow> ps)"
  have q: "(p', m') \<in> outbox e \<union> {(p, m)}" if "(p', x) \<in> set (AList.update p y (e_peerQ e)) \<or>
        (p', x) \<in> set (AList.update p z (AList.update p y (e_peerQ e)))" "m' \<in> set (ps_ch x)"
      "ps_ch y = ps_ch ps" "ps_ch z = ps_ch ps @ [m]" for p' m' x y z
  proof -
    have o: "(p, m'') \<in> outbox e" if "m'' \<in> set (ps_ch ps)" for m''
      using that outboxI(2) [OF map_of_SomeD [of "e_peerQ e" p ps]] by (auto simp: ps_def split: option.splits)
    have "(p', x) \<in> set (e_peerQ e) \<or> p' = p \<and> (x = y \<or> x = z)"
      using that(1) set_update_sub [of p y "e_peerQ e"] set_update_sub [of p z "AList.update p y (e_peerQ e)"] by auto
    then show ?thesis using that(2-4) o outboxI(2) [of p' x e m'] by auto
  qed
  have w: "batch_ok [m]" by (simp add: batch_ok_def pbGroupBatchMax_def)
  show "ext {(p, m)} {} e (submitPeerLocked inl p m e)"
  proof (cases "e_closed e")
    case False
    let ?Q1 = "AList.update p ps (e_peerQ e)"
    let ?z = "ps\<lparr>ps_pending := ps_pending ps + 1, ps_ch := ps_ch ps @ [m]\<rparr>"
    have eq: "submitPeerLocked inl p m e = (if ps_pending ps = 0 \<and> inl p m
        then e\<lparr>e_peerQ := ?Q1, e_wire := e_wire e @ [(p, [m])]\<rparr> else e\<lparr>e_peerQ := AList.update p ?z ?Q1\<rparr>)"
      using False by (simp add: submitPeerLocked_def Let_def ps_def)
    have 1: "outbox (e\<lparr>e_peerQ := ?Q1, e_wire := e_wire e @ [(p, [m])]\<rparr>) \<subseteq> outbox e \<union> {(p, m)}"
    proof (rule outbox_sub)
      fix p' b m' assume "(p', b) \<in> set (e_wire (e\<lparr>e_peerQ := ?Q1, e_wire := e_wire e @ [(p, [m])]\<rparr>))" "m' \<in> set b"
      then show "(p', m') \<in> outbox e \<union> {(p, m)}" using outboxI(1) [of p' b e m'] by auto
    next
      fix p' x m' assume "(p', x) \<in> set (e_peerQ (e\<lparr>e_peerQ := ?Q1, e_wire := e_wire e @ [(p, [m])]\<rparr>))" "m' \<in> set (ps_ch x)"
      then show "(p', m') \<in> outbox e \<union> {(p, m)}" using q [of p' x ps ?z m'] by simp
    qed
    have 2: "outbox (e\<lparr>e_peerQ := AList.update p ?z ?Q1\<rparr>) \<subseteq> outbox e \<union> {(p, m)}"
    proof (rule outbox_sub)
      fix p' b m' assume "(p', b) \<in> set (e_wire (e\<lparr>e_peerQ := AList.update p ?z ?Q1\<rparr>))" "m' \<in> set b"
      then show "(p', m') \<in> outbox e \<union> {(p, m)}" using outboxI(1) [of p' b e m'] by auto
    next
      fix p' x m' assume "(p', x) \<in> set (e_peerQ (e\<lparr>e_peerQ := AList.update p ?z ?Q1\<rparr>))" "m' \<in> set (ps_ch x)"
      then show "(p', m') \<in> outbox e \<union> {(p, m)}" using q [of p' x ps ?z m'] by simp
    qed
    show ?thesis using 1 2 w unfolding eq by (auto simp: ext_def wire_ok_def)
  qed (simp add: submitPeerLocked_def)
qed

lemma submit_learner_view:
  "logPart (submitLearnerLocked p m e) = logPart e" "ext {(p, m)} {} e (submitLearnerLocked p m e)"
proof -
  show "logPart (submitLearnerLocked p m e) = logPart e"
    by (simp add: submitLearnerLocked_def Let_def markLearnerAbandonedLocked_def dropPeerLocked_def logPart_def
        split: option.split)
  have d: "ext {(p, m)} {} e (markLearnerAbandonedLocked p s ((dropPeerLocked p e)
      \<lparr>e_learners := removeAll p (e_learners (dropPeerLocked p e))\<rparr>))" for s
    by (intro keepsD(2) keeps_trans [OF keeps_trans [OF keeps_drop keeps_updates(1)] keeps_marks(4)]) auto
  show "ext {(p, m)} {} e (submitLearnerLocked p m e)"
  proof (cases "e_closed e \<or> map_of (e_peerQ e) p = None")
    case False
    then obtain ps where ps: "map_of (e_peerQ e) p = Some ps" "\<not> e_closed e" by auto
    let ?e = "e\<lparr>e_peerQ := AList.update p (ps\<lparr>ps_pending := ps_pending ps + 1, ps_ch := ps_ch ps @ [m]\<rparr>) (e_peerQ e)\<rparr>"
    have mem: "(p, ps) \<in> set (e_peerQ e)" using ps(1) by (rule map_of_SomeD)
    have "outbox ?e \<subseteq> outbox e \<union> {(p, m)}"
    proof (rule outbox_sub)
      fix p' b m' assume "(p', b) \<in> set (e_wire ?e)" "m' \<in> set b"
      then show "(p', m') \<in> outbox e \<union> {(p, m)}" using outboxI(1) [of p' b e m'] by auto
    next
      fix p' x m' assume a: "(p', x) \<in> set (e_peerQ ?e)" "m' \<in> set (ps_ch x)"
      then have "(p', x) \<in> insert (p, ps\<lparr>ps_pending := ps_pending ps + 1, ps_ch := ps_ch ps @ [m]\<rparr>) (set (e_peerQ e))"
        using set_update_sub [of p _ "e_peerQ e"] by auto
      then show "(p', m') \<in> outbox e \<union> {(p, m)}"
        using a(2) outboxI(2) [of p' x e m'] outboxI(2) [OF mem, of m'] by auto
    qed
    then have "ext {(p, m)} {} e ?e" by (simp add: ext_def wire_ok_def)
    then show ?thesis using ps d by (simp add: submitLearnerLocked_def Let_def)
  qed (auto simp: submitLearnerLocked_def split: option.split)
qed

lemma logPart_foldl: "(\<And>e x. logPart (f e x) = logPart e) \<Longrightarrow> logPart (foldl f e xs) = logPart e"
  by (induction xs arbitrary: e) auto

lemma ship_view:
  "logPart (proposeShip inl now ps ls m e) = logPart e"
  "ext ((set ps \<union> set ls) \<times> {m}) {} e (proposeShip inl now ps ls m e)"
proof -
  define e1 where "e1 = foldl (\<lambda>e p. submitPeerLocked inl p m e) e ps"
  define e2 where "e2 = foldl (\<lambda>e l. submitLearnerLocked l m e) e1 ls"
  let ?X = "(set ps \<union> set ls) \<times> {m}"
  have l: "logPart e2 = logPart e" by (simp add: e2_def e1_def logPart_foldl submit_view(1) submit_learner_view(1))
  have "ext ?X {} e e1" unfolding e1_def by (rule ext_foldl) (rule ext_mono [OF submit_view(2)], auto)
  moreover have "ext ?X {} e1 e2" unfolding e2_def by (rule ext_foldl) (rule ext_mono [OF submit_learner_view(2)], auto)
  ultimately have x: "ext ?X {} e e2" by (rule ext_trans)
  note k = keeps_frame [OF pipe_frame_sweep, of e2 now]
  have eq: "proposeShip inl now ps ls m e = (if ps = [] \<and> ls = [] then e
      else if ps \<noteq> [] \<and> e_commitLevel e2 = CommitPrimary then sweepLocked now e2 else e2)"
    by (simp add: proposeShip_def Let_def e2_def e1_def)
  show "logPart (proposeShip inl now ps ls m e) = logPart e" using l keepsD(1) [OF k] unfolding eq by simp
  show "ext ?X {} e (proposeShip inl now ps ls m e)" using x ext_trans [OF x keepsD(2) [OF k]] unfolding eq by simp
qed

lemma distinctFrom_notin: "x \<in> set seen \<Longrightarrow> x \<notin> set (distinctFrom seen ms)"
  by (induction seen ms rule: distinctFrom.induct) auto

lemma required_notself: "e_nodeID e \<notin> set (requiredPeers isr e)"
  using distinctFrom_notin [of "e_nodeID e" "[e_nodeID e]" isr]
  by (auto simp: requiredPeers_def Let_def distinctPeers_def intersectPeers_def)

text \<open>The write path: nothing happens, or the entry after the frontier is appended, kept in the ring
  and sent to other nodes.\<close>

lemma propose_view:
  fixes e :: "'s Engine" and ap :: "'s applier" and inl :: "node \<Rightarrow> ReplicateMsg \<Rightarrow> bool"
    and primary :: node and isr :: "node list" and minISR now now' :: int and data :: bytes
  assumes inv: "eng_inv A e" and nw: "unat (fst (appliedFrontierLocked e)) + 1 < 2 ^ 64"
    and self: "e_nodeID e \<notin> set (e_learners e)" and f: "appliedFrontierLocked e = (ps, pe)"
  defines "e' \<equiv> fst (proposeSequenced ap inl primary isr minISR now now' data e)"
  shows "e' = e \<or> (\<exists>s res. \<not> e_poisoned e \<and> e_leaseEpoch e = e_epoch e \<and> now < e_leaseExpiry e \<and>
    ap (e_fsm e) data = Inr (s, res) \<and>
    logPart e' = (logPart e)\<lparr>lp_seq := ps + 1, lp_seqEpoch := e_epoch e, lp_fsm := s, lp_ring := ring_push (e_backlog e)
      \<lparr>re_epoch = e_epoch e, re_seq = ps + 1, re_prevEpoch = pe, re_data = data\<rparr>\<rparr> \<and>
    ext ({p. p \<noteq> e_nodeID e} \<times> {\<lparr>m_Epoch = e_epoch e, m_Seq = ps + 1, m_PrevSeq = ps, m_PrevEpoch = pe, m_Data = data\<rparr>})
      {} e e')"
proof (cases "proposeFence primary isr minISR now e")
  case (Some r)
  then show ?thesis by (simp add: e'_def proposeSequenced_def)
next
  case None
  note F = fence_admits [OF None]
  show ?thesis
  proof (cases "ap (e_fsm e) data")
    case (Inl err)
    then show ?thesis using None by (simp add: e'_def proposeSequenced_def)
  next
    case (Inr sr)
    obtain s res where sr: "sr = (s, res)" by fastforce
    define e0 where "e0 = e\<lparr>e_fsm := s\<rparr>"
    let ?ent = "\<lparr>re_epoch = e_epoch e, re_seq = ps + 1, re_prevEpoch = pe, re_data = data\<rparr>"
    let ?msg = "\<lparr>m_Epoch = e_epoch e, m_Seq = ps + 1, m_PrevSeq = ps, m_PrevEpoch = pe, m_Data = data\<rparr>"
    obtain b ev where b: "ring_append (e_backlog e0) ?ent = (b, ev)" by fastforce
    define e1 where "e1 = e0\<lparr>e_backlog := b, e_released := e_released e0 @ (case ev of None \<Rightarrow> [] | Some d \<Rightarrow> [d])\<rparr>"
    have inv1: "eng_inv A e1"
      by (rule step_goodD [OF step_good_same [OF inv, of e1 "{}"]]) (simp_all add: e1_def e0_def same_marks_def)
    have f0: "appliedFrontierLocked e0 = (ps, pe)" "appliedFrontierLocked e1 = (ps, pe)"
      using f by (simp_all add: e1_def e0_def appliedFrontierLocked_def cong: if_cong)
    have s1: "e_leaseEpoch e1 = e_epoch e1" "\<not> windowFullLocked e1" "unat (fst (appliedFrontierLocked e1)) + 1 < 2 ^ 64"
      "e_epoch e1 = e_epoch e" using F f0 nw f by (simp_all add: e1_def e0_def windowFullLocked_def)
    let ?peers = "requiredPeers isr e0"
    obtain e2 where e2: "registerInflightLocked (e_epoch e) (ps + 1) ?peers e1 = Some e2"
      "\<exists>r h n b. e2 = e1\<lparr>e_inflightRing := r, e_inflightHead := h, e_inflightN := n, e_baseSeq := b,
         e_lastSeq := ps + 1, e_lastSeqEpoch := e_epoch e\<rparr>"
      using register_good [OF inv1 s1(1,2,3), of ?peers "{}"] f0(2) s1(4) by (metis fst_conv)
    let ?e3 = "noteFrontierLocked e2"
    let ?e4 = "if ?peers = [] then sweepLocked now' ?e3 else ?e3"
    have k: "keeps e2 ?e4"
      using keeps_marks(5) [of e2] keeps_trans [OF keeps_marks(5) keeps_frame [OF pipe_frame_sweep], of e2 now'] by simp
    have p: "e' = proposeShip inl now' ?peers (learnerShipSetLocked ?peers ?e4) ?msg ?e4"
      using e2(1) None Inr sr b f0(1) unfolding e'_def proposeSequenced_def proposeRegister_def
      by (simp add: Let_def requiredPeers_def e1_def e0_def)
    have l2: "logPart e2 = (logPart e)\<lparr>lp_seq := ps + 1, lp_seqEpoch := e_epoch e, lp_fsm := s, lp_ring := b\<rparr>"
      using e2(2) by (auto simp: logPart_def e1_def e0_def)
    have b': "b = ring_push (e_backlog e) ?ent" using b by (simp add: ring_push_def e0_def)
    have x2: "ext X {} e e2" for X using e2(2) by (intro ext_plain) (auto simp: e1_def e0_def)
    have "set (e_learners ?e4) \<subseteq> set (e_learners e)" using ext_learners [OF ext_trans [OF x2 [of "{}"] keepsD(2) [OF k]]] by simp
    then have "set ?peers \<union> set (learnerShipSetLocked ?peers ?e4) \<subseteq> {p. p \<noteq> e_nodeID e}"
      using self required_notself [of e0 isr] by (auto simp: learnerShipSetLocked_def e0_def)
    then have "ext ({p. p \<noteq> e_nodeID e} \<times> {?msg}) {} ?e4 e'"
      unfolding p by (intro ext_mono [OF ship_view(2)]) auto
    then have "ext ({p. p \<noteq> e_nodeID e} \<times> {?msg}) {} e e'"
      using ext_trans [OF ext_trans [OF x2 keepsD(2) [OF k]]] by blast
    moreover have "logPart e' = logPart e2" unfolding p using ship_view(1) keepsD(1) [OF k] by metis
    ultimately show ?thesis using F Inr sr l2 b' by (intro disjI2 exI [of _ s] exI [of _ res]) simp
  qed
qed

section \<open>Deltas and the learner flip\<close>

lemma ringDeltaLoop_sub:
  assumes "ring_inv r" "ringDeltaLoop r run s n = Some ms" "s \<noteq> 0" "unat s + n \<le> 2 ^ 64"
  shows "set ms \<subseteq> entryMsg ` set (ring_entries r) \<and>
    (\<exists>ep. dense_from ep s ms \<and> (\<forall>ep'. run = Some ep' \<longrightarrow> ms \<noteq> [] \<longrightarrow> ep = ep'))"
  using assms(2-4)
proof (induction n arbitrary: run s ms)
  case (Suc n)
  obtain ent where at: "ring_at r s = Some ent" using Suc.prems(1) by (auto split: option.splits)
  note ent = ring_at_sound [OF assms(1) Suc.prems(2) at]
  show ?case
  proof (cases "run \<noteq> None \<and> run \<noteq> Some (re_epoch ent)")
    case True
    then show ?thesis using Suc.prems(1) at by auto
  next
    case False
    then obtain ms' where ms: "ms = entryMsg ent # ms'" "ringDeltaLoop r (Some (re_epoch ent)) (s + 1) n = Some ms'"
      using Suc.prems(1) at by (auto split: if_splits)
    have "set ms' \<subseteq> entryMsg ` set (ring_entries r) \<and> dense_from (re_epoch ent) (s + 1) ms'"
    proof (cases "n = 0")
      case False
      then have "unat (s + 1) = unat s + 1" using Suc.prems(3) by (intro unat_Suc) simp
      moreover from this have "s + 1 \<noteq> 0" by (metis add_is_0 unat_0 zero_neq_one)
      ultimately obtain ep where "set ms' \<subseteq> entryMsg ` set (ring_entries r)" "dense_from ep (s + 1) ms'"
        "ms' \<noteq> [] \<longrightarrow> ep = re_epoch ent" using Suc.IH [OF ms(2)] Suc.prems(3) by auto
      then show ?thesis by (cases "ms' = []") auto
    qed (use ms(2) in simp)
    then show ?thesis using ent False unfolding ms(1)
      by (intro conjI exI [of _ "re_epoch ent"]) (auto simp: entryMsg_def)
  qed
qed auto

lemma ringDelta_sub:
  assumes "ring_inv (e_backlog e)" "ringDeltaLocked from to e = Some ms" "from \<noteq> 0"
  shows "set ms \<subseteq> entryMsg ` set (ring_entries (e_backlog e))" "\<exists>ep. dense_from ep from ms"
proof -
  have "set ms \<subseteq> entryMsg ` set (ring_entries (e_backlog e)) \<and> (\<exists>ep. dense_from ep from ms)"
  proof (cases "ms = []")
    case False
    then obtain t where t: "from \<le> t" "ringDeltaLoop (e_backlog e) None from (unat (t - from) + 1) = Some ms"
      using assms(2) by (auto simp: ringDeltaLocked_def Let_def split: if_splits option.splits)
        (metis not_less)+
    have "unat from + (unat (t - from) + 1) \<le> 2 ^ 64"
      using t(1) unat_lt [of t] by (simp add: word_le_nat_alt unat_sub)
    then show ?thesis using ringDeltaLoop_sub [OF assms(1) t(2) assms(3)] by blast
  qed simp
  then show "set ms \<subseteq> entryMsg ` set (ring_entries (e_backlog e))" "\<exists>ep. dense_from ep from ms" by blast+
qed

lemma create_learner_view:
  "logPart (createLearnerSenderLocked p ms e) = logPart e" "ext ({p} \<times> set ms) {} e (createLearnerSenderLocked p ms e)"
proof -
  show "logPart (createLearnerSenderLocked p ms e) = logPart e"
    by (simp add: createLearnerSenderLocked_def Let_def dropPeerLocked_def logPart_def)
  define e1 where "e1 = (if ghas (e_peerQ e) p then dropPeerLocked p e else e)"
  let ?e = "e1\<lparr>e_peerQ := AList.update p \<lparr>ps_ch = ms, ps_pending = int (length ms)\<rparr> (e_peerQ e1)\<rparr>"
  have "keeps e e1" by (simp add: e1_def keeps_drop)
  moreover have "outbox ?e \<subseteq> outbox e1 \<union> {p} \<times> set ms"
  proof (rule outbox_sub)
    fix p' b m assume "(p', b) \<in> set (e_wire ?e)" "m \<in> set b"
    then show "(p', m) \<in> outbox e1 \<union> {p} \<times> set ms" using outboxI(1) [of p' b e1 m] by auto
  next
    fix p' x m assume a: "(p', x) \<in> set (e_peerQ ?e)" "m \<in> set (ps_ch x)"
    then have "(p', x) \<in> insert (p, \<lparr>ps_ch = ms, ps_pending = int (length ms)\<rparr>) (set (e_peerQ e1))"
      using set_update_sub [of p _ "e_peerQ e1"] by auto
    then show "(p', m) \<in> outbox e1 \<union> {p} \<times> set ms" using a(2) outboxI(2) [of p' x e1 m] by auto
  qed
  then have "ext ({p} \<times> set ms) {} e1 ?e" by (simp add: ext_def wire_ok_def)
  ultimately have "ext ({p} \<times> set ms) {} e ?e" using ext_trans [OF keepsD(2)] by blast
  moreover have "createLearnerSenderLocked p ms e = ?e" unfolding createLearnerSenderLocked_def Let_def e1_def ..
  ultimately show "ext ({p} \<times> set ms) {} e (createLearnerSenderLocked p ms e)" by simp
qed

lemma flip_view:
  assumes "flipOnce now p E k e = FlipDone e'" "ring_inv (e_backlog e)" "k \<noteq> -1"
  shows "logPart e' = logPart e" "ext ({p} \<times> entryMsg ` set (ring_entries (e_backlog e))) {p} e e'"
proof -
  from assms(1) obtain delta where d: "ringDeltaLocked (k + 1) (e_lastSeq e) e = Some delta"
    and e': "e' = (createLearnerSenderLocked p delta e)\<lparr>
      e_abandonedLearners := AList.delete p (e_abandonedLearners (createLearnerSenderLocked p delta e)),
      e_learnerTeardown := removeAll p (e_learnerTeardown (createLearnerSenderLocked p delta e)),
      e_learners := List.insert p (e_learners (createLearnerSenderLocked p delta e))\<rparr>" (is "_ = ?u (createLearnerSenderLocked p delta e)")
    by (auto simp: flipOnce_def Let_def split: if_splits option.splits)
  have u: "logPart (?u e1) = logPart e1" "ext X {p} e1 (?u e1)" for e1 :: "'a Engine" and X
    by (auto simp: logPart_def ext_def outbox_def wire_ok_def)
  have "k + 1 \<noteq> 0" using assms(3) by (metis add.commute add_eq_0_iff)
  note s = ringDelta_sub(1) [OF assms(2) d this]
  show "logPart e' = logPart e" unfolding e' u(1) by (rule create_learner_view(1))
  show "ext ({p} \<times> entryMsg ` set (ring_entries (e_backlog e))) {p} e e'"
    unfolding e' using s by (intro ext_trans [OF ext_mono [OF create_learner_view(2)] u(2)]) auto
qed

section \<open>The receive path\<close>

lemma receive_view:
  assumes "receiveLocked ap now msg e = (e', ack)"
  shows "accepts ap msg e \<Longrightarrow> \<exists>s res. ap (e_fsm e) (m_Data msg) = Inr (s, res) \<and> a_OK ack \<and> a_Epoch ack = m_Epoch msg \<and>
      a_Seq ack = m_Seq msg \<and> logPart e' = (logPart e)\<lparr>lp_epoch := m_Epoch msg, lp_app := m_Seq msg,
        lp_appEpoch := m_Epoch msg, lp_fsm := s\<rparr> \<and> ext {} {} e e'"
    "\<not> accepts ap msg e \<Longrightarrow> \<not> a_OK ack \<and> ext {} {} e e' \<and> (\<exists>ep. e_epoch e \<le> ep \<and> logPart e' = (logPart e)\<lparr>lp_epoch := ep\<rparr>)"
proof -
  define e1 where "e1 = (if m_Epoch msg > e_epoch e then advanceEpoch now (m_Epoch msg) e else e)"
  have l1: "logPart e1 = (logPart e)\<lparr>lp_epoch := max (e_epoch e) (m_Epoch msg)\<rparr>" "ext {} {} e e1"
    by (auto simp: e1_def max_def advance_view)
  have f1: "appliedFrontierLocked e1 = appliedFrontierLocked e" "e_fsm e1 = e_fsm e" by (simp_all add: e1_def)
  {
    assume acc: "accepts ap msg e"
    obtain s r where s: "ap (e_fsm e) (m_Data msg) = Inr (s, r)"
      using acc by (auto simp: accepts_def split: sum.splits)
    let ?e2 = "e1\<lparr>e_fsm := s, e_lastApplied := m_Seq msg, e_lastAppliedEpoch := m_Epoch msg\<rparr>"
    have eq: "receiveLocked ap now msg e = (noteFrontierLocked ?e2, \<lparr>a_Epoch = m_Epoch msg, a_Seq = m_Seq msg, a_OK = True\<rparr>)"
      using acc s f1 unfolding receiveLocked_def Let_def e1_def [symmetric] by (auto simp: accepts_def)
    have "max (e_epoch e) (m_Epoch msg) = m_Epoch msg" using acc by (simp add: accepts_def max_absorb2)
    then have "logPart ?e2 = (logPart e)\<lparr>lp_epoch := m_Epoch msg, lp_app := m_Seq msg, lp_appEpoch := m_Epoch msg, lp_fsm := s\<rparr>"
      using l1(1) by (simp add: logPart_def)
    moreover have "ext {} {} e ?e2" by (rule ext_trans [OF l1(2) ext_plain]) simp_all
    ultimately have "logPart (noteFrontierLocked ?e2) =
        (logPart e)\<lparr>lp_epoch := m_Epoch msg, lp_app := m_Seq msg, lp_appEpoch := m_Epoch msg, lp_fsm := s\<rparr>"
      "ext {} {} e (noteFrontierLocked ?e2)"
      using keepsD(1) [OF keeps_marks(5) [of ?e2]] ext_trans [OF _ keepsD(2) [OF keeps_marks(5) [of ?e2]]] by auto
    then show "\<exists>s res. ap (e_fsm e) (m_Data msg) = Inr (s, res) \<and> a_OK ack \<and> a_Epoch ack = m_Epoch msg \<and>
        a_Seq ack = m_Seq msg \<and> logPart e' = (logPart e)\<lparr>lp_epoch := m_Epoch msg, lp_app := m_Seq msg,
          lp_appEpoch := m_Epoch msg, lp_fsm := s\<rparr> \<and> ext {} {} e e'"
      using eq assms s by auto
  next
    assume acc: "\<not> accepts ap msg e"
    then have "e' = e \<or> e' = e1" using assms unfolding receiveLocked_def Let_def e1_def [symmetric]
      by (auto simp: accepts_def f1 split: if_splits prod.splits sum.splits)
    then show "\<not> a_OK ack \<and> ext {} {} e e' \<and> (\<exists>ep. e_epoch e \<le> ep \<and> logPart e' = (logPart e)\<lparr>lp_epoch := ep\<rparr>)"
    proof
      assume "e' = e"
      then show ?thesis using receive_reject(1) [OF acc assms] by (intro conjI exI [of _ "e_epoch e"]) (simp_all add: logPart_def)
    next
      assume "e' = e1"
      then show ?thesis using receive_reject(1) [OF acc assms] l1 by (intro conjI exI [of _ "max (e_epoch e) (m_Epoch msg)"]) simp_all
    qed
  }
qed

end
