(* ===== verification/SnapOps.thy ===== *)
theory SnapOps
  imports EngineOps
begin

text \<open>
  The snapshot target's side as effects on the log part: staging a chunk, refusing it, and
  installing a complete blob.
\<close>

text \<open>The staged transfer after chunk \<open>c\<close>: a fresh one, or the one under way with the chunk's bytes
  appended at exactly the offset the chunk names.\<close>

definition staged :: "SnapshotChunk \<Rightarrow> snapshotStage option \<Rightarrow> snapshotStage \<Rightarrow> bool" where
  "staged c old st = (st_epoch st = sc_Epoch c \<and> st_frontierSeq st = sc_FrontierSeq c \<and>
     st_frontierEpoch st = sc_FrontierEpoch c \<and> st_total st = sc_Total c \<and>
     (sc_Offset c = 0 \<and> st_buf st = sc_Data c \<or>
      (\<exists>st0. old = Some st0 \<and> st_epoch st0 = st_epoch st \<and> st_frontierSeq st0 = st_frontierSeq st \<and>
         st_frontierEpoch st0 = st_frontierEpoch st \<and> st_total st0 = st_total st \<and>
         sc_Offset c = of_nat (length (st_buf st0)) \<and> st_buf st = st_buf st0 @ sc_Data c)))"

lemma pipe_frame_drop: "pipe_frame e (dropInflight e)"
proof -
  have "pipe_frame e ((popInflightHeadLocked ^^ n) e)" for n and e :: "'a Engine"
    by (induction n) (auto intro: pipe_frame_trans pipe_frame_pop)
  moreover have "pipe_frame e (foldl (\<lambda>e i. resolveLocked ((e_inflightHead e + i) mod length (e_inflightRing e))
                 (Some ErrReplicationTimeout) e) e [0..<e_inflightN e])"
    by (rule pipe_frame_foldl) (rule pipe_frame_resolve)
  ultimately show ?thesis unfolding dropInflight_def Let_def using pipe_frame_trans by blast
qed

text \<open>What an install leaves behind.\<close>

definition installed :: "'s SnapshotStore \<Rightarrow> bytes \<Rightarrow> u64 \<Rightarrow> u64 \<Rightarrow> 's logPart \<Rightarrow> 's logPart \<Rightarrow> bool" where
  "installed ss blob fseq fepoch l l' = (\<exists>s ok. ss_install ss blob (lp_fsm l) = (s, ok) \<and>
     (\<not> ok \<and> l' = l\<lparr>lp_poisoned := True, lp_fsm := s\<rparr> \<or>
      ok \<and> (\<exists>b cap. l' = l\<lparr>lp_poisoned := b, lp_fsm := s, lp_app := fseq, lp_appEpoch := fepoch,
          lp_seq := fseq, lp_seqEpoch := fepoch, lp_ring := newRing cap\<rparr>)))"

lemma install_view:
  assumes "installSnapshot oss E fseq fepoch blob e = (e', res)"
  shows "ext {} {} e e' \<and> (logPart e' = logPart e \<or> e_epoch e \<le> E \<and> (\<exists>ss. oss = Some ss \<and> installed ss blob fseq fepoch (logPart e) (logPart e')))"
proof (cases "\<exists>ss. oss = Some ss \<and> ss_begin ss fseq fepoch \<and> \<not> e_closed e \<and> \<not> E < e_epoch e")
  case True
  then obtain ss where ss: "oss = Some ss" "ss_begin ss fseq fepoch" "\<not> e_closed e" "\<not> E < e_epoch e" by blast
  obtain s ok where i: "ss_install ss blob (e_fsm e) = (s, ok)" by fastforce
  let ?e2 = "e\<lparr>e_poisoned := True, e_fsm := s\<rparr>"
  show ?thesis
  proof (cases ok)
    case False
    then have "e' = ?e2" using assms ss i by (simp add: installSnapshot_def Let_def)
    then show ?thesis using ss i False
      by (auto simp: installed_def logPart_def intro: ext_plain)
  next
    case True
    let ?e3 = "?e2\<lparr>e_lastApplied := fseq, e_lastAppliedEpoch := fepoch, e_lastSeq := fseq, e_lastSeqEpoch := fepoch,
      e_committed := fseq\<rparr>"
    define e4 where "e4 = dropInflight ?e3"
    define cap where "cap = int (length (r_buf (e_backlog e4)))"
    define e6 where "e6 = clearLearnersLocked (clearEffISRLocked (e4\<lparr>e_backlog := newRing cap\<rparr>))"
    have k4: "keeps ?e3 e4" unfolding e4_def by (rule keeps_frame [OF pipe_frame_drop])
    have k6: "keeps (e4\<lparr>e_backlog := newRing cap\<rparr>) e6" unfolding e6_def
      by (rule keeps_trans [OF keeps_marks(6) keeps_marks(7)])
    have l6: "logPart e6 = (logPart e)\<lparr>lp_poisoned := True, lp_fsm := s, lp_app := fseq, lp_appEpoch := fepoch,
          lp_seq := fseq, lp_seqEpoch := fepoch, lp_ring := newRing cap\<rparr>"
      using keepsD(1) [OF k4] keepsD(1) [OF k6] by (simp add: logPart_def)
    have x6: "ext {} {} e e6"
      by (rule ext_trans [OF ext_trans [OF ext_trans [OF ext_plain keepsD(2) [OF k4]] ext_plain] keepsD(2) [OF k6]]) simp_all
    have e': "e' = (if ss_commit ss fseq fepoch then e6\<lparr>e_poisoned := False\<rparr> else e6)"
      using assms ss i True by (simp add: installSnapshot_def Let_def e6_def e4_def cap_def split: if_splits)
    have x: "ext {} {} e (e6\<lparr>e_poisoned := False\<rparr>)" by (rule ext_trans [OF x6 ext_plain]) simp_all
    have "logPart (e6\<lparr>e_poisoned := b\<rparr>) = (logPart e6)\<lparr>lp_poisoned := b\<rparr>" for b by (simp add: logPart_def)
    then have "logPart e' = (logPart e)\<lparr>lp_poisoned := \<not> ss_commit ss fseq fepoch, lp_fsm := s, lp_app := fseq,
        lp_appEpoch := fepoch, lp_seq := fseq, lp_seqEpoch := fepoch, lp_ring := newRing cap\<rparr>"
      unfolding e' using l6 by simp
    then have "installed ss blob fseq fepoch (logPart e) (logPart e')"
      unfolding installed_def using i True by (intro exI [of _ s] exI [of _ ok]) auto
    then show ?thesis using ss x x6 unfolding e' by auto
  qed
next
  case False
  then have "e' = e" using assms by (auto simp: installSnapshot_def Let_def split: option.splits if_splits)
  then show ?thesis by simp
qed

lemma chunk_view:
  assumes "ReceiveSnapshotChunk oss now c e = (e', ack)"
  shows "ext {} {} e e' \<and> (\<exists>ep. e_epoch e \<le> ep \<and>
    ((\<exists>st'. (st' = None \<or> (\<exists>st. st' = Some st \<and> staged c (e_snapStage e) st)) \<and>
        logPart e' = (logPart e)\<lparr>lp_epoch := ep, lp_stage := st'\<rparr>) \<or>
     (\<exists>st ss. ep = sc_Epoch c \<and> sc_Final c \<and> oss = Some ss \<and> staged c (e_snapStage e) st \<and>
        (of_nat (length (st_buf st)) :: u64) = sc_Total c \<and>
        installed ss (st_buf st) (sc_FrontierSeq c) (sc_FrontierEpoch c)
          ((logPart e)\<lparr>lp_epoch := ep, lp_stage := None\<rparr>) (logPart e'))))"
proof (cases "sc_Epoch c < e_epoch e")
  case True
  then have "e' = e\<lparr>e_snapStage := None\<rparr>" using assms by (simp add: ReceiveSnapshotChunk_def Let_def)
  then show ?thesis
    by (intro conjI ext_plain exI [of _ "e_epoch e"] disjI1 exI [of _ None]) (simp_all add: logPart_def)
next
  case False
  define e1 where "e1 = (if sc_Epoch c > e_epoch e then (advanceEpoch now (sc_Epoch c) e)\<lparr>e_snapStage := None\<rparr> else e)"
  have ep: "e_epoch e \<le> sc_Epoch c" using False by simp
  have u: "logPart (x\<lparr>e_snapStage := st\<rparr>) = (logPart x)\<lparr>lp_stage := st\<rparr>" for x :: "'a Engine" and st by (simp add: logPart_def)
  have l1: "logPart e1 = (logPart e)\<lparr>lp_epoch := sc_Epoch c, lp_stage := e_snapStage e1\<rparr>"
    using False ep by (auto simp: e1_def u advance_view)
  have x1: "ext {} {} e e1"
    using ext_trans [OF advance_view(2) [of "{}" "{}" e now "sc_Epoch c"] ext_plain, of "(advanceEpoch now (sc_Epoch c) e)\<lparr>e_snapStage := None\<rparr>"]
    by (simp add: e1_def)
  have st1: "e_snapStage e1 = e_snapStage e \<or> e_snapStage e1 = None" by (simp add: e1_def)
  have S: "logPart (e1\<lparr>e_snapStage := st\<rparr>) = (logPart e)\<lparr>lp_epoch := sc_Epoch c, lp_stage := st\<rparr>" for st
    by (simp add: u l1)
  have X: "ext {} {} e (e1\<lparr>e_snapStage := st\<rparr>)" for st by (rule ext_trans [OF x1 ext_plain]) simp_all
  define fresh where "fresh = \<lparr>st_epoch = sc_Epoch c, st_frontierSeq = sc_FrontierSeq c,
     st_frontierEpoch = sc_FrontierEpoch c, st_total = sc_Total c, st_buf = []\<rparr>"
  define cont where "cont = (case e_snapStage e1 of None \<Rightarrow> None | Some st \<Rightarrow>
     if st_epoch st \<noteq> sc_Epoch c \<or> st_frontierSeq st \<noteq> sc_FrontierSeq c \<or>
        st_frontierEpoch st \<noteq> sc_FrontierEpoch c \<or> st_total st \<noteq> sc_Total c then None else Some st)"
  define st where "st = (case cont of None \<Rightarrow> fresh | Some st \<Rightarrow> st)"
  define st' where "st' = st\<lparr>st_buf := st_buf st @ sc_Data c\<rparr>"
  have refuse: ?thesis if "e' = e1\<lparr>e_snapStage := None\<rparr>"
    using that S X ep by (intro conjI exI [of _ "sc_Epoch c"] disjI1 exI [of _ None]) simp_all
  define bad where "bad = ((sc_Total c > pbSnapshotMaxBytes \<or> sc_Offset c > sc_Total c \<or>
      (of_nat (length (sc_Data c)) :: u64) > sc_Total c - sc_Offset c) \<or> (cont = None \<and> sc_Offset c \<noteq> 0) \<or>
      sc_Offset c \<noteq> of_nat (length (st_buf st)))"
  let ?nack = "\<lparr>a_Epoch = sc_Epoch c, a_Seq = sc_FrontierSeq c, a_OK = False\<rparr>"
  let ?ack = "\<lparr>a_Epoch = sc_Epoch c, a_Seq = sc_FrontierSeq c, a_OK = True\<rparr>"
  have merge: "(if a then r else if b then r else if d then r else x) = (if a \<or> b \<or> d then r else x)"
    for a b d and r x :: "'a Engine \<times> AckMsg" by simp
  have eq: "ReceiveSnapshotChunk oss now c e =
     (if bad then (e1\<lparr>e_snapStage := None\<rparr>, ?nack)
      else if \<not> sc_Final c then (e1\<lparr>e_snapStage := Some st'\<rparr>, ?ack)
      else if (of_nat (length (st_buf st')) :: u64) \<noteq> sc_Total c then (e1\<lparr>e_snapStage := None\<rparr>, ?nack)
      else case installSnapshot oss (sc_Epoch c) (sc_FrontierSeq c) (sc_FrontierEpoch c) (st_buf st')
                  (e1\<lparr>e_snapStage := None\<rparr>) of
             (e2, None) \<Rightarrow> (e2, ?ack) | (e2, Some _) \<Rightarrow> (e2, ?nack))"
    unfolding ReceiveSnapshotChunk_def Let_def e1_def [symmetric] fresh_def [symmetric] cont_def [symmetric]
      st_def [symmetric] st'_def [symmetric] merge bad_def [symmetric]
    using False by (simp only: if_False)
  show ?thesis
  proof (cases bad)
    case True
    then show ?thesis using assms eq by (intro refuse) simp
  next
    case ok: False
    have stg: "staged c (e_snapStage e) st'"
    proof (cases cont)
      case None
      then show ?thesis using ok by (simp add: bad_def staged_def st'_def st_def fresh_def)
    next
      case (Some s)
      then have "e_snapStage e1 = Some s \<and> st_epoch s = sc_Epoch c \<and> st_frontierSeq s = sc_FrontierSeq c \<and>
          st_frontierEpoch s = sc_FrontierEpoch c \<and> st_total s = sc_Total c"
        unfolding cont_def by (cases "e_snapStage e1") (auto split: if_splits)
      then have "e_snapStage e = Some s" "st_epoch s = sc_Epoch c" "st_frontierSeq s = sc_FrontierSeq c"
        "st_frontierEpoch s = sc_FrontierEpoch c" "st_total s = sc_Total c" using st1 by auto
      then show ?thesis using ok Some by (simp add: bad_def staged_def st'_def st_def)
    qed
    consider (more) "\<not> sc_Final c" | (short) "sc_Final c" "(of_nat (length (st_buf st')) :: u64) \<noteq> sc_Total c"
      | (whole) "sc_Final c" "(of_nat (length (st_buf st')) :: u64) = sc_Total c" by blast
    then show ?thesis
    proof cases
      case more
      then have "e' = e1\<lparr>e_snapStage := Some st'\<rparr>" using assms eq ok by simp
      then have "ext {} {} e e' \<and> e_epoch e \<le> sc_Epoch c \<and> staged c (e_snapStage e) st' \<and>
          logPart e' = (logPart e)\<lparr>lp_epoch := sc_Epoch c, lp_stage := Some st'\<rparr>" using S X ep stg by simp
      then show ?thesis by blast
    next
      case short
      then show ?thesis using assms eq ok by (intro refuse) simp
    next
      case whole
      obtain e2 res where i: "installSnapshot oss (sc_Epoch c) (sc_FrontierSeq c) (sc_FrontierEpoch c) (st_buf st')
          (e1\<lparr>e_snapStage := None\<rparr>) = (e2, res)" by fastforce
      then have e': "e' = e2" using assms eq ok whole by (simp split: option.splits)
      note I = install_view [OF i, unfolded S]
      have "ext {} {} e e'" using ext_trans [OF X] I unfolding e' by blast
      moreover from I have "logPart e' = (logPart e)\<lparr>lp_epoch := sc_Epoch c, lp_stage := None\<rparr> \<or>
          (\<exists>ss. oss = Some ss \<and> installed ss (st_buf st') (sc_FrontierSeq c) (sc_FrontierEpoch c)
            ((logPart e)\<lparr>lp_epoch := sc_Epoch c, lp_stage := None\<rparr>) (logPart e'))" unfolding e' by blast
      ultimately show ?thesis using ep stg whole by blast
    qed
  qed
qed

end
