(* ===== verification/Cluster.thy ===== *)
theory Cluster
  imports SnapOps
begin

text \<open>
  A shard's replica group: engines on many nodes, joined by an unreliable network. Every engine may
  run any of its operations at any time; every frame an engine ever put on the wire may be delivered
  to its target, late, repeatedly or never, through the frame codecs; catch-up groups and snapshot
  chunks travel the same way. Leases go only to the owner of an epoch, which is what the control
  plane guarantees. The model keeps, beside the engines, what was acknowledged, admitted, removed by
  a shrink, and which nodes were handed the last chunk of a snapshot.
\<close>

section \<open>The model\<close>

record 's cluster =
  cl_node :: "node \<Rightarrow> 's Engine"
  cl_chunks :: "(node \<times> SnapshotChunk) set"
  cl_acks :: "(node \<times> ReplicateMsg list \<times> AckMsg) set"
  cl_admit :: "node \<Rightarrow> (u64 \<times> u64 \<times> node set) list"
  cl_shrunk :: "(node \<times> u64 \<times> node) set"
  cl_reset :: "node set"

text \<open>When node \<open>n\<close> may run an operation. A lease for an epoch goes to the epoch's owner only; a
  completion reports the answer to a frame of this engine, or an error; a learner is another node.\<close>

fun local_ok :: "(u64 \<Rightarrow> node) \<Rightarrow> 's cluster \<Rightarrow> node \<Rightarrow> engineOp \<Rightarrow> bool" where
  "local_ok owner c n (DoGrant now ep exp) = (owner ep = n \<and> ep \<noteq> 0)"
| "local_ok owner c n (DoPromote now ep exp) = (owner ep = n)"
| "local_ok owner c n (DoPropose inl primary isr minISR now now' data) = (0 \<le> now)"
| "local_ok owner c n (DoComplete now peer msg res) = ((peer, [msg]) \<in> set (e_wire (cl_node c n)) \<and>
     (case res of Inl _ \<Rightarrow> True | Inr ack \<Rightarrow> (peer, [msg], ack) \<in> cl_acks c))"
| "local_ok owner c n (DoCompleteGroup now peer ep f l res) = (\<exists>b. (peer, b) \<in> set (e_wire (cl_node c n)) \<and>
     ep = m_Epoch (hd b) \<and> f = m_Seq (hd b) \<and> l = m_Seq (last b) \<and> 1 < length b \<and>
     (case res of Inl _ \<Rightarrow> True | Inr ack \<Rightarrow> (peer, b, ack) \<in> cl_acks c))"
| "local_ok owner c n (DoFlip now peer E k) = (peer \<noteq> n \<and> k \<noteq> -1)"
| "local_ok owner c n (DoReceive now msg) = False"
| "local_ok owner c n (DoReceiveGroup now msgs) = False"
| "local_ok owner c n (DoSnapshotChunk now ch) = False"
| "local_ok owner c n _ = True"

definition shrinks :: "node \<Rightarrow> engineOp \<Rightarrow> (node \<times> u64 \<times> node) set" where
  "shrinks n op = (case op of DoShrink now ep isr \<Rightarrow> {(n, ep, p) |p. p \<notin> set isr} | _ \<Rightarrow> {})"

definition room :: "'s Engine \<Rightarrow> nat \<Rightarrow> bool" where
  "room e k = (unat (fst (appliedFrontierLocked e)) + k < 2 ^ 64)"

definition do_local :: "'s applier \<Rightarrow> 's SnapshotStore option \<Rightarrow> node \<Rightarrow> engineOp \<Rightarrow> 's cluster \<Rightarrow> 's cluster" where
  "do_local ap oss n op c = c\<lparr>cl_node := (cl_node c)(n := engine_exec ap oss op (cl_node c n)),
      cl_admit := (cl_admit c)(n := cl_admit c n @ admits ap op (cl_node c n)),
      cl_shrunk := cl_shrunk c \<union> shrinks n op\<rparr>"

inductive cstep :: "'s applier \<Rightarrow> 's SnapshotStore option \<Rightarrow> (u64 \<Rightarrow> node) \<Rightarrow> 's cluster \<Rightarrow> 's cluster \<Rightarrow> bool"
  for ap :: "'s applier" and oss :: "'s SnapshotStore option" and owner :: "u64 \<Rightarrow> node" where
  cs_local: "local_ok owner c n op \<Longrightarrow> op_ok op (cl_node c n) \<Longrightarrow>
    cstep ap oss owner c (do_local ap oss n op c)"
| cs_deliver: "(n, [msg]) \<in> set (e_wire (cl_node c m)) \<Longrightarrow>
    decodeReplicateMsg (encodeReplicateMsg [] msg) = Inr msg' \<Longrightarrow> room (cl_node c n) 1 \<Longrightarrow>
    Receive ap now msg' (cl_node c n) = (e', ack) \<Longrightarrow> decodeAckMsg (encodeAckMsg [] ack) = Inr ack' \<Longrightarrow>
    cstep ap oss owner c (c\<lparr>cl_node := (cl_node c)(n := e'), cl_acks := insert (n, [msg], ack') (cl_acks c)\<rparr>)"
| cs_group: "(n, b) \<in> set (e_wire (cl_node c m)) \<Longrightarrow> 1 < length b \<Longrightarrow>
    length (encodeReplicateGroup [] b) \<le> unat pbMaxPayload \<Longrightarrow>
    decodeReplicateGroup (encodeReplicateGroup [] b) = Inr b' \<Longrightarrow> room (cl_node c n) (length b') \<Longrightarrow>
    ReceiveGroup ap now b' (cl_node c n) = (e', ack) \<Longrightarrow> decodeAckMsg (encodeAckMsg [] ack) = Inr ack' \<Longrightarrow>
    cstep ap oss owner c (c\<lparr>cl_node := (cl_node c)(n := e'), cl_acks := insert (n, b, ack') (cl_acks c)\<rparr>)"
| cs_backfill: "n \<noteq> m \<Longrightarrow> from \<noteq> 0 \<Longrightarrow> ringDeltaLocked from to (cl_node c m) = Some b \<Longrightarrow> b \<noteq> [] \<Longrightarrow>
    length b \<le> unat pbGroupCountMax \<Longrightarrow> length (encodeReplicateGroup [] b) \<le> unat pbMaxPayload \<Longrightarrow>
    decodeReplicateGroup (encodeReplicateGroup [] b) = Inr b' \<Longrightarrow> room (cl_node c n) (length b') \<Longrightarrow>
    ReceiveGroup ap now b' (cl_node c n) = (e', ack) \<Longrightarrow>
    cstep ap oss owner c (c\<lparr>cl_node := (cl_node c)(n := e')\<rparr>)"
| cs_snapshot: "takeSnapshot oss now E (cl_node c m) = Inr (blob, fseq, fepoch) \<Longrightarrow> 0 \<le> now \<Longrightarrow>
    \<not> e_poisoned (cl_node c m) \<Longrightarrow> length blob < 2 ^ 64 \<Longrightarrow>
    cstep ap oss owner c (c\<lparr>cl_chunks := cl_chunks c \<union> {(n, snapshotChunk E fseq fepoch blob off) |n off. n \<noteq> m}\<rparr>)"
| cs_chunk: "(n, ch) \<in> cl_chunks c \<Longrightarrow> ReceiveSnapshotChunk oss now ch (cl_node c n) = (e', ack) \<Longrightarrow>
    cstep ap oss owner c (c\<lparr>cl_node := (cl_node c)(n := e'),
      cl_reset := (if sc_Final ch then insert n (cl_reset c) else cl_reset c)\<rparr>)"

text \<open>All engines start empty, at the full-ISR commit level, from the same state.\<close>

definition cl_init :: "int \<Rightarrow> int \<Rightarrow> 's \<Rightarrow> 's cluster \<Rightarrow> bool" where
  "cl_init shard cap s0 c = ((\<forall>n. NewWithRingCapacity n shard cap CommitFullISR False s0 = Some (cl_node c n)) \<and>
     cl_chunks c = {} \<and> cl_acks c = {} \<and> (\<forall>n. cl_admit c n = []) \<and> cl_shrunk c = {} \<and> cl_reset c = {})"

text \<open>What the snapshot store has to do: a blob it made from a state installs that state.\<close>

definition store_ok :: "'s SnapshotStore option \<Rightarrow> bool" where
  "store_ok oss = (\<forall>ss s fseq blob s1 s2. oss = Some ss \<longrightarrow> ss_snapshot ss fseq s = Inr blob \<longrightarrow>
     ss_install ss blob s1 = (s2, True) \<longrightarrow> s2 = s)"

section \<open>The invariant\<close>

text \<open>A frame of node \<open>n\<close> is an entry of the tree, of an epoch \<open>n\<close> owns.\<close>

definition msg_ok :: "(u64 \<Rightarrow> node) \<Rightarrow> 's history \<Rightarrow> node \<Rightarrow> ReplicateMsg \<Rightarrow> bool" where
  "msg_ok owner L n m = (owner (m_Epoch m) = n \<and> m_Epoch m \<noteq> 0 \<and> m_Seq m \<noteq> 0 \<and> m_PrevSeq m = m_Seq m - 1 \<and>
     (\<exists>st. L (m_Seq m, m_Epoch m) = Some (m_PrevEpoch m, m_Data m, st)))"

text \<open>Bytes of a snapshot taken at an entry of the tree.\<close>

definition blob_ok :: "'s SnapshotStore option \<Rightarrow> 's history \<Rightarrow> key \<Rightarrow> u64 \<Rightarrow> bytes \<Rightarrow> bool" where
  "blob_ok oss L k ep blob = (length blob < 2 ^ 64 \<and> snd k \<le> ep \<and>
     (\<exists>ss pe d st. oss = Some ss \<and> L k = Some (pe, d, st) \<and> ss_snapshot ss (fst k) st = Inr blob))"

definition chunk_ok :: "'s SnapshotStore option \<Rightarrow> (u64 \<Rightarrow> node) \<Rightarrow> 's history \<Rightarrow> node \<Rightarrow> SnapshotChunk \<Rightarrow> bool" where
  "chunk_ok oss owner L n ch = (owner (sc_Epoch ch) \<noteq> n \<and> sc_Epoch ch \<noteq> 0 \<and>
     (\<exists>blob off. ch = snapshotChunk (sc_Epoch ch) (sc_FrontierSeq ch) (sc_FrontierEpoch ch) blob off \<and>
        blob_ok oss L (sc_FrontierSeq ch, sc_FrontierEpoch ch) (sc_Epoch ch) blob))"

definition stage_ok :: "'s SnapshotStore option \<Rightarrow> 's history \<Rightarrow> snapshotStage \<Rightarrow> bool" where
  "stage_ok oss L st = (\<exists>blob. blob_ok oss L (st_frontierSeq st, st_frontierEpoch st) (st_epoch st) blob \<and>
     st_buf st = take (length (st_buf st)) blob \<and> st_total st = of_nat (length blob))"

definition lp_ok :: "'s SnapshotStore option \<Rightarrow> (u64 \<Rightarrow> node) \<Rightarrow> 's history \<Rightarrow> node \<Rightarrow> 's logPart \<Rightarrow> bool" where
  "lp_ok oss owner L n l = (lp_node l = n \<and> (lp_seq l = lp_app l \<longrightarrow> lp_seqEpoch l = lp_appEpoch l) \<and>
     (lp_lease l = 0 \<longrightarrow> lp_expiry l \<le> 0) \<and> ring_inv (lp_ring l) \<and>
     (\<forall>ent\<in>set (ring_entries (lp_ring l)). msg_ok owner L n (entryMsg ent)) \<and>
     (\<forall>st. lp_stage l = Some st \<longrightarrow> stage_ok oss L st))"

definition eng_ok :: "'s SnapshotStore option \<Rightarrow> (u64 \<Rightarrow> node) \<Rightarrow> 's history \<Rightarrow> node \<Rightarrow> 's Engine \<Rightarrow> bool" where
  "eng_ok oss owner L n e = (lp_ok oss owner L n (logPart e) \<and> n \<notin> set (e_learners e) \<and> wire_ok e \<and>
     (\<forall>(p, m)\<in>outbox e. p \<noteq> n \<and> msg_ok owner L n m))"

definition absN :: "key set \<Rightarrow> 's logPart \<Rightarrow> 's rnode" where
  "absN H l = \<lparr>rn_epoch = lp_epoch l, rn_lease = lp_lease l, rn_front = lp_front l, rn_fsm = lp_fsm l,
     rn_live = (\<not> lp_poisoned l), rn_held = H\<rparr>"

definition absC :: "'s history \<Rightarrow> (node \<Rightarrow> key set) \<Rightarrow> 's cluster \<Rightarrow> 's rlog" where
  "absC L H c = \<lparr>rl_node = (\<lambda>n. absN (H n) (logPart (cl_node c n))), rl_log = L\<rparr>"

lemma msg_ok_mono: "msg_ok owner L n m \<Longrightarrow> L \<subseteq>\<^sub>m L' \<Longrightarrow> msg_ok owner L' n m"
  unfolding msg_ok_def using map_leD [of L L'] by blast

lemma blob_ok_mono: "blob_ok oss L k ep blob \<Longrightarrow> L \<subseteq>\<^sub>m L' \<Longrightarrow> blob_ok oss L' k ep blob"
  unfolding blob_ok_def using map_leD [of L L'] by blast

lemma chunk_ok_mono: "chunk_ok oss owner L n ch \<Longrightarrow> L \<subseteq>\<^sub>m L' \<Longrightarrow> chunk_ok oss owner L' n ch"
  unfolding chunk_ok_def using blob_ok_mono [of oss L _ _ _ L'] by blast

lemma stage_ok_mono: "stage_ok oss L st \<Longrightarrow> L \<subseteq>\<^sub>m L' \<Longrightarrow> stage_ok oss L' st"
  unfolding stage_ok_def using blob_ok_mono [of oss L _ _ _ L'] by blast

lemma lp_ok_mono: "lp_ok oss owner L n l \<Longrightarrow> L \<subseteq>\<^sub>m L' \<Longrightarrow> lp_ok oss owner L' n l"
  unfolding lp_ok_def using msg_ok_mono [of owner L n _ L'] stage_ok_mono [of oss L _ L'] by simp

lemma eng_ok_mono: "eng_ok oss owner L n e \<Longrightarrow> L \<subseteq>\<^sub>m L' \<Longrightarrow> eng_ok oss owner L' n e"
  unfolding eng_ok_def using msg_ok_mono [of owner L n _ L'] lp_ok_mono [of oss owner L n _ L'] by auto

lemma eng_ok_ext:
  assumes "eng_ok oss owner L n e" "ext X P e e'" "lp_ok oss owner L n (logPart e')" "n \<notin> P"
    and "\<And>p m. (p, m) \<in> X \<Longrightarrow> p \<noteq> n \<and> msg_ok owner L n m"
  shows "eng_ok oss owner L n e'"
proof -
  have "(p, m) \<in> outbox e \<or> (p, m) \<in> X" if "(p, m) \<in> outbox e'" for p m using assms(2) that by (auto simp: ext_def)
  moreover have "\<forall>(p, m)\<in>outbox e. p \<noteq> n \<and> msg_ok owner L n m" using assms(1) by (simp add: eng_ok_def)
  ultimately have "\<forall>(p, m)\<in>outbox e'. p \<noteq> n \<and> msg_ok owner L n m" using assms(5) by blast
  then show ?thesis using assms(1-4) unfolding eng_ok_def ext_def by blast
qed

lemma eng_ok_keeps: "eng_ok oss owner L n e \<Longrightarrow> keeps e e' \<Longrightarrow> eng_ok oss owner L n e'"
  unfolding eng_ok_def keeps_def by auto

end
