(* ===== verification/ClusterSim.thy ===== *)
theory ClusterSim
  imports Cluster
begin

text \<open>
  Each step of a node is a sequence of steps of the replicated-log machine at that node, and keeps
  what \<open>Cluster\<close> asks of an engine.
\<close>

section \<open>Steps of one node\<close>

definition moves :: "'s applier \<Rightarrow> (u64 \<Rightarrow> node) \<Rightarrow> node \<Rightarrow> 's rnode \<Rightarrow> 's history \<Rightarrow> 's rnode \<Rightarrow> 's history \<Rightarrow> bool" where
  "moves ap owner n x L x' L' = (\<forall>c. rl_node c n = x \<longrightarrow> rl_log c = L \<longrightarrow>
     (rstep ap owner)\<^sup>*\<^sup>* c ((set_node n x' c)\<lparr>rl_log := L'\<rparr>))"

lemma moves_refl: "moves ap owner n x L x L"
  unfolding moves_def
proof (intro allI impI)
  fix c :: "'a rlog" assume "rl_node c n = x" "rl_log c = L"
  then have "(set_node n x c)\<lparr>rl_log := L\<rparr> = c" by (cases c) auto
  then show "(rstep ap owner)\<^sup>*\<^sup>* c ((set_node n x c)\<lparr>rl_log := L\<rparr>)" by simp
qed

lemma moves_trans:
  assumes "moves ap owner n x L y M" "moves ap owner n y M z N"
  shows "moves ap owner n x L z N"
  unfolding moves_def
proof (intro allI impI)
  fix c :: "'a rlog" assume c: "rl_node c n = x" "rl_log c = L"
  let ?d = "(set_node n y c)\<lparr>rl_log := M\<rparr>"
  have 1: "(rstep ap owner)\<^sup>*\<^sup>* c ?d" by (rule assms(1) [unfolded moves_def, rule_format, OF c])
  have 2: "(rstep ap owner)\<^sup>*\<^sup>* ?d ((set_node n z ?d)\<lparr>rl_log := N\<rparr>)"
    by (rule assms(2) [unfolded moves_def, rule_format]) simp_all
  have "(set_node n z ?d)\<lparr>rl_log := N\<rparr> = (set_node n z c)\<lparr>rl_log := N\<rparr>" by simp
  then show "(rstep ap owner)\<^sup>*\<^sup>* c ((set_node n z c)\<lparr>rl_log := N\<rparr>)" using rtranclp_trans [OF 1 2] by (simp only:)
qed

lemma moves_step:
  assumes "\<And>c. rl_node c n = x \<Longrightarrow> rl_log c = L \<Longrightarrow> rstep ap owner c ((set_node n x' c)\<lparr>rl_log := L'\<rparr>)"
  shows "moves ap owner n x L x' L'"
  using assms unfolding moves_def by (simp add: r_into_rtranclp)

lemma set_node_log: "rl_log c = L \<Longrightarrow> (set_node n x c)\<lparr>rl_log := L\<rparr> = set_node n x c"
  by (cases c) auto

lemma moves_raise: "rn_epoch x \<le> ep \<Longrightarrow> moves ap owner n x L (x\<lparr>rn_epoch := ep\<rparr>) L"
  by (rule moves_step) (simp only: set_node_log, rule rs_raise, simp_all)

lemma moves_grant: "owner ep = n \<Longrightarrow> ep \<le> rn_epoch x \<Longrightarrow> moves ap owner n x L (x\<lparr>rn_lease := ep\<rparr>) L"
  by (rule moves_step) (simp only: set_node_log, rule rs_grant, simp_all)

lemma moves_append:
  assumes "rn_live x" "rn_lease x = rn_epoch x" "rn_epoch x \<noteq> 0" "rn_front x = (s, pe)" "s \<noteq> -1"
    "ap (rn_fsm x) d = Inr (st, res)"
  shows "moves ap owner n x L (x\<lparr>rn_front := (s + 1, rn_epoch x), rn_fsm := st,
      rn_held := insert (s + 1, rn_epoch x) (rn_held x)\<rparr>) (L((s + 1, rn_epoch x) \<mapsto> (pe, d, st)))"
proof (rule moves_step)
  fix c :: "'a rlog" assume c: "rl_node c n = x" "rl_log c = L"
  show "rstep ap owner c ((set_node n (x\<lparr>rn_front := (s + 1, rn_epoch x), rn_fsm := st,
      rn_held := insert (s + 1, rn_epoch x) (rn_held x)\<rparr>) c)\<lparr>rl_log := L((s + 1, rn_epoch x) \<mapsto> (pe, d, st))\<rparr>)"
    using rs_append [where ap = ap and owner = owner, OF c(1) [symmetric] assms refl] unfolding c(2) by simp
qed

lemma moves_accept:
  assumes "rn_live x" "owner ep \<noteq> n" "rn_epoch x \<le> ep" "rn_front x = (s, pe)" "s \<noteq> -1" "L (s + 1, ep) = Some (pe, d, st)"
  shows "moves ap owner n x L (x\<lparr>rn_epoch := ep, rn_front := (s + 1, ep), rn_fsm := st,
      rn_held := insert (s + 1, ep) (rn_held x)\<rparr>) L"
proof (rule moves_step)
  fix c :: "'a rlog" assume c: "rl_node c n = x" "rl_log c = L"
  show "rstep ap owner c ((set_node n (x\<lparr>rn_epoch := ep, rn_front := (s + 1, ep), rn_fsm := st,
      rn_held := insert (s + 1, ep) (rn_held x)\<rparr>) c)\<lparr>rl_log := L\<rparr>)"
    unfolding set_node_log [OF c(2)]
    using rs_accept [where ap = ap and owner = owner, OF c(1) [symmetric] assms(1-5) refl] assms(6) c(2) by blast
qed

lemma moves_install:
  assumes "owner ep \<noteq> n" "rn_epoch x \<le> ep" "snd k \<le> ep" "L k = Some (pe, d, st)"
  shows "moves ap owner n x L (x\<lparr>rn_epoch := ep, rn_front := k, rn_fsm := st, rn_live := live, rn_held := {}\<rparr>) L"
proof (rule moves_step)
  fix c :: "'a rlog" assume c: "rl_node c n = x" "rl_log c = L"
  show "rstep ap owner c ((set_node n (x\<lparr>rn_epoch := ep, rn_front := k, rn_fsm := st, rn_live := live, rn_held := {}\<rparr>) c)
      \<lparr>rl_log := L\<rparr>)"
    unfolding set_node_log [OF c(2)] using rs_install [where ap = ap and owner = owner, OF c(1) [symmetric] assms(1-3)] assms(4) c(2) by blast
qed

lemma moves_poison:
  assumes "owner ep \<noteq> n" "rn_epoch x \<le> ep"
  shows "moves ap owner n x L (x\<lparr>rn_epoch := ep, rn_fsm := st, rn_live := False, rn_held := {}\<rparr>) L"
proof (rule moves_step)
  fix c :: "'a rlog" assume c: "rl_node c n = x" "rl_log c = L"
  show "rstep ap owner c ((set_node n (x\<lparr>rn_epoch := ep, rn_fsm := st, rn_live := False, rn_held := {}\<rparr>) c)\<lparr>rl_log := L\<rparr>)"
    unfolding set_node_log [OF c(2)] using rs_poison [where ap = ap and owner = owner, OF c(1) [symmetric] assms] by blast
qed

text \<open>What a step of node \<open>n\<close> from \<open>e\<close> to \<open>e'\<close> has to give.\<close>

definition node_sim :: "'s applier \<Rightarrow> 's SnapshotStore option \<Rightarrow> (u64 \<Rightarrow> node) \<Rightarrow> node \<Rightarrow> 's history \<Rightarrow> key set \<Rightarrow> 's Engine \<Rightarrow>
    's history \<Rightarrow> key set \<Rightarrow> 's Engine \<Rightarrow> bool" where
  "node_sim ap oss owner n L H e L' H' e' = (moves ap owner n (absN H (logPart e)) L (absN H' (logPart e')) L' \<and>
     L \<subseteq>\<^sub>m L' \<and> eng_ok oss owner L' n e')"

lemma node_sim_refl: "eng_ok oss owner L n e \<Longrightarrow> node_sim ap oss owner n L H e L H e"
  by (simp add: node_sim_def moves_refl)

lemma node_sim_keeps: "eng_ok oss owner L n e \<Longrightarrow> keeps e e' \<Longrightarrow> node_sim ap oss owner n L H e L H e'"
  using keepsD(1) [of e e'] by (simp add: node_sim_def moves_refl eng_ok_keeps)

lemma node_sim_trans:
  "node_sim ap oss owner n L H e L1 H1 e1 \<Longrightarrow> node_sim ap oss owner n L1 H1 e1 L2 H2 e2 \<Longrightarrow>
   node_sim ap oss owner n L H e L2 H2 e2"
  unfolding node_sim_def using moves_trans map_le_trans by blast

lemma eng_okD: "eng_ok oss owner L n e \<Longrightarrow> lp_ok oss owner L n (logPart e)" "eng_ok oss owner L n e \<Longrightarrow> e_nodeID e = n"
  by (auto simp: eng_ok_def lp_ok_def)

lemma eng_ok_plain:
  assumes "eng_ok oss owner L n e" "ext {} {} e e'" "lp_ok oss owner L n (logPart e')"
  shows "eng_ok oss owner L n e'"
  by (rule eng_ok_ext [OF assms]) simp_all

section \<open>Local operations\<close>

lemma sim_raise:
  assumes ok: "eng_ok oss owner L n e" and l: "logPart e' = (logPart e)\<lparr>lp_epoch := ep\<rparr>" "e_epoch e \<le> ep" "ext {} {} e e'"
  shows "node_sim ap oss owner n L H e L H e'"
proof -
  have "absN H (logPart e') = (absN H (logPart e))\<lparr>rn_epoch := ep\<rparr>" unfolding l(1) by (simp add: absN_def lp_front_def)
  then have "moves ap owner n (absN H (logPart e)) L (absN H (logPart e')) L"
    using moves_raise [of "absN H (logPart e)" ep] l(2) by (simp add: absN_def)
  moreover have "lp_ok oss owner L n (logPart e')" using eng_okD(1) [OF ok] unfolding l(1) lp_ok_def by simp
  ultimately show ?thesis using eng_ok_plain [OF ok l(3)] by (simp add: node_sim_def)
qed

lemma sim_grant:
  assumes ok: "eng_ok oss owner L n e" and g: "owner ep = n" "ep \<noteq> 0"
  shows "node_sim ap oss owner n L H e L H (GrantLease now ep exp e)"
proof (cases "ep < e_leaseEpoch e")
  case True
  then show ?thesis using node_sim_refl [OF ok] by (simp add: GrantLease_def)
next
  case False
  let ?e = "GrantLease now ep exp e" and ?m = "max (e_epoch e) ep"
  have l: "logPart ?e = (logPart e)\<lparr>lp_epoch := ?m, lp_lease := ep, lp_expiry := exp\<rparr>" using False by (simp add: grant_view)
  have a: "absN H (logPart ?e) = (absN H (logPart e))\<lparr>rn_epoch := ?m\<rparr>\<lparr>rn_lease := ep\<rparr>"
    unfolding l by (simp add: absN_def lp_front_def)
  have "moves ap owner n (absN H (logPart e)) L ((absN H (logPart e))\<lparr>rn_epoch := ?m\<rparr>) L"
    by (rule moves_raise) (simp add: absN_def)
  moreover have "moves ap owner n ((absN H (logPart e))\<lparr>rn_epoch := ?m\<rparr>) L ((absN H (logPart e))\<lparr>rn_epoch := ?m\<rparr>\<lparr>rn_lease := ep\<rparr>) L"
    by (rule moves_grant) (simp_all add: g)
  ultimately have "moves ap owner n (absN H (logPart e)) L (absN H (logPart ?e)) L" unfolding a by (rule moves_trans)
  moreover have "lp_ok oss owner L n (logPart ?e)" using eng_okD(1) [OF ok] g(2) unfolding l lp_ok_def by simp
  ultimately show ?thesis using eng_ok_plain [OF ok grant_view(2)] by (simp add: node_sim_def)
qed

lemma sim_promote:
  assumes ok: "eng_ok oss owner L n e" and g: "owner ep = n" and op: "op_ok (DoPromote now ep exp) e"
  shows "node_sim ap oss owner n L H e L H (Promote now ep exp e)"
proof (cases "ep \<le> e_epoch e \<or> e_poisoned e")
  case True
  then show ?thesis using node_sim_refl [OF ok] by (auto simp: Promote_def)
next
  case False
  let ?e = "Promote now ep exp e" and ?l = "logPart e"
  have l: "logPart ?e = ?l\<lparr>lp_epoch := ep, lp_lease := ep, lp_expiry := exp, lp_seq := e_lastApplied e,
      lp_seqEpoch := e_lastAppliedEpoch e, lp_ring := ring_clear (e_backlog e)\<rparr>" using False by (simp add: promote_view)
  note O = eng_okD(1) [OF ok, unfolded lp_ok_def]
  have "e_lastSeq e \<le> e_lastApplied e" using op False by (simp add: op_ok_def)
  moreover have "e_lastSeq e = e_lastApplied e \<longrightarrow> e_lastSeqEpoch e = e_lastAppliedEpoch e" using O by simp
  ultimately have "lp_front (logPart ?e) = lp_front ?l" unfolding l lp_front_def by auto
  then have a: "absN H (logPart ?e) = (absN H ?l)\<lparr>rn_epoch := ep\<rparr>\<lparr>rn_lease := ep\<rparr>" unfolding l by (simp add: absN_def)
  have "moves ap owner n (absN H ?l) L ((absN H ?l)\<lparr>rn_epoch := ep\<rparr>) L"
    using False by (intro moves_raise) (auto simp: absN_def)
  moreover have "moves ap owner n ((absN H ?l)\<lparr>rn_epoch := ep\<rparr>) L ((absN H ?l)\<lparr>rn_epoch := ep\<rparr>\<lparr>rn_lease := ep\<rparr>) L"
    by (rule moves_grant) (simp_all add: g)
  ultimately have "moves ap owner n (absN H ?l) L (absN H (logPart ?e)) L" unfolding a by (rule moves_trans)
  moreover have "ep \<noteq> 0" using False by auto
  then have "lp_ok oss owner L n (logPart ?e)" using O ring_inv_clear [of "e_backlog e"] unfolding l lp_ok_def by simp
  ultimately show ?thesis using eng_ok_plain [OF ok promote_view(2)] by (simp add: node_sim_def)
qed

lemma ring_push_sub:
  assumes "ring_inv r" shows "set (ring_entries (ring_push r ent)) \<subseteq> insert ent (set (ring_entries r))"
proof -
  have "set (tl xs) \<subseteq> set xs" for xs :: "ringEntry list" by (cases xs) auto
  then show ?thesis using ring_push_entries [of r ent] assms by (auto simp: ring_inv_def)
qed

lemma sim_propose:
  assumes ok: "eng_ok oss owner L n e" and inv: "eng_inv A e" and t: "0 \<le> now"
    and op: "op_ok (DoPropose inl primary isr minISR now now' data) e"
    and R: "rl_inv s0 ap owner R" "rl_node R n = absN H (logPart e)" "rl_log R = L"
  shows "\<exists>L' H'. H \<subseteq> H' \<and> node_sim ap oss owner n L H e L' H'
    (fst (proposeSequenced ap inl primary isr minISR now now' data e))"
proof -
  let ?e = "fst (proposeSequenced ap inl primary isr minISR now now' data e)" and ?l = "logPart e"
  obtain ps pe where f: "appliedFrontierLocked e = (ps, pe)" by fastforce
  note O = eng_okD(1) [OF ok, unfolded lp_ok_def]
  have id: "e_nodeID e = n" "e_nodeID e \<notin> set (e_learners e)" using ok eng_okD(2) [OF ok] by (auto simp: eng_ok_def)
  from propose_view [OF inv op_okD(1) [OF op] id(2) f, of ap inl primary isr minISR now now' data]
  show ?thesis
  proof (elim disjE exE conjE)
    assume "?e = e"
    then show ?thesis using node_sim_refl [OF ok] by auto
  next
    fix s res
    let ?ep = "e_epoch e"
    let ?ent = "\<lparr>re_epoch = ?ep, re_seq = ps + 1, re_prevEpoch = pe, re_data = data\<rparr>"
    let ?msg = "\<lparr>m_Epoch = ?ep, m_Seq = ps + 1, m_PrevSeq = ps, m_PrevEpoch = pe, m_Data = data\<rparr>"
    assume np: "\<not> e_poisoned e" and lease: "e_leaseEpoch e = ?ep" "now < e_leaseExpiry e"
      and s: "ap (e_fsm e) data = Inr (s, res)"
      and l: "logPart ?e = ?l\<lparr>lp_seq := ps + 1, lp_seqEpoch := ?ep, lp_fsm := s, lp_ring := ring_push (e_backlog e) ?ent\<rparr>"
      and x: "ext ({p. p \<noteq> e_nodeID e} \<times> {?msg}) {} e ?e"
    let ?k = "(ps + 1, ?ep)"
    let ?L = "L(?k \<mapsto> (pe, data, s))" and ?H = "insert ?k H"
    have e0: "?ep \<noteq> 0" using O lease t by auto
    have nw: "unat ps + 1 < 2 ^ 64" using op_okD(1) [OF op] f by simp
    have ps: "ps \<noteq> -1" using unat_Suc [OF nw] by auto
    have lt: "ps < ps + 1" using unat_Suc [OF nw] by (simp add: word_less_nat_alt)
    have nz: "ps + 1 \<noteq> 0" using lt by auto
    have le: "e_lastApplied e \<le> ps" using f frontier_max [of e] by simp
    then have la: "e_lastApplied e < ps + 1" using lt by (rule order.strict_trans1)
    have front: "rn_front (absN H ?l) = (ps, pe)" using f front_lp [of e] by (simp add: absN_def)
    have a: "absN ?H (logPart ?e) = (absN H ?l)\<lparr>rn_front := (ps + 1, rn_epoch (absN H ?l)), rn_fsm := s,
        rn_held := insert (ps + 1, rn_epoch (absN H ?l)) (rn_held (absN H ?l))\<rparr>"
      unfolding l using la by (auto simp: absN_def lp_front_def)
    have mv: "moves ap owner n (absN H ?l) L (absN ?H (logPart ?e)) ?L"
      using moves_append [of "absN H ?l" ps pe ap data s res owner n L] np lease(1) e0 front ps s
      unfolding a by (simp add: absN_def)
    note F = append_fresh [OF R(1) R(2) [symmetric], of ps pe]
    have fresh: "L ?k = None" and own: "owner ?ep = n"
      using F(1,2) lease(1) e0 front ps R(3) by (simp_all add: absN_def)
    have sub: "L \<subseteq>\<^sub>m ?L" using fresh by (auto simp: map_le_def)
    have mok: "msg_ok owner ?L n ?msg" "msg_ok owner ?L n (entryMsg ?ent)"
      using own e0 nz by (simp_all add: msg_ok_def entryMsg_def)
    have lok: "lp_ok oss owner ?L n ?l" by (rule lp_ok_mono [OF eng_okD(1) [OF ok] sub])
    have "lp_ok oss owner ?L n (logPart ?e)"
    proof -
      have "ring_inv (ring_push (e_backlog e) ?ent)" using O by (intro ring_inv_push) simp
      moreover have "\<forall>ent\<in>set (ring_entries (ring_push (e_backlog e) ?ent)). msg_ok owner ?L n (entryMsg ent)"
        using ring_push_sub [of "e_backlog e" ?ent] lok mok(2) O unfolding lp_ok_def by auto
      ultimately show ?thesis using lok la unfolding l lp_ok_def by auto
    qed
    then have "eng_ok oss owner ?L n ?e"
      by (intro eng_ok_ext [OF eng_ok_mono [OF ok sub] x]) (use mok(1) id(1) in auto)
    then show ?thesis using mv sub by (intro exI [of _ ?L] exI [of _ ?H]) (auto simp: node_sim_def)
  qed
qed

lemma sim_flip:
  assumes ok: "eng_ok oss owner L n e" and p: "p \<noteq> n" "k \<noteq> -1"
  shows "node_sim ap oss owner n L H e L H (engine_exec ap oss (DoFlip now p E k) e)"
proof (cases "flipOnce now p E k e")
  case (FlipDone e')
  have "ring_inv (e_backlog e)" using eng_okD(1) [OF ok] by (simp add: lp_ok_def)
  note V = flip_view [OF FlipDone this p(2)]
  have "eng_ok oss owner L n e'"
    by (rule eng_ok_ext [OF ok V(2)]) (use ok p V(1) in \<open>auto simp: eng_ok_def lp_ok_def\<close>)
  then show ?thesis using FlipDone V(1) by (simp add: node_sim_def moves_refl)
qed (use node_sim_refl [OF ok] in auto)

text \<open>Every local operation.\<close>

lemma sim_local:
  assumes ok: "eng_ok oss owner L n (cl_node c n)" and inv: "eng_inv A (cl_node c n)"
    and lo: "local_ok owner c n op" and op: "op_ok op (cl_node c n)"
    and R: "rl_inv s0 ap owner R" "rl_node R n = absN H (logPart (cl_node c n))" "rl_log R = L"
  shows "\<exists>L' H'. H \<subseteq> H' \<and> node_sim ap oss owner n L H (cl_node c n) L' H' (engine_exec ap oss op (cl_node c n))"
proof -
  have one: "\<exists>L' H'. H \<subseteq> H' \<and> node_sim ap oss owner n L H (cl_node c n) L' H' e'"
    if "node_sim ap oss owner n L H (cl_node c n) L H e'" for e' using that by blast
  note kp = node_sim_keeps [OF ok]
  show ?thesis
  proof (cases op)
    case (DoAdopt now ep)
    have "e_epoch (cl_node c n) \<le> max (e_epoch (cl_node c n)) ep" by simp
    then show ?thesis unfolding DoAdopt engine_exec.simps by (intro one sim_raise [OF ok adopt_view(1) _ adopt_view(2)])
  next
    case (DoPropose inl primary isr minISR now now' data)
    then show ?thesis using sim_propose [OF ok inv _ _ R] lo op by simp
  next
    case (DoGrant now ep exp)
    then show ?thesis using sim_grant [OF ok] lo by (intro one) simp
  next
    case (DoPromote now ep exp)
    then show ?thesis using sim_promote [OF ok] lo op by (intro one) simp
  next
    case (DoFlip now p E k)
    then show ?thesis using sim_flip [OF ok] lo by (intro one) simp
  qed (use lo in \<open>auto intro!: one kp keeps_timeout keeps_complete keeps_complete_group keeps_shrink keeps_marks
      keeps_learner keeps_sender keeps_shutdown\<close>)
qed

section \<open>Deliveries\<close>

abbreviation mkey :: "ReplicateMsg \<Rightarrow> key" where
  "mkey m \<equiv> (m_Seq m, m_Epoch m)"

lemma rl_inv_sim:
  assumes "rl_inv s0 ap owner R" "rl_node R n = absN H (logPart e)" "rl_log R = L"
    and "node_sim ap oss owner n L H e L' H' e'"
  shows "rl_inv s0 ap owner ((set_node n (absN H' (logPart e')) R)\<lparr>rl_log := L'\<rparr>)"
  using assms(4) replicated_log.inv_steps [OF _ assms(1)] assms(2,3) unfolding node_sim_def moves_def by blast

text \<open>The state an accepted frame leads to is the state of its entry.\<close>

lemma entry_state:
  assumes R: "rl_inv s0 ap owner R" "rl_node R n = absN H l" "rl_log R = L" and live: "\<not> lp_poisoned l"
    and m: "msg_ok owner L m0 msg" "lp_front l = (m_PrevSeq msg, m_PrevEpoch msg)" "ap (lp_fsm l) (m_Data msg) = Inr (s, res)"
  shows "L (mkey msg) = Some (m_PrevEpoch msg, m_Data msg, s)"
proof -
  obtain st where st: "L (mkey msg) = Some (m_PrevEpoch msg, m_Data msg, st)" and nz: "m_Seq msg \<noteq> 0"
    and ps: "m_PrevSeq msg = m_Seq msg - 1" using m(1) unfolding msg_ok_def by auto
  have "tree_ok ap L" using R(1,3) by (auto simp: rl_inv_def)
  moreover have "mkey msg \<noteq> (0, 0)" using nz by simp
  ultimately obtain pe0 d0 st0 r0 where t: "L (m_Seq msg - 1, m_PrevEpoch msg) = Some (pe0, d0, st0)"
    "ap st0 (m_Data msg) = Inr (st, r0)" using st unfolding tree_ok_def by blast
  have "node_ok owner L n (absN H l)" using nodeD [OF R(1), of n] R(2,3) by simp
  then obtain pe1 d1 where "L (lp_front l) = Some (pe1, d1, lp_fsm l)" using live unfolding node_ok_def by (auto simp: absN_def)
  then have "st0 = lp_fsm l" using t(1) m(2) ps by simp
  then show ?thesis using st t(2) m(3) by simp
qed

lemma sim_receive:
  assumes ok: "eng_ok oss owner L n e" and R: "rl_inv s0 ap owner R" "rl_node R n = absN H (logPart e)" "rl_log R = L"
    and m: "msg_ok owner L m0 msg" "m0 \<noteq> n" and r: "receiveLocked ap now msg e = (e', ack)"
  shows "\<exists>H'. H \<subseteq> H' \<and> node_sim ap oss owner n L H e L H' e' \<and> (a_OK ack \<longrightarrow> mkey msg \<in> H')"
proof (cases "accepts ap msg e")
  case False
  then obtain ep where v: "\<not> a_OK ack" "ext {} {} e e'" "e_epoch e \<le> ep" "logPart e' = (logPart e)\<lparr>lp_epoch := ep\<rparr>"
    using receive_view(2) [OF r] by blast
  show ?thesis using v(1) sim_raise [OF ok v(4,3,2)] by (intro exI [of _ H]) simp
next
  case acc: True
  let ?l = "logPart e" and ?H = "insert (mkey msg) H"
  obtain s res where s: "ap (e_fsm e) (m_Data msg) = Inr (s, res)" and x: "ext {} {} e e'"
    and l: "logPart e' = ?l\<lparr>lp_epoch := m_Epoch msg, lp_app := m_Seq msg, lp_appEpoch := m_Epoch msg, lp_fsm := s\<rparr>"
    using receive_view(1) [OF r acc] by blast
  have fr: "lp_front ?l = (m_PrevSeq msg, m_PrevEpoch msg)" "\<not> e_poisoned e" "e_epoch e \<le> m_Epoch msg"
    "m_Seq msg = m_PrevSeq msg + 1" using acc front_lp [of e] by (auto simp: accepts_def)
  have mo: "owner (m_Epoch msg) \<noteq> n" "m_Seq msg \<noteq> 0" using m by (auto simp: msg_ok_def)
  have ps: "m_PrevSeq msg \<noteq> -1" using mo(2) fr(4) by auto
  have lt: "m_PrevSeq msg < m_Seq msg" using ps fr(4) by (simp add: word_less_nat_alt unat_succ)
  have "e_lastSeq e \<le> m_PrevSeq msg" using fr(1) front_lp [of e] frontier_max [of e] by simp
  then have ls: "e_lastSeq e < m_Seq msg" using lt by (rule order.strict_trans1)
  have st: "L (m_PrevSeq msg + 1, m_Epoch msg) = Some (m_PrevEpoch msg, m_Data msg, s)"
    using entry_state [OF R _ m(1) fr(1)] fr(2,4) s by simp
  have a: "absN ?H (logPart e') = (absN H ?l)\<lparr>rn_epoch := m_Epoch msg, rn_front := (m_PrevSeq msg + 1, m_Epoch msg),
      rn_fsm := s, rn_held := insert (m_PrevSeq msg + 1, m_Epoch msg) (rn_held (absN H ?l))\<rparr>"
    unfolding l using ls fr(4) by (simp add: absN_def lp_front_def)
  have "moves ap owner n (absN H ?l) L (absN ?H (logPart e')) L"
    using moves_accept [of "absN H ?l" owner "m_Epoch msg" n "m_PrevSeq msg" "m_PrevEpoch msg" L "m_Data msg" s ap]
      fr(1-3) mo(1) ps st unfolding a by (simp add: absN_def)
  moreover have "lp_ok oss owner L n (logPart e')" using eng_okD(1) [OF ok] ls unfolding l lp_ok_def by auto
  then have "eng_ok oss owner L n e'" by (rule eng_ok_plain [OF ok x])
  ultimately show ?thesis by (intro exI [of _ ?H]) (auto simp: node_sim_def)
qed

lemma sim_receiveAll:
  assumes "eng_ok oss owner L n e" "rl_inv s0 ap owner R" "rl_node R n = absN H (logPart e)" "rl_log R = L"
    and m0: "m0 \<noteq> n" and "\<forall>m\<in>set ms. msg_ok owner L m0 m" "dense_from ep (lastOK + 1) ms"
    and "receiveAll ap now ep lastOK ms e = (e', ack)"
  shows "\<exists>H' k. H \<subseteq> H' \<and> node_sim ap oss owner n L H e L H' e' \<and> k \<le> length ms \<and> (\<forall>m\<in>set (take k ms). mkey m \<in> H') \<and>
    ack = \<lparr>a_Epoch = ep, a_Seq = lastOK + of_nat k, a_OK = (k = length ms)\<rparr>"
  using assms(1-4,6-8)
proof (induction ms arbitrary: lastOK e R H)
  case Nil
  then show ?case using node_sim_refl [OF Nil.prems(1)] by (intro exI [of _ H] exI [of _ 0]) auto
next
  case (Cons m ms)
  obtain e1 ack1 where r: "receiveLocked ap now m e = (e1, ack1)" by fastforce
  have mk: "msg_ok owner L m0 m" "m_Seq m = lastOK + 1" "m_Epoch m = ep" "dense_from ep (m_Seq m + 1) ms"
    using Cons.prems(5,6) by auto
  obtain H1 where H1: "H \<subseteq> H1" "node_sim ap oss owner n L H e L H1 e1" "a_OK ack1 \<longrightarrow> mkey m \<in> H1"
    using sim_receive [OF Cons.prems(1-4) mk(1) m0 r] by blast
  show ?case
  proof (cases "a_OK ack1")
    case False
    then show ?thesis using H1 r Cons.prems(7) by (intro exI [of _ H1] exI [of _ 0]) auto
  next
    case True
    let ?R = "(set_node n (absN H1 (logPart e1)) R)\<lparr>rl_log := L\<rparr>"
    have ok1: "eng_ok oss owner L n e1" using H1(2) by (simp add: node_sim_def)
    have R1: "rl_inv s0 ap owner ?R" by (rule rl_inv_sim [OF Cons.prems(2-4) H1(2)])
    have "receiveAll ap now ep (m_Seq m) ms e1 = (e', ack)" using Cons.prems(7) r True by simp
    moreover have N: "rl_node ?R n = absN H1 (logPart e1)" "rl_log ?R = L" "\<forall>m\<in>set ms. msg_ok owner L m0 m"
      using Cons.prems(5) by simp_all
    ultimately obtain H2 k where H2: "H1 \<subseteq> H2" "node_sim ap oss owner n L H1 e1 L H2 e'"
      "k \<le> length ms" "\<forall>m\<in>set (take k ms). mkey m \<in> H2"
      "ack = \<lparr>a_Epoch = ep, a_Seq = m_Seq m + of_nat k, a_OK = (k = length ms)\<rparr>"
      using Cons.IH [OF ok1 R1 N mk(4)] by blast
    have "\<forall>m'\<in>set (take (Suc k) (m # ms)). mkey m' \<in> H2" using H2(1,4) H1(3) True by auto
    then show ?thesis using H1(1) H2 mk(2) node_sim_trans [OF H1(2) H2(2)]
      by (intro exI [of _ H2] exI [of _ "Suc k"]) (auto simp: algebra_simps)
  qed
qed

lemma replicate_wire: "decodeReplicateMsg (encodeReplicateMsg [] m) = Inr m' \<Longrightarrow> m' = m"
proof -
  assume d: "decodeReplicateMsg (encodeReplicateMsg [] m) = Inr m'"
  let ?b = "encodeReplicateMsg [] m"
  have l: "length ?b = 36 + length (m_Data m)" by (simp add: encodeReplicateMsg_def)
  have "unat (rd_be32 (gslice 32 36 ?b)) = length ?b - 36"
    using d by (auto simp: decodeReplicateMsg_def pb_sizes Let_def split: if_splits)
  then have "length (m_Data m) < 2 ^ 32" using l unat_lt [of "rd_be32 (gslice 32 36 ?b)"] by simp
  then show ?thesis using replicate_codec.dec_enc [of m] d by (simp add: data_fits_def)
qed

lemma ack_wire: "decodeAckMsg (encodeAckMsg [] a) = Inr a' \<Longrightarrow> a' = a"
  using ack_codec.dec_enc [of a] by simp

text \<open>A run of frames of one node and one epoch is linked the way a group frame assumes.\<close>

lemma chained_run:
  assumes "tree_ok ap L" "\<forall>m\<in>set ms. msg_ok owner L m0 m" "dense_from ep s ms" "L (s - 1, ep) \<noteq> None"
  shows "chained ep s ms"
  using assms(2-4)
proof (induction ms arbitrary: s)
  case (Cons m ms)
  have m: "m_Epoch m = ep" "m_Seq m = s" "m_PrevSeq m = s - 1" "ep \<noteq> 0" "s \<noteq> 0"
    and L: "\<exists>st. L (s, ep) = Some (m_PrevEpoch m, m_Data m, st)"
    using Cons.prems(1,2) by (auto simp: msg_ok_def)
  have "(s, ep) \<noteq> (0, 0)" using m by simp
  then have "m_PrevEpoch m = ep" using assms(1) L Cons.prems(3) unfolding tree_ok_def by blast
  moreover have "chained ep (s + 1) ms" using Cons.IH [of "s + 1"] Cons.prems L by auto
  ultimately show ?case using m by simp
qed simp

lemma group_wire:
  assumes "tree_ok ap L" "\<forall>m\<in>set b. msg_ok owner L m0 m" "dense_from ep s b" "b \<noteq> []" "length b \<le> unat pbGroupCountMax"
    and "length (encodeReplicateGroup [] b) \<le> unat pbMaxPayload" "decodeReplicateGroup (encodeReplicateGroup [] b) = Inr b'"
  shows "b' = b"
proof -
  obtain m ms where b: "b = m # ms" using assms(4) by (cases b) auto
  have "L (m_Seq m, m_Epoch m) \<noteq> None" "dense_from (m_Epoch m) (m_Seq m + 1) ms" using assms(2,3) b by (auto simp: msg_ok_def)
  then have "chained (m_Epoch m) (m_Seq m + 1) ms" using chained_run [OF assms(1), of ms owner m0] assms(2) b by simp
  then have "group_ok b" using assms(5,6) by (simp add: b)
  then show ?thesis using group_codec.dec_enc [of b] assms(7) by simp
qed

text \<open>What a group acknowledgement says: the first \<open>k\<close> frames are held.\<close>

definition group_held :: "key set \<Rightarrow> ReplicateMsg list \<Rightarrow> AckMsg \<Rightarrow> bool" where
  "group_held H b ack = (\<exists>k\<le>length b. (\<forall>m\<in>set (take k b). mkey m \<in> H) \<and>
     ack = \<lparr>a_Epoch = m_Epoch (hd b), a_Seq = m_Seq (hd b) - 1 + of_nat k, a_OK = (k = length b)\<rparr>)"

lemma sim_group:
  assumes ok: "eng_ok oss owner L n e" and R: "rl_inv s0 ap owner R" "rl_node R n = absN H (logPart e)" "rl_log R = L"
    and m0: "m0 \<noteq> n" and b: "\<forall>m\<in>set b. msg_ok owner L m0 m" "dense_from ep s b" "b \<noteq> []"
    and r: "ReceiveGroup ap now b e = (e', ack)"
  shows "\<exists>H'. H \<subseteq> H' \<and> node_sim ap oss owner n L H e L H' e' \<and> group_held H' b ack"
proof -
  obtain m ms where m: "b = m # ms" using b(3) by (cases b) auto
  have nz: "m_Seq m \<noteq> 0" using b(1) m by (simp add: msg_ok_def)
  have ra: "receiveAll ap now (m_Epoch m) (m_Seq m - 1) b e = (e', ack)" using r nz by (simp add: ReceiveGroup_def m)
  have d: "dense_from (m_Epoch m) (m_Seq m - 1 + 1) b" using b(2) m by auto
  from sim_receiveAll [OF ok R m0 b(1) d ra] obtain H' k where H: "H \<subseteq> H'" "node_sim ap oss owner n L H e L H' e'"
    and k: "k \<le> length b" "\<forall>m\<in>set (take k b). mkey m \<in> H'"
      "ack = \<lparr>a_Epoch = m_Epoch m, a_Seq = m_Seq m - 1 + of_nat k, a_OK = (k = length b)\<rparr>" by blast
  have "hd b = m" by (simp add: m)
  then have "group_held H' b ack" unfolding group_held_def using k by (intro exI [of _ k]) simp
  then show ?thesis using H by blast
qed

section \<open>Snapshots\<close>

lemma blob_unique: "blob_ok oss L k ep b1 \<Longrightarrow> blob_ok oss L k ep' b2 \<Longrightarrow> b1 = b2"
  unfolding blob_ok_def by auto

lemma take_prefix: "x = take j b \<Longrightarrow> x = take (length x) b"
  by (cases "j \<le> length b") simp_all

lemma chunk_fields:
  assumes "ch = snapshotChunk E fseq fepoch blob off"
  shows "sc_Offset ch = off" "sc_Total ch = of_nat (length blob)" "sc_Data ch = gslice (unat off) (unat (chunkEnd blob off)) blob"
  unfolding assms by (simp_all add: snapshotChunk_def Let_def)

lemma staged_ok:
  assumes ch: "chunk_ok oss owner L n ch" and old: "\<And>st0. old = Some st0 \<Longrightarrow> stage_ok oss L st0" and st: "staged ch old st"
  shows "stage_ok oss L st"
proof -
  obtain blob off where c: "ch = snapshotChunk (sc_Epoch ch) (sc_FrontierSeq ch) (sc_FrontierEpoch ch) blob off"
    and B: "blob_ok oss L (sc_FrontierSeq ch, sc_FrontierEpoch ch) (sc_Epoch ch) blob"
    using ch unfolding chunk_ok_def by blast
  note F = chunk_fields [OF c]
  have hd: "st_epoch st = sc_Epoch ch" "st_frontierSeq st = sc_FrontierSeq ch" "st_frontierEpoch st = sc_FrontierEpoch ch"
    "st_total st = of_nat (length blob)" using st F(2) by (auto simp: staged_def)
  have "\<exists>j. st_buf st = take j blob"
  proof (cases "sc_Offset ch = 0 \<and> st_buf st = sc_Data ch")
    case True
    then have "unat off = 0" using F(1) by (simp add: unat_eq_0)
    then show ?thesis using True F(3) by (intro exI [of _ "unat (chunkEnd blob off)"]) (simp add: gslice_def)
  next
    case False
    then obtain st0 where s0: "old = Some st0" "st_epoch st0 = st_epoch st" "st_frontierSeq st0 = st_frontierSeq st"
      "st_frontierEpoch st0 = st_frontierEpoch st" "off = of_nat (length (st_buf st0))"
      "st_buf st = st_buf st0 @ sc_Data ch" using st F(1) unfolding staged_def by auto
    obtain blob0 where b0: "blob_ok oss L (st_frontierSeq st0, st_frontierEpoch st0) (st_epoch st0) blob0"
      "st_buf st0 = take (length (st_buf st0)) blob0" using old [OF s0(1)] unfolding stage_ok_def by blast
    have eq: "blob0 = blob" using blob_unique [OF b0(1)] B s0(3,4) hd by simp
    have "length (st_buf st0) \<le> length blob" using arg_cong [OF b0(2), of length] eq by simp
    moreover have "length blob < 2 ^ 64" using B by (simp add: blob_ok_def)
    ultimately have u: "unat off = length (st_buf st0)" using s0(5) by (simp add: unat_of_nat)
    show ?thesis
    proof (cases "unat off \<le> unat (chunkEnd blob off)")
      case True
      have "st_buf st = take (unat off) blob @ gslice (unat off) (unat (chunkEnd blob off)) blob"
        using s0(6) F(3) b0(2) eq u by simp
      also have "\<dots> = take (unat (chunkEnd blob off)) blob" by (rule take_slice_all [OF True])
      finally show ?thesis by blast
    next
      case False
      then have "sc_Data ch = []" using F(3) by (simp add: gslice_def)
      then show ?thesis using s0(6) b0(2) eq by auto
    qed
  qed
  then have "st_buf st = take (length (st_buf st)) blob" using take_prefix by blast
  then show ?thesis unfolding stage_ok_def using B hd by (intro exI [of _ blob]) simp
qed

lemma sim_stage:
  assumes ok: "eng_ok oss owner L n e" and l: "logPart e' = (logPart e)\<lparr>lp_epoch := ep, lp_stage := st'\<rparr>"
    and ep: "e_epoch e \<le> ep" and x: "ext {} {} e e'" and st: "\<And>st. st' = Some st \<Longrightarrow> stage_ok oss L st"
  shows "node_sim ap oss owner n L H e L H e'"
proof -
  have "absN H (logPart e') = (absN H (logPart e))\<lparr>rn_epoch := ep\<rparr>" unfolding l by (simp add: absN_def lp_front_def)
  then have "moves ap owner n (absN H (logPart e)) L (absN H (logPart e')) L"
    using moves_raise [of "absN H (logPart e)" ep] ep by (simp add: absN_def)
  moreover have "lp_ok oss owner L n (logPart e')" using eng_okD(1) [OF ok] st unfolding l lp_ok_def by simp
  ultimately show ?thesis using eng_ok_plain [OF ok x] by (simp add: node_sim_def)
qed

lemma sim_install:
  assumes ok: "eng_ok oss owner L n e" and ch: "chunk_ok oss owner L n ch" and store: "store_ok oss"
    and st: "stage_ok oss L st" "st_frontierSeq st = sc_FrontierSeq ch" "st_frontierEpoch st = sc_FrontierEpoch ch"
      "st_total st = sc_Total ch" "(of_nat (length (st_buf st)) :: u64) = sc_Total ch"
    and i: "oss = Some ss" "installed ss (st_buf st) (sc_FrontierSeq ch) (sc_FrontierEpoch ch)
      ((logPart e)\<lparr>lp_epoch := sc_Epoch ch, lp_stage := None\<rparr>) (logPart e')"
    and ep: "e_epoch e \<le> sc_Epoch ch" and x: "ext {} {} e e'"
  shows "node_sim ap oss owner n L H e L {} e'"
proof -
  let ?l = "logPart e" and ?k = "(sc_FrontierSeq ch, sc_FrontierEpoch ch)"
  have own: "owner (sc_Epoch ch) \<noteq> n" using ch by (simp add: chunk_ok_def)
  obtain s good where g: "ss_install ss (st_buf st) (e_fsm e) = (s, good)" using i(2) by (auto simp: installed_def)
  have le: "rn_epoch (absN H ?l) \<le> sc_Epoch ch" using ep by (simp add: absN_def)
  show ?thesis
  proof (cases good)
    case False
    then have l: "logPart e' = ?l\<lparr>lp_epoch := sc_Epoch ch, lp_stage := None, lp_poisoned := True, lp_fsm := s\<rparr>"
      using i(2) g by (auto simp: installed_def)
    have "absN {} (logPart e') = (absN H ?l)\<lparr>rn_epoch := sc_Epoch ch, rn_fsm := s, rn_live := False, rn_held := {}\<rparr>"
      unfolding l by (simp add: absN_def lp_front_def)
    then have "moves ap owner n (absN H ?l) L (absN {} (logPart e')) L" using moves_poison [where owner = owner, OF own le] by metis
    moreover have "lp_ok oss owner L n (logPart e')" using eng_okD(1) [OF ok] unfolding l lp_ok_def by simp
    ultimately show ?thesis using eng_ok_plain [OF ok x] by (simp add: node_sim_def)
  next
    case True
    then obtain b cap where l: "logPart e' = ?l\<lparr>lp_epoch := sc_Epoch ch, lp_stage := None, lp_poisoned := b, lp_fsm := s,
        lp_app := sc_FrontierSeq ch, lp_appEpoch := sc_FrontierEpoch ch, lp_seq := sc_FrontierSeq ch,
        lp_seqEpoch := sc_FrontierEpoch ch, lp_ring := newRing cap\<rparr>" using i(2) g by (auto simp: installed_def)
    obtain blob where B: "blob_ok oss L ?k (st_epoch st) blob" "st_buf st = take (length (st_buf st)) blob"
      "st_total st = of_nat (length blob)" using st(1-3) unfolding stage_ok_def by auto
    have le1: "length (st_buf st) \<le> length blob" using arg_cong [OF B(2), of length] by simp
    have le2: "length blob < 2 ^ 64" using B(1) by (simp add: blob_ok_def)
    have "(of_nat (length (st_buf st)) :: u64) = of_nat (length blob)" using st(4,5) B(3) by simp
    then have "unat (of_nat (length (st_buf st)) :: u64) = unat (of_nat (length blob) :: u64)" by simp
    then have "length (st_buf st) = length blob" using le1 le2 by (simp add: unat_of_nat)
    then have "st_buf st = blob" using B(2) by simp
    then have "ss_install ss blob (e_fsm e) = (s, True)" using g True by simp
    moreover obtain pe d stt where L: "L ?k = Some (pe, d, stt)" "ss_snapshot ss (sc_FrontierSeq ch) stt = Inr blob"
      using B(1) i(1) unfolding blob_ok_def by auto
    ultimately have "s = stt" using store i(1) unfolding store_ok_def by blast
    have k: "snd ?k \<le> sc_Epoch ch" using ch by (auto simp: chunk_ok_def blob_ok_def)
    have "absN {} (logPart e') = (absN H ?l)\<lparr>rn_epoch := sc_Epoch ch, rn_front := ?k, rn_fsm := stt, rn_live := (\<not> b), rn_held := {}\<rparr>"
      unfolding l \<open>s = stt\<close> by (simp add: absN_def lp_front_def)
    then have "moves ap owner n (absN H ?l) L (absN {} (logPart e')) L" using moves_install [where owner = owner and L = L, OF own le k L(1)] by metis
    moreover have "lp_ok oss owner L n (logPart e')" using eng_okD(1) [OF ok] unfolding l lp_ok_def by simp
    ultimately show ?thesis using eng_ok_plain [OF ok x] by (simp add: node_sim_def)
  qed
qed

lemma sim_chunk:
  assumes ok: "eng_ok oss owner L n e" and ch: "chunk_ok oss owner L n ch" and store: "store_ok oss"
    and r: "ReceiveSnapshotChunk oss now ch e = (e', ack)"
  shows "\<exists>H'. (H \<subseteq> H' \<or> sc_Final ch) \<and> node_sim ap oss owner n L H e L H' e'"
proof -
  have old: "stage_ok oss L st0" if "e_snapStage e = Some st0" for st0 using eng_okD(1) [OF ok] that by (simp add: lp_ok_def)
  note S = staged_ok [OF ch old]
  from chunk_view [OF r] obtain ep where x: "ext {} {} e e'" and ep: "e_epoch e \<le> ep"
    and v: "(\<exists>st'. (st' = None \<or> (\<exists>st. st' = Some st \<and> staged ch (e_snapStage e) st)) \<and>
        logPart e' = (logPart e)\<lparr>lp_epoch := ep, lp_stage := st'\<rparr>) \<or>
     (\<exists>st ss. ep = sc_Epoch ch \<and> sc_Final ch \<and> oss = Some ss \<and> staged ch (e_snapStage e) st \<and>
        (of_nat (length (st_buf st)) :: u64) = sc_Total ch \<and>
        installed ss (st_buf st) (sc_FrontierSeq ch) (sc_FrontierEpoch ch)
          ((logPart e)\<lparr>lp_epoch := ep, lp_stage := None\<rparr>) (logPart e'))" by blast
  from v show ?thesis
  proof
    assume "\<exists>st'. (st' = None \<or> (\<exists>st. st' = Some st \<and> staged ch (e_snapStage e) st)) \<and>
        logPart e' = (logPart e)\<lparr>lp_epoch := ep, lp_stage := st'\<rparr>"
    then obtain st' where s: "st' = None \<or> (\<exists>st. st' = Some st \<and> staged ch (e_snapStage e) st)"
      and l: "logPart e' = (logPart e)\<lparr>lp_epoch := ep, lp_stage := st'\<rparr>" by blast
    have "node_sim ap oss owner n L H e L H e'" by (rule sim_stage [OF ok l ep x]) (use s S in auto)
    then show ?thesis by blast
  next
    assume "\<exists>st ss. ep = sc_Epoch ch \<and> sc_Final ch \<and> oss = Some ss \<and> staged ch (e_snapStage e) st \<and>
        (of_nat (length (st_buf st)) :: u64) = sc_Total ch \<and>
        installed ss (st_buf st) (sc_FrontierSeq ch) (sc_FrontierEpoch ch)
          ((logPart e)\<lparr>lp_epoch := ep, lp_stage := None\<rparr>) (logPart e')"
    then obtain st ss where s: "ep = sc_Epoch ch" "sc_Final ch" "oss = Some ss" "staged ch (e_snapStage e) st"
      "(of_nat (length (st_buf st)) :: u64) = sc_Total ch"
      "installed ss (st_buf st) (sc_FrontierSeq ch) (sc_FrontierEpoch ch)
        ((logPart e)\<lparr>lp_epoch := sc_Epoch ch, lp_stage := None\<rparr>) (logPart e')" by blast
    have "node_sim ap oss owner n L H e L {} e'"
      by (rule sim_install [OF ok ch store S [OF _ s(4)] _ _ _ s(5) s(3) s(6) _ x]) (use s(4) ep s(1) in \<open>auto simp: staged_def\<close>)
    then show ?thesis using s(2) by blast
  qed
qed

end
