(* ===== verification/ClusterSafety.thy ===== *)
theory ClusterSafety
  imports ClusterSim
begin

text \<open>
  The cluster invariant, and what it gives: nodes at the same log position are in the same state,
  and a write reported durable is in the log of every node it was made to wait for.
\<close>

section \<open>The cluster invariant\<close>

definition released_ok :: "'s cluster \<Rightarrow> (node \<Rightarrow> key set) \<Rightarrow> node \<Rightarrow> node \<times> u64 \<times> u64 \<Rightarrow> bool" where
  "released_ok c H n = (\<lambda>(p, ep, s). p \<in> cl_reset c \<or> (n, ep, p) \<in> cl_shrunk c \<or> (s, ep) \<in> H p)"

definition ack_ok :: "'s cluster \<Rightarrow> (node \<Rightarrow> key set) \<Rightarrow> node \<times> ReplicateMsg list \<times> AckMsg \<Rightarrow> bool" where
  "ack_ok c H = (\<lambda>(p, b, ack). p \<in> cl_reset c \<or>
     (if length b = 1 then a_OK ack \<longrightarrow> mkey (hd b) \<in> H p else group_held (H p) b ack))"

definition cinv :: "'s \<Rightarrow> 's applier \<Rightarrow> 's SnapshotStore option \<Rightarrow> (u64 \<Rightarrow> node) \<Rightarrow> 's history \<Rightarrow> (node \<Rightarrow> key set) \<Rightarrow>
    (node \<Rightarrow> (node \<times> u64 \<times> u64) set) \<Rightarrow> 's cluster \<Rightarrow> bool" where
  "cinv s0 ap oss owner L H R c = (rl_inv s0 ap owner (absC L H c) \<and>
     (\<forall>n. eng_ok oss owner L n (cl_node c n)) \<and>
     (\<forall>n. eng_inv (cl_admit c n) (cl_node c n) \<and> e_commitLevel (cl_node c n) = CommitFullISR \<and>
          q_inv (absQ (cl_admit c n) (R n) (cl_node c n))) \<and>
     (\<forall>n. \<forall>r\<in>R n. released_ok c H n r) \<and> (\<forall>(n, ch)\<in>cl_chunks c. chunk_ok oss owner L n ch) \<and>
     (\<forall>a\<in>cl_acks c. ack_ok c H a))"

lemma cinvD:
  assumes "cinv s0 ap oss owner L H R c"
  shows "rl_inv s0 ap owner (absC L H c)" "eng_ok oss owner L n (cl_node c n)" "eng_inv (cl_admit c n) (cl_node c n)"
    "e_commitLevel (cl_node c n) = CommitFullISR" "q_inv (absQ (cl_admit c n) (R n) (cl_node c n))"
    "r \<in> R n \<Longrightarrow> released_ok c H n r" "(n, ch) \<in> cl_chunks c \<Longrightarrow> chunk_ok oss owner L n ch" "a \<in> cl_acks c \<Longrightarrow> ack_ok c H a"
  using assms unfolding cinv_def by auto

lemma absC_node: "rl_node (absC L H c) n = absN (H n) (logPart (cl_node c n))" "rl_log (absC L H c) = L"
  by (simp_all add: absC_def)

lemma group_held_mono: "group_held H b ack \<Longrightarrow> H \<subseteq> H' \<Longrightarrow> group_held H' b ack"
  unfolding group_held_def by blast

text \<open>One node moves; everything recorded about the others stays.\<close>

lemma cinv_node:
  assumes inv: "cinv s0 ap oss owner L H R c" and sim: "node_sim ap oss owner n L (H n) (cl_node c n) L' K e'"
    and good: "step_good (cl_admit c n) A (R n) X (cl_node c n) e'"
    and c': "cl_node c' = (cl_node c)(n := e')" "cl_admit c' = (cl_admit c)(n := A)" "cl_chunks c' = cl_chunks c"
      "cl_shrunk c \<subseteq> cl_shrunk c'" "cl_reset c \<subseteq> cl_reset c'" "H n \<subseteq> K \<or> n \<in> cl_reset c'"
    and rel: "\<And>r. r \<in> X \<Longrightarrow> released_ok c' (H(n := K)) n r"
    and ack: "\<And>a. a \<in> cl_acks c' \<Longrightarrow> a \<notin> cl_acks c \<Longrightarrow> ack_ok c' (H(n := K)) a"
  shows "cinv s0 ap oss owner L' (H(n := K)) (R(n := R n \<union> X)) c'"
proof -
  let ?H = "H(n := K)" and ?R = "R(n := R n \<union> X)"
  note D = cinvD [OF inv]
  have le: "L \<subseteq>\<^sub>m L'" using sim by (simp add: node_sim_def)
  have "absC L' ?H c' = (set_node n (absN K (logPart e')) (absC L H c))\<lparr>rl_log := L'\<rparr>"
    by (auto simp: absC_def c'(1))
  then have 1: "rl_inv s0 ap owner (absC L' ?H c')"
    using rl_inv_sim [OF D(1) absC_node sim] by simp
  have 2: "eng_ok oss owner L' m (cl_node c' m)" for m
    using eng_ok_mono [OF D(2) le, of m] sim by (simp add: c'(1) node_sim_def)
  have q: "q_inv (absQ A (R n \<union> X) e')"
    using commit_queue.inv_steps [OF _ D(5)] good D(4) [of n] unfolding step_good_def by metis
  have 3: "eng_inv (cl_admit c' m) (cl_node c' m) \<and> e_commitLevel (cl_node c' m) = CommitFullISR \<and>
      q_inv (absQ (cl_admit c' m) (?R m) (cl_node c' m))" for m
    using D(3-5) [of m] q good by (auto simp: c'(1,2) step_good_def)
  have sub: "H p \<subseteq> ?H p \<or> p \<in> cl_reset c'" for p using c'(6) by simp
  have old: "released_ok c' ?H m r" if "released_ok c H m r" for m r
  proof -
    obtain p ep s where r: "r = (p, ep, s)" by (cases r)
    have "p \<in> cl_reset c' \<or> (m, ep, p) \<in> cl_shrunk c' \<or> (s, ep) \<in> ?H p"
      using that sub [of p] c'(4,5) unfolding released_ok_def r by blast
    then show ?thesis by (simp add: released_ok_def r)
  qed
  have 4: "\<forall>r\<in>?R m. released_ok c' ?H m r" for m using old D(6) rel by (cases "m = n") auto
  have 5: "\<forall>(m, ch)\<in>cl_chunks c'. chunk_ok oss owner L' m ch" using D(7) chunk_ok_mono [OF _ le] unfolding c'(3) by blast
  have "ack_ok c' ?H a" if "ack_ok c H a" for a
  proof -
    obtain p b k where a: "a = (p, b, k)" by (cases a)
    have "p \<in> cl_reset c \<or> (if length b = 1 then a_OK k \<longrightarrow> mkey (hd b) \<in> H p else group_held (H p) b k)"
      using that by (simp add: ack_ok_def a)
    then have "p \<in> cl_reset c' \<or> (if length b = 1 then a_OK k \<longrightarrow> mkey (hd b) \<in> ?H p else group_held (?H p) b k)"
      using sub [of p] c'(5) group_held_mono [of "H p" b k "?H p"] by (cases "length b = 1") auto
    then show ?thesis by (simp add: ack_ok_def a)
  qed
  then have 6: "\<forall>a\<in>cl_acks c'. ack_ok c' ?H a" using D(8) ack by blast
  show ?thesis unfolding cinv_def using 1 2 3 4 5 6 by blast
qed

section \<open>Releases are justified\<close>

lemma dense_bound:
  assumes "dense_from ep f b" "\<forall>m\<in>set b. m_Seq m \<noteq> 0" "b \<noteq> []"
  shows "unat f + length b \<le> 2 ^ 64"
proof (rule ccontr)
  assume "\<not> unat f + length b \<le> 2 ^ 64"
  then have i: "2 ^ 64 - unat f < length b" using unat_lt [of f] by simp
  then have "m_Seq (b ! (2 ^ 64 - unat f)) = f + of_nat (2 ^ 64 - unat f)" using dense_from_nth [OF assms(1)] by blast
  also have "\<dots> = of_nat (unat f + (2 ^ 64 - unat f))" by simp
  also have "unat f + (2 ^ 64 - unat f) = 2 ^ 64" using unat_lt [of f] by simp
  also have "(of_nat (2 ^ 64) :: u64) = 0" by simp
  finally show False using assms(2) i nth_mem by metis
qed

lemma seqRange_index: "s \<in> set (seqRange f l) \<Longrightarrow> \<exists>i\<le>unat (l - f). s = f + of_nat i"
proof -
  assume "s \<in> set (seqRange f l)"
  then have "s \<in> (\<lambda>i. f + of_nat i) ` {0..<unat (l - f) + 1}" by (simp only: seqRange_def set_map set_upt split: if_splits) simp
  then obtain i where "i < unat (l - f) + 1" "s = f + of_nat i" by auto
  then show ?thesis by (intro exI [of _ i]) simp
qed

lemma group_releases:
  assumes b: "batch_ok b" "\<forall>m\<in>set b. m_Seq m \<noteq> 0" and f: "ep = m_Epoch (hd b)" "f = m_Seq (hd b)" "l = m_Seq (last b)"
    and s: "s \<in> set (seqRange f l)" "s \<le> groupCredit ep f l res"
    and res: "\<And>ack. res = Inr ack \<Longrightarrow> group_held K b ack"
  shows "(s, ep) \<in> K"
proof -
  have d: "dense_from ep f b" "b \<noteq> []" using b(1) f by (auto simp: batch_ok_def)
  then have nz: "f \<noteq> 0" using b(2) f(2) by (metis hd_in_set)
  note B = dense_bound [OF d(1) b(2) d(2)]
  have len: "0 < length b" using d(2) by simp
  have at: "m_Seq (b ! i) = f + of_nat i" "m_Epoch (b ! i) = ep" if "i < length b" for i
    using dense_from_nth [OF d(1) that] by auto
  have "last b = b ! (length b - 1)" using d(2) by (rule last_conv_nth)
  then have l: "l = f - 1 + of_nat (length b)" using at(1) [of "length b - 1"] len f(3) by simp
  have "(of_nat (length b) :: u64) = of_nat (length b - 1) + 1" using len by (metis Suc_pred' of_nat_Suc add.commute)
  then have "l - f = of_nat (length b - 1)" using l by simp
  moreover have "length b - 1 < 2 ^ 64" using B len by simp
  ultimately have u: "unat (l - f) = length b - 1" by (simp add: unat_of_nat)
  obtain i where i: "i \<le> unat (l - f)" "s = f + of_nat i" using seqRange_index [OF s(1)] by blast
  have "i < length b" using i(1) u len by linarith
  note i = this i(2)
  show ?thesis
  proof (cases res)
    case (Inl err)
    have "unat f + i < 2 ^ 64" using B i(1) by linarith
    then have "unat s = unat f + i" using i(2) by (simp add: unat_word_ariths unat_of_nat)
    moreover have "unat s \<le> unat (f - 1)" using s(2) Inl by (simp add: groupCredit_def word_le_nat_alt)
    moreover have "unat (f - 1) = unat f - 1" "0 < unat f" using nz by (simp_all add: unat_minus_one unat_gt_0)
    ultimately show ?thesis by linarith
  next
    case (Inr ack)
    obtain k where k: "k \<le> length b" "\<forall>m\<in>set (take k b). mkey m \<in> K"
      "ack = \<lparr>a_Epoch = ep, a_Seq = f - 1 + of_nat k, a_OK = (k = length b)\<rparr>"
      using res [OF Inr] f(1,2) unfolding group_held_def by blast
    have "0 < unat f" using nz by (simp add: unat_gt_0)
    then have "unat f - 1 + length b < 2 ^ 64" using B by simp
    from groupCredit_prefix [OF this nz k(1) len i(1), of ep] have "i < k"
      using s(2) unfolding Inr k(3) i(2) l by simp
    then have "b ! i \<in> set (take k b)" using i(1) k(1) by (auto simp: in_set_conv_nth intro!: exI [of _ i])
    then have "mkey (b ! i) \<in> K" using k(2) by blast
    then show ?thesis using at [OF i(1)] i(2) by simp
  qed
qed

lemma local_releases:
  assumes inv: "cinv s0 ap oss owner L H R c" and lo: "local_ok owner c n op" and r: "r \<in> releases op"
  shows "\<exists>p ep s. r = (p, ep, s) \<and> (p \<in> cl_reset c \<or> (n, ep, p) \<in> shrinks n op \<or> (s, ep) \<in> H p)"
proof (cases op)
  case (DoComplete now peer msg res)
  then obtain ack where ack: "res = Inr ack" "a_OK ack" "a_Epoch ack = m_Epoch msg" "a_Seq ack = m_Seq msg"
    "r = (peer, m_Epoch msg, m_Seq msg)" using r by (auto simp: releases_def split: sum.splits if_splits)
  then have "ack_ok c H (peer, [msg], ack)" using cinvD(8) [OF inv] lo DoComplete by simp
  then show ?thesis using ack by (auto simp: ack_ok_def)
next
  case (DoCompleteGroup now peer ep f l res)
  then obtain b where b: "(peer, b) \<in> set (e_wire (cl_node c n))" "ep = m_Epoch (hd b)" "f = m_Seq (hd b)" "l = m_Seq (last b)"
    "1 < length b" and ak: "\<And>ack. res = Inr ack \<Longrightarrow> (peer, b, ack) \<in> cl_acks c"
    using lo by (cases res) auto
  obtain s where s: "r = (peer, ep, s)" "s \<in> set (seqRange f l)" "s \<le> groupCredit ep f l res"
    using r DoCompleteGroup by (auto simp: releases_def)
  note E = cinvD(2) [OF inv, of n]
  have bo: "batch_ok b" using E b(1) by (auto simp: eng_ok_def wire_ok_def)
  have nz: "\<forall>m\<in>set b. m_Seq m \<noteq> 0" using E outboxI(1) [OF b(1)] by (auto simp: eng_ok_def msg_ok_def)
  show ?thesis
  proof (cases "peer \<in> cl_reset c")
    case False
    have "group_held (H peer) b ack" if "res = Inr ack" for ack
      using cinvD(8) [OF inv ak [OF that]] False b(5) by (simp add: ack_ok_def)
    from group_releases [OF bo nz b(2-4) s(2,3) this] show ?thesis using s(1) by blast
  qed (use s(1) in blast)
next
  case (DoShrink now ep isr)
  then show ?thesis using r by (auto simp: releases_def shrinks_def)
qed (use r in \<open>auto simp: releases_def\<close>)

section \<open>Every step keeps the invariant\<close>

abbreviation kept :: "'s \<Rightarrow> 's applier \<Rightarrow> 's SnapshotStore option \<Rightarrow> (u64 \<Rightarrow> node) \<Rightarrow> 's cluster \<Rightarrow> bool" where
  "kept s0 ap oss owner c \<equiv> \<exists>L H R. cinv s0 ap oss owner L H R c"

lemma kept_local:
  assumes inv: "cinv s0 ap oss owner L H R c" and lo: "local_ok owner c n op" and op: "op_ok op (cl_node c n)"
  shows "kept s0 ap oss owner (do_local ap oss n op c)" (is "kept _ _ _ _ ?c")
proof -
  note D = cinvD [OF inv]
  obtain L' K where K: "H n \<subseteq> K" "node_sim ap oss owner n L (H n) (cl_node c n) L' K (engine_exec ap oss op (cl_node c n))"
    using sim_local [OF D(2,3) lo op D(1) absC_node] by blast
  have rel: "released_ok ?c (H(n := K)) n r" if r: "r \<in> releases op" for r
  proof -
    obtain p ep s where "r = (p, ep, s)" "p \<in> cl_reset c \<or> (n, ep, p) \<in> shrinks n op \<or> (s, ep) \<in> H p"
      using local_releases [OF inv lo r] by blast
    then show ?thesis using K(1) by (auto simp: released_ok_def do_local_def)
  qed
  have "cinv s0 ap oss owner L' (H(n := K)) (R(n := R n \<union> releases op)) ?c"
    by (rule cinv_node [OF inv K(2) exec_good [OF D(3) op]]) (use K(1) rel in \<open>auto simp: do_local_def\<close>)
  then show ?thesis by blast
qed

text \<open>A node gets no frame of the epoch it holds a lease for.\<close>

lemma foreign_epoch:
  assumes inv: "cinv s0 ap oss owner L H R c" and ep: "owner ep \<noteq> n" "ep \<noteq> 0"
  shows "ep \<noteq> e_leaseEpoch (cl_node c n)"
  using nodeD [OF cinvD(1) [OF inv], of n] ep unfolding node_ok_def absC_node by (auto simp: absN_def)

lemma wireD:
  assumes inv: "cinv s0 ap oss owner L H R c" and w: "(n, b) \<in> set (e_wire (cl_node c m))"
  shows "n \<noteq> m" "batch_ok b" "\<forall>x\<in>set b. msg_ok owner L m x"
proof -
  note E = cinvD(2) [OF inv, of m]
  show bo: "batch_ok b" using E w by (auto simp: eng_ok_def wire_ok_def)
  have o: "n \<noteq> m \<and> msg_ok owner L m x" if "x \<in> set b" for x
    using E outboxI(1) [OF w that] unfolding eng_ok_def by blast
  then show "\<forall>x\<in>set b. msg_ok owner L m x" by blast
  have "b \<noteq> []" using bo by (simp add: batch_ok_def)
  then show "n \<noteq> m" using o [of "hd b"] by simp
qed

lemma kept_receive:
  assumes inv: "cinv s0 ap oss owner L H R c" and sim: "H n \<subseteq> K" "node_sim ap oss owner n L (H n) (cl_node c n) L K e'"
    and op: "op_ok op (cl_node c n)" "engine_exec ap oss op (cl_node c n) = e'" "admits ap op (cl_node c n) = []" "releases op = {}"
    and c': "c' = c\<lparr>cl_node := (cl_node c)(n := e'), cl_acks := cl_acks c \<union> B\<rparr>"
    and B: "\<And>a. a \<in> B \<Longrightarrow> ack_ok c (H(n := K)) a"
  shows "kept s0 ap oss owner c'"
proof -
  have g: "step_good (cl_admit c n) (cl_admit c n) (R n) {} (cl_node c n) e'"
    using exec_good [OF cinvD(3) [OF inv] op(1), of ap "R n" oss] op(2-4) by simp
  have "cinv s0 ap oss owner L (H(n := K)) (R(n := R n \<union> {})) c'"
    by (rule cinv_node [OF inv sim(2) g]) (use sim(1) B in \<open>auto simp: c' ack_ok_def\<close>)
  then show ?thesis by blast
qed

lemma kept_deliver:
  assumes inv: "cinv s0 ap oss owner L H R c" and w: "(n, [msg]) \<in> set (e_wire (cl_node c m))"
    and rm: "room (cl_node c n) 1" and r: "Receive ap now msg (cl_node c n) = (e', ack)"
  shows "kept s0 ap oss owner (c\<lparr>cl_node := (cl_node c)(n := e'), cl_acks := insert (n, [msg], ack) (cl_acks c)\<rparr>)"
proof -
  note D = cinvD [OF inv]
  have m: "n \<noteq> m" "msg_ok owner L m msg" using wireD [OF inv w] by auto
  obtain K where K: "H n \<subseteq> K" "node_sim ap oss owner n L (H n) (cl_node c n) L K e'" "a_OK ack \<longrightarrow> mkey msg \<in> K"
    using sim_receive [OF D(2) D(1) absC_node m(2) not_sym [OF m(1)] r [unfolded Receive_def]] by blast
  have "m_Epoch msg \<noteq> e_leaseEpoch (cl_node c n)" using m foreign_epoch [OF inv] by (auto simp: msg_ok_def)
  then have "op_ok (DoReceive now msg) (cl_node c n)" using rm uint_room [of _ 1] by (simp add: op_ok_def room_def)
  then show ?thesis
    by (rule kept_receive [OF inv K(1,2), where B = "{(n, [msg], ack)}"])
      (use r K(3) in \<open>auto simp: admits_def releases_def ack_ok_def\<close>)
qed

lemma kept_group:
  assumes inv: "cinv s0 ap oss owner L H R c" and m: "n \<noteq> m" "\<forall>x\<in>set b. msg_ok owner L m x" "dense_from ep s b" "b \<noteq> []"
    and rm: "room (cl_node c n) (length b)" and r: "ReceiveGroup ap now b (cl_node c n) = (e', ack)"
    and B: "B \<subseteq> {(n, b, ack)}" "B \<noteq> {} \<Longrightarrow> length b \<noteq> 1"
  shows "kept s0 ap oss owner (c\<lparr>cl_node := (cl_node c)(n := e'), cl_acks := cl_acks c \<union> B\<rparr>)"
proof -
  note D = cinvD [OF inv]
  obtain K where K: "H n \<subseteq> K" "node_sim ap oss owner n L (H n) (cl_node c n) L K e'" "group_held K b ack"
    using sim_group [OF D(2) D(1) absC_node not_sym [OF m(1)] m(2-4) r] by blast
  have "\<forall>x\<in>set b. m_Epoch x \<noteq> e_leaseEpoch (cl_node c n)" using m foreign_epoch [OF inv] by (auto simp: msg_ok_def)
  then have "op_ok (DoReceiveGroup now b) (cl_node c n)"
    using rm uint_room [of _ "length b"] by (simp add: op_ok_def room_def)
  then show ?thesis
    by (rule kept_receive [OF inv K(1,2), where B = B]) (use r K(3) B in \<open>auto simp: admits_def releases_def ack_ok_def\<close>)
qed

lemma kept_chunk:
  assumes inv: "cinv s0 ap oss owner L H R c" and store: "store_ok oss" and ch: "(n, ch) \<in> cl_chunks c"
    and r: "ReceiveSnapshotChunk oss now ch (cl_node c n) = (e', ack)"
  shows "kept s0 ap oss owner (c\<lparr>cl_node := (cl_node c)(n := e'),
      cl_reset := (if sc_Final ch then insert n (cl_reset c) else cl_reset c)\<rparr>)" (is "kept _ _ _ _ ?c")
proof -
  note D = cinvD [OF inv]
  note C = D(7) [OF ch]
  obtain K where K: "H n \<subseteq> K \<or> sc_Final ch" "node_sim ap oss owner n L (H n) (cl_node c n) L K e'"
    using sim_chunk [OF D(2) C store r] by blast
  have "sc_Epoch ch \<noteq> e_leaseEpoch (cl_node c n)" using C foreign_epoch [OF inv] by (auto simp: chunk_ok_def)
  then have op: "op_ok (DoSnapshotChunk now ch) (cl_node c n)" by (simp add: op_ok_def)
  have g: "step_good (cl_admit c n) (cl_admit c n) (R n) {} (cl_node c n) e'"
    using exec_good [OF D(3) op, of ap "R n" oss] r by (simp add: admits_def releases_def)
  have "cinv s0 ap oss owner L (H(n := K)) (R(n := R n \<union> {})) ?c"
    by (rule cinv_node [OF inv K(2) g]) (use K(1) in auto)
  then show ?thesis by blast
qed

lemma kept_snapshot:
  assumes inv: "cinv s0 ap oss owner L H R c" and t: "takeSnapshot oss now E (cl_node c m) = Inr (blob, fseq, fepoch)"
    and g: "0 \<le> now" "\<not> e_poisoned (cl_node c m)" "length blob < 2 ^ 64"
  shows "kept s0 ap oss owner (c\<lparr>cl_chunks := cl_chunks c \<union> {(n, snapshotChunk E fseq fepoch blob off) |n off. n \<noteq> m}\<rparr>)"
    (is "kept _ _ _ _ ?c")
proof -
  note D = cinvD [OF inv]
  let ?e = "cl_node c m"
  obtain ss where ss: "oss = Some ss" and E: "e_epoch ?e = E" "e_leaseEpoch ?e = E" "now < e_leaseExpiry ?e"
    and f: "appliedFrontierLocked ?e = (fseq, fepoch)" "ss_snapshot ss fseq (e_fsm ?e) = Inr blob"
    using t by (auto simp: takeSnapshot_def split: option.splits if_splits prod.splits sum.splits)
  have e0: "E \<noteq> 0" using eng_okD(1) [OF D(2), of m] E g(1) by (auto simp: lp_ok_def)
  have N: "node_ok owner L m (absN (H m) (logPart ?e))" using nodeD [OF D(1), of m] unfolding absC_node .
  then have own: "owner E = m" using E e0 by (simp add: node_ok_def absN_def)
  obtain pe d where L: "L (fseq, fepoch) = Some (pe, d, e_fsm ?e)" "fepoch \<le> E"
    using N g(2) f(1) E front_lp [of ?e] unfolding node_ok_def by (auto simp: absN_def)
  have B: "blob_ok oss L (fseq, fepoch) E blob" using g(3) L ss f(2) by (auto simp: blob_ok_def)
  have "chunk_ok oss owner L n (snapshotChunk E fseq fepoch blob off)" if "n \<noteq> m" for n off
    using that own e0 B unfolding chunk_ok_def
    by (intro conjI exI [of _ blob] exI [of _ off]) (simp_all add: snapshotChunk_def Let_def)
  then have "cinv s0 ap oss owner L H R ?c" using inv unfolding cinv_def
    by (auto simp: absC_def released_ok_def ack_ok_def)
  then show ?thesis by blast
qed

lemma cstep_kept:
  assumes "cstep ap oss owner c c'" "store_ok oss" "kept s0 ap oss owner c"
  shows "kept s0 ap oss owner c'"
  using assms(1,3)
proof (induction rule: cstep.induct)
  case (cs_local c n op)
  from cs_local(3) obtain L H R where inv: "cinv s0 ap oss owner L H R c" by blast
  show ?case by (rule kept_local [OF inv cs_local(1,2)])
next
  case (cs_deliver n msg c m msg' now e' ack ack')
  from cs_deliver(6) obtain L H R where inv: "cinv s0 ap oss owner L H R c" by blast
  have "msg' = msg" "ack' = ack" using replicate_wire [OF cs_deliver(2)] ack_wire [OF cs_deliver(5)] by auto
  then show ?case using kept_deliver [OF inv cs_deliver(1,3)] cs_deliver(4) by simp
next
  case (cs_group n b c m b' now e' ack ack')
  then obtain L H R where inv: "cinv s0 ap oss owner L H R c" by blast
  note W = wireD [OF inv cs_group(1)]
  have d: "dense_from (m_Epoch (hd b)) (m_Seq (hd b)) b" "b \<noteq> []" "length b \<le> unat pbGroupCountMax"
    using W(2) by (auto simp: batch_ok_def pbGroupCountMax_def pbGroupBatchMax_def)
  have "tree_ok ap L" using cinvD(1) [OF inv] by (simp add: rl_inv_def absC_node)
  then have "b' = b" using group_wire [OF _ W(3) d cs_group(3,4)] by blast
  moreover have "ack' = ack" using ack_wire cs_group(7) by blast
  ultimately show ?case using kept_group [OF inv W(1,3) d(1,2), where now = now and e' = e' and ack = ack and B = "{(n, b, ack)}"] cs_group(2,5,6) by simp
next
  case (cs_backfill n m "from" to c b b' now e' ack)
  then obtain L H R where inv: "cinv s0 ap oss owner L H R c" by blast
  note lp = eng_okD(1) [OF cinvD(2) [OF inv, of m]]
  have ri: "ring_inv (e_backlog (cl_node c m))" using lp by (simp add: lp_ok_def)
  obtain ep where d: "dense_from ep from b" "set b \<subseteq> entryMsg ` set (ring_entries (e_backlog (cl_node c m)))"
    using ringDelta_sub [OF ri cs_backfill(3,2)] by blast
  have mo: "\<forall>x\<in>set b. msg_ok owner L m x" using d(2) lp by (auto simp: lp_ok_def)
  have "tree_ok ap L" using cinvD(1) [OF inv] by (simp add: rl_inv_def absC_node)
  then have "b' = b" using group_wire [OF _ mo d(1) cs_backfill(4-7)] by blast
  then show ?case using kept_group [OF inv cs_backfill(1) mo d(1) cs_backfill(4), where now = now and e' = e' and ack = ack and B = "{}"] cs_backfill(8,9) by simp
next
  case (cs_snapshot now E c m blob fseq fepoch)
  from cs_snapshot(5) obtain L H R where inv: "cinv s0 ap oss owner L H R c" by blast
  show ?case by (rule kept_snapshot [OF inv cs_snapshot(1-4)])
next
  case (cs_chunk n ch c now e' ack)
  from cs_chunk(3) obtain L H R where inv: "cinv s0 ap oss owner L H R c" by blast
  show ?case by (rule kept_chunk [OF inv assms(2) cs_chunk(1,2)])
qed

lemma new_logPart:
  "NewWithRingCapacity n shard cap lv False s0 = Some e \<Longrightarrow>
   logPart e = \<lparr>lp_node = n, lp_epoch = 0, lp_lease = 0, lp_expiry = 0, lp_seq = 0, lp_seqEpoch = 0, lp_app = 0,
     lp_appEpoch = 0, lp_ring = newRing cap, lp_poisoned = False, lp_fsm = s0, lp_stage = None\<rparr> \<and>
   outbox e = {} \<and> e_wire e = [] \<and> e_learners e = []"
  by (auto simp: NewWithRingCapacity_def logPart_def outbox_def split: if_splits)

lemma init_kept:
  assumes "cl_init shard cap s0 c"
  shows "kept s0 ap oss owner c"
proof -
  let ?L = "[(0, 0) \<mapsto> (0, [], s0)] :: 'a history"
  have new: "NewWithRingCapacity n shard cap CommitFullISR False s0 = Some (cl_node c n)" for n
    using assms by (simp add: cl_init_def)
  note l = new_logPart [OF new]
  have "rl_init s0 (absC ?L (\<lambda>_. {}) c)" using l by (simp add: rl_init_def absC_def absN_def lp_front_def)
  then have 1: "rl_inv s0 ap owner (absC ?L (\<lambda>_. {}) c)" by (rule replicated_log.inv_init)
  have 2: "eng_ok oss owner ?L n (cl_node c n)" for n using l [of n] by (simp add: eng_ok_def lp_ok_def wire_ok_def)
  have 3: "eng_inv (cl_admit c n) (cl_node c n) \<and> e_commitLevel (cl_node c n) = CommitFullISR \<and>
      q_inv (absQ (cl_admit c n) {} (cl_node c n))" for n
    using new_inv [OF new [of n]] commit_queue.inv_init assms by (simp add: cl_init_def)
  have "cinv s0 ap oss owner ?L (\<lambda>_. {}) (\<lambda>_. {}) c"
    unfolding cinv_def using 1 2 3 assms by (simp add: cl_init_def)
  then show ?thesis by blast
qed

interpretation replica_group: state_machine "cl_init shard cap s0" "\<lambda>c c'. store_ok oss \<and> cstep ap oss owner c c'"
  "kept s0 ap oss owner" for shard cap s0 ap oss owner
proof unfold_locales
  show "cl_init shard cap s0 c \<Longrightarrow> kept s0 ap oss owner c" for c by (rule init_kept)
  show "kept s0 ap oss owner c \<Longrightarrow> store_ok oss \<and> cstep ap oss owner c c' \<Longrightarrow> kept s0 ap oss owner c'" for c c'
    using cstep_kept [of ap oss owner c c' s0] by simp
qed

lemma reachable_kept:
  assumes "store_ok oss" "cl_init shard cap s0 c0" "(cstep ap oss owner)\<^sup>*\<^sup>* c0 c"
  shows "kept s0 ap oss owner c"
proof (rule replica_group.inv_reach [OF assms(2)])
  have "cstep ap oss owner \<le> (\<lambda>c c'. store_ok oss \<and> cstep ap oss owner c c')" using assms(1) by auto
  from rtranclp_mono [OF this] show "(\<lambda>c c'. store_ok oss \<and> cstep ap oss owner c c')\<^sup>*\<^sup>* c0 c" using assms(3) by blast
qed

section \<open>A run of a two-node group\<close>

text \<open>Node a is promoted, proposes one write and sends it; node b receives it and acknowledges; a
  commits.\<close>

definition group0 :: "bytes list cluster" where
  "group0 = \<lparr>cl_node = \<lambda>n. the (NewWithRingCapacity n 0 256 CommitFullISR False []), cl_chunks = {}, cl_acks = {},
     cl_admit = \<lambda>_. [], cl_shrunk = {}, cl_reset = {}\<rparr>"

definition group_msg :: ReplicateMsg where
  "group_msg = \<lparr>m_Epoch = 1, m_Seq = 1, m_PrevSeq = 0, m_PrevEpoch = 0, m_Data = [7]\<rparr>"

definition group_ack :: AckMsg where
  "group_ack = \<lparr>a_Epoch = 1, a_Seq = 1, a_OK = True\<rparr>"

abbreviation on_a :: "engineOp \<Rightarrow> bytes list cluster \<Rightarrow> bytes list cluster" where
  "on_a \<equiv> do_local logApplier None ''a''"

definition group1 :: "bytes list cluster" where
  "group1 = on_a (DoPromote 0 1 100) group0"

definition group2 :: "bytes list cluster" where
  "group2 = on_a (DoPropose (\<lambda>_ _. False) ''a'' [''a'', ''b''] 1 10 11 [7]) group1"

definition group3 :: "bytes list cluster" where
  "group3 = on_a (DoSend False ''b'') group2"

definition group4 :: "bytes list cluster" where
  "group4 = group3\<lparr>cl_node := (cl_node group3)(''b'' := fst (Receive logApplier 15 group_msg (cl_node group3 ''b''))),
     cl_acks := insert (''b'', [group_msg], group_ack) (cl_acks group3)\<rparr>"

definition group5 :: "bytes list cluster" where
  "group5 = on_a (DoComplete 20 ''b'' group_msg (Inr group_ack)) group4"

lemma group0_init: "cl_init 0 256 [] group0"
  by (simp add: cl_init_def group0_def NewWithRingCapacity_def pipelineWindow_def)

text \<open>The engines along the run, apart from the records the cluster model keeps.\<close>

definition nodeA :: "nat \<Rightarrow> bytes list Engine" where
  "nodeA k = engine_run logApplier None (take k example_ops) example_engine"

definition nodeB :: "bytes list Engine" where
  "nodeB = the (NewWithRingCapacity ''b'' 0 256 CommitFullISR False [])"

definition nodeB1 :: "bytes list Engine" where
  "nodeB1 = fst (Receive logApplier 15 group_msg nodeB)"

lemmas group_defs = group5_def group4_def group3_def group2_def group1_def group0_def do_local_def

lemma group_nodes:
  "cl_node group0 ''a'' = nodeA 0" "cl_node group1 ''a'' = nodeA 1" "cl_node group2 ''a'' = nodeA 2"
  "cl_node group3 ''a'' = nodeA 3" "cl_node group4 ''a'' = nodeA 3" "cl_node group5 ''a'' = nodeA 4"
  "cl_node group3 ''b'' = nodeB" "cl_node group5 ''b'' = nodeB1"
  by (simp_all add: group_defs nodeA_def nodeB_def nodeB1_def example_ops_def example_engine_def group_msg_def
      group_ack_def numeral_eq_Suc del: engine_exec.simps)

lemma group_ops_ok:
  "op_ok (DoPromote 0 1 100) (nodeA 0)"
  "op_ok (DoPropose (\<lambda>_ _. False) ''a'' [''a'', ''b''] 1 10 11 [7]) (nodeA 1)"
  "op_ok (DoSend False ''b'') (nodeA 2)"
  "op_ok (DoComplete 20 ''b'' group_msg (Inr group_ack)) (nodeA 3)"
  by code_simp+

lemma group_frames:
  "e_wire (nodeA 3) = [(''b'', [group_msg])]"
  "decodeReplicateMsg (encodeReplicateMsg [] group_msg) = Inr group_msg"
  "decodeAckMsg (encodeAckMsg [] group_ack) = Inr group_ack"
  "snd (Receive logApplier 15 group_msg nodeB) = group_ack"
  "fst (appliedFrontierLocked nodeB) = 0"
  by code_simp+

lemma group_final:
  "e_done (nodeA 4) = [(1, 1, None)]"
  "appliedFrontierLocked (nodeA 4) = (1, 1)" "appliedFrontierLocked nodeB1 = (1, 1)"
  "\<not> e_poisoned (nodeA 4)" "\<not> e_poisoned nodeB1"
  by code_simp+

lemma group_admits:
  "admits logApplier (DoPromote 0 1 100) (nodeA 0) = []"
  "admits logApplier (DoPropose (\<lambda>_ _. False) ''a'' [''a'', ''b''] 1 10 11 [7]) (nodeA 1) = [(1, 1, {''b''})]"
  "admits logApplier (DoSend False ''b'') (nodeA 2) = []"
  "admits logApplier (DoComplete 20 ''b'' group_msg (Inr group_ack)) (nodeA 3) = []"
  by code_simp+

lemma admit_a: "cl_admit (on_a op c) ''a'' = cl_admit c ''a'' @ admits logApplier op (cl_node c ''a'')"
  by (simp add: do_local_def)

lemma group_admit: "cl_admit group5 ''a'' = [(1, 1, {''b''})]"
proof -
  have "cl_admit group0 ''a'' = []" by (simp add: group0_def)
  then have "cl_admit group1 ''a'' = []" by (simp only: group1_def admit_a group_nodes group_admits append.simps)
  then have "cl_admit group2 ''a'' = [(1, 1, {''b''})]" by (simp only: group2_def admit_a group_nodes group_admits append.simps)
  then have "cl_admit group3 ''a'' = [(1, 1, {''b''})]" by (simp only: group3_def admit_a group_nodes group_admits append.simps)
  then have "cl_admit group4 ''a'' = [(1, 1, {''b''})]" by (simp add: group4_def)
  then show ?thesis by (simp only: group5_def admit_a group_nodes group_admits append.simps)
qed

lemma group_quiet: "cl_reset group5 = {}" "cl_shrunk group5 = {}"
  by (simp_all add: group5_def group4_def group3_def group2_def group1_def group0_def do_local_def shrinks_def)

lemma group_run: "(cstep logApplier None (\<lambda>_. ''a''))\<^sup>*\<^sup>* group0 group5"
proof -
  let ?R = "cstep logApplier None (\<lambda>_. ''a'')"
  have 1: "?R group0 group1" unfolding group1_def
    by (rule cs_local) (simp_all only: group_nodes group_ops_ok, simp)
  have 2: "?R group1 group2" unfolding group2_def
    by (rule cs_local) (simp_all only: group_nodes group_ops_ok, simp)
  have 3: "?R group2 group3" unfolding group3_def
    by (rule cs_local) (simp_all only: group_nodes group_ops_ok, simp)
  have 4: "?R group3 group4" unfolding group4_def
    by (rule cs_deliver [where m = "''a''" and now = 15, OF _ group_frames(2) _ _ group_frames(3)])
      (simp_all add: group_nodes group_frames room_def prod_eq_iff)
  have 5: "?R group4 group5" unfolding group5_def
    by (rule cs_local) (simp_all only: group_nodes group_ops_ok, simp add: group_nodes group_frames, simp add: group4_def)
  from 1 2 3 4 5 show ?thesis by (meson converse_rtranclp_into_rtranclp rtranclp.rtrancl_refl)
qed

lemma no_store_ok: "store_ok None"
  by (simp add: store_ok_def)

section \<open>What the replica group guarantees\<close>



text \<open>The payloads an engine has applied: as many as its frontier says, and its state is what they
  make of the initial state.\<close>

definition log_of :: "'s \<Rightarrow> 's applier \<Rightarrow> 's history \<Rightarrow> 's Engine \<Rightarrow> bytes list \<Rightarrow> bool" where
  "log_of s0 ap L e ds = (path L (appliedFrontierLocked e) ds \<and> length ds = unat (fst (appliedFrontierLocked e)) \<and>
     (\<not> e_poisoned e \<longrightarrow> applyAll ap s0 ds = Some (e_fsm e)))"

lemma succ_zero: "s + 1 = 0 \<longleftrightarrow> s = - 1" for s :: u64
  by (simp add: eq_neg_iff_add_eq_0)

lemma path_succ:
  assumes "path L (s + 1, ep) us" "s \<noteq> - 1" "L (s + 1, ep) = Some (pe, d, st)"
  shows "\<exists>ds. us = ds @ [d] \<and> path L (s, pe) ds"
  using assms(1)
proof (cases rule: path.cases)
  case path_root
  then show ?thesis using assms(2) succ_zero [of s] by simp
next
  case (path_step s' pe' ds' d' st')
  then have "s' = s" by simp
  then show ?thesis using path_step assms(3) by (intro exI [of _ ds']) simp
qed

lemma path_unique: "path L k ds \<Longrightarrow> path L k ds' \<Longrightarrow> ds = ds'"
proof (induction arbitrary: ds' rule: path.induct)
  case path_root
  then show ?case by (cases rule: path.cases) (auto simp: succ_zero)
next
  case (path_step s pe ds ep d st)
  from path_succ [OF path_step.prems path_step.hyps(2,3)] path_step.IH show ?case by blast
qed

lemma ancestor_dom: "ancestor L a b \<Longrightarrow> tree_ok ap L \<Longrightarrow> L b \<noteq> None \<Longrightarrow> L a \<noteq> None"
proof (induction rule: ancestor.induct)
  case (anc_step s pe ep d st)
  have "s + 1 \<noteq> 0" using anc_step.hyps(2) succ_zero [of s] by simp
  moreover have "\<forall>s ep pe d st. L (s, ep) = Some (pe, d, st) \<longrightarrow> (s, ep) \<noteq> (0, 0) \<longrightarrow> L (s - 1, pe) \<noteq> None"
    using anc_step.prems(1) unfolding tree_ok_def by (intro allI impI) (metis option.distinct(1))
  ultimately have "L (s + 1 - 1, pe) \<noteq> None" using anc_step.hyps(3) by (metis prod.inject)
  then show ?case using anc_step.IH anc_step.prems(1) by simp
qed simp

lemma log_of_exists:
  assumes "cinv s0 ap oss owner L H R c"
  shows "\<exists>ds. log_of s0 ap L (cl_node c n) ds"
proof -
  let ?f = "appliedFrontierLocked (cl_node c n)"
  from cinvD(1) [OF assms] have inv: "L (0, 0) = Some (0, [], s0)" "tree_ok ap L"
    and nd: "node_ok owner L n (absN (H n) (logPart (cl_node c n)))" by (simp_all add: rl_inv_def absC_node)
  from nd obtain pe d st where "L ?f = Some (pe, d, st)" "\<not> e_poisoned (cl_node c n) \<Longrightarrow> st = e_fsm (cl_node c n)"
    by (auto simp: node_ok_def absN_def front_lp)
  with path_exists [OF inv(2,1), of "fst ?f" "snd ?f"] show ?thesis by (auto simp: log_of_def)
qed

lemma held_prefix:
  assumes inv: "cinv s0 ap oss owner L H R c" and k: "(s, ep) \<in> H p"
  shows "\<exists>ds ds'. path L (s, ep) ds \<and> length ds = unat s \<and> log_of s0 ap L (cl_node c p) (ds @ ds')"
proof -
  let ?f = "appliedFrontierLocked (cl_node c p)"
  from cinvD(1) [OF inv] have t: "L (0, 0) = Some (0, [], s0)" "tree_ok ap L"
    and nd: "node_ok owner L p (absN (H p) (logPart (cl_node c p)))" by (simp_all add: rl_inv_def absC_node)
  from nd k have anc: "ancestor L (s, ep) ?f" and dom: "L ?f \<noteq> None" by (auto simp: node_ok_def absN_def front_lp)
  from ancestor_dom [OF anc t(2) dom] obtain pe d st where "L (s, ep) = Some (pe, d, st)" by auto
  from path_exists [OF t(2,1) this] obtain ds where ds: "path L (s, ep) ds" "length ds = unat s" by blast
  from path_ancestor [OF anc ds(1)] obtain ds' where p: "path L ?f (ds @ ds')" by blast
  obtain us where us: "log_of s0 ap L (cl_node c p) us" using log_of_exists [OF inv] by blast
  then have "us = ds @ ds'" using path_unique [OF _ p] by (simp add: log_of_def)
  with us ds show ?thesis by blast
qed



end
