(* ===== verification/Failover.thy ===== *)
theory Failover
  imports MetaSafety
begin

text \<open>
  Automatic failover (\<^verbatim>\<open>cluster/pb_failover.go\<close>): the decision which shards get a new primary, the
  meta leader's memory of primary beacons with its two resets, and one tick of the failover ticker,
  which hands its promotions to the control-plane log (\<^verbatim>\<open>cluster/meta.go\<close>, \<^verbatim>\<open>ApplySetShardEpoch\<close>).

  Clock readings are arguments. The resolver of a candidate's high-water mark is a parameter; the
  second component of its answer says whether the candidate could be reached.
\<close>

section \<open>The decision\<close>

record pbShardLiveness =
  lv_shardID :: int
  lv_epoch :: u64
  lv_primary :: node
  lv_isr :: "node list"
  lv_lastRenewNs :: int

record pbPromotion =
  pm_shardID :: int
  pm_newEpoch :: u64
  pm_newPrimary :: node

type_synonym highWater = "int \<Rightarrow> node \<Rightarrow> u64 \<times> bool"

text \<open>The loop over the in-sync set; \<open>best\<close> is empty until a candidate is found.\<close>

fun pickBest :: "(node \<Rightarrow> u64 \<times> bool) \<Rightarrow> node \<Rightarrow> node list \<Rightarrow> node \<Rightarrow> u64 \<Rightarrow> node" where
  "pickBest hw primary [] best bestHW = best"
| "pickBest hw primary (m # ms) best bestHW =
     (if m = primary then pickBest hw primary ms best bestHW
      else case hw m of (h, reachable) \<Rightarrow>
        if \<not> reachable then pickBest hw primary ms best bestHW
        else if best = [] \<or> h > bestHW \<or> (h = bestHW \<and> m < best) then pickBest hw primary ms m h
        else pickBest hw primary ms best bestHW)"

definition decideShard :: "int \<Rightarrow> int \<Rightarrow> highWater option \<Rightarrow> pbShardLiveness \<Rightarrow> pbPromotion list" where
  "decideShard nowNs failoverTimeout highWater s =
     (if lv_primary s = [] then []
      else if nowNs - lv_lastRenewNs s \<le> failoverTimeout then []
      else let hw = (case highWater of None \<Rightarrow> (\<lambda>m. (0, True)) | Some f \<Rightarrow> f (lv_shardID s));
               best = pickBest hw (lv_primary s) (lv_isr s) [] 0
           in if best = [] then []
              else [\<lparr>pm_shardID = lv_shardID s, pm_newEpoch = lv_epoch s + 1, pm_newPrimary = best\<rparr>])"

definition decidePBPromotions :: "pbShardLiveness list \<Rightarrow> int \<Rightarrow> int \<Rightarrow> highWater option \<Rightarrow> pbPromotion list" where
  "decidePBPromotions shards nowNs failoverTimeout highWater =
     concat (map (decideShard nowNs failoverTimeout highWater) shards)"

section \<open>The leader's memory of beacons\<close>

record pbFailoverTracker =
  tr_lastRenewNs :: "(int, int) gomap"
  tr_lastRenewEp :: "(int, u64) gomap"
  tr_leaderSinceNs :: int

definition newPBFailoverTracker :: pbFailoverTracker where
  "newPBFailoverTracker = \<lparr>tr_lastRenewNs = [], tr_lastRenewEp = [], tr_leaderSinceNs = 0\<rparr>"

definition observeRenew :: "int \<Rightarrow> int \<Rightarrow> u64 \<Rightarrow> pbFailoverTracker \<Rightarrow> pbFailoverTracker" where
  "observeRenew n shard epoch t = t\<lparr>tr_lastRenewNs := AList.update shard n (tr_lastRenewNs t),
     tr_lastRenewEp := AList.update shard epoch (tr_lastRenewEp t)\<rparr>"

definition onBecomeLeader :: "int \<Rightarrow> pbFailoverTracker \<Rightarrow> pbFailoverTracker" where
  "onBecomeLeader n t = t\<lparr>tr_leaderSinceNs := n\<rparr>"

definition effectiveLastRenew :: "int \<Rightarrow> int \<Rightarrow> u64 \<Rightarrow> pbFailoverTracker \<Rightarrow> int" where
  "effectiveLastRenew n shard curEpoch t =
     (if curEpoch > gget 0 (tr_lastRenewEp t) shard then n
      else let last = gget 0 (tr_lastRenewNs t) shard
           in if tr_leaderSinceNs t > last then tr_leaderSinceNs t else last)"

definition observed :: "int \<Rightarrow> pbFailoverTracker \<Rightarrow> int \<times> u64 \<times> bool" where
  "observed shard t = (gget 0 (tr_lastRenewNs t) shard, gget 0 (tr_lastRenewEp t) shard, ghas (tr_lastRenewNs t) shard)"

text \<open>One evaluation over the committed state. The tracker reads its clock once per shard: \<open>clk sh\<close>
  is that reading, taken after \<open>nowNs\<close>.\<close>

definition shardLiveness :: "State \<Rightarrow> pbFailoverTracker \<Rightarrow> (int \<Rightarrow> int) \<Rightarrow> int \<Rightarrow> pbShardLiveness" where
  "shardLiveness st t clk sh = (let epoch = gget 0 (s_ShardEpoch st) sh
     in \<lparr>lv_shardID = sh, lv_epoch = epoch, lv_primary = gget [] (s_ShardPrimary st) sh,
         lv_isr = gget [] (s_ShardISR st) sh, lv_lastRenewNs = effectiveLastRenew (clk sh) sh epoch t\<rparr>)"

definition pbFailoverDecisions :: "State \<Rightarrow> pbFailoverTracker \<Rightarrow> (int \<Rightarrow> int) \<Rightarrow> int \<Rightarrow> int \<Rightarrow> highWater option \<Rightarrow>
    pbPromotion list" where
  "pbFailoverDecisions st t clk nowNs failoverTimeout highWater =
     decidePBPromotions (map (shardLiveness st t clk) (sort (map fst (s_ShardPrimary st)))) nowNs failoverTimeout highWater"

section \<open>The ticker\<close>

text \<open>\<open>nEdge\<close> is the clock reading on a rising edge of leadership. The result is the tracker, the
  new edge flag and the promotions the tick commits.\<close>

definition failoverTick :: "bool \<Rightarrow> State \<Rightarrow> int \<Rightarrow> (int \<Rightarrow> int) \<Rightarrow> int \<Rightarrow> int \<Rightarrow> highWater option \<Rightarrow>
    bool \<times> pbFailoverTracker \<Rightarrow> (bool \<times> pbFailoverTracker) \<times> pbPromotion list" where
  "failoverTick isLeader st nEdge clk nowNs failoverTimeout highWater wt =
     (case wt of (wasLeader, t) \<Rightarrow>
        let t1 = (if isLeader \<and> \<not> wasLeader then onBecomeLeader nEdge t else t)
        in ((isLeader, t1), if \<not> isLeader then []
              else pbFailoverDecisions st t1 clk nowNs failoverTimeout highWater))"

text \<open>The entry a promotion becomes in the control-plane log.\<close>

definition entrySetShardEpoch :: "int \<Rightarrow> u64 \<Rightarrow> node \<Rightarrow> LogEntry" where
  "entrySetShardEpoch shardID epoch primary = \<lparr>le_Op = OpSetShardEpoch,
     le_Body = emptyBody\<lparr>l_ShardID := shardID, l_Epoch := epoch, l_Primary := primary\<rparr>\<rparr>"

definition entrySetShardSeed :: "int \<Rightarrow> u64 \<Rightarrow> node \<Rightarrow> node list \<Rightarrow> LogEntry" where
  "entrySetShardSeed shardID epoch primary isr = \<lparr>le_Op = OpSetShardEpoch,
     le_Body = emptyBody\<lparr>l_ShardID := shardID, l_Epoch := epoch, l_Primary := primary, l_ISR := isr\<rparr>\<rparr>"

definition entrySetShardISR :: "int \<Rightarrow> u64 \<Rightarrow> node list \<Rightarrow> LogEntry" where
  "entrySetShardISR shardID epoch isr = \<lparr>le_Op = OpSetShardISR,
     le_Body = emptyBody\<lparr>l_ShardID := shardID, l_Epoch := epoch, l_ISR := isr\<rparr>\<rparr>"

definition entryShardLeaseRenew :: "node \<Rightarrow> ShardEpochPair list \<Rightarrow> LogEntry" where
  "entryShardLeaseRenew nd renews = \<lparr>le_Op = OpShardLeaseRenew,
     le_Body = emptyBody\<lparr>l_Node := nd, l_LeaseRenew := renews\<rparr>\<rparr>"

section \<open>What the decision guarantees\<close>

definition promotable :: "(node \<Rightarrow> u64 \<times> bool) \<Rightarrow> node \<Rightarrow> node \<Rightarrow> bool" where
  "promotable hw primary m = (m \<noteq> primary \<and> snd (hw m))"

definition outranks :: "(node \<Rightarrow> u64 \<times> bool) \<Rightarrow> node \<Rightarrow> node \<Rightarrow> bool" where
  "outranks hw m n = (fst (hw n) < fst (hw m) \<or> (fst (hw n) = fst (hw m) \<and> m \<le> n))"

lemma outranks_refl: "outranks hw m m"
  by (simp add: outranks_def)

lemma outranks_trans: "outranks hw a b \<Longrightarrow> outranks hw b c \<Longrightarrow> outranks hw a c"
  by (auto simp: outranks_def)

lemma outranks_antisym: "outranks hw a b \<Longrightarrow> outranks hw b a \<Longrightarrow> a = b"
  by (auto simp: outranks_def)

lemma pickBest_from:
  "best \<noteq> [] \<Longrightarrow> bestHW = fst (hw best) \<Longrightarrow> [] \<notin> set ms \<Longrightarrow>
   (pickBest hw p ms best bestHW = best \<or>
      pickBest hw p ms best bestHW \<in> set ms \<and> promotable hw p (pickBest hw p ms best bestHW)) \<and>
   outranks hw (pickBest hw p ms best bestHW) best \<and>
   (\<forall>m\<in>set ms. promotable hw p m \<longrightarrow> outranks hw (pickBest hw p ms best bestHW) m)"
proof (induction ms arbitrary: best bestHW)
  case Nil
  then show ?case by (simp add: outranks_refl)
next
  case (Cons m ms)
  obtain h reach where h: "hw m = (h, reach)" by (cases "hw m")
  show ?case
  proof (cases "promotable hw p m \<and> \<not> outranks hw best m")
    case True
    then have take: "pickBest hw p (m # ms) best bestHW = pickBest hw p ms m h"
      using h Cons.prems(2) by (auto simp: promotable_def outranks_def not_less le_less)
    have "outranks hw m best" using True h Cons.prems(2) by (auto simp: outranks_def)
    with Cons.IH [of m h] Cons.prems(3) h True show ?thesis
      unfolding take by (auto intro: outranks_trans outranks_refl)
  next
    case False
    then have skip: "pickBest hw p (m # ms) best bestHW = pickBest hw p ms best bestHW"
      using h Cons.prems(1,2) by (auto simp: promotable_def outranks_def)
    with False Cons.IH [of best bestHW] Cons.prems show ?thesis
      unfolding skip by (auto intro: outranks_trans)
  qed
qed

lemma pickBest_start:
  "[] \<notin> set ms \<Longrightarrow> (if \<exists>m\<in>set ms. promotable hw p m
     then pickBest hw p ms [] h0 \<in> set ms \<and> promotable hw p (pickBest hw p ms [] h0) \<and>
       (\<forall>m\<in>set ms. promotable hw p m \<longrightarrow> outranks hw (pickBest hw p ms [] h0) m)
     else pickBest hw p ms [] h0 = [])"
proof (induction ms)
  case (Cons m ms)
  obtain h reach where h: "hw m = (h, reach)" by (cases "hw m")
  show ?case
  proof (cases "promotable hw p m")
    case True
    then have take: "pickBest hw p (m # ms) [] h0 = pickBest hw p ms m h" using h by (simp add: promotable_def)
    show ?thesis using pickBest_from [of m h hw ms p] True h Cons.prems unfolding take by auto
  next
    case False
    then have "pickBest hw p (m # ms) [] h0 = pickBest hw p ms [] h0" using h by (auto simp: promotable_def)
    with False Cons show ?thesis by auto
  qed
qed simp

definition rightful :: "int \<Rightarrow> int \<Rightarrow> highWater \<Rightarrow> pbShardLiveness \<Rightarrow> pbPromotion \<Rightarrow> bool" where
  "rightful nowNs timeout hw s p = (lv_primary s \<noteq> [] \<and> nowNs - lv_lastRenewNs s > timeout \<and>
     pm_shardID p = lv_shardID s \<and> pm_newEpoch p = lv_epoch s + 1 \<and> pm_newPrimary p \<in> set (lv_isr s) \<and>
     promotable (hw (lv_shardID s)) (lv_primary s) (pm_newPrimary p) \<and>
     (\<forall>m\<in>set (lv_isr s). promotable (hw (lv_shardID s)) (lv_primary s) m \<longrightarrow>
        outranks (hw (lv_shardID s)) (pm_newPrimary p) m))"

lemma decideShard_iff:
  assumes "[] \<notin> set (lv_isr s)"
  shows "p \<in> set (decideShard nowNs timeout (Some hw) s) \<longleftrightarrow> rightful nowNs timeout hw s p"
proof -
  let ?hw = "hw (lv_shardID s)" and ?P = "lv_primary s"
  let ?b = "pickBest ?hw ?P (lv_isr s) [] 0"
  note st = pickBest_start [OF assms, of ?hw ?P 0]
  show ?thesis
  proof (cases "\<exists>m\<in>set (lv_isr s). promotable ?hw ?P m")
    case True
    then have b: "?b \<in> set (lv_isr s)" "promotable ?hw ?P ?b"
      "\<forall>m\<in>set (lv_isr s). promotable ?hw ?P m \<longrightarrow> outranks ?hw ?b m" using st by auto
    have "?b \<noteq> []" using b(1) assms by auto
    moreover have "m = ?b" if "m \<in> set (lv_isr s)" "promotable ?hw ?P m"
      "\<forall>n\<in>set (lv_isr s). promotable ?hw ?P n \<longrightarrow> outranks ?hw m n" for m
      using that b outranks_antisym by blast
    ultimately have "?b \<noteq> []" and only: "\<And>m. (m \<in> set (lv_isr s) \<and> promotable ?hw ?P m \<and>
        (\<forall>n\<in>set (lv_isr s). promotable ?hw ?P n \<longrightarrow> outranks ?hw m n)) \<longleftrightarrow> m = ?b"
      using b by blast+
    then have "decideShard nowNs timeout (Some hw) s = (if ?P \<noteq> [] \<and> nowNs - lv_lastRenewNs s > timeout
        then [\<lparr>pm_shardID = lv_shardID s, pm_newEpoch = lv_epoch s + 1, pm_newPrimary = ?b\<rparr>] else [])"
      by (simp add: decideShard_def Let_def)
    then have "p \<in> set (decideShard nowNs timeout (Some hw) s) \<longleftrightarrow> ?P \<noteq> [] \<and> nowNs - lv_lastRenewNs s > timeout \<and>
        pm_shardID p = lv_shardID s \<and> pm_newEpoch p = lv_epoch s + 1 \<and> pm_newPrimary p = ?b"
      by (cases p) (simp, blast)
    then show ?thesis unfolding rightful_def only by blast
  next
    case False
    then have "?b = []" using st by auto
    then have "decideShard nowNs timeout (Some hw) s = []" by (simp add: decideShard_def)
    then show ?thesis using False unfolding rightful_def by auto
  qed
qed

text \<open>(C21) Who gets promoted. A promotion is decided exactly for a shard whose primary has been
  silent for longer than the timeout and which has a member in its in-sync set, other than that
  primary, whose high-water mark could be verified; the new primary is the one with the highest
  mark, the lowest node id among equals, at the next epoch. Nobody else is ever promoted, and
  no such shard is left out.\<close>
theorem failover_decision:
  assumes "\<forall>s\<in>set shards. [] \<notin> set (lv_isr s)"
  shows "p \<in> set (decidePBPromotions shards nowNs timeout (Some hw)) \<longleftrightarrow>
    (\<exists>s\<in>set shards. rightful nowNs timeout hw s p)"
  using assms decideShard_iff by (auto simp: decidePBPromotions_def)

theorem failover_decision_witness:
  "let s = \<lparr>lv_shardID = 3, lv_epoch = 7, lv_primary = ''a'', lv_isr = [''a'', ''b'', ''c'', ''d''], lv_lastRenewNs = 10\<rparr>;
       hw = (\<lambda>_ m. if m = ''b'' then (4, True) else if m = ''c'' then (9, False) else (5, True))
   in \<lparr>pm_shardID = 3, pm_newEpoch = 8, pm_newPrimary = ''d''\<rparr> \<in> set (decidePBPromotions [s] 200 100 (Some hw))"
  unfolding Let_def by (subst failover_decision) (simp_all add: rightful_def promotable_def outranks_def)

section \<open>The two resets\<close>

lemma decisionsD:
  assumes "p \<in> set (pbFailoverDecisions st t clk nowNs timeout hw)"
  shows "nowNs - effectiveLastRenew (clk (pm_shardID p)) (pm_shardID p) (ShardEpoch (pm_shardID p) st) t > timeout"
    "pm_newEpoch p = ShardEpoch (pm_shardID p) st + 1" "pm_newPrimary p \<noteq> []"
  using assms unfolding pbFailoverDecisions_def decidePBPromotions_def
  by (auto simp: decideShard_def shardLiveness_def Let_def ShardEpoch_def split: if_splits)

text \<open>While the tracker has heard no beacon of a shard's current epoch, the shard is not failed over,
  however long that lasts.\<close>

lemma grace_holds:
  assumes "gget 0 (tr_lastRenewEp t) sh < ShardEpoch sh st" "nowNs \<le> clk sh" "0 \<le> timeout"
    and "p \<in> set (pbFailoverDecisions st t clk nowNs timeout hw)"
  shows "pm_shardID p \<noteq> sh"
proof
  assume "pm_shardID p = sh"
  then show False using decisionsD(1) [OF assms(4)] assms(1-3) by (simp add: effectiveLastRenew_def)
qed

text \<open>(C22) A failover needs evidence of its own. Whatever a tick of the leader promotes, the leader
  has recorded a beacon of that shard's present epoch, and both since that beacon and since the
  leader took office more than the failover timeout has passed on its clock; so a leader on its
  first tick promotes nothing.\<close>
theorem failover_evidence:
  assumes "p \<in> set (snd (failoverTick isLeader st nEdge clk nowNs timeout hw (wasLeader, t)))"
    and "0 \<le> timeout" "nowNs \<le> clk (pm_shardID p)"
  shows "isLeader \<and> ShardEpoch (pm_shardID p) st \<le> gget 0 (tr_lastRenewEp t) (pm_shardID p) \<and>
    nowNs - gget 0 (tr_lastRenewNs t) (pm_shardID p) > timeout \<and>
    nowNs - (if wasLeader then tr_leaderSinceNs t else nEdge) > timeout"
proof -
  define t1 where "t1 = (if isLeader \<and> \<not> wasLeader then onBecomeLeader nEdge t else t)"
  have d: "isLeader" "p \<in> set (pbFailoverDecisions st t1 clk nowNs timeout hw)"
    using assms(1) by (auto simp: failoverTick_def t1_def Let_def split: if_splits)
  have "nowNs - effectiveLastRenew (clk (pm_shardID p)) (pm_shardID p) (ShardEpoch (pm_shardID p) st) t1 > timeout"
    by (rule decisionsD(1) [OF d(2)])
  then show ?thesis using assms(2,3) d(1)
    by (auto simp: effectiveLastRenew_def t1_def onBecomeLeader_def Let_def split: if_splits)
qed

definition exampleState :: State where
  "exampleState = emptyState\<lparr>s_ShardEpoch := [(0, 1)], s_ShardPrimary := [(0, ''a'')], s_ShardISR := [(0, [''a'', ''b''])]\<rparr>"

definition exampleTracker :: pbFailoverTracker where
  "exampleTracker = observeRenew 50 0 1 (onBecomeLeader 20 newPBFailoverTracker)"

definition examplePromotion :: pbPromotion where
  "examplePromotion = \<lparr>pm_shardID = 0, pm_newEpoch = 2, pm_newPrimary = ''b''\<rparr>"

lemma exampleTick: "snd (failoverTick True exampleState 0 (\<lambda>_. 200) 200 100 (Some (\<lambda>_ _. (9, True))) (True, exampleTracker)) =
    [examplePromotion]"
  by code_simp

theorem failover_evidence_witness:
  "200 - gget 0 (tr_lastRenewNs exampleTracker) 0 > (100 :: int) \<and> 200 - tr_leaderSinceNs exampleTracker > 100"
  using failover_evidence [of examplePromotion True exampleState 0 "\<lambda>_. 200" 200 100 "Some (\<lambda>_ _. (9, True))" True
      exampleTracker] by (simp add: exampleTick) (simp add: examplePromotion_def)

text \<open>(C23) One failover per silence. The entry a promotion becomes moves the shard to the next epoch,
  with the chosen node as its primary and only in-sync member; and from then on no tick of a leader
  that has heard no beacon of the new epoch promotes the shard again, at any time, so a failover
  does not cascade.\<close>
theorem failover_once:
  assumes "p \<in> set (pbFailoverDecisions st t clk nowNs timeout hw)" "ShardEpoch (pm_shardID p) st \<noteq> - 1"
    and "gget 0 (tr_lastRenewEp t') (pm_shardID p) \<le> ShardEpoch (pm_shardID p) st"
    and "st' = applyState (i, entrySetShardEpoch (pm_shardID p) (pm_newEpoch p) (pm_newPrimary p)) st"
  shows "ShardEpoch (pm_shardID p) st' = ShardEpoch (pm_shardID p) st + 1 \<and>
    ShardPrimary (pm_shardID p) st' = pm_newPrimary p \<and> ShardISR (pm_shardID p) st' = [pm_newPrimary p] \<and>
    (\<forall>clk' now' timeout' hw'. 0 \<le> timeout' \<and> now' \<le> clk' (pm_shardID p) \<longrightarrow>
      (\<forall>q\<in>set (pbFailoverDecisions st' t' clk' now' timeout' hw'). pm_shardID q \<noteq> pm_shardID p))"
proof -
  let ?sh = "pm_shardID p"
  have ep: "pm_newEpoch p = ShardEpoch ?sh st + 1" by (rule decisionsD(2) [OF assms(1)])
  have lt: "ShardEpoch ?sh st < pm_newEpoch p"
    unfolding ep using assms(2) by (simp add: word_less_nat_alt unat_succ)
  have st': "st' = applySetShardEpoch (le_Body (entrySetShardEpoch ?sh (pm_newEpoch p) (pm_newPrimary p))) st"
    using assms(4) by (simp add: applyState_eq entrySetShardEpoch_def op_defs)
  have s: "ShardEpoch ?sh st' = ShardEpoch ?sh st + 1" "ShardPrimary ?sh st' = pm_newPrimary p"
    "ShardISR ?sh st' = [pm_newPrimary p]"
    using lt ep by (simp_all add: st' shard_ops entrySetShardEpoch_def emptyBody_def seedISRForEpoch_def)
  have "gget 0 (tr_lastRenewEp t') ?sh < ShardEpoch ?sh st'" using assms(3) lt s(1) ep by simp
  then show ?thesis using s grace_holds [where t = t' and st = st' and sh = ?sh] by blast
qed

theorem failover_once_witness:
  "list_all (\<lambda>q. pm_shardID q \<noteq> 0) (pbFailoverDecisions (applyState (9, entrySetShardEpoch 0 2 ''b'') exampleState)
      exampleTracker (\<lambda>_. 4000) 4000 100 (Some (\<lambda>_ _. (9, True))))"
proof -
  have "examplePromotion \<in> set (pbFailoverDecisions exampleState exampleTracker (\<lambda>_. 200) 200 100 (Some (\<lambda>_ _. (9, True))))"
    "ShardEpoch (pm_shardID examplePromotion) exampleState \<noteq> - 1"
    "gget 0 (tr_lastRenewEp exampleTracker) (pm_shardID examplePromotion) \<le> ShardEpoch (pm_shardID examplePromotion) exampleState"
    by code_simp+
  note once = failover_once [OF this refl, of 9, THEN conjunct2, THEN conjunct2, THEN conjunct2, rule_format,
      of 100 4000 "\<lambda>_. 4000"]
  show ?thesis using once unfolding examplePromotion_def list_all_iff by (intro ballI) simp
qed

end
