(* ===== verification/LeaseKeeper.thy ===== *)
theory LeaseKeeper
  imports Failover SnapOps
begin

text \<open>
  The lease keeper, the beacon and the seeding of the control plane (\<^verbatim>\<open>cluster/pb_wiring.go\<close>,
  \<^verbatim>\<open>cluster/pb_beacon.go\<close>, \<^verbatim>\<open>cluster/pb_control.go\<close>), the connection check the keeper runs first
  (\<^verbatim>\<open>cluster/meta_readindex.go\<close>, \<^verbatim>\<open>confirmMetaView\<close>) and the timing rule the configuration must
  satisfy (\<^verbatim>\<open>cluster/config.go\<close>).

  The keeper reads the control plane several times per shard while entries may be applied in
  between: \<open>rd sh k\<close> is the state its \<open>k\<close>-th read for shard \<open>sh\<close> sees. Durations are nanoseconds.
\<close>

section \<open>Timings\<close>

definition pbLeaseTTL :: int where "pbLeaseTTL = 5000000000"
definition metaContactStaleness :: int where "metaContactStaleness = 2000000000"
definition pbRenewInterval :: int where "pbRenewInterval = 1000000000"
definition pbFailoverTickInterval :: int where "pbFailoverTickInterval = 500000000"
definition pbFailoverTimeout :: int where "pbFailoverTimeout = 10000000000"

record pbTimingConfig =
  cf_PBLeaseTTLMs :: int
  cf_PBMetaContactStalenessMs :: int
  cf_PBFailoverTimeoutMs :: int
  cf_PBRenewIntervalMs :: int

definition orDefault :: "int \<Rightarrow> int \<Rightarrow> int" where
  "orDefault ms d = (if ms > 0 then ms * 1000000 else d)"

text \<open>Lease TTL, contact staleness, failover timeout and renew interval.\<close>

definition pbEffectiveTimings :: "pbTimingConfig \<Rightarrow> int \<times> int \<times> int \<times> int" where
  "pbEffectiveTimings c = (orDefault (cf_PBLeaseTTLMs c) pbLeaseTTL,
     orDefault (cf_PBMetaContactStalenessMs c) metaContactStaleness,
     orDefault (cf_PBFailoverTimeoutMs c) pbFailoverTimeout, orDefault (cf_PBRenewIntervalMs c) pbRenewInterval)"

definition honorRule :: "pbTimingConfig \<Rightarrow> bool" where
  "honorRule c = (case pbEffectiveTimings c of (leaseTTL, metaStaleness, failoverTimeout, renewInterval) \<Rightarrow>
     \<not> failoverTimeout \<le> leaseTTL + metaStaleness + renewInterval + pbFailoverTickInterval)"

text \<open>Whether the node is connected to the meta quorum: alone, a leader that could verify its
  leadership, or a follower with recent contact. \<open>lastContact = None\<close> is the zero time.\<close>

definition confirmMetaView :: "bool \<Rightarrow> bool \<Rightarrow> bool \<Rightarrow> int option \<Rightarrow> int \<Rightarrow> int \<Rightarrow> bool" where
  "confirmMetaView single isLeader verified lastContact now staleCfg =
     (if single then True
      else if isLeader then verified
      else let stale = (if staleCfg \<le> 0 then metaContactStaleness else staleCfg)
           in case lastContact of None \<Rightarrow> False | Some l \<Rightarrow> \<not> now - l > stale)"

section \<open>The keeper\<close>

record leaseKeeper =
  lk_nodeID :: node
  lk_leaseTTL :: int
  lk_barriered :: "(int, u64) gomap"

text \<open>What the keeper does to one engine: renew its lease, or promote it when the epoch is new to it.
  \<open>en\<close> is the engine's clock.\<close>

definition keeperOp :: "int \<Rightarrow> u64 \<Rightarrow> int \<Rightarrow> 's Engine \<Rightarrow> engineOp" where
  "keeperOp en epoch expiry eng = (if epoch > e_epoch eng then DoPromote en epoch expiry else DoGrant en epoch expiry)"

text \<open>One shard of the loop. \<open>rb\<close> is the read barrier: absent, or whether it succeeds when it is run
  at this shard; \<open>rbDone\<close> says that it already ran in this tick.\<close>

definition keeperShard :: "(int \<Rightarrow> bool) option \<Rightarrow> (int \<Rightarrow> nat \<Rightarrow> State) \<Rightarrow> node \<Rightarrow> int \<Rightarrow>
    (int, u64) gomap \<Rightarrow> bool \<Rightarrow> u64 option \<times> (int, u64) gomap \<times> bool" where
  "keeperShard rb rd nodeID sh barriered rbDone =
     (if ShardPrimary sh (rd sh 0) \<noteq> nodeID then (None, barriered, rbDone)
      else let epoch = ShardEpoch sh (rd sh 1)
           in if gget 0 barriered sh \<noteq> epoch then
                (if rb \<noteq> None \<and> \<not> rbDone \<and> \<not> the rb sh then (None, barriered, rbDone)
                 else let rbDone' = (rbDone \<or> rb \<noteq> None)
                      in if ShardPrimary sh (rd sh 2) \<noteq> nodeID then (None, barriered, rbDone')
                         else let epoch' = ShardEpoch sh (rd sh 3)
                              in (Some epoch', AList.update sh epoch' barriered, rbDone'))
              else (Some epoch, barriered, rbDone))"

fun keeperLoop :: "(int \<Rightarrow> bool) option \<Rightarrow> (int \<Rightarrow> nat \<Rightarrow> State) \<Rightarrow> node \<Rightarrow> int \<Rightarrow> (int \<Rightarrow> int) \<Rightarrow>
    (int \<times> 's Engine) list \<Rightarrow> (int, u64) gomap \<Rightarrow> bool \<Rightarrow> (int \<times> engineOp) list \<times> (int, u64) gomap" where
  "keeperLoop rb rd nodeID expiry en [] barriered rbDone = ([], barriered)"
| "keeperLoop rb rd nodeID expiry en ((sh, eng) # engs) barriered rbDone =
     (case keeperShard rb rd nodeID sh barriered rbDone of (grant, b1, d1) \<Rightarrow>
        case keeperLoop rb rd nodeID expiry en engs b1 d1 of (ops, b2) \<Rightarrow>
          ((case grant of None \<Rightarrow> [] | Some epoch \<Rightarrow> [(sh, keeperOp (en sh) epoch expiry eng)]) @ ops, b2))"

text \<open>One tick: the operations it runs on the node's engines, and the keeper after it. \<open>barrier\<close> is
  the connection check: absent, or its outcome. The engine map is visited in the order of the list.\<close>

definition keeperTick :: "bool option \<Rightarrow> (int \<Rightarrow> bool) option \<Rightarrow> (int \<Rightarrow> nat \<Rightarrow> State) \<Rightarrow> int \<Rightarrow> (int \<Rightarrow> int) \<Rightarrow>
    (int \<times> 's Engine) list \<Rightarrow> leaseKeeper \<Rightarrow> (int \<times> engineOp) list \<times> leaseKeeper" where
  "keeperTick barrier rb rd nowNs en engines k =
     (if barrier = Some False then ([], k)
      else case keeperLoop rb rd (lk_nodeID k) (nowNs + lk_leaseTTL k) en engines (lk_barriered k) False of
        (ops, b) \<Rightarrow> (ops, k\<lparr>lk_barriered := b\<rparr>))"

section \<open>The beacon\<close>

definition beaconRenews :: "node \<Rightarrow> State \<Rightarrow> ShardEpochPair list" where
  "beaconRenews nodeID st = map (\<lambda>(sh, p). \<lparr>sp_ShardID = sh, sp_Epoch = gget 0 (s_ShardEpoch st) sh\<rparr>)
     (filter (\<lambda>(sh, p). p = nodeID) (s_ShardPrimary st))"

text \<open>The entry a beacon tick submits, if any.\<close>

definition beaconTick :: "node \<Rightarrow> State \<Rightarrow> LogEntry option" where
  "beaconTick nodeID st = (let renews = beaconRenews nodeID st
     in if renews = [] then None else Some (entryShardLeaseRenew nodeID renews))"

text \<open>The observer of the failover tracker, called for every renewal an entry carries.\<close>

definition observeAll :: "int \<Rightarrow> (int \<times> u64) list \<Rightarrow> pbFailoverTracker \<Rightarrow> pbFailoverTracker" where
  "observeAll n renewed t = foldl (\<lambda>t (sh, ep). observeRenew n sh ep t) t renewed"

section \<open>Seeding the control plane\<close>

record pbShardSeed =
  sd_ShardID :: int
  sd_Primary :: node
  sd_ISR :: "node list"

definition pbShardControlSeeds :: "node list list \<Rightarrow> pbShardSeed list" where
  "pbShardControlSeeds placement = map (\<lambda>(sh, owners). \<lparr>sd_ShardID = int sh, sd_Primary = hd owners, sd_ISR = owners\<rparr>)
     (filter (\<lambda>(sh, owners). length owners \<noteq> 0) (enumerate 0 placement))"

text \<open>The entries the bootstrap proposes, in order, when every proposal is accepted.\<close>

definition bootstrapPBShardControl :: "pbShardSeed list \<Rightarrow> u64 \<Rightarrow> LogEntry list" where
  "bootstrapPBShardControl seeds epoch = map (\<lambda>s. entrySetShardSeed (sd_ShardID s) epoch (sd_Primary s) (sd_ISR s)) seeds"

definition pbControlSeeded :: "pbShardSeed list \<Rightarrow> State \<Rightarrow> bool" where
  "pbControlSeeded seeds st = list_all (\<lambda>s. ShardPrimary (sd_ShardID s) st \<noteq> []) seeds"

section \<open>Addresses\<close>

definition pbAddrMap :: "Peer list \<Rightarrow> (node, string) gomap" where
  "pbAddrMap peers = foldl (\<lambda>m p. if p_PBAddr p = [] then m else AList.update (p_NodeID p) (p_PBAddr p) m) [] peers"

text \<open>A transport by node id over one by address: an unknown node id is an error, never an address.\<close>

definition resolveSend :: "(node, string) gomap \<Rightarrow> (string \<Rightarrow> 'm \<Rightarrow> pbError + 'r) \<Rightarrow> node \<Rightarrow> 'm \<Rightarrow> pbError + 'r" where
  "resolveSend addrOf base peer msg = (case map_of addrOf peer of
     None \<Rightarrow> Inl (ErrTransport ''no PB address for node'') | Some addr \<Rightarrow> base addr msg)"

section \<open>Leases come from the keeper only\<close>

lemma expiry_logPart: "logPart e' = logPart e \<Longrightarrow> e_leaseExpiry e' = e_leaseExpiry e"
  by (metis logPart_sel(4))

lemma expiry_register: "registerInflightLocked epoch seq peers e = Some e' \<Longrightarrow> e_leaseExpiry e' = e_leaseExpiry e"
  by (auto simp: registerInflightLocked_def growInflightRingLocked_def Let_def split: if_splits option.splits)

lemma expiry_ship [simp]:
  "e_leaseExpiry (proposeShip inl now ps ls m e) = e_leaseExpiry e"
  "e_leaseExpiry (noteFrontierLocked e) = e_leaseExpiry e"
  by (rule expiry_logPart [OF ship_view(1)]) (simp add: noteFrontierLocked_def)

lemma expiry_proposeRegister: "e_leaseExpiry (fst (proposeRegister inl now isr epoch data result e)) = e_leaseExpiry e"
proof -
  obtain ps pe where f: "appliedFrontierLocked e = (ps, pe)" by fastforce
  obtain b ev where b: "ring_append (e_backlog e) \<lparr>re_epoch = epoch, re_seq = ps + 1, re_prevEpoch = pe, re_data = data\<rparr> = (b, ev)"
    by fastforce
  show ?thesis unfolding proposeRegister_def Let_def f b prod.case
    by (simp split: option.split) (auto dest!: expiry_register)
qed

lemma expiry_propose: "e_leaseExpiry (fst (proposeSequenced ap inl primary isr minISR now now' data e)) = e_leaseExpiry e"
  by (simp add: proposeSequenced_def expiry_proposeRegister split: option.split sum.split prod.split)

lemma expiry_receive: "receiveLocked ap now msg e = (e', ack) \<Longrightarrow> e_leaseExpiry e' = e_leaseExpiry e"
  unfolding logPart_sel(4) [symmetric] using receive_view [of ap now msg e e' ack]
  by (cases "accepts ap msg e") (auto simp del: logPart_sel)

lemma expiry_receiveAll: "e_leaseExpiry (fst (receiveAll ap now ep s msgs e)) = e_leaseExpiry e"
  by (induction ap now ep s msgs e rule: receiveAll.induct) (auto simp: expiry_receive split: prod.split if_split)


lemma expiry_flip: "flipOnce now p E k e = FlipDone e' \<Longrightarrow> e_leaseExpiry e' = e_leaseExpiry e"
  using expiry_logPart [OF create_learner_view(1)]
  by (auto simp: flipOnce_def Let_def split: if_splits option.splits)

lemma expiry_chunk: "ReceiveSnapshotChunk oss now c e = (e', ack) \<Longrightarrow> e_leaseExpiry e' = e_leaseExpiry e"
  unfolding logPart_sel(4) [symmetric] using chunk_view [of oss now c e e' ack]
  by (auto simp: installed_def simp del: logPart_sel)

lemma expiry_exec:
  "e_leaseExpiry (engine_exec ap oss op e) = e_leaseExpiry e \<or>
   (\<exists>now ep. (op = DoGrant now ep (e_leaseExpiry (engine_exec ap oss op e)) \<or>
      op = DoPromote now ep (e_leaseExpiry (engine_exec ap oss op e))))"
proof (cases op)
  case (DoAdopt now ep)
  then show ?thesis using logPart_sel(4) [of "AdoptEpoch now ep e"] by (simp add: adopt_view(1))
next
  case (DoGrant now ep x)
  then show ?thesis using logPart_sel(4) [of "GrantLease now ep x e"] by (auto simp: grant_view(1) split: if_splits)
next
  case (DoPromote now ep x)
  then show ?thesis using logPart_sel(4) [of "Promote now ep x e"] by (auto simp: promote_view(1) split: if_splits)
next
  case (DoReceive now msg)
  then show ?thesis using expiry_receive [of ap now msg e] by (cases "receiveLocked ap now msg e") (simp add: Receive_def)
next
  case (DoSnapshotChunk now c)
  then show ?thesis using expiry_chunk [of oss now c e] by (cases "ReceiveSnapshotChunk oss now c e") simp
next
  case (DoReceiveGroup now msgs)
  then show ?thesis by (auto simp: ReceiveGroup_def expiry_receiveAll split: list.split)
next
  case (DoFlip now p E k)
  then show ?thesis by (auto split: flipResult.split dest: expiry_flip)
qed (auto simp: expiry_propose intro!: expiry_logPart keepsD(1) keeps_timeout keeps_complete keeps_complete_group
      keeps_shrink keeps_marks keeps_learner keeps_sender keeps_shutdown)

text \<open>So an engine's lease never outlives the latest expiry it was granted.\<close>

lemma expiry_run:
  assumes "e_leaseExpiry e \<le> X" "\<And>now ep x. DoGrant now ep x \<in> set ops \<or> DoPromote now ep x \<in> set ops \<Longrightarrow> x \<le> X"
  shows "e_leaseExpiry (engine_run ap oss ops e) \<le> X"
  using assms
proof (induction ops arbitrary: e)
  case (Cons op ops)
  have "e_leaseExpiry (engine_exec ap oss op e) \<le> X"
    using expiry_exec [of ap oss op e] Cons.prems(1) Cons.prems(2) [of _ _ "e_leaseExpiry (engine_exec ap oss op e)"]
    by (metis list.set_intros(1))
  moreover have "x \<le> X" if "DoGrant now ep x \<in> set ops \<or> DoPromote now ep x \<in> set ops" for now ep x
    using that Cons.prems(2) [of now ep x] by auto
  ultimately show ?case using Cons.IH by simp
qed simp

section \<open>What a tick grants\<close>

lemma keeperShard_grant:
  assumes "keeperShard rb rd nodeID sh barriered rbDone = (Some ep, b', d')"
  shows "(ShardPrimary sh (rd sh 0) = nodeID \<and> ep = ShardEpoch sh (rd sh 1) \<and> gget 0 barriered sh = ep) \<or>
    (ShardPrimary sh (rd sh 2) = nodeID \<and> ep = ShardEpoch sh (rd sh 3) \<and> (rb = None \<or> rbDone \<or> the rb sh))"
  using assms by (auto simp: keeperShard_def Let_def split: if_splits)

lemma keeperShard_other:
  assumes "keeperShard rb rd nodeID sh barriered rbDone = (g, b', d')" "sh' \<noteq> sh"
  shows "gget 0 b' sh' = gget 0 barriered sh'"
  using assms by (auto simp: keeperShard_def Let_def split: if_splits)

lemma keeperShard_done:
  assumes "keeperShard rb rd nodeID sh barriered rbDone = (g, b', d')" "d'"
  shows "rbDone \<or> (rb \<noteq> None \<and> the rb sh)"
  using assms by (auto simp: keeperShard_def Let_def split: if_splits)

lemma keeperLoop_grant:
  assumes "(sh, op) \<in> set (fst (keeperLoop rb rd nodeID expiry en engines barriered rbDone))" "distinct (map fst engines)"
  shows "\<exists>eng ep. (sh, eng) \<in> set engines \<and> op = keeperOp (en sh) ep expiry eng \<and>
    ((ShardPrimary sh (rd sh 0) = nodeID \<and> ep = ShardEpoch sh (rd sh 1) \<and> gget 0 barriered sh = ep) \<or>
     (ShardPrimary sh (rd sh 2) = nodeID \<and> ep = ShardEpoch sh (rd sh 3) \<and>
       (rb = None \<or> rbDone \<or> (\<exists>x. the rb x))))"
  using assms
proof (induction engines arbitrary: barriered rbDone)
  case (Cons se engs)
  obtain sh0 eng where se: "se = (sh0, eng)" by fastforce
  obtain g b1 d1 where k: "keeperShard rb rd nodeID sh0 barriered rbDone = (g, b1, d1)" by (metis prod_cases3)
  obtain ops b2 where l: "keeperLoop rb rd nodeID expiry en engs b1 d1 = (ops, b2)" by fastforce
  have split: "fst (keeperLoop rb rd nodeID expiry en (se # engs) barriered rbDone) =
      (case g of None \<Rightarrow> [] | Some ep \<Rightarrow> [(sh0, keeperOp (en sh0) ep expiry eng)]) @ ops" using k l by (simp add: se)
  have dist: "distinct (map fst engs)" "sh0 \<notin> fst ` set engs" using Cons.prems(2) by (auto simp: se)
  show ?case
  proof (cases "(sh, op) \<in> set ops")
    case True
    then have "(sh, op) \<in> set (fst (keeperLoop rb rd nodeID expiry en engs b1 d1))" using l by simp
    from Cons.IH [OF this dist(1)] obtain e1 ep where e1: "(sh, e1) \<in> set engs" "op = keeperOp (en sh) ep expiry e1"
      and c: "(ShardPrimary sh (rd sh 0) = nodeID \<and> ep = ShardEpoch sh (rd sh 1) \<and> gget 0 b1 sh = ep) \<or>
        (ShardPrimary sh (rd sh 2) = nodeID \<and> ep = ShardEpoch sh (rd sh 3) \<and> (rb = None \<or> d1 \<or> (\<exists>x. the rb x)))" by blast
    have "sh \<noteq> sh0" using e1(1) dist(2) by force
    then have b: "gget 0 b1 sh = gget 0 barriered sh" by (rule keeperShard_other [OF k])
    have d: "d1 \<Longrightarrow> rbDone \<or> (\<exists>x. the rb x)" using keeperShard_done [OF k] by blast
    show ?thesis using e1 c unfolding b using d by (intro exI [of _ e1] exI [of _ ep]) (auto simp: se)
  next
    case False
    then obtain ep where g: "g = Some ep" "sh = sh0" "op = keeperOp (en sh0) ep expiry eng"
      using Cons.prems(1) unfolding split by (auto split: option.splits)
    show ?thesis using keeperShard_grant [OF k [unfolded g(1)]] g(2,3)
      by (intro exI [of _ eng] exI [of _ ep]) (auto simp: se)
  qed
qed simp

lemma keeperTick_expiry:
  fixes engines :: "(int \<times> 's Engine) list"
  assumes "(sh, op) \<in> set (fst (keeperTick barrier rb rd nowNs en engines k))" "distinct (map fst engines)"
    and "op = DoGrant now ep x \<or> op = DoPromote now ep x"
  shows "barrier \<noteq> Some False" "x = nowNs + lk_leaseTTL k"
proof -
  have b: "barrier \<noteq> Some False" "(sh, op) \<in> set (fst (keeperLoop rb rd (lk_nodeID k) (nowNs + lk_leaseTTL k) en engines (lk_barriered k) False))"
    using assms(1) by (auto simp: keeperTick_def split: if_splits prod.splits)
  from keeperLoop_grant [OF b(2) assms(2)] obtain eng :: "'s Engine" and ep' where
    "op = keeperOp (en sh) ep' (nowNs + lk_leaseTTL k) eng" by blast
  with b(1) show "barrier \<noteq> Some False" "x = nowNs + lk_leaseTTL k" using assms(3) by (auto simp: keeperOp_def split: if_splits)
qed

text \<open>(C24) When a lease is granted. Whatever a tick of the keeper does to an engine is a renewal, or a
  promotion when the epoch is new to the engine, for an epoch the keeper read right after it read
  this node as the shard's primary, to the tick's clock plus the lease time; and unless that epoch
  went through a read barrier before, one succeeded in this tick. Without a confirmed connection
  to the meta quorum a tick grants nothing.\<close>
theorem keeper_grants:
  fixes engines :: "(int \<times> 's Engine) list"
  assumes "(sh, op) \<in> set (fst (keeperTick barrier rb rd nowNs en engines k))" "distinct (map fst engines)"
  shows "barrier \<noteq> Some False \<and>
    (\<exists>eng ep. (sh, eng) \<in> set engines \<and> op = keeperOp (en sh) ep (nowNs + lk_leaseTTL k) eng \<and>
      ((ShardPrimary sh (rd sh 0) = lk_nodeID k \<and> ep = ShardEpoch sh (rd sh 1) \<and> gget 0 (lk_barriered k) sh = ep) \<or>
       (ShardPrimary sh (rd sh 2) = lk_nodeID k \<and> ep = ShardEpoch sh (rd sh 3) \<and> (rb = None \<or> (\<exists>x. the rb x)))))"
proof -
  have b: "barrier \<noteq> Some False" "(sh, op) \<in> set (fst (keeperLoop rb rd (lk_nodeID k) (nowNs + lk_leaseTTL k) en engines (lk_barriered k) False))"
    using assms(1) by (auto simp: keeperTick_def split: if_splits prod.splits)
  with keeperLoop_grant [OF b(2) assms(2)] show ?thesis by simp
qed

definition exampleKeeper :: leaseKeeper where
  "exampleKeeper = \<lparr>lk_nodeID = ''a'', lk_leaseTTL = 5, lk_barriered = []\<rparr>"

lemma exampleKeep:
  "fst (keeperTick (Some True) (Some (\<lambda>_. True)) (\<lambda>_ _. exampleState) 10 (\<lambda>_. 11) [(0, example_engine)] exampleKeeper) =
    [(0, DoPromote 11 1 15)]"
  by (simp add: keeperTick_def exampleKeeper_def keeperShard_def exampleState_def ShardPrimary_def ShardEpoch_def gget_def
      keeperOp_def example_engine_def NewWithRingCapacity_def pipelineWindow_def Let_def)

theorem keeper_grants_witness:
  "DoPromote 11 1 15 = keeperOp 11 (ShardEpoch 0 exampleState) 15 example_engine \<and> ShardPrimary 0 exampleState = ''a''"
  using keeper_grants [of 0 "DoPromote 11 1 15" "Some True" "Some (\<lambda>_. True)" "\<lambda>_ _. exampleState" 10 "\<lambda>_. 11"
      "[(0, example_engine)]" exampleKeeper]
  by (simp add: exampleKeep) (auto simp: exampleKeeper_def)

section \<open>The honor rule\<close>

lemma orDefault_pos: "0 < d \<Longrightarrow> 0 < orDefault ms d"
  by (simp add: orDefault_def)


definition defaultTimings :: pbTimingConfig where
  "defaultTimings = \<lparr>cf_PBLeaseTTLMs = 0, cf_PBMetaContactStalenessMs = 0, cf_PBFailoverTimeoutMs = 0, cf_PBRenewIntervalMs = 0\<rparr>"

lemma default_timings:
  "honorRule defaultTimings"
  "pbEffectiveTimings defaultTimings = (5000000000, 2000000000, 10000000000, 1000000000)"
  by code_simp+


section \<open>Beacons\<close>

lemma observeAll_last:
  assumes "\<forall>x\<in>set renewed. fst x = sh \<longrightarrow> snd x = ep"
    and "sh \<in> fst ` set renewed \<or> (gget 0 (tr_lastRenewNs t) sh = n \<and> gget 0 (tr_lastRenewEp t) sh = ep)"
  shows "gget 0 (tr_lastRenewNs (observeAll n renewed t)) sh = n \<and> gget 0 (tr_lastRenewEp (observeAll n renewed t)) sh = ep"
  using assms
proof (induction renewed arbitrary: t)
  case (Cons x renewed)
  obtain s e where x: "x = (s, e)" by fastforce
  have "sh \<in> fst ` set renewed \<or> (gget 0 (tr_lastRenewNs (observeRenew n s e t)) sh = n \<and>
      gget 0 (tr_lastRenewEp (observeRenew n s e t)) sh = ep)"
    using Cons.prems by (cases "s = sh") (auto simp: x observeRenew_def)
  with Cons show ?case by (simp add: observeAll_def x)
qed (simp add: observeAll_def)

text \<open>(C25) A primary that beacons is not replaced. If the entry of a node's beacon is applied while the
  shard still has the epoch and the primary the beacon was built from, the leader decides no
  failover of that shard for a whole timeout after it observed the entry.\<close>
theorem beacon_prevents_failover:
  assumes "beaconTick n st = Some entry" "n \<noteq> []" "ShardPrimary sh st = n"
    and "ShardPrimary sh st' = n" "ShardEpoch sh st' = ShardEpoch sh st"
    and "nowNs \<le> b + timeout" "nowNs \<le> clk sh" "0 \<le> timeout"
    and "p \<in> set (pbFailoverDecisions st' (observeAll b (leaseRenewals (le_Body entry) st') t) clk nowNs timeout hw)"
  shows "pm_shardID p \<noteq> sh"
proof
  assume sh: "pm_shardID p = sh"
  let ?r = "leaseRenewals (le_Body entry) st'" and ?t = "observeAll b (leaseRenewals (le_Body entry) st') t"
  have body: "l_Node (le_Body entry) = n" "l_LeaseRenew (le_Body entry) = beaconRenews n st"
    using assms(1) by (auto simp: beaconTick_def Let_def entryShardLeaseRenew_def split: if_splits)
  have "(sh, n) \<in> set (s_ShardPrimary st)"
    using assms(2,3) by (auto simp: ShardPrimary_def gget_def split: option.splits dest: map_of_SomeD)
  then have "\<lparr>sp_ShardID = sh, sp_Epoch = ShardEpoch sh st\<rparr> \<in> set (beaconRenews n st)"
    by (force simp: beaconRenews_def ShardEpoch_def)
  then have "sh \<in> fst ` set ?r"
    using assms(2,4,5) body by (force simp: leaseRenewals_def ShardPrimary_def ShardEpoch_def)
  moreover have "\<forall>x\<in>set ?r. fst x = sh \<longrightarrow> snd x = ShardEpoch sh st'"
    by (auto simp: leaseRenewals_def ShardEpoch_def)
  ultimately have "gget 0 (tr_lastRenewNs ?t) sh = b \<and> gget 0 (tr_lastRenewEp ?t) sh = ShardEpoch sh st'"
    by (intro observeAll_last) auto
  then show False using decisionsD(1) [OF assms(9)] sh assms(6-8)
    by (auto simp: effectiveLastRenew_def Let_def split: if_splits)
qed

theorem beacon_prevents_failover_witness:
  "list_all (\<lambda>p. pm_shardID p \<noteq> 0) (pbFailoverDecisions exampleState (observeAll 500 (leaseRenewals
     (le_Body (entryShardLeaseRenew ''a'' [\<lparr>sp_ShardID = 0, sp_Epoch = 1\<rparr>])) exampleState) exampleTracker) (\<lambda>_. 590) 590 100 None)"
proof -
  have "beaconTick ''a'' exampleState = Some (entryShardLeaseRenew ''a'' [\<lparr>sp_ShardID = 0, sp_Epoch = 1\<rparr>])"
    "ShardPrimary 0 exampleState = ''a''" by code_simp+
  then show ?thesis unfolding list_all_iff
    using beacon_prevents_failover [of "''a''" exampleState _ 0 exampleState 590 500 100 "\<lambda>_. 590"] by (intro ballI) simp
qed

section \<open>Seeding\<close>

lemma seed_entry:
  "ShardEpoch sh (applyState (i, entrySetShardSeed x epoch primary isr) s) =
     (if x = sh \<and> epoch > ShardEpoch sh s then epoch else ShardEpoch sh s)"
  "ShardPrimary sh (applyState (i, entrySetShardSeed x epoch primary isr) s) =
     (if x = sh \<and> epoch > ShardEpoch sh s then primary else ShardPrimary sh s)"
  "ShardISR sh (applyState (i, entrySetShardSeed x epoch primary isr) s) =
     (if x = sh \<and> epoch > ShardEpoch sh s then seedISRForEpoch primary isr else ShardISR sh s)"
  by (simp_all add: applyState_eq entrySetShardSeed_def op_defs shard_ops)

lemma seed_run:
  assumes "distinct (map sd_ShardID ss)" "length idx = length ss" "ShardEpoch sh st = 0"
  defines "st' \<equiv> fold applyState (zip idx (bootstrapPBShardControl ss 1)) st"
  shows "(case find (\<lambda>s. sd_ShardID s = sh) ss of
      None \<Rightarrow> ShardEpoch sh st' = 0 \<and> ShardPrimary sh st' = ShardPrimary sh st \<and> ShardISR sh st' = ShardISR sh st
    | Some s \<Rightarrow> ShardEpoch sh st' = 1 \<and> ShardPrimary sh st' = sd_Primary s \<and> ShardISR sh st' = seedISRForEpoch (sd_Primary s) (sd_ISR s))"
proof -
  have rest: "sh \<notin> sd_ShardID ` set ss \<Longrightarrow> length idx = length ss \<Longrightarrow>
      ShardEpoch sh (fold applyState (zip idx (bootstrapPBShardControl ss 1)) u) = ShardEpoch sh u \<and>
      ShardPrimary sh (fold applyState (zip idx (bootstrapPBShardControl ss 1)) u) = ShardPrimary sh u \<and>
      ShardISR sh (fold applyState (zip idx (bootstrapPBShardControl ss 1)) u) = ShardISR sh u" for ss idx u
  proof (induction ss arbitrary: idx u)
    case (Cons s ss)
    then show ?case by (cases idx) (auto simp: bootstrapPBShardControl_def seed_entry)
  qed (simp add: bootstrapPBShardControl_def)
  show ?thesis using assms(1-3) unfolding st'_def
  proof (induction ss arbitrary: idx st)
    case (Cons s ss)
    obtain i idx' where ix: "idx = i # idx'" "length idx' = length ss" using Cons.prems(2) by (cases idx) auto
    let ?u = "applyState (i, entrySetShardSeed (sd_ShardID s) 1 (sd_Primary s) (sd_ISR s)) st"
    have f: "fold applyState (zip idx (bootstrapPBShardControl (s # ss) 1)) st = fold applyState (zip idx' (bootstrapPBShardControl ss 1)) ?u"
      by (simp add: ix bootstrapPBShardControl_def)
    show ?case
    proof (cases "sd_ShardID s = sh")
      case True
      then have "sh \<notin> sd_ShardID ` set ss" using Cons.prems(1) by auto
      then show ?thesis using rest [OF _ ix(2), of ?u] True Cons.prems(3) unfolding f by (simp add: seed_entry)
    next
      case False
      then show ?thesis using Cons.IH [of idx' ?u] Cons.prems ix(2) unfolding f by (auto simp: seed_entry split: option.splits)
    qed
  qed (simp add: bootstrapPBShardControl_def)
qed

lemma seeds_ids: "map sd_ShardID (pbShardControlSeeds placement) = map (int \<circ> fst) (filter (\<lambda>(sh, owners). length owners \<noteq> 0) (enumerate 0 placement))"
  by (auto simp: pbShardControlSeeds_def)

lemma distinct_seeds: "distinct (map sd_ShardID (pbShardControlSeeds placement))"
proof -
  have "distinct (map fst (filter P (enumerate 0 placement)))" for P by (intro distinct_map_filter) simp
  then show ?thesis unfolding seeds_ids map_map [symmetric] by (simp add: distinct_map inj_on_def)
qed

lemma seed_of:
  assumes "s \<in> set (pbShardControlSeeds placement)"
  shows "\<exists>sh<length placement. sd_ShardID s = int sh \<and> placement ! sh \<noteq> [] \<and> sd_Primary s = hd (placement ! sh) \<and> sd_ISR s = placement ! sh"
  using assms by (auto simp: pbShardControlSeeds_def in_set_enumerate_eq)

text \<open>(C26) Bootstrap shows no partial in-sync set. However far the seeding of a fresh control plane has
  got, a shard is untouched, or has its first owner as primary at epoch 1 and all of its owners in
  sync; when every seed is in, every shard that has owners is in the second state.\<close>
theorem bootstrap_atomic:
  assumes "\<forall>sh. ShardEpoch sh st = 0" "length idx = length (pbShardControlSeeds placement)" "sh < length placement"
    and "placement ! sh \<noteq> []"
    and "st' = fold applyState (take k (zip idx (bootstrapPBShardControl (pbShardControlSeeds placement) 1))) st"
  shows "(ShardEpoch (int sh) st' = 0 \<and> ShardISR (int sh) st' = ShardISR (int sh) st \<and> k < length idx) \<or>
    (ShardEpoch (int sh) st' = 1 \<and> ShardPrimary (int sh) st' = hd (placement ! sh) \<and> ShardISR (int sh) st' = placement ! sh)"
proof -
  let ?ss = "pbShardControlSeeds placement"
  have st': "st' = fold applyState (zip (take k idx) (bootstrapPBShardControl (take k ?ss) 1)) st"
    using assms(5) by (simp add: bootstrapPBShardControl_def take_zip take_map)
  have "distinct (map sd_ShardID (take k ?ss))" using distinct_seeds by (simp flip: take_map)
  note run = seed_run [OF this, of "take k idx" "int sh" st, folded st']
  show ?thesis
  proof (cases "find (\<lambda>s. sd_ShardID s = int sh) (take k ?ss)")
    case None
    have "\<lparr>sd_ShardID = int sh, sd_Primary = hd (placement ! sh), sd_ISR = placement ! sh\<rparr> \<in> set ?ss"
      using assms(3,4) by (force simp: pbShardControlSeeds_def in_set_enumerate_eq)
    then have "take k ?ss \<noteq> ?ss" using None by (auto simp: find_None_iff)
    then have "k < length ?ss" by (metis not_less take_all)
    then show ?thesis using run None assms(1,2) by simp
  next
    case (Some s)
    then have "s \<in> set ?ss" "sd_ShardID s = int sh" by (auto simp: find_Some_iff)
    with seed_of [OF this(1)] have "sd_Primary s = hd (placement ! sh)" "sd_ISR s = placement ! sh" by auto
    then show ?thesis using run Some assms(1,2,4) by (simp add: seedISRForEpoch_def)
  qed
qed

theorem bootstrap_atomic_witness:
  "\<exists>st'. st' = fold applyState (take 1 (zip [1, 2] (bootstrapPBShardControl (pbShardControlSeeds [[''a'', ''b''], [''b'']]) 1)))
       emptyState \<and> (ShardISR 0 st' = [] \<or> ShardISR 0 st' = [''a'', ''b''])"
proof -
  define st' where "st' = fold applyState (take 1 (zip [1, 2] (bootstrapPBShardControl
      (pbShardControlSeeds [[''a'', ''b''], [''b'']]) 1))) emptyState"
  have e: "\<forall>sh. ShardEpoch sh emptyState = 0" "ShardISR 0 emptyState = []"
    by (simp_all add: ShardEpoch_def ShardISR_def emptyState_def)
  have l: "length [1 :: u64, 2] = length (pbShardControlSeeds [[''a'', ''b''], [''b'']])" by code_simp
  have "ShardISR 0 st' = [] \<or> ShardISR 0 st' = [''a'', ''b'']"
    using bootstrap_atomic [OF e(1) l, of 0 st' 1] e(2) by (auto simp: st'_def)
  then show ?thesis using st'_def by blast
qed

section \<open>Addresses\<close>

lemma pbAddrMap_none: "map_of (pbAddrMap peers) n = None \<longleftrightarrow> (\<forall>p\<in>set peers. p_NodeID p = n \<longrightarrow> p_PBAddr p = [])"
  unfolding pbAddrMap_def by (induction peers rule: rev_induct) (auto simp: map_of_update)

section \<open>Two reads\<close>

text \<open>The keeper reads a shard's primary and its epoch separately. If the shard is failed over between
  the two reads of a tick, the node promotes its engine at an epoch another node owns.\<close>

lemma keeper_race:
  "fst (keeperTick (Some True) (Some (\<lambda>_. True)) (\<lambda>_ k. if k < 3 then exampleState
       else applyState (9, entrySetShardEpoch 0 2 ''b'') exampleState) 10 (\<lambda>_. 11) [(0, example_engine)] exampleKeeper) =
     [(0, DoPromote 11 2 15)] \<and>
   ShardPrimary 0 (applyState (9, entrySetShardEpoch 0 2 ''b'') exampleState) = ''b'' \<and>
   ShardEpoch 0 (applyState (9, entrySetShardEpoch 0 2 ''b'') exampleState) = 2"
proof -
  have "ShardEpoch 0 exampleState = 1" "ShardPrimary 0 exampleState = ''a''"
    "ShardEpoch 0 (applyState (9, entrySetShardEpoch 0 2 ''b'') exampleState) = 2"
    "ShardPrimary 0 (applyState (9, entrySetShardEpoch 0 2 ''b'') exampleState) = ''b''"
    "e_epoch example_engine = 0"
    by code_simp+
  then show ?thesis by (simp add: keeperTick_def exampleKeeper_def keeperShard_def gget_def keeperOp_def Let_def)
qed

end
