(* ===== verification/GroupControl.thy ===== *)
theory GroupControl
  imports ClusterSafety LeaseKeeper
begin

text \<open>
  The control plane and the data plane together. \<open>Cluster\<close> lets an engine take a lease for an epoch
  only on the epoch's owner; here the owner is what the meta log says, and leases come only from the
  ticks of lease keepers that read the log through their own, possibly lagging, prefix of it.
\<close>

section \<open>Owners of epochs\<close>

text \<open>A node's view of the control plane: the state after a prefix of the meta log.\<close>

definition metaView :: "gobCodec \<Rightarrow> raftLog list \<Rightarrow> nat \<Rightarrow> State" where
  "metaView gob logs i = mf_state (metaRun gob (take i logs) (NewMetaFSM []))"

definition epochOwner :: "gobCodec \<Rightarrow> raftLog list \<Rightarrow> int \<Rightarrow> u64 \<Rightarrow> node" where
  "epochOwner gob logs sh ep = (case find (\<lambda>i. ShardEpoch sh (metaView gob logs i) = ep) [0..<Suc (length logs)] of
     None \<Rightarrow> [] | Some i \<Rightarrow> ShardPrimary sh (metaView gob logs i))"

lemma metaView_any_node: "mf_state (metaRun gob (take i logs) (NewMetaFSM n)) = metaView gob logs i"
proof -
  have step: "mf_state m = mf_state m' \<Longrightarrow> mf_state (fst (Apply gob log m)) = mf_state (fst (Apply gob log m'))" for log m m'
    by (simp add: Apply_state split: sum.split)
  have "mf_state m = mf_state m' \<Longrightarrow> mf_state (metaRun gob ls m) = mf_state (metaRun gob ls m')" for ls m m'
    unfolding metaRun_def
  proof (induction ls arbitrary: m m')
    case (Cons l ls)
    show ?case using Cons.IH [OF step [OF Cons.prems, of l]] by simp
  qed simp
  then show ?thesis unfolding metaView_def by (simp add: NewMetaFSM_def)
qed

lemma metaView_beyond: "metaView gob logs i = metaView gob logs (min i (length logs))"
  by (cases "i \<le> length logs") (simp_all add: metaView_def)

lemma epochOwner_view: "epochOwner gob logs sh (ShardEpoch sh (metaView gob logs i)) = ShardPrimary sh (metaView gob logs i)"
proof -
  let ?ep = "ShardEpoch sh (metaView gob logs i)" and ?i = "min i (length logs)"
  let ?P = "\<lambda>j. ShardEpoch sh (metaView gob logs j) = ?ep"
  have "?P ?i" using metaView_beyond [of gob logs i] by simp
  moreover have "?i \<in> set [0..<Suc (length logs)]" by auto
  ultimately obtain j where j: "find ?P [0..<Suc (length logs)] = Some j"
    by (cases "find ?P [0..<Suc (length logs)]") (auto simp: find_None_iff)
  then have "?P j" by (auto simp: find_Some_iff)
  then have "ShardPrimary sh (metaView gob logs j) = ShardPrimary sh (metaView gob logs i)"
    using meta_log.one_owner_per_epoch [of sh gob j logs "NewMetaFSM []" i] by (simp add: metaView_def metaRun_def)
  then show ?thesis using j by (simp add: epochOwner_def)
qed

text \<open>Before its first epoch a shard has no primary.\<close>

lemma owned_epoch: "ShardPrimary sh (metaView gob logs i) \<noteq> [] \<Longrightarrow> ShardEpoch sh (metaView gob logs i) \<noteq> 0"
proof
  assume p: "ShardPrimary sh (metaView gob logs i) \<noteq> []" and z: "ShardEpoch sh (metaView gob logs i) = 0"
  have "ShardPrimary sh (metaView gob logs i) = ShardPrimary sh (mf_state (NewMetaFSM []))"
    using z meta_log.run_owner [of sh gob "take i logs" "NewMetaFSM []"]
    by (simp add: metaView_def metaRun_def NewMetaFSM_def emptyState_def ShardEpoch_def)
  then show False using p by (simp add: NewMetaFSM_def emptyState_def ShardPrimary_def)
qed

section \<open>Leases from the keepers\<close>

text \<open>The keeper reads the primary and the epoch of a shard one after the other. Here both reads of a
  pair see the same state; that they need not is the subject of \<open>keeper_race\<close>.\<close>

definition pairedReads :: "gobCodec \<Rightarrow> raftLog list \<Rightarrow> int \<Rightarrow> (int \<Rightarrow> nat \<Rightarrow> State) \<Rightarrow> bool" where
  "pairedReads gob logs sh rd = (\<exists>i j. rd sh 0 = metaView gob logs i \<and> rd sh 1 = metaView gob logs i \<and>
     rd sh 2 = metaView gob logs j \<and> rd sh 3 = metaView gob logs j)"

lemma keeper_owns:
  fixes engines :: "(int \<times> 's Engine) list" and c :: "'s cluster"
  assumes "(sh, op) \<in> set (fst (keeperTick barrier rb rd nowNs en engines k))" "distinct (map fst engines)"
    and "pairedReads gob logs sh rd" "lk_nodeID k \<noteq> []"
  shows "local_ok (epochOwner gob logs sh) c (lk_nodeID k) op"
proof -
  have b: "(sh, op) \<in> set (fst (keeperLoop rb rd (lk_nodeID k) (nowNs + lk_leaseTTL k) en engines (lk_barriered k) False))"
    using assms(1) by (auto simp: keeperTick_def split: if_splits prod.splits)
  obtain eng :: "'s Engine" and ep where op: "op = keeperOp (en sh) ep (nowNs + lk_leaseTTL k) eng"
    and r: "(ShardPrimary sh (rd sh 0) = lk_nodeID k \<and> ep = ShardEpoch sh (rd sh 1)) \<or>
      (ShardPrimary sh (rd sh 2) = lk_nodeID k \<and> ep = ShardEpoch sh (rd sh 3))"
    using keeperLoop_grant [OF b assms(2)] by blast
  obtain i j where v: "rd sh 0 = metaView gob logs i" "rd sh 1 = metaView gob logs i"
    "rd sh 2 = metaView gob logs j" "rd sh 3 = metaView gob logs j"
    using assms(3) unfolding pairedReads_def by blast
  then obtain i where i: "ShardPrimary sh (metaView gob logs i) = lk_nodeID k" "ep = ShardEpoch sh (metaView gob logs i)"
    using r by auto
  have "epochOwner gob logs sh ep = lk_nodeID k" using epochOwner_view [of gob logs sh i] i by simp
  moreover have "ep \<noteq> 0" using owned_epoch [of sh gob logs i] i assms(4) by simp
  ultimately show ?thesis by (simp add: op keeperOp_def)
qed

section \<open>The group under its control plane\<close>

text \<open>A step of the group: what a keeper's tick does to the shard's engine on its node, or any step that
  is allowed whoever owns the epochs.\<close>

inductive gstep :: "gobCodec \<Rightarrow> raftLog list \<Rightarrow> int \<Rightarrow> 's applier \<Rightarrow> 's SnapshotStore option \<Rightarrow> 's cluster \<Rightarrow> 's cluster \<Rightarrow> bool"
  for gob :: gobCodec and logs :: "raftLog list" and sh :: int and ap :: "'s applier" and oss :: "'s SnapshotStore option" where
  g_keeper: "(sh, op) \<in> set (fst (keeperTick barrier rb rd nowNs en engines k)) \<Longrightarrow> distinct (map fst engines) \<Longrightarrow>
    (sh, cl_node c (lk_nodeID k)) \<in> set engines \<Longrightarrow> pairedReads gob logs sh rd \<Longrightarrow> lk_nodeID k \<noteq> [] \<Longrightarrow>
    op_ok op (cl_node c (lk_nodeID k)) \<Longrightarrow> gstep gob logs sh ap oss c (do_local ap oss (lk_nodeID k) op c)"
| g_other: "(\<And>owner. cstep ap oss owner c c') \<Longrightarrow> gstep gob logs sh ap oss c c'"

lemma gstep_cstep: "gstep gob logs sh ap oss c c' \<Longrightarrow> cstep ap oss (epochOwner gob logs sh) c c'"
proof (induction rule: gstep.induct)
  case (g_keeper op barrier rb rd nowNs en engines k c)
  show ?case by (rule cs_local [OF keeper_owns g_keeper(6)]) (rule g_keeper)+
qed simp

lemma gsteps_csteps:
  assumes "(gstep gob logs sh ap oss)\<^sup>*\<^sup>* c0 c"
  shows "(cstep ap oss (epochOwner gob logs sh))\<^sup>*\<^sup>* c0 c"
  using assms by (induction rule: rtranclp_induct) (auto dest: gstep_cstep intro: rtranclp.rtrancl_into_rtrancl)


text \<open>The run of the two-node group again, its first step now a tick of node a's keeper after the log
  has made it the primary of epoch 1.\<close>

definition exampleGob :: gobCodec where
  "exampleGob = tableGob [emptyBody\<lparr>l_Epoch := 1, l_Primary := ''a'', l_ISR := [''a'', ''b'']\<rparr>] emptyState"

definition exampleLog :: "raftLog list" where
  "exampleLog = [\<lparr>rl_Index = 1, rl_Data = [8, 0]\<rparr>]"

lemma exampleLog_view:
  "ShardPrimary 0 (metaView exampleGob exampleLog 1) = ''a''" "ShardEpoch 0 (metaView exampleGob exampleLog 1) = 1"
  by code_simp+

definition viewA :: "int \<Rightarrow> nat \<Rightarrow> State" where
  "viewA = (\<lambda>_ _. metaView exampleGob exampleLog 1)"

lemma viewA_reads:
  "ShardPrimary 0 (viewA sh i) = ''a''" "ShardEpoch 0 (viewA sh i) = 1" "pairedReads exampleGob exampleLog 0 viewA"
  by (simp_all only: viewA_def exampleLog_view pairedReads_def) blast

lemma keeperA: "fst (keeperTick (Some True) (Some (\<lambda>_. True)) viewA 0 (\<lambda>_. 0) [(0, nodeA 0)]
    \<lparr>lk_nodeID = ''a'', lk_leaseTTL = 100, lk_barriered = []\<rparr>) = [(0, DoPromote 0 1 100)]"
proof -
  have "e_epoch (nodeA 0) = 0" by code_simp
  then show ?thesis
    by (simp add: keeperTick_def keeperShard_def viewA_reads gget_def keeperOp_def Let_def)
qed

lemma keeper_step: "gstep exampleGob exampleLog 0 logApplier None group0 group1"
proof -
  have "gstep exampleGob exampleLog 0 logApplier None group0 (do_local logApplier None
      (lk_nodeID \<lparr>lk_nodeID = ''a'', lk_leaseTTL = 100, lk_barriered = []\<rparr>) (DoPromote 0 1 100) group0)"
    by (rule g_keeper [where barrier = "Some True" and rb = "Some (\<lambda>_. True)" and rd = viewA and nowNs = 0 and
        en = "\<lambda>_. 0" and engines = "[(0, nodeA 0)]"])
      (simp_all add: keeperA group_nodes group_ops_ok viewA_reads)
  then show ?thesis by (simp add: group1_def)
qed

lemma controlled_run: "(gstep exampleGob exampleLog 0 logApplier None)\<^sup>*\<^sup>* group0 group5"
proof -
  let ?G = "gstep exampleGob exampleLog 0 logApplier None"
  have 2: "?G group1 group2" unfolding group2_def
    by (rule g_other, rule cs_local) (simp_all only: group_nodes group_ops_ok, simp)
  have 3: "?G group2 group3" unfolding group3_def
    by (rule g_other, rule cs_local) (simp_all only: group_nodes group_ops_ok, simp)
  have 4: "?G group3 group4" unfolding group4_def
    by (rule g_other, rule cs_deliver [where m = "''a''" and now = 15, OF _ group_frames(2) _ _ group_frames(3)])
      (simp_all add: group_nodes group_frames room_def prod_eq_iff)
  have 5: "?G group4 group5" unfolding group5_def
    by (rule g_other, rule cs_local) (simp_all only: group_nodes group_ops_ok, simp add: group_nodes group_frames, simp add: group4_def)
  from keeper_step 2 3 4 5 show ?thesis by (meson converse_rtranclp_into_rtranclp rtranclp.rtrancl_refl)
qed


end
