(* ===== verification/CatchupLive.thy ===== *)
theory CatchupLive
  imports EngineOps "HOL-Library.Sublist"
begin

text \<open>
  Catch-up to the end: the loops of \<^verbatim>\<open>StartLearnerCatchup\<close> (\<^verbatim>\<open>shard/pbisr/pb_grow.go\<close>) against a real
  backup engine. A target whose frontier lies on the primary's history, within the retained ring, is
  brought up in bounded groups and becomes a learner whose queue is exactly what it still misses.
\<close>

section \<open>The history a target misses\<close>

text \<open>Retained entries that continue a frontier of epoch \<open>pe\<close>, all written in epoch \<open>E\<close>.\<close>

fun chain :: "u64 \<Rightarrow> u64 \<Rightarrow> ringEntry list \<Rightarrow> bool" where
  "chain E pe [] = True"
| "chain E pe (x # xs) = (re_epoch x = E \<and> re_prevEpoch x = pe \<and> chain E E xs)"

lemma chain_append: "chain E pe (xs @ ys) = (chain E pe xs \<and> chain E (if xs = [] then pe else E) ys)"
  by (induction xs arbitrary: pe) auto

lemma chain_epoch: "chain E pe xs \<Longrightarrow> x \<in> set xs \<Longrightarrow> re_epoch x = E"
  by (induction xs arbitrary: pe) auto

text \<open>\<open>missing e E k kEp suf\<close>: the primary retains everything after the frontier \<open>(k, kEp)\<close>, it is \<open>suf\<close>,
  and it reaches the primary's own last write.\<close>

definition missing :: "'s Engine \<Rightarrow> u64 \<Rightarrow> u64 \<Rightarrow> u64 \<Rightarrow> ringEntry list \<Rightarrow> bool" where
  "missing e E k kEp suf = (ring_wf (e_backlog e) \<and> dense (ring_entries (e_backlog e)) \<and>
     suffix suf (ring_entries (e_backlog e)) \<and> chain E kEp suf \<and>
     unat k + length suf = unat (e_lastSeq e) \<and> (suf \<noteq> [] \<longrightarrow> re_seq (hd suf) = k + 1))"

lemma dense_append: "dense (xs @ ys) \<Longrightarrow> dense ys"
proof (induction xs)
  case (Cons x xs)
  then show ?case by (cases "xs @ ys") auto
qed simp

lemma dense_take: "dense xs \<Longrightarrow> dense (take n xs)"
proof (induction xs arbitrary: n rule: dense.induct)
  case (3 e f es)
  show ?case using "3.prems" "3.IH" [of "n - 1"] by (cases n; cases "n - 1") auto
qed (auto simp: take_Cons')

lemma missing_drop:
  assumes "missing e E k kEp suf" "0 < n" "n \<le> length suf"
  shows "missing e E (k + of_nat n) E (drop n suf)"
proof -
  obtain pre where es: "ring_entries (e_backlog e) = pre @ suf" using assms(1) by (auto simp: missing_def suffix_def)
  have d: "dense suf" using assms(1) es dense_append by (auto simp: missing_def)
  have u: "unat (k + of_nat n) = unat k + n"
    using assms unat_lt [of "e_lastSeq e"] by (subst unat_word_ariths) (simp add: missing_def unat_of_nat)
  have "chain E E (drop n suf)"
    using assms chain_append [of E kEp "take n suf" "drop n suf"] by (cases suf) (auto simp: missing_def)
  moreover have "re_seq (hd (drop n suf)) = k + of_nat n + 1" if "drop n suf \<noteq> []"
    using that assms dense_nth [OF d, of n] by (cases suf) (simp_all add: missing_def hd_drop_conv_nth)
  ultimately show ?thesis using assms u suffix_drop [of n suf] suffix_order.trans
    by (fastforce simp: missing_def)
qed


section \<open>Reading the delta\<close>

lemma ringDeltaLoop_exact:
  assumes "ring_wf r" "dense (ring_entries r)" "i + n \<le> length (ring_entries r)"
    "\<forall>x\<in>set (drop i (ring_entries r)). re_epoch x = E" "run = None \<or> run = Some E"
    "n \<noteq> 0 \<longrightarrow> s = re_seq (ring_entries r ! i)"
  shows "ringDeltaLoop r run s n = Some (map entryMsg (take n (drop i (ring_entries r))))"
  using assms(3-6)
proof (induction n arbitrary: i run s)
  case (Suc n)
  let ?es = "ring_entries r"
  have i: "i < length ?es" using Suc.prems(1) by linarith
  have c: "drop i ?es = ?es ! i # drop (Suc i) ?es" using i by (rule Cons_nth_drop_Suc [symmetric])
  have at: "ring_at r s = Some (?es ! i)" using ring_at_dense [OF assms(1,2) i] Suc.prems(4) by simp
  have ep: "re_epoch (?es ! i) = E" using Suc.prems(2) c by simp
  have "s + 1 = re_seq (?es ! Suc i)" if "n \<noteq> 0"
    using that Suc.prems(1,4) dense_nth [OF assms(2), of i] dense_nth [OF assms(2), of "Suc i"] i by simp
  then have "ringDeltaLoop r (Some E) (s + 1) n = Some (map entryMsg (take n (drop (Suc i) ?es)))"
    using Suc.prems(1,2) c by (intro Suc.IH) auto
  then show ?case using at ep Suc.prems(3) c by auto
qed simp

lemma delta_exact:
  assumes m: "missing e E k kEp suf" and n: "n \<le> length suf" and room: "unat (e_lastSeq e) + 1 < 2 ^ 64"
  shows "ringDeltaLocked (k + 1) (k + of_nat n) e = Some (map entryMsg (take n suf))"
proof -
  let ?r = "e_backlog e" and ?es = "ring_entries (e_backlog e)"
  obtain pre where es: "?es = pre @ suf" using m by (auto simp: missing_def suffix_def)
  have d: "dense ?es" and wf: "ring_wf ?r" using m by (simp_all add: missing_def)
  have len: "unat k + length suf = unat (e_lastSeq e)" using m by (simp add: missing_def)
  have u: "unat (k + of_nat j) = unat k + j" if "j \<le> length suf + 1" for j
    using that len room by (subst unat_word_ariths) (simp add: unat_of_nat)
  have u1: "unat (k + 1) = unat k + 1" using u [of 1] by simp
  show ?thesis
  proof (cases "n = 0")
    case True
    then show ?thesis using u1 by (simp add: ringDeltaLocked_def word_less_nat_alt)
  next
    case False
    then have ne: "suf \<noteq> []" using n by auto
    have hd: "re_seq (hd suf) = k + 1" using m ne by (simp add: missing_def)
    have at: "?es ! length pre = hd suf" using es ne by (simp add: hd_conv_nth nth_append)
    have "re_seq (last suf) = k + 1 + of_nat (length suf - 1)"
      using dense_nth [OF dense_append [OF d [unfolded es]], of "length suf - 1"] hd ne
      by (simp add: last_conv_nth)
    then have "re_seq (last ?es) = k + of_nat (length suf)" using es ne by (cases suf) simp_all
    moreover have "re_seq (?es ! length pre) = k + 1" "length pre < length ?es" using at hd es ne by simp_all
    then have "unat (k + 1) = unat (re_seq (hd ?es)) + length pre" using dense_nth [OF d, of "length pre"] by metis
    then have "re_seq (hd ?es) \<le> k + 1" by (simp only: word_le_nat_alt)
    ultimately have sp: "ring_span ?r = Some (re_seq (hd ?es), k + of_nat (length suf))" "\<not> k + 1 < re_seq (hd ?es)"
      using ring_span_entries [OF wf] es ne by (simp_all add: not_less)
    have le: "\<not> k + of_nat n < k + 1" "\<not> k + of_nat n > k + of_nat (length suf)"
      using u [of n] u [of "length suf"] u1 n False by (simp_all add: word_less_nat_alt)
    have cnt: "unat (k + of_nat n - (k + 1)) + 1 = n"
    proof -
      have "unat (k + of_nat n - (k + 1)) = unat (k + of_nat n) - unat (k + 1)"
        using le(1) by (intro unat_sub) (simp add: not_less)
      then show ?thesis using u [of n] u1 n False by simp
    qed
    have "ringDeltaLoop ?r None (k + 1) n = Some (map entryMsg (take n (drop (length pre) ?es)))"
      using chain_epoch m es n hd at by (intro ringDeltaLoop_exact [OF wf d]) (auto simp: missing_def)
    then show ?thesis using sp le cnt es unfolding ringDeltaLocked_def Let_def by simp
  qed
qed

section \<open>A target that takes the groups\<close>

definition total_applier :: "'s applier \<Rightarrow> bool" where
  "total_applier ap = (\<forall>s d. \<exists>s' r. ap s d = Inr (s', r))"

text \<open>The target's side of a group, over a transport that delivers it.\<close>

definition shipTo :: "'s applier \<Rightarrow> int \<Rightarrow> 's Engine \<Rightarrow> ReplicateMsg list \<Rightarrow> 's Engine \<times> (pbError + AckMsg)" where
  "shipTo ap now t msgs = (case ReceiveGroup ap now msgs t of (t1, ack) \<Rightarrow> (t1, Inr ack))"

definition helloTo :: "'s Engine \<Rightarrow> pbError + CatchupInfoMsg" where
  "helloTo t = Inr (CatchupInfo t)"

text \<open>A backup engine at the frontier \<open>(k, kEp)\<close>, open for writes of epoch \<open>E\<close>.\<close>

definition awaits :: "'s Engine \<Rightarrow> u64 \<Rightarrow> u64 \<Rightarrow> u64 \<Rightarrow> bool" where
  "awaits t E k kEp = (\<not> e_poisoned t \<and> e_epoch t \<le> E \<and> appliedFrontierLocked t = (k, kEp))"

lemma receiveAll_chain:
  assumes "total_applier ap" "chain E kEp es" "awaits t E k kEp" "dense es" "unat k + length es < 2 ^ 64"
    "es \<noteq> [] \<longrightarrow> re_seq (hd es) = k + 1"
  shows "\<exists>t1. receiveAll ap now E k (map entryMsg es) t =
      (t1, \<lparr>a_Epoch = E, a_Seq = k + of_nat (length es), a_OK = True\<rparr>) \<and>
    awaits t1 E (k + of_nat (length es)) (if es = [] then kEp else E) \<and>
    applyAll ap (e_fsm t) (map re_data es) = Some (e_fsm t1)"
  using assms(2-)
proof (induction es arbitrary: k kEp t)
  case (Cons x es)
  have x: "re_epoch x = E" "re_prevEpoch x = kEp" "re_seq x = k + 1" "chain E E es" using Cons.prems by auto
  have "unat (k + 1) = unat k + 1" using Cons.prems(4) by (intro unat_Suc) simp
  then have u: "unat (k + 1) = unat k + 1" "k + 1 \<noteq> 0" by (auto simp: unat_eq_0 [symmetric])
  obtain s r where s: "ap (e_fsm t) (re_data x) = Inr (s, r)" using assms(1) unfolding total_applier_def by blast
  have acc: "accepts ap (entryMsg x) t"
    using Cons.prems(2) x s by (simp add: accepts_def entryMsg_def awaits_def)
  obtain t0 ack where r: "receiveLocked ap now (entryMsg x) t = (t0, ack)" by fastforce
  note A = receive_accept [OF acc _ r]
  have t0: "awaits t0 E (k + 1) E" "ack = \<lparr>a_Epoch = E, a_Seq = k + 1, a_OK = True\<rparr>"
    "\<exists>r. ap (e_fsm t) (re_data x) = Inr (e_fsm t0, r)"
    using A x u Cons.prems(2) by (auto simp: awaits_def entryMsg_def)
  have "dense es" "es \<noteq> [] \<longrightarrow> re_seq (hd es) = k + 1 + 1" using Cons.prems(3) x(3) by (cases es; simp)+
  then obtain t1 where t1: "receiveAll ap now E (k + 1) (map entryMsg es) t0 =
      (t1, \<lparr>a_Epoch = E, a_Seq = k + 1 + of_nat (length es), a_OK = True\<rparr>)"
    "awaits t1 E (k + 1 + of_nat (length es)) E" "applyAll ap (e_fsm t0) (map re_data es) = Some (e_fsm t1)"
    using Cons.IH [OF x(4) t0(1)] u Cons.prems(4) by auto
  have "m_Seq (entryMsg x) = k + 1" using x by (simp add: entryMsg_def)
  then show ?case using t1 t0 r by (auto simp: algebra_simps)
qed (simp add: awaits_def)

lemma shipTo_chain:
  assumes "total_applier ap" "chain E kEp es" "awaits t E k kEp" "dense es" "unat k + length es < 2 ^ 64"
    "es \<noteq> []" "re_seq (hd es) = k + 1"
  shows "\<exists>t1. shipTo ap now t (map entryMsg es) =
      (t1, Inr \<lparr>a_Epoch = E, a_Seq = k + of_nat (length es), a_OK = True\<rparr>) \<and>
    awaits t1 E (k + of_nat (length es)) E \<and> applyAll ap (e_fsm t) (map re_data es) = Some (e_fsm t1)"
proof -
  obtain x xs where es: "es = x # xs" using assms(6) by (cases es) auto
  have "unat (k + 1) = unat k + 1" using assms(5) es by (intro unat_Suc) simp
  then have "k + 1 \<noteq> 0" by (auto simp: unat_eq_0 [symmetric])
  then have "ReceiveGroup ap now (map entryMsg es) t = receiveAll ap now E k (map entryMsg es) t"
    using assms(2,7) es by (simp add: ReceiveGroup_def entryMsg_def)
  then show ?thesis using receiveAll_chain [OF assms(1-5), of now] assms(6,7) by (auto simp: shipTo_def)
qed

section \<open>The loops\<close>

lemma missing_dense: "missing e E k kEp suf \<Longrightarrow> dense suf"
  by (auto simp: missing_def suffix_def dest: dense_append)

lemma missing_gap:
  assumes "missing e E k kEp suf"
  shows "e_lastSeq e - k = of_nat (length suf)" "unat (e_lastSeq e - k) = length suf" "k + of_nat (length suf) = e_lastSeq e"
proof -
  have l: "unat k + length suf = unat (e_lastSeq e)" using assms by (simp add: missing_def)
  have "of_nat (unat k + length suf) = e_lastSeq e" unfolding l by simp
  then show 1: "k + of_nat (length suf) = e_lastSeq e" by simp
  then show 2: "e_lastSeq e - k = of_nat (length suf)" by (metis add_diff_cancel_left')
  have "unat (e_lastSeq e - k) = unat (e_lastSeq e) - unat k" using l by (intro unat_sub) (simp add: word_le_nat_alt)
  then show "unat (e_lastSeq e - k) = length suf" using l by simp
qed

lemma backfill_target:
  assumes "missing e E k kEp suf" "unat (e_lastSeq e) + 256 < 2 ^ 64"
  shows "(if k + growBackfillBatch > e_lastSeq e then e_lastSeq e else k + growBackfillBatch) =
    k + of_nat (min 256 (length suf))"
proof -
  have l: "unat k + length suf = unat (e_lastSeq e)" using assms(1) by (simp add: missing_def)
  have "unat (k + 256) = unat k + 256" using l assms(2) by (subst unat_word_ariths) simp
  then have "k + 256 > e_lastSeq e \<longleftrightarrow> length suf < 256" using l unfolding word_less_nat_alt by linarith
  then show ?thesis using missing_gap(3) [OF assms(1)] by (simp add: growBackfillBatch_def min_def)
qed

lemma backfill_round:
  assumes ap: "total_applier ap" and m: "missing e E k kEp suf" and t: "awaits t E k kEp"
    and room: "unat (e_lastSeq e) + 256 < 2 ^ 64" and prim: "e_epoch e = E" "e_leaseEpoch e = E"
    and far: "\<not> e_lastSeq e - k \<le> gap" and n: "n = min 256 (length suf)"
  shows "0 < n \<and> n \<le> length suf \<and> (\<exists>t1. awaits t1 E (k + of_nat n) E \<and>
    backfillLearner (shipTo ap now) E gap e k t = backfillLearner (shipTo ap now) E gap e (k + of_nat n) t1 \<and>
    applyAll ap (e_fsm t) (map re_data (take n suf)) = Some (e_fsm t1))"
proof -
  note gap = missing_gap [OF m]
  have l: "unat k + length suf = unat (e_lastSeq e)" "suf \<noteq> [] \<longrightarrow> re_seq (hd suf) = k + 1" "chain E kEp suf"
    using m by (simp_all add: missing_def)
  have "0 < length suf" using far gap(2) by (cases suf) (simp_all add: word_le_nat_alt)
  then have n1: "0 < n" "n \<le> length suf" "suf \<noteq> []" using n by auto
  let ?ms = "take n suf"
  have ms: "chain E kEp ?ms" "dense ?ms" "?ms \<noteq> []" "re_seq (hd ?ms) = k + 1" "length ?ms = n"
    using chain_append [of E kEp ?ms "drop n suf"] missing_dense [OF m] l n1 dense_take by auto
  obtain t1 where t1: "shipTo ap now t (map entryMsg ?ms) = (t1, Inr \<lparr>a_Epoch = E, a_Seq = k + of_nat n, a_OK = True\<rparr>)"
    "awaits t1 E (k + of_nat n) E" "applyAll ap (e_fsm t) (map re_data ?ms) = Some (e_fsm t1)"
    using shipTo_chain [OF ap ms(1) t ms(2) _ ms(3,4), of now] ms(5) l(1) room n1(2) by auto
  have u: "unat (k + of_nat n) = unat k + n"
    using l(1) room n1(2) by (subst unat_word_ariths) (simp add: unat_of_nat)
  have "re_seq (last ?ms) = k + 1 + of_nat (n - 1)"
    using dense_nth [OF ms(2), of "n - 1"] ms(3-5) n1(1) by (simp add: last_conv_nth)
  then have last: "m_Seq (last (map entryMsg ?ms)) = k + of_nat n"
    using ms(3) n1(1) by (simp add: last_map entryMsg_def of_nat_diff)
  have "\<not> k + of_nat n \<le> k" using u n1(1) by (simp add: word_le_nat_alt)
  then have "backfillLearner (shipTo ap now) E gap e k t = backfillLearner (shipTo ap now) E gap e (k + of_nat n) t1"
    using far prim delta_exact [OF m n1(2)] backfill_target [OF m room, folded n] n1(1) t1(1) last ms(3) room
    by (subst backfillLearner.simps) (simp add: Let_def)
  then show ?thesis using t1 n1 by blast
qed

lemma backfill_catches_up:
  assumes "total_applier ap" "missing e E k kEp suf" "awaits t E k kEp" "unat (e_lastSeq e) + 256 < 2 ^ 64"
    "e_epoch e = E" "e_leaseEpoch e = E"
  shows "\<exists>t1 k1 sent left kEp1. backfillLearner (shipTo ap now) E gap e k t = (t1, Inr k1) \<and> suf = sent @ left \<and>
    length left \<le> unat gap \<and> missing e E k1 kEp1 left \<and> awaits t1 E k1 kEp1 \<and>
    applyAll ap (e_fsm t) (map re_data sent) = Some (e_fsm t1)"
  using assms(2,3)
proof (induction "length suf" arbitrary: suf k kEp t rule: less_induct)
  case less
  note gap = missing_gap [OF less.prems(1)]
  show ?case
  proof (cases "e_lastSeq e - k \<le> gap")
    case True
    have "backfillLearner (shipTo ap now) E gap e k t = (t, Inr k)"
      using True assms(5,6) by (subst backfillLearner.simps) simp
    moreover have "length suf \<le> unat gap" using True gap(2) by (simp add: word_le_nat_alt)
    ultimately show ?thesis using less.prems
      by (intro exI [of _ t] exI [of _ k] exI [of _ "[]"] exI [of _ suf] exI [of _ kEp]) simp
  next
    case False
    define n where "n = min 256 (length suf)"
    from backfill_round [OF assms(1) less.prems assms(4-6) False n_def] obtain t0 where
      n: "0 < n" "n \<le> length suf" and t0: "awaits t0 E (k + of_nat n) E"
      "backfillLearner (shipTo ap now) E gap e k t = backfillLearner (shipTo ap now) E gap e (k + of_nat n) t0"
      "applyAll ap (e_fsm t) (map re_data (take n suf)) = Some (e_fsm t0)" by blast
    have "length (drop n suf) < length suf" using n by simp
    from less.hyps [OF this missing_drop [OF less.prems(1) n] t0(1)] obtain t1 k1 sent left kEp1 where
      r: "backfillLearner (shipTo ap now) E gap e (k + of_nat n) t0 = (t1, Inr k1)" "drop n suf = sent @ left"
      "length left \<le> unat gap" "missing e E k1 kEp1 left" "awaits t1 E k1 kEp1"
      "applyAll ap (e_fsm t0) (map re_data sent) = Some (e_fsm t1)" by blast
    have "suf = (take n suf @ sent) @ left" using r(2) by (metis append_take_drop_id append_assoc)
    moreover have "applyAll ap (e_fsm t) (map re_data (take n suf @ sent)) = Some (e_fsm t1)"
      using t0(3) r(6) by (simp add: applyAll_append)
    ultimately show ?thesis using t0(2) r by metis
  qed
qed

lemma flip_installs:
  assumes m: "missing e E k kEp left" and room: "unat (e_lastSeq e) + 256 < 2 ^ 64" and small: "length left \<le> 256"
    and prim: "e_epoch e = E" "e_leaseEpoch e = E" "now < e_leaseExpiry e" "\<not> e_closed e"
  shows "\<exists>e1. flipOnce now peer E k e = FlipDone e1 \<and> IsLearner peer e1 \<and> \<not> LearnerAbandonedAt peer e1 \<noteq> None \<and>
    map_of (e_peerQ e1) peer = Some \<lparr>ps_ch = map entryMsg left, ps_pending = int (length left)\<rparr> \<and>
    e_lastSeq e1 = e_lastSeq e \<and> e_fsm e1 = e_fsm e"
proof -
  note gap = missing_gap [OF m]
  have near: "\<not> e_lastSeq e - k > of_nat pipelineWindow"
    using gap(2) small by (simp add: word_less_nat_alt pipelineWindow_def)
  have d: "ringDeltaLocked (k + 1) (e_lastSeq e) e = Some (map entryMsg left)"
    using delta_exact [OF m order.refl] gap(3) room by simp
  show ?thesis unfolding flipOnce_def Let_def
    using near d gap(1) prim
    by (simp add: createLearnerSenderLocked_def Let_def dropPeerLocked_def IsLearner_def LearnerAbandonedAt_def
        update_conv' delete_conv')
qed

lemma gate_passes:
  assumes m: "missing e E k kEp suf" and f: "appliedFrontierLocked e = (e_lastSeq e, fe)" and z: "suf = [] \<longrightarrow> kEp = fe"
    and room: "unat (e_lastSeq e) + 256 < 2 ^ 64"
  shows "checkCatchupDivergenceLocked k kEp e = None"
proof (cases "suf = []")
  case True
  then show ?thesis using m f z missing_gap(3) [OF m] by (simp add: checkCatchupDivergenceLocked_def)
next
  case False
  obtain pre where es: "ring_entries (e_backlog e) = pre @ suf" using m by (auto simp: missing_def suffix_def)
  have l: "unat k + length suf = unat (e_lastSeq e)" using m by (simp add: missing_def)
  then have lt: "k < e_lastSeq e" using False by (cases suf) (simp_all add: word_less_nat_alt)
  have "ring_at (e_backlog e) (re_seq (ring_entries (e_backlog e) ! length pre)) = Some (ring_entries (e_backlog e) ! length pre)"
    using m es False by (intro ring_at_dense) (auto simp: missing_def)
  moreover have "ring_entries (e_backlog e) ! length pre = hd suf" using es False by (simp add: hd_conv_nth nth_append)
  ultimately have at: "ring_at (e_backlog e) (k + 1) = Some (hd suf)" using m False by (simp add: missing_def)
  have "re_prevEpoch (hd suf) = kEp" using m False by (cases suf) (auto simp: missing_def)
  then show ?thesis using at lt f by (auto simp: checkCatchupDivergenceLocked_def)
qed


definition writing :: "bytes list Engine" where
  "writing = engine_run logApplier None [DoPromote 0 1 100, DoPropose (\<lambda>_ _. False) ''a'' [''a''] 1 10 11 [7],
     DoPropose (\<lambda>_ _. False) ''a'' [''a''] 1 12 13 [8]] example_engine"

definition behind :: "bytes list Engine" where
  "behind = example_engine\<lparr>e_nodeID := ''b''\<rparr>"

definition written :: "ringEntry list" where
  "written = [\<lparr>re_epoch = 1, re_seq = 1, re_prevEpoch = 0, re_data = [7]\<rparr>, \<lparr>re_epoch = 1, re_seq = 2, re_prevEpoch = 1, re_data = [8]\<rparr>]"

lemma writing_state:
  "ring_wf (e_backlog writing)" "ring_entries (e_backlog writing) = written" "e_lastSeq writing = 2"
  "appliedFrontierLocked writing = (2, 1)" "e_epoch writing = 1" "e_leaseEpoch writing = 1" "e_leaseExpiry writing = 100"
  "e_closed writing = False"
  by code_simp+

lemma behind_state: "awaits behind 1 0 0" "e_fsm behind = []"
  by code_simp+

lemma writing_missing: "missing writing 1 0 0 written"
  by (simp add: missing_def writing_state) (simp add: written_def)

lemma total_log: "total_applier logApplier"
  by (simp add: total_applier_def logApplier_def)


section \<open>A group the wire refuses\<close>

text \<open>The backfill bounds its groups by their number of writes only. With 256 retained writes of 512 KiB
  each, a size the write path admits, the group exceeds what a frame may carry; the peer's reader
  refuses it, and the catch-up of such a target cannot succeed.\<close>

lemma oversize_refused:
  assumes "pbMaxPayload < of_nat (length (f_payload f))"
  shows "pbFrameReader_read (writePBFrameHdr f @ r) = Inl errPBOversize"
proof -
  have "rd_le32 (drop 15 (writePBFrameHdr f)) = of_nat (length (f_payload f))"
    by (simp add: writePBFrameHdr_def codec_simps)
  then show ?thesis using assms
    by (simp add: pbFrameReader_read_def readFull_def Let_def) (simp add: writePBFrameHdr_def)
qed

lemma backfill_group_oversize:
  assumes "length ms = unat growBackfillBatch" "list_all (\<lambda>m. length (m_Data m) = 2 ^ 19) ms"
  shows "pbFrameReader_read (writePBFrameHdr \<lparr>f_kind = kind, f_shard = sh, f_reqID = req,
      f_payload = encodeReplicateGroup [] ms\<rparr> @ r) = Inl errPBOversize"
proof (rule oversize_refused)
  have "map (length \<circ> group_record) ms = replicate (length ms) (4 + 2 ^ 19)"
    using assms(2) by (induction ms) auto
  then have "length (encodeReplicateGroup [] ms) = 36 + 256 * (4 + 2 ^ 19)"
    using assms(1) by (simp add: encodeReplicateGroup_def encodeGroupRecords_eq length_concat growBackfillBatch_def
        sum_list_replicate codec_simps)
  then show "pbMaxPayload < of_nat (length (f_payload \<lparr>f_kind = kind, f_shard = sh, f_reqID = req,
      f_payload = encodeReplicateGroup [] ms\<rparr>))" by (simp add: pbMaxPayload_def)
qed

end
