(* ===== verification/IsrDrivers.thy ===== *)
theory IsrDrivers
  imports LeaseKeeper
begin

text \<open>
  The drivers that change a shard's in-sync set (\<^verbatim>\<open>cluster/pb_shrink.go\<close>, \<^verbatim>\<open>cluster/pb_grow.go\<close>) and
  their bookkeeping of aborted attempts (\<^verbatim>\<open>cluster/pb_observability.go\<close>). One tick of a driver visits
  the node's engines in the order of a list, reads the committed state, reconciles committed changes
  into the engines and asks for changes of its own; the requests it makes come out as entries of the
  control-plane log. Whether a request is accepted is a parameter, and so is the outcome of a
  catch-up conversation with a target, which may leave the engine in any state.
\<close>

section \<open>Decisions\<close>

record pbShrinkRequest =
  sr_shardID :: int
  sr_epoch :: u64
  sr_newISR :: "node list"

definition decidePBShrink :: "int \<Rightarrow> u64 \<Rightarrow> node \<Rightarrow> node list \<Rightarrow> node list \<Rightarrow> int \<Rightarrow> pbShrinkRequest option" where
  "decidePBShrink shardID epoch primary isr stalled minISR =
     (if length stalled = 0 \<or> length isr = 0 then None
      else let drop = filter (\<lambda>s. s \<noteq> primary) stalled;
               newISR = filter (\<lambda>m. m \<notin> set drop) isr
           in if length newISR = length isr then None
              else if int (length newISR) < minISR then None
              else Some \<lparr>sr_shardID = shardID, sr_epoch = epoch, sr_newISR = newISR\<rparr>)"

definition isStrictSubset :: "node list \<Rightarrow> node list \<Rightarrow> bool" where
  "isStrictSubset sub super = (if length sub \<ge> length super then False else list_all (\<lambda>s. s \<in> set super) sub)"

definition decidePBGrow :: "node list \<Rightarrow> node list \<Rightarrow> node list" where
  "decidePBGrow placement isr = filter (\<lambda>owner. owner \<notin> set isr) placement"

definition growAbortReason :: "pbError \<Rightarrow> string" where
  "growAbortReason err = (case err of
     ErrGrowRingEvicted \<Rightarrow> ''ring_evicted'' | ErrCatchupDiverged \<Rightarrow> ''diverged''
   | ErrCatchupUnverifiable \<Rightarrow> ''unverifiable'' | ErrGrowSnapshotRejected \<Rightarrow> ''snapshot_rejected''
   | ErrGrowSnapshotExhausted \<Rightarrow> ''snapshot_exhausted'' | ErrGrowNoSnapshotStore \<Rightarrow> ''no_snapshot_store''
   | ErrGrowNoSnapshotTransport \<Rightarrow> ''no_snapshot_transport'' | ErrGrowEpochChanged \<Rightarrow> ''epoch_changed''
   | ErrGrowPeerAhead \<Rightarrow> ''peer_ahead'' | ErrGrowNoCatchupTransport \<Rightarrow> ''no_catchup_transport''
   | ErrGrowNoGroupTransport \<Rightarrow> ''no_group_transport'' | _ \<Rightarrow> ''other'')"

text \<open>The verified high-water mark of a failover candidate: this node's own engine, or the answer of
  the remote one to a catch-up request; \<open>None\<close> for a request that fails.\<close>

definition pbCandidateHighWater :: "node \<Rightarrow> (int, 's Engine) gomap \<Rightarrow> (int \<Rightarrow> node \<Rightarrow> CatchupInfoMsg option) \<Rightarrow>
    highWater" where
  "pbCandidateHighWater nodeID engines request shardID candidate =
     (if candidate = nodeID then
        (case map_of engines shardID of Some eng \<Rightarrow> if e_poisoned eng then (0, False) else (e_lastApplied eng, True)
         | None \<Rightarrow> (0, False))
      else case request shardID candidate of None \<Rightarrow> (0, False)
       | Some info \<Rightarrow> if \<not> ci_OK info then (0, False) else (ci_AppliedSeq info, True))"

section \<open>Abort bookkeeping\<close>

record pbAbortTracker =
  at_lastReason :: "(int \<times> node, string) gomap"
  at_counts :: "(int, (string, u64) gomap) gomap"

definition newPBAbortTracker :: pbAbortTracker where
  "newPBAbortTracker = \<lparr>at_lastReason = [], at_counts = []\<rparr>"

definition abort_record :: "int \<Rightarrow> node \<Rightarrow> string \<Rightarrow> pbAbortTracker \<Rightarrow> bool \<times> pbAbortTracker" where
  "abort_record shardID target reason t =
     (let c = gget [] (at_counts t) shardID; c1 = AList.update reason (gget 0 c reason + 1) c;
          shouldLog = (gget [] (at_lastReason t) (shardID, target) \<noteq> reason)
      in (shouldLog, t\<lparr>at_counts := AList.update shardID c1 (at_counts t),
            at_lastReason := AList.update (shardID, target) reason (at_lastReason t)\<rparr>))"

definition abort_clear :: "int \<Rightarrow> pbAbortTracker \<Rightarrow> pbAbortTracker" where
  "abort_clear shardID t = t\<lparr>at_lastReason := filter (\<lambda>((sh, _), _). sh \<noteq> shardID) (at_lastReason t)\<rparr>"

definition abort_snapshot :: "int \<Rightarrow> pbAbortTracker \<Rightarrow> (string, u64) gomap option" where
  "abort_snapshot shardID t = (let c = gget [] (at_counts t) shardID in if c = [] then None else Some c)"

section \<open>The shared baseline\<close>

type_synonym isrBaseline = "(int, u64 \<times> node list) gomap"

definition baseline_get :: "int \<Rightarrow> isrBaseline \<Rightarrow> (u64 \<times> node list) option" where
  "baseline_get sh b = map_of b sh"

definition baseline_set :: "int \<Rightarrow> u64 \<Rightarrow> node list \<Rightarrow> isrBaseline \<Rightarrow> isrBaseline" where
  "baseline_set sh epoch isr b = AList.update sh (epoch, isr) b"

definition baseline_forget :: "int \<Rightarrow> isrBaseline \<Rightarrow> isrBaseline" where
  "baseline_forget sh b = AList.delete sh b"

section \<open>The shrink driver\<close>

text \<open>The driver's state, the entries it has submitted in this tick, and the configuration.\<close>

record shrinkDrv =
  sd_base :: isrBaseline
  sd_aborts :: pbAbortTracker
  sd_submits :: "LogEntry list"

definition shrinkReconcile :: "int \<Rightarrow> int \<Rightarrow> u64 \<Rightarrow> node list \<Rightarrow> isrBaseline \<Rightarrow> 's Engine \<Rightarrow> 's Engine \<times> isrBaseline" where
  "shrinkReconcile now sh epoch isr b eng = (case baseline_get sh b of
     None \<Rightarrow> (eng, baseline_set sh epoch isr b)
   | Some (bep, bisr) \<Rightarrow>
       if bep \<noteq> epoch then (eng, baseline_set sh epoch isr b)
       else if isStrictSubset isr bisr then (ShrinkISR now epoch isr eng, baseline_set sh epoch isr b)
       else (eng, b))"

definition shrinkShard :: "(int \<Rightarrow> bool) \<Rightarrow> int \<Rightarrow> node \<Rightarrow> int \<Rightarrow> int \<Rightarrow> State \<Rightarrow> int \<Rightarrow> 's Engine \<Rightarrow> shrinkDrv \<Rightarrow>
    's Engine \<times> shrinkDrv" where
  "shrinkShard submitOK now nodeID minFailures minISR st sh eng d =
     (if gget [] (s_ShardPrimary st) sh \<noteq> nodeID
      then (eng, d\<lparr>sd_base := baseline_forget sh (sd_base d), sd_aborts := abort_clear sh (sd_aborts d)\<rparr>)
      else let epoch = gget 0 (s_ShardEpoch st) sh; isr = gget [] (s_ShardISR st) sh
           in if e_epoch eng \<noteq> epoch then (eng, d)
              else case shrinkReconcile now sh epoch isr (sd_base d) eng of (eng1, b1) \<Rightarrow>
                let d1 = d\<lparr>sd_base := b1\<rparr>; stalled = StalledPeers minFailures eng1
                in if length stalled = 0 then (eng1, d1\<lparr>sd_aborts := abort_clear sh (sd_aborts d1)\<rparr>)
                   else case decidePBShrink sh epoch nodeID isr stalled minISR of None \<Rightarrow> (eng1, d1)
                     | Some req \<Rightarrow>
                         let d2 = d1\<lparr>sd_submits := sd_submits d1 @ [entrySetShardISR (sr_shardID req) (sr_epoch req) (sr_newISR req)]\<rparr>
                         in if \<not> submitOK sh
                            then (eng1, d2\<lparr>sd_aborts := snd (abort_record sh [] ''submit_failed'' (sd_aborts d2))\<rparr>)
                            else (eng1, d2\<lparr>sd_aborts := abort_clear sh (sd_aborts d2)\<rparr>))"

fun shrinkTick :: "(int \<Rightarrow> bool) \<Rightarrow> int \<Rightarrow> node \<Rightarrow> int \<Rightarrow> int \<Rightarrow> State \<Rightarrow> (int \<times> 's Engine) list \<Rightarrow> shrinkDrv \<Rightarrow>
    (int \<times> 's Engine) list \<times> shrinkDrv" where
  "shrinkTick submitOK now nodeID minFailures minISR st [] d = ([], d)"
| "shrinkTick submitOK now nodeID minFailures minISR st ((sh, eng) # engs) d =
     (case shrinkShard submitOK now nodeID minFailures minISR st sh eng d of (eng1, d1) \<Rightarrow>
        case shrinkTick submitOK now nodeID minFailures minISR st engs d1 of (engs1, d2) \<Rightarrow> ((sh, eng1) # engs1, d2))"

section \<open>The grow driver\<close>

definition growStableTicks :: nat where "growStableTicks = 2"

text \<open>The signature of a committed epoch and in-sync set: the two as Go prints them, the set sorted.\<close>

function decimal :: "nat \<Rightarrow> string" where
  "decimal n = (if n < 10 then [char_of (48 + n)] else decimal (n div 10) @ [char_of (48 + n mod 10)])"
  by pat_completeness auto
termination by (relation "measure id") auto

fun spaced :: "string list \<Rightarrow> string" where
  "spaced [] = []"
| "spaced [x] = x"
| "spaced (x # xs) = x @ '' '' @ spaced xs"

definition isrSig :: "u64 \<Rightarrow> node list \<Rightarrow> string" where
  "isrSig epoch isr = decimal (unat epoch) @ '':['' @ spaced (sort isr) @ '']''"

record growDrv =
  gd_base :: isrBaseline
  gd_aborts :: pbAbortTracker
  gd_lastSig :: "(int, string) gomap"
  gd_stableFor :: "(int, nat) gomap"
  gd_submits :: "LogEntry list"
  gd_st :: State
  gd_fresh :: bool

definition growReconcile :: "int \<Rightarrow> u64 \<Rightarrow> node list \<Rightarrow> isrBaseline \<Rightarrow> 's Engine \<Rightarrow> 's Engine \<times> isrBaseline" where
  "growReconcile sh epoch isr b eng = (case baseline_get sh b of
     None \<Rightarrow> (eng, baseline_set sh epoch isr b)
   | Some (bep, bisr) \<Rightarrow>
       if bep \<noteq> epoch then (eng, baseline_set sh epoch isr b)
       else if isStrictSubset bisr isr then (GrowISR epoch isr eng, baseline_set sh epoch isr b)
       else (eng, b))"

definition growPlacement :: "State \<Rightarrow> int \<Rightarrow> node list" where
  "growPlacement st sh = (if sh \<ge> 0 \<and> sh < int (length (s_Placement st)) then s_Placement st ! nat sh else [])"

definition LearnerAbandoned :: "node \<Rightarrow> 's Engine \<Rightarrow> bool" where
  "LearnerAbandoned peer e = (LearnerAbandonedAt peer e \<noteq> None)"

text \<open>Step 2 of the tick: every abandoned member is asked out again. The flag says that a request failed.\<close>

fun growCompensate :: "(int \<Rightarrow> node list \<Rightarrow> bool) \<Rightarrow> int \<Rightarrow> u64 \<Rightarrow> node list \<Rightarrow> node list \<Rightarrow> growDrv \<Rightarrow> bool \<Rightarrow>
    growDrv \<times> bool" where
  "growCompensate submitOK sh epoch isr [] d failed = (d, failed)"
| "growCompensate submitOK sh epoch isr (m # ms) d failed =
     (let narrowed = filter (\<lambda>x. x \<noteq> m) isr;
          d1 = d\<lparr>gd_submits := gd_submits d @ [entrySetShardISR sh epoch narrowed]\<rparr>
      in if \<not> submitOK sh narrowed
         then growCompensate submitOK sh epoch isr ms
                (d1\<lparr>gd_aborts := snd (abort_record sh m ''abandon_compensation_submit_failed'' (gd_aborts d1))\<rparr>) True
         else growCompensate submitOK sh epoch isr ms d1 failed)"

text \<open>Step 3: catch the candidates up one by one until one is re-added.\<close>

fun growReadd :: "(int \<Rightarrow> node list \<Rightarrow> bool) \<Rightarrow> (int \<Rightarrow> node \<Rightarrow> 's Engine \<Rightarrow> 's Engine \<times> pbError option) \<Rightarrow> int \<Rightarrow> u64 \<Rightarrow>
    node list \<Rightarrow> node list \<Rightarrow> 's Engine \<Rightarrow> growDrv \<Rightarrow> 's Engine \<times> growDrv \<times> bool" where
  "growReadd submitOK catchup sh epoch isr [] eng d = (eng, d, False)"
| "growReadd submitOK catchup sh epoch isr (target # ts) eng d =
     (case catchup sh target eng of
        (eng1, Some err) \<Rightarrow> growReadd submitOK catchup sh epoch isr ts eng1
            (d\<lparr>gd_aborts := snd (abort_record sh target (growAbortReason err) (gd_aborts d))\<rparr>)
      | (eng1, None) \<Rightarrow>
          if \<not> IsLearner target eng1 \<or> LearnerAbandoned target eng1
          then growReadd submitOK catchup sh epoch isr ts (AbortLearnerCatchup target eng1)
                 (d\<lparr>gd_aborts := snd (abort_record sh target ''learner_abandoned_pre_submit'' (gd_aborts d))\<rparr>)
          else let newISR = isr @ [target];
                   d1 = d\<lparr>gd_submits := gd_submits d @ [entrySetShardISR sh epoch newISR]\<rparr>
               in if \<not> submitOK sh newISR
                  then growReadd submitOK catchup sh epoch isr ts (AbortLearnerCatchup target eng1)
                         (d1\<lparr>gd_aborts := snd (abort_record sh target ''submit_failed'' (gd_aborts d1))\<rparr>)
                  else (eng1, d1, True))"

text \<open>The part of the tick that may change the committed set, on a view read behind a quorum barrier.
  \<open>barrier\<close> is the view after the read barrier, or \<open>None\<close> when it fails; the flag of the result says
  that the whole tick ends.\<close>

definition growMutate :: "(int \<Rightarrow> node list \<Rightarrow> bool) \<Rightarrow> (int \<Rightarrow> node \<Rightarrow> 's Engine \<Rightarrow> 's Engine \<times> pbError option) \<Rightarrow>
    State option \<Rightarrow> node \<Rightarrow> int \<Rightarrow> string \<Rightarrow> 's Engine \<Rightarrow> growDrv \<Rightarrow> 's Engine \<times> growDrv \<times> bool" where
  "growMutate submitOK catchup barrier nodeID sh sig eng d0 =
     (case (if gd_fresh d0 then Some d0
            else map_option (\<lambda>st. d0\<lparr>gd_st := st, gd_fresh := True\<rparr>) barrier) of
        None \<Rightarrow> (eng, d0, True)
      | Some d \<Rightarrow>
          let st = gd_st d
          in if gget [] (s_ShardPrimary st) sh \<noteq> nodeID then (eng, d, False)
             else let epoch = gget 0 (s_ShardEpoch st) sh; isr = gget [] (s_ShardISR st) sh
                  in if e_epoch eng \<noteq> epoch \<or> isrSig epoch isr \<noteq> sig
                     then (eng, d\<lparr>gd_lastSig := AList.update sh (isrSig epoch isr) (gd_lastSig d),
                                  gd_stableFor := AList.update sh 0 (gd_stableFor d)\<rparr>, False)
                     else let ab = filter (\<lambda>m. m \<noteq> nodeID \<and> LearnerAbandoned m eng) isr
                          in if ab \<noteq> []
                             then (case growCompensate submitOK sh epoch isr ab d False of (d1, failed) \<Rightarrow>
                                     (eng, if failed then d1 else d1\<lparr>gd_aborts := abort_clear sh (gd_aborts d1)\<rparr>, False))
                             else (case growReadd submitOK catchup sh epoch isr
                                          (decidePBGrow (growPlacement st sh) isr) eng d of (eng1, d1, grew) \<Rightarrow>
                                     (eng1, if grew then d1\<lparr>gd_aborts := abort_clear sh (gd_aborts d1)\<rparr> else d1, False)))"

definition growShard :: "(int \<Rightarrow> node list \<Rightarrow> bool) \<Rightarrow> (int \<Rightarrow> node \<Rightarrow> 's Engine \<Rightarrow> 's Engine \<times> pbError option) \<Rightarrow>
    State option \<Rightarrow> node \<Rightarrow> int \<Rightarrow> 's Engine \<Rightarrow> growDrv \<Rightarrow> 's Engine \<times> growDrv \<times> bool" where
  "growShard submitOK catchup barrier nodeID sh eng d =
     (let st = gd_st d
      in if gget [] (s_ShardPrimary st) sh \<noteq> nodeID
         then (TeardownLearners eng, d\<lparr>gd_lastSig := AList.delete sh (gd_lastSig d),
                 gd_stableFor := AList.delete sh (gd_stableFor d), gd_aborts := abort_clear sh (gd_aborts d)\<rparr>, False)
         else let eng1 = ReclaimOrphanLearners eng; epoch = gget 0 (s_ShardEpoch st) sh; isr = gget [] (s_ShardISR st) sh
              in if e_epoch eng1 \<noteq> epoch then (eng1, d, False)
                 else case growReconcile sh epoch isr (gd_base d) eng1 of (eng2, b) \<Rightarrow>
                   let d1 = d\<lparr>gd_base := b\<rparr>; sig = isrSig epoch isr
                   in if gget [] (gd_lastSig d1) sh \<noteq> sig
                      then (eng2, d1\<lparr>gd_lastSig := AList.update sh sig (gd_lastSig d1),
                                    gd_stableFor := AList.update sh 0 (gd_stableFor d1)\<rparr>, False)
                      else let n = gget 0 (gd_stableFor d1) sh + 1;
                               d2 = d1\<lparr>gd_stableFor := AList.update sh n (gd_stableFor d1)\<rparr>
                           in if n < growStableTicks then (eng2, d2, False)
                              else if \<not> list_ex (\<lambda>m. m \<noteq> nodeID \<and> LearnerAbandoned m eng2) isr \<and>
                                      length (decidePBGrow (growPlacement st sh) isr) = 0
                              then (eng2, d2\<lparr>gd_aborts := abort_clear sh (gd_aborts d2)\<rparr>, False)
                              else growMutate submitOK catchup barrier nodeID sh sig eng2 d2)"

fun growLoop :: "(int \<Rightarrow> node list \<Rightarrow> bool) \<Rightarrow> (int \<Rightarrow> node \<Rightarrow> 's Engine \<Rightarrow> 's Engine \<times> pbError option) \<Rightarrow>
    State option \<Rightarrow> node \<Rightarrow> (int \<times> 's Engine) list \<Rightarrow> growDrv \<Rightarrow> (int \<times> 's Engine) list \<times> growDrv" where
  "growLoop submitOK catchup barrier nodeID [] d = ([], d)"
| "growLoop submitOK catchup barrier nodeID ((sh, eng) # engs) d =
     (case growShard submitOK catchup barrier nodeID sh eng d of (eng1, d1, stop) \<Rightarrow>
        if stop then ((sh, eng1) # engs, d1)
        else case growLoop submitOK catchup barrier nodeID engs d1 of (engs1, d2) \<Rightarrow> ((sh, eng1) # engs1, d2))"

definition growTick :: "(int \<Rightarrow> node list \<Rightarrow> bool) \<Rightarrow> (int \<Rightarrow> node \<Rightarrow> 's Engine \<Rightarrow> 's Engine \<times> pbError option) \<Rightarrow>
    State option \<Rightarrow> node \<Rightarrow> State \<Rightarrow> (int \<times> 's Engine) list \<Rightarrow> growDrv \<Rightarrow> (int \<times> 's Engine) list \<times> growDrv" where
  "growTick submitOK catchup barrier nodeID st engs d =
     growLoop submitOK catchup barrier nodeID engs (d\<lparr>gd_st := st, gd_fresh := False\<rparr>)"

section \<open>What the drivers ask for\<close>

lemma failures_foldl: "(\<And>e x. e_peerFailures (f e x) = e_peerFailures e) \<Longrightarrow> e_peerFailures (foldl f e xs) = e_peerFailures e"
  by (induction xs arbitrary: e) auto

lemma failures_shrink [simp]: "e_peerFailures (ShrinkISR now epoch isr e) = e_peerFailures e"
  unfolding ShrinkISR_def Let_def
  by (auto simp: failures_foldl dropPeerLocked_def updSlot_def split: option.split)

lemma decide_shrink:
  assumes "decidePBShrink sh epoch primary isr stalled minISR = Some req"
  shows "req = \<lparr>sr_shardID = sh, sr_epoch = epoch, sr_newISR = filter (\<lambda>m. m = primary \<or> m \<notin> set stalled) isr\<rparr>"
    "length (sr_newISR req) < length isr" "minISR \<le> int (length (sr_newISR req))"
proof -
  have f: "filter (\<lambda>m. m \<notin> set (filter (\<lambda>s. s \<noteq> primary) stalled)) isr = filter (\<lambda>m. m = primary \<or> m \<notin> set stalled) isr"
    by (rule filter_cong) auto
  have "length (filter P isr) < length isr" if "length (filter P isr) \<noteq> length isr" for P
    using that length_filter_le [of P isr] by linarith
  then show "req = \<lparr>sr_shardID = sh, sr_epoch = epoch, sr_newISR = filter (\<lambda>m. m = primary \<or> m \<notin> set stalled) isr\<rparr>"
    "length (sr_newISR req) < length isr" "minISR \<le> int (length (sr_newISR req))"
    using assms unfolding decidePBShrink_def Let_def f by (auto split: if_splits)
qed

lemma stalled_failures: "m \<in> set (StalledPeers k e) \<Longrightarrow> \<exists>n. (m, n) \<in> set (e_peerFailures e) \<and> k \<le> n \<and> 1 \<le> n"
  by (auto simp: StalledPeers_def Let_def split: if_splits)

text \<open>A request of the shrink driver: it comes from the primary of the committed epoch, leaves the
  primary in, respects the floor, and drops only peers with enough failures in a row.\<close>

definition shrinkRequest :: "node \<Rightarrow> int \<Rightarrow> int \<Rightarrow> State \<Rightarrow> int \<Rightarrow> 's Engine \<Rightarrow> LogEntry \<Rightarrow> bool" where
  "shrinkRequest nodeID minFailures minISR st sh eng x = (\<exists>isr'. x = entrySetShardISR sh (ShardEpoch sh st) isr' \<and>
     ShardPrimary sh st = nodeID \<and> e_epoch eng = ShardEpoch sh st \<and>
     set isr' \<subseteq> set (ShardISR sh st) \<and> length isr' < length (ShardISR sh st) \<and> minISR \<le> int (length isr') \<and>
     (\<forall>m\<in>set (ShardISR sh st). m \<notin> set isr' \<longrightarrow> m \<noteq> nodeID \<and>
        (\<exists>n. (m, n) \<in> set (e_peerFailures eng) \<and> minFailures \<le> n \<and> 1 \<le> n)))"

lemma shrinkShard_requests:
  assumes "shrinkShard submitOK now nodeID minFailures minISR st sh eng d = (eng', d')" "x \<in> set (sd_submits d')"
  shows "x \<in> set (sd_submits d) \<or> shrinkRequest nodeID minFailures minISR st sh eng x"
proof -
  define epoch isr where "epoch = gget 0 (s_ShardEpoch st) sh" and "isr = gget [] (s_ShardISR st) sh"
  obtain eng1 b1 where r: "shrinkReconcile now sh epoch isr (sd_base d) eng = (eng1, b1)" by fastforce
  have pf: "e_peerFailures eng1 = e_peerFailures eng"
    using r by (auto simp: shrinkReconcile_def split: option.splits if_splits)
  show ?thesis
  proof (cases "x \<in> set (sd_submits d)")
    case False
    let ?dec = "decidePBShrink sh epoch nodeID isr (StalledPeers minFailures eng1) minISR"
    have g: "gget [] (s_ShardPrimary st) sh = nodeID" "e_epoch eng = epoch"
      using assms False unfolding shrinkShard_def by (auto simp: Let_def epoch_def isr_def split: if_splits)
    have "\<exists>req. ?dec = Some req \<and> x = entrySetShardISR (sr_shardID req) (sr_epoch req) (sr_newISR req)"
      using assms False g r unfolding shrinkShard_def
      by (auto simp: Let_def epoch_def [symmetric] isr_def [symmetric] split: if_splits option.splits)
    then obtain req where req: "?dec = Some req" "x = entrySetShardISR (sr_shardID req) (sr_epoch req) (sr_newISR req)" by blast
    note D = decide_shrink [OF req(1)]
    have "\<exists>n. (m, n) \<in> set (e_peerFailures eng) \<and> minFailures \<le> n \<and> 1 \<le> n" if "m \<in> set (StalledPeers minFailures eng1)" for m
      using stalled_failures [OF that] pf by simp
    then show ?thesis using D g req(2) unfolding shrinkRequest_def
      by (intro disjI2 exI [of _ "sr_newISR req"])
        (auto simp: ShardPrimary_def ShardEpoch_def ShardISR_def epoch_def [symmetric] isr_def [symmetric])
  qed simp
qed

text \<open>(C27) What the shrink driver asks for. Every request of a tick is made for a shard this node is the
  committed primary of, at the committed epoch its engine is in; it only removes members, never the
  primary itself, each of them with at least the threshold of failures in a row, and leaves at
  least the durability floor.\<close>
theorem shrink_requests_sound:
  assumes "shrinkTick submitOK now nodeID minFailures minISR st engs d = (engs', d')" "x \<in> set (sd_submits d')"
    and "x \<notin> set (sd_submits d)"
  shows "\<exists>(sh, eng)\<in>set engs. shrinkRequest nodeID minFailures minISR st sh eng x"
  using assms
proof (induction submitOK now nodeID minFailures minISR st engs d arbitrary: engs' rule: shrinkTick.induct)
  case (2 submitOK now nodeID minFailures minISR st sh eng engs d)
  obtain eng1 d1 where s: "shrinkShard submitOK now nodeID minFailures minISR st sh eng d = (eng1, d1)" by fastforce
  obtain engs1 d2 where t: "shrinkTick submitOK now nodeID minFailures minISR st engs d1 = (engs1, d2)" by fastforce
  have d2: "d2 = d'" using "2.prems"(1) s t by simp
  show ?case
  proof (cases "x \<in> set (sd_submits d1)")
    case True
    then show ?thesis using shrinkShard_requests [OF s] "2.prems"(3) by auto
  next
    case False
    then show ?thesis using "2.IH" [OF s [symmetric] t [unfolded d2] "2.prems"(2)] by auto
  qed
qed simp

definition exampleView :: State where
  "exampleView = emptyState\<lparr>s_ShardEpoch := [(0, 1)], s_ShardPrimary := [(0, ''a'')],
     s_ShardISR := [(0, [''a'', ''b'', ''c''])], s_Placement := [[''a'', ''b'', ''c'', ''d'']]\<rparr>"

definition wedgedEngine :: "bytes list Engine" where
  "wedgedEngine = example_engine\<lparr>e_epoch := 1, e_leaseEpoch := 1, e_peerFailures := [(''b'', 50), (''c'', 3)]\<rparr>"

definition quietShrink :: shrinkDrv where
  "quietShrink = \<lparr>sd_base = [], sd_aborts = newPBAbortTracker, sd_submits = []\<rparr>"

lemma exampleShrink:
  "sd_submits (snd (shrinkTick (\<lambda>_. True) 5 ''a'' 50 2 exampleView [(0, wedgedEngine)] quietShrink)) =
    [entrySetShardISR 0 1 [''a'', ''c'']]"
  by code_simp

theorem shrink_requests_sound_witness:
  "shrinkRequest ''a'' 50 2 exampleView 0 wedgedEngine (entrySetShardISR 0 1 [''a'', ''c''])"
proof -
  obtain engs' d' where t: "shrinkTick (\<lambda>_. True) 5 ''a'' 50 2 exampleView [(0, wedgedEngine)] quietShrink = (engs', d')" by fastforce
  have "sd_submits d' = [entrySetShardISR 0 1 [''a'', ''c'']]" using exampleShrink unfolding t by simp
  then show ?thesis using shrink_requests_sound [OF t, of "entrySetShardISR 0 1 [''a'', ''c'']"] by (simp add: quietShrink_def)
qed

text \<open>A request of the grow driver on the committed view \<open>v\<close>: the committed set with one more placement
  owner, whose catch-up has just succeeded and which is a live learner; or without one other member
  whose catch-up the engine abandoned.\<close>

definition growRequest :: "(int \<Rightarrow> node \<Rightarrow> 's Engine \<Rightarrow> 's Engine \<times> pbError option) \<Rightarrow> node \<Rightarrow> State \<Rightarrow> int \<Rightarrow>
    's Engine \<Rightarrow> LogEntry \<Rightarrow> bool" where
  "growRequest catchup nodeID v sh eng x = (ShardPrimary sh v = nodeID \<and> e_epoch eng = ShardEpoch sh v \<and>
     ((\<exists>t\<in>set (growPlacement v sh). t \<notin> set (ShardISR sh v) \<and>
         x = entrySetShardISR sh (ShardEpoch sh v) (ShardISR sh v @ [t]) \<and>
         (\<exists>e0 e1. catchup sh t e0 = (e1, None) \<and> IsLearner t e1 \<and> \<not> LearnerAbandoned t e1)) \<or>
      (\<exists>m\<in>set (ShardISR sh v). m \<noteq> nodeID \<and> LearnerAbandoned m eng \<and>
         x = entrySetShardISR sh (ShardEpoch sh v) (filter (\<lambda>x. x \<noteq> m) (ShardISR sh v)))))"

lemma growCompensate_submits:
  assumes "growCompensate submitOK sh epoch isr ms d failed = (d', failed')"
  shows "gd_st d' = gd_st d \<and> gd_fresh d' = gd_fresh d \<and>
    set (gd_submits d') \<subseteq> set (gd_submits d) \<union> (\<lambda>m. entrySetShardISR sh epoch (filter (\<lambda>x. x \<noteq> m) isr)) ` set ms"
  using assms
  by (induction submitOK sh epoch isr ms d failed rule: growCompensate.induct) (auto simp: Let_def split: if_splits)

lemma growReadd_submits:
  assumes "growReadd submitOK catchup sh epoch isr ts eng d = (eng', d', grew)"
  shows "gd_st d' = gd_st d \<and> gd_fresh d' = gd_fresh d \<and> (\<forall>x\<in>set (gd_submits d'). x \<in> set (gd_submits d) \<or>
    (\<exists>t\<in>set ts. x = entrySetShardISR sh epoch (isr @ [t]) \<and>
      (\<exists>e0 e1. catchup sh t e0 = (e1, None) \<and> IsLearner t e1 \<and> \<not> LearnerAbandoned t e1)))"
  using assms
proof (induction ts arbitrary: eng d)
  case (Cons t ts)
  obtain e1 err where c: "catchup sh t eng = (e1, err)" by fastforce
  show ?case
  proof (cases err)
    case None
    show ?thesis
    proof (cases "\<not> IsLearner t e1 \<or> LearnerAbandoned t e1")
      case True
      then show ?thesis using Cons.prems Cons.IH [of "AbortLearnerCatchup t e1"] c None by fastforce
    next
      case live: False
      then have new: "\<exists>e0 e1. catchup sh t e0 = (e1, None) \<and> IsLearner t e1 \<and> \<not> LearnerAbandoned t e1" using c None by blast
      show ?thesis
      proof (cases "submitOK sh (isr @ [t])")
        case True
        then show ?thesis using Cons.prems c None live new by (auto simp: Let_def)
      next
        case False
        then show ?thesis using Cons.prems c None live new Cons.IH [of "AbortLearnerCatchup t e1"]
          by (fastforce simp: Let_def)
      qed
    qed
  next
    case (Some r)
    then show ?thesis using Cons.prems Cons.IH [of e1] c by fastforce
  qed
qed simp

lemma abandoned_reclaim [simp]: "LearnerAbandoned m (ReclaimOrphanLearners e) = LearnerAbandoned m e"
proof -
  have "e_abandonedLearners (foldl (\<lambda>e p. dropPeerLocked p e) e ps) = e_abandonedLearners e" for ps
    by (induction ps arbitrary: e) (auto simp: dropPeerLocked_def updSlot_def split: option.split)
  then show ?thesis by (simp add: LearnerAbandoned_def LearnerAbandonedAt_def ReclaimOrphanLearners_def)
qed

lemma abandoned_reconcile [simp]:
  "LearnerAbandoned m (fst (growReconcile sh epoch isr b e)) = LearnerAbandoned m e"
  by (simp add: growReconcile_def GrowISR_def LearnerAbandoned_def LearnerAbandonedAt_def split: option.split)

lemma epoch_reclaim [simp]: "e_epoch (ReclaimOrphanLearners e) = e_epoch e"
proof -
  have "e_epoch (foldl (\<lambda>e p. dropPeerLocked p e) e ps) = e_epoch e" for ps
    by (induction ps arbitrary: e) (auto simp: dropPeerLocked_def updSlot_def split: option.split)
  then show ?thesis by (simp add: ReclaimOrphanLearners_def)
qed

lemma epoch_reconcile [simp]: "e_epoch (fst (growReconcile sh epoch isr b e)) = e_epoch e"
  by (simp add: growReconcile_def GrowISR_def split: option.split)

lemma growMutate_requests:
  assumes "growMutate submitOK catchup barrier nodeID sh sig eng d = (eng', d', stop)"
    "gd_fresh d \<longrightarrow> barrier = Some (gd_st d)"
  shows "(gd_fresh d' \<longrightarrow> barrier = Some (gd_st d')) \<and> (\<forall>x\<in>set (gd_submits d'). x \<in> set (gd_submits d) \<or>
    (\<exists>v. barrier = Some v \<and> growRequest catchup nodeID v sh eng x))"
proof (cases "(if gd_fresh d then Some d else map_option (\<lambda>st. d\<lparr>gd_st := st, gd_fresh := True\<rparr>) barrier)")
  case None
  then show ?thesis using assms by (auto simp: growMutate_def split: if_splits)
next
  case (Some d0)
  then have d0: "barrier = Some (gd_st d0)" "gd_submits d0 = gd_submits d" using assms(2) by (auto split: if_splits)
  let ?v = "gd_st d0"
  note E = assms(1) [unfolded growMutate_def Some option.case Let_def ShardPrimary_def [symmetric]
      ShardEpoch_def [symmetric] ShardISR_def [symmetric]]
  show ?thesis
  proof (cases "ShardPrimary sh ?v = nodeID \<and> e_epoch eng = ShardEpoch sh ?v \<and> isrSig (ShardEpoch sh ?v) (ShardISR sh ?v) = sig")
    case False
    then have "gd_st d' = ?v" "gd_submits d' = gd_submits d"
      using E d0 by (auto split: if_splits)
    then show ?thesis using d0 by simp
  next
    case True
    let ?ab = "filter (\<lambda>m. m \<noteq> nodeID \<and> LearnerAbandoned m eng) (ShardISR sh ?v)"
    show ?thesis
    proof (cases "?ab = []")
      case False
      obtain d1 failed where c: "growCompensate submitOK sh (ShardEpoch sh ?v) (ShardISR sh ?v) ?ab d0 False = (d1, failed)" by fastforce
      have "gd_st d' = gd_st d1" "gd_submits d' = gd_submits d1" using E True False c by auto
      then show ?thesis using growCompensate_submits [OF c] d0 True unfolding growRequest_def by auto
    next
      case ab: True
      obtain e1 d1 grew where c: "growReadd submitOK catchup sh (ShardEpoch sh ?v) (ShardISR sh ?v)
          (decidePBGrow (growPlacement ?v sh) (ShardISR sh ?v)) eng d0 = (e1, d1, grew)"
        using prod_cases3 by blast
      have "gd_st d' = gd_st d1" "gd_submits d' = gd_submits d1" using E True ab c by auto
      moreover have "growRequest catchup nodeID ?v sh eng x" if "x \<in> set (gd_submits d1)" "x \<notin> set (gd_submits d)" for x
      proof -
        have "set (decidePBGrow (growPlacement ?v sh) (ShardISR sh ?v)) = set (growPlacement ?v sh) - set (ShardISR sh ?v)"
          by (auto simp: decidePBGrow_def)
        then show ?thesis using growReadd_submits [OF c] that d0(2) True unfolding growRequest_def by (metis DiffE)
      qed
      ultimately show ?thesis using growReadd_submits [OF c] d0 by auto
    qed
  qed
qed

lemma growShard_requests:
  assumes g: "growShard submitOK catchup barrier nodeID sh eng d = (eng', d', stop)"
    and f: "gd_fresh d \<longrightarrow> barrier = Some (gd_st d)"
  shows "(gd_fresh d' \<longrightarrow> barrier = Some (gd_st d')) \<and> (\<forall>x\<in>set (gd_submits d'). x \<in> set (gd_submits d) \<or>
    (\<exists>v. barrier = Some v \<and> growRequest catchup nodeID v sh eng x))"
proof -
  let ?ep = "gget 0 (s_ShardEpoch (gd_st d)) sh" and ?isr = "gget [] (s_ShardISR (gd_st d)) sh"
  obtain eng2 b where r: "growReconcile sh ?ep ?isr (gd_base d) (ReclaimOrphanLearners eng) = (eng2, b)" by fastforce
  have e2: "e_epoch eng2 = e_epoch eng" "\<And>m. LearnerAbandoned m eng2 = LearnerAbandoned m eng"
    using epoch_reconcile [of sh ?ep ?isr "gd_base d" "ReclaimOrphanLearners eng"]
      abandoned_reconcile [of _ sh ?ep ?isr "gd_base d" "ReclaimOrphanLearners eng"] r by simp_all
  then have same: "growRequest catchup nodeID v sh eng2 = growRequest catchup nodeID v sh eng" for v
    by (intro ext) (simp add: growRequest_def)
  have "(gd_st d' = gd_st d \<and> gd_fresh d' = gd_fresh d \<and> gd_submits d' = gd_submits d) \<or>
    (\<exists>sig d2. growMutate submitOK catchup barrier nodeID sh sig eng2 d2 = (eng', d', stop) \<and>
      gd_st d2 = gd_st d \<and> gd_fresh d2 = gd_fresh d \<and> gd_submits d2 = gd_submits d)"
  proof (cases "gget [] (s_ShardPrimary (gd_st d)) sh \<noteq> nodeID \<or> e_epoch eng \<noteq> ?ep")
    case True
    then show ?thesis using g by (auto simp: growShard_def Let_def split: if_splits)
  next
    case False
    then show ?thesis using g r
      by (simp add: growShard_def Let_def split: if_splits) (auto intro!: exI)
  qed
  then show ?thesis using growMutate_requests [of submitOK catchup barrier nodeID sh _ eng2 _ eng' d' stop] f same by metis
qed

lemma growLoop_requests:
  fixes engs :: "(int \<times> 's Engine) list"
  assumes "growLoop submitOK catchup barrier nodeID engs d = (engs', d')" "gd_fresh d \<longrightarrow> barrier = Some (gd_st d)"
    "x \<in> set (gd_submits d')" "x \<notin> set (gd_submits d)"
  shows "\<exists>sh eng v. (sh, eng) \<in> set engs \<and> barrier = Some v \<and> growRequest catchup nodeID v sh eng x"
  using assms
proof (induction engs arbitrary: d engs')
  case (Cons p engs)
  obtain sh and eng :: "'s Engine" where p: "p = (sh, eng)" by fastforce
  obtain eng1 :: "'s Engine" and d1 stop where s: "growShard submitOK catchup barrier nodeID sh eng d = (eng1, d1, stop)"
    using prod_cases3 by blast
  note S = growShard_requests [OF s Cons.prems(2)]
  show ?case
  proof (cases "x \<in> set (gd_submits d1)")
    case True
    then have "\<exists>v. barrier = Some v \<and> growRequest catchup nodeID v sh eng x" using S Cons.prems(4) by blast
    then show ?thesis unfolding p by auto
  next
    case False
    obtain engs1 d2 where t: "growLoop submitOK catchup barrier nodeID engs d1 = (engs1, d2)" by fastforce
    have "d' = d2" using Cons.prems(1,3) False s t p by (auto split: if_splits)
    note t = t [folded this]
    have "\<exists>sh eng v. (sh, eng) \<in> set engs \<and> barrier = Some v \<and> growRequest catchup nodeID v sh eng x"
      by (rule Cons.IH [OF t conjunct1 [OF S] Cons.prems(3) False])
    then show ?thesis by auto
  qed
qed simp

text \<open>(C28) Every in-sync-set change one tick of the grow driver asks for is based on the view read behind
  this tick's quorum barrier (never on the view the tick started with) and comes from the engine's
  primary at the engine's epoch. It adds exactly one placement owner outside the set whose catch-up has
  just succeeded and which is still a live learner, or removes exactly one other member whose catch-up
  the engine abandoned. When the barrier fails nothing is asked for.\<close>

theorem grow_requests_sound:
  fixes engs :: "(int \<times> 's Engine) list"
  assumes "growTick submitOK catchup barrier nodeID st engs d = (engs', d')"
    "x \<in> set (gd_submits d')" "x \<notin> set (gd_submits d)"
  shows "\<exists>sh eng v. (sh, eng) \<in> set engs \<and> barrier = Some v \<and> growRequest catchup nodeID v sh eng x"
  using growLoop_requests [OF assms(1) [unfolded growTick_def]] assms(2,3) by simp

definition steadyGrow :: growDrv where
  "steadyGrow = \<lparr>gd_base = [(0, (1, [''a'', ''b'', ''c'']))], gd_aborts = newPBAbortTracker,
     gd_lastSig = [(0, isrSig 1 [''a'', ''b'', ''c''])], gd_stableFor = [(0, 1)], gd_submits = [], gd_st = emptyState, gd_fresh = False\<rparr>"

definition instantCatchup :: "int \<Rightarrow> node \<Rightarrow> 's Engine \<Rightarrow> 's Engine \<times> pbError option" where
  "instantCatchup sh t e = (e\<lparr>e_learners := List.insert t (e_learners e)\<rparr>, None)"

lemma exampleGrow:
  "gd_submits (snd (growTick (\<lambda>_ _. True) instantCatchup (Some exampleView) ''a'' exampleView [(0, wedgedEngine)] steadyGrow)) =
    [entrySetShardISR 0 1 [''a'', ''b'', ''c'', ''d'']]"
  by code_simp

theorem grow_requests_sound_witness:
  "growRequest instantCatchup ''a'' exampleView 0 wedgedEngine (entrySetShardISR 0 1 [''a'', ''b'', ''c'', ''d''])"
proof -
  obtain engs' d' where t: "growTick (\<lambda>_ _. True) instantCatchup (Some exampleView) ''a'' exampleView
      [(0, wedgedEngine)] steadyGrow = (engs', d')" by fastforce
  have "gd_submits d' = [entrySetShardISR 0 1 [''a'', ''b'', ''c'', ''d'']]" using exampleGrow unfolding t by simp
  then show ?thesis using grow_requests_sound [OF t, of "entrySetShardISR 0 1 [''a'', ''b'', ''c'', ''d'']"]
    by (simp add: steadyGrow_def)
qed

section \<open>A member that is dropped again\<close>

text \<open>Only a good acknowledgement clears the count of failures in a row of a peer. Widening and
  narrowing the set keep it, so a member that was dropped, repaired and re-added on a shard without
  writes is dropped by the next shrink tick.\<close>

lemma regrown_still_stalled:
  "e_peerFailures (GrowISR epoch isr (ShrinkISR now epoch isr' e)) = e_peerFailures e"
  by (simp add: GrowISR_def)

lemma shrink_flaps:
  "sd_submits (snd (shrinkTick (\<lambda>_. True) 5 ''a'' 50 2 exampleView
      [(0, GrowISR 1 [''a'', ''b'', ''c''] (ShrinkISR 5 1 [''a'', ''c''] wedgedEngine))] quietShrink)) =
    [entrySetShardISR 0 1 [''a'', ''c'']]"
  by code_simp

end
