(* ===== verification/Durable.thy ===== *)
theory Durable
  imports Prelude
begin

text \<open>
  What a shard leaves on disk: the restore fence (\<^verbatim>\<open>shard/pb_fence.go\<close>), the persisted applied frontier
  (\<^verbatim>\<open>cache/file.go\<close>, \<^verbatim>\<open>Cache.SetPBFrontier\<close> and \<^verbatim>\<open>PBFrontier\<close> in \<^verbatim>\<open>cache/cache.go\<close>), the amortised stamper
  (\<^verbatim>\<open>shard/pb_frontier.go\<close>) and the install protocol over them (\<^verbatim>\<open>shard/pb_snapshot_store.go\<close>), with crashes.

  A page region is its header and the set of writes its pages materialise; \<open>cov i f\<close>, a parameter, is
  the set of writes of cache shard \<open>i\<close> that the history up to the frontier \<open>f\<close> contains.
\<close>

type_synonym frontier = "u64 \<times> u64"

section \<open>Checksums\<close>

text \<open>\<^verbatim>\<open>crc32.ChecksumIEEE\<close>: the reflected polynomial, bit by bit.\<close>

unbundle bit_operations_syntax

definition crcBit :: "u32 \<Rightarrow> u32" where
  "crcBit c = (if c mod 2 = 1 then (c div 2) XOR 0xEDB88320 else c div 2)"

fun crcBits :: "nat \<Rightarrow> u32 \<Rightarrow> u32" where
  "crcBits 0 c = c"
| "crcBits (Suc n) c = crcBits n (crcBit c)"

definition crcByte :: "u32 \<Rightarrow> u8 \<Rightarrow> u32" where
  "crcByte c b = crcBits 8 (c XOR ucast b)"

definition ChecksumIEEE :: "bytes \<Rightarrow> u32" where
  "ChecksumIEEE b = NOT (foldl crcByte 0xFFFFFFFF b)"

lemma checksum_check: "ChecksumIEEE [0x31, 0x32, 0x33, 0x34, 0x35, 0x36, 0x37, 0x38, 0x39] = 0xCBF43926"
  by code_simp

section \<open>The restore fence\<close>

definition pbFenceMagic :: u64 where "pbFenceMagic = 0x45434e4546425250"
definition pbFenceVersion :: u32 where "pbFenceVersion = 1"
definition pbFenceSize :: nat where "pbFenceSize = 8 + 4 + 8 + 8 + 4"

definition fenceBytes :: "u64 \<Rightarrow> u64 \<Rightarrow> bytes" where
  "fenceBytes seq epoch = (let b = le64 pbFenceMagic @ le32 pbFenceVersion @ le64 seq @ le64 epoch
     in b @ le32 (ChecksumIEEE b))"

text \<open>The marker file in the shard's directory. \<open>None\<close> for \<open>dir\<close> is the empty directory name of a store
  without one: every operation is then a no-op. \<open>err\<close> says that a step failed before the rename.\<close>

definition fence_raise :: "string \<Rightarrow> bool \<Rightarrow> u64 \<Rightarrow> u64 \<Rightarrow> bytes option \<Rightarrow> bytes option" where
  "fence_raise dir err seq epoch marker = (if dir = [] then marker else if err then marker else Some (fenceBytes seq epoch))"

definition fence_lower :: "string \<Rightarrow> bytes option \<Rightarrow> bytes option" where
  "fence_lower dir marker = (if dir = [] then marker else None)"

text \<open>Reading the marker: \<open>None\<close> is a read error, an absent file among them.\<close>

definition fence_raised :: "string \<Rightarrow> bytes option \<Rightarrow> u64 \<times> u64 \<times> bool" where
  "fence_raised dir contents =
     (if dir = [] then (0, 0, False)
      else case contents of None \<Rightarrow> (0, 0, False) | Some b \<Rightarrow>
        if length b \<noteq> pbFenceSize \<or> rd_le64 (gslice 0 8 b) \<noteq> pbFenceMagic \<or>
           rd_le32 (gslice 8 12 b) \<noteq> pbFenceVersion \<or> rd_le32 (gslice 28 32 b) \<noteq> ChecksumIEEE (gslice 0 28 b)
        then (0, 0, True)
        else (rd_le64 (gslice 12 20 b), rd_le64 (gslice 20 28 b), True))"

section \<open>The frontier in the file header\<close>

definition headerSize :: nat where "headerSize = 128"
definition hdrPBSeqOff :: nat where "hdrPBSeqOff = 44"
definition hdrPBEpochOff :: nat where "hdrPBEpochOff = 52"
definition hdrPBFrontierCRCOff :: nat where "hdrPBFrontierCRCOff = 60"

definition setPBFrontier :: "u64 \<Rightarrow> u64 \<Rightarrow> bytes \<Rightarrow> bytes" where
  "setPBFrontier seq epoch region =
     (let r1 = putAt hdrPBSeqOff (le64 seq) region; r2 = putAt hdrPBEpochOff (le64 epoch) r1;
          crc = ChecksumIEEE (gslice hdrPBSeqOff (hdrPBSeqOff + 16) r2)
      in putAt hdrPBFrontierCRCOff (le32 crc) r2)"

definition readPBFrontier :: "bytes \<Rightarrow> frontier" where
  "readPBFrontier region =
     (if length region < headerSize then (0, 0)
      else if rd_le32 (gslice hdrPBFrontierCRCOff (hdrPBFrontierCRCOff + 4) region) \<noteq>
              ChecksumIEEE (gslice hdrPBSeqOff (hdrPBSeqOff + 16) region) then (0, 0)
      else (rd_le64 (gslice hdrPBSeqOff (hdrPBSeqOff + 8) region), rd_le64 (gslice hdrPBEpochOff (hdrPBEpochOff + 8) region)))"

lemma fence_intact: "dir \<noteq> [] \<Longrightarrow> fence_raised dir (Some (fenceBytes seq epoch)) = (seq, epoch, True)"
  by (simp add: fence_raised_def fenceBytes_def Let_def pbFenceSize_def gslice_def codec_simps)

text \<open>The twenty bytes of the frontier field.\<close>

lemma setPBFrontier_eq:
  assumes "headerSize \<le> length region"
  shows "setPBFrontier seq epoch region = take 44 region @ (le64 seq @ le64 epoch @
    le32 (ChecksumIEEE (le64 seq @ le64 epoch))) @ drop 64 region"
  using assms
  by (simp add: setPBFrontier_def putAt_def gslice_def Let_def hdrPBSeqOff_def hdrPBEpochOff_def hdrPBFrontierCRCOff_def
      headerSize_def codec_simps)

lemma frontier_readback:
  assumes "headerSize \<le> length region"
  shows "readPBFrontier (setPBFrontier seq epoch region) = (seq, epoch)"
  using assms unfolding readPBFrontier_def setPBFrontier_eq [OF assms]
  by (simp add: gslice_def hdrPBSeqOff_def hdrPBEpochOff_def hdrPBFrontierCRCOff_def headerSize_def codec_simps)



section \<open>The stamper\<close>

record pbFrontierStamper =
  fs_everyN :: u64
  fs_pend :: frontier
  fs_stamped :: frontier
  fs_since :: u64

definition newPBFrontierStamper :: "int \<Rightarrow> pbFrontierStamper" where
  "newPBFrontierStamper everyN = \<lparr>fs_everyN = (if everyN < 0 then 0 else word_of_int everyN),
     fs_pend = (0, 0), fs_stamped = (0, 0), fs_since = 0\<rparr>"

text \<open>\<open>record\<close>: the flag says that the flusher is poked.\<close>

definition stamper_record :: "frontier \<Rightarrow> pbFrontierStamper \<Rightarrow> pbFrontierStamper \<times> bool" where
  "stamper_record f s = (let s1 = s\<lparr>fs_pend := f\<rparr>
     in if fs_everyN s > 0 then (s1\<lparr>fs_since := fs_since s + 1\<rparr>, fs_since s + 1 \<ge> fs_everyN s) else (s1, False))"

text \<open>The part of \<open>flush\<close> under the lock: \<open>None\<close> when there is nothing new, else the frontier to persist.\<close>

definition stamper_flush :: "pbFrontierStamper \<Rightarrow> (frontier \<times> pbFrontierStamper) option" where
  "stamper_flush s = (if fs_pend s = fs_stamped s then None
     else Some (fs_pend s, s\<lparr>fs_stamped := fs_pend s, fs_since := 0\<rparr>))"

definition stamper_install :: "frontier \<Rightarrow> pbFrontierStamper \<Rightarrow> pbFrontierStamper" where
  "stamper_install f s = s\<lparr>fs_pend := f, fs_stamped := f, fs_since := 0\<rparr>"

section \<open>Persisting the frontier\<close>

text \<open>One cache shard: the writes its mapped pages materialise and those of them that are on disk, the
  frontier in its mapped header and the one a restart would read.\<close>

record 'w region =
  g_mem :: "'w set"
  g_disk :: "'w set"
  g_memHdr :: frontier
  g_hdr :: frontier

text \<open>How far the flushes of one shard get: the page data, then the page bounds, then the header.\<close>

datatype syncOutcome = DataFails | BoundsFail | HeaderFails | Synced

definition stampRegion :: "syncOutcome \<Rightarrow> frontier \<Rightarrow> 'w region \<Rightarrow> 'w region" where
  "stampRegion oc f g = (if oc = DataFails then g
     else let g1 = g\<lparr>g_disk := g_mem g\<rparr>
          in if oc = BoundsFail then g1
             else let g2 = g1\<lparr>g_memHdr := f\<rparr> in if oc = HeaderFails then g2 else g2\<lparr>g_hdr := f\<rparr>)"

definition SetPBFrontier :: "(nat \<Rightarrow> syncOutcome) \<Rightarrow> frontier \<Rightarrow> 'w region list \<Rightarrow> 'w region list" where
  "SetPBFrontier ocs f gs = map (\<lambda>(i, g). stampRegion (ocs i) f g) (enumerate 0 gs)"

text \<open>The frontier a restart reports: the smallest one of the shards' headers, as a pair.\<close>

fun minFrontier :: "frontier \<Rightarrow> frontier list \<Rightarrow> frontier" where
  "minFrontier m [] = m"
| "minFrontier m (f # fs) = minFrontier (if fst f < fst m then f else m) fs"

definition PBFrontier :: "frontier list \<Rightarrow> frontier" where
  "PBFrontier hs = (let m = minFrontier (-1, 0) hs in if fst m = -1 then (0, 0) else m)"

text \<open>\<open>Close\<close> on a store that applies nothing any more: the last flush.\<close>

definition stamper_Close :: "(nat \<Rightarrow> syncOutcome) \<Rightarrow> pbFrontierStamper \<Rightarrow> 'w region list \<Rightarrow> pbFrontierStamper \<times> 'w region list" where
  "stamper_Close ocs s gs = (case stamper_flush s of None \<Rightarrow> (s, gs) | Some (f, s1) \<Rightarrow> (s1, SetPBFrontier ocs f gs))"

text \<open>A flush counts as done before it is persisted: when persisting fails, the next one has nothing to do
  until another write is recorded.\<close>

lemma failed_flush_not_retried: "stamper_flush s = Some (f, s1) \<Longrightarrow> stamper_flush s1 = None"
  by (auto simp: stamper_flush_def split: if_splits)

text \<open>A clean shutdown whose flushes succeed leaves the exact frontier in every header.\<close>

lemma close_exact:
  assumes "fs_pend s \<noteq> fs_stamped s" "stamper_Close (\<lambda>_. Synced) s gs = (s1, gs1)"
  shows "\<forall>g\<in>set gs1. g_hdr g = fs_pend s \<and> g_disk g = g_mem g"
  using assms by (auto simp: stamper_Close_def stamper_flush_def SetPBFrontier_def stampRegion_def)

end
