(* ===== verification/DurableRun.thy ===== *)
theory DurableRun
  imports Durable
begin

text \<open>
  Everything that can happen to a shard's disk: writes and their frontiers, write-back of pages,
  headers and directory entries at any moment, the periodic flush, snapshot installs with each of
  their error exits, and crashes. A restart either finds the fence raised or reports a frontier whose
  writes are all on disk.
\<close>

section \<open>The model\<close>

datatype installPhase = Idle | Raising frontier | Raised frontier | Wiping frontier | Installed frontier
  | Committing frontier | Lowering

text \<open>\<open>d_flush\<close> is a \<open>SetPBFrontier\<close> in progress and the cache shards it has still to visit; the flush lock
  is held meanwhile. \<open>d_wiped\<close> marks a state machine that was discarded and not yet replaced, in which
  case the engine refuses to serve; \<open>d_life\<close> lists the frontiers of the history the disk is on.\<close>

record 'w shardDisk =
  d_gs :: "'w region list"
  d_stamp :: pbFrontierStamper
  d_marker :: "bytes option"
  d_markerDisk :: "bytes option"
  d_flush :: "(frontier \<times> nat list) option"
  d_inst :: installPhase
  d_wiped :: bool
  d_life :: "frontier list"

type_synonym 'w coverage = "nat \<Rightarrow> frontier \<Rightarrow> 'w set"

definition one_history :: "'w coverage \<Rightarrow> frontier list \<Rightarrow> bool" where
  "one_history cov fs = (\<forall>f\<in>set fs. \<forall>g\<in>set fs. fst f \<le> fst g \<longrightarrow> (\<forall>i. cov i f \<subseteq> cov i g))"

definition InstallPending :: "string \<Rightarrow> bytes option \<Rightarrow> bool" where
  "InstallPending dir marker = snd (snd (fence_raised dir marker))"

definition BeginInstall :: "string \<Rightarrow> frontier \<Rightarrow> 'w shardDisk \<Rightarrow> 'w shardDisk" where
  "BeginInstall dir f s = s\<lparr>d_marker := fence_raise dir False (fst f) (snd f) (d_marker s), d_inst := Raising f\<rparr>"

text \<open>\<open>CommitInstall\<close>: rebase the stamper, persist the frontier under the flush lock, then lower the fence.\<close>

definition CommitInstall :: "frontier \<Rightarrow> 'w shardDisk \<Rightarrow> 'w shardDisk" where
  "CommitInstall f s = s\<lparr>d_stamp := stamper_install f (d_stamp s), d_flush := Some (f, [0..<length (d_gs s)]),
     d_inst := Committing f, d_life := [f, (0, 0)]\<rparr>"

definition lowerFence :: "string \<Rightarrow> 'w shardDisk \<Rightarrow> 'w shardDisk" where
  "lowerFence dir s = s\<lparr>d_flush := None, d_marker := fence_lower dir (d_marker s), d_inst := Lowering, d_wiped := False\<rparr>"

definition AbortInstall :: "string \<Rightarrow> 'w shardDisk \<Rightarrow> 'w shardDisk" where
  "AbortInstall dir s = s\<lparr>d_marker := fence_lower dir (d_marker s), d_inst := Lowering\<rparr>"

definition serving :: "'w shardDisk \<Rightarrow> bool" where
  "serving s = (\<not> d_wiped s \<and> (case d_inst s of Idle \<Rightarrow> True | Raising _ \<Rightarrow> True | Raised _ \<Rightarrow> True | _ \<Rightarrow> False))"

definition updRegion :: "nat \<Rightarrow> ('w region \<Rightarrow> 'w region) \<Rightarrow> 'w shardDisk \<Rightarrow> 'w shardDisk" where
  "updRegion i h s = s\<lparr>d_gs := (d_gs s)[i := h (d_gs s ! i)]\<rparr>"

definition reboot :: "string \<Rightarrow> 'w shardDisk \<Rightarrow> 'w shardDisk" where
  "reboot dir s = s\<lparr>d_gs := map (\<lambda>g. g\<lparr>g_mem := g_disk g, g_memHdr := g_hdr g\<rparr>) (d_gs s),
     d_stamp := newPBFrontierStamper 0, d_marker := d_markerDisk s, d_flush := None, d_inst := Idle,
     d_wiped := InstallPending dir (d_markerDisk s), d_life := (0, 0) # map g_hdr (d_gs s)\<rparr>"

text \<open>The steps. With \<open>strict\<close> the flushes of a committing install succeed, and an install is not aborted
  on a store that an earlier one left half-wiped.\<close>

inductive dstep :: "'w coverage \<Rightarrow> string \<Rightarrow> bool \<Rightarrow> 'w shardDisk \<Rightarrow> 'w shardDisk \<Rightarrow> bool"
  for cov :: "'w coverage" and dir :: string and strict :: bool where
  ds_write: "serving s \<Longrightarrow> length ms = length (d_gs s) \<Longrightarrow> one_history cov (f # d_life s) \<Longrightarrow>
    gs = map2 (\<lambda>m g. g\<lparr>g_mem := g_mem g \<union> m\<rparr>) ms (d_gs s) \<Longrightarrow> (\<And>i. i < length gs \<Longrightarrow> cov i f \<subseteq> g_mem (gs ! i)) \<Longrightarrow>
    dstep cov dir strict s (s\<lparr>d_gs := gs, d_stamp := fst (stamper_record f (d_stamp s)), d_life := f # d_life s\<rparr>)"
| ds_pages: "i < length (d_gs s) \<Longrightarrow> x \<subseteq> g_mem (d_gs s ! i) \<Longrightarrow>
    dstep cov dir strict s (updRegion i (\<lambda>g. g\<lparr>g_disk := g_disk g \<union> x\<rparr>) s)"
| ds_header: "i < length (d_gs s) \<Longrightarrow> dstep cov dir strict s (updRegion i (\<lambda>g. g\<lparr>g_hdr := g_memHdr g\<rparr>) s)"
| ds_torn: "i < length (d_gs s) \<Longrightarrow> dstep cov dir strict s (updRegion i (\<lambda>g. g\<lparr>g_hdr := (0, 0)\<rparr>) s)"
| ds_dir: "dstep cov dir strict s (s\<lparr>d_markerDisk := d_marker s\<rparr>)"
| ds_flush: "d_flush s = None \<Longrightarrow> stamper_flush (d_stamp s) = Some (f, st) \<Longrightarrow>
    dstep cov dir strict s (s\<lparr>d_stamp := st, d_flush := Some (f, [0..<length (d_gs s)])\<rparr>)"
| ds_stamp: "d_flush s = Some (f, i # todo) \<Longrightarrow> i < length (d_gs s) \<Longrightarrow>
    strict \<and> d_inst s = Committing f \<longrightarrow> oc = Synced \<Longrightarrow>
    dstep cov dir strict s ((updRegion i (stampRegion oc f) s)\<lparr>d_flush := Some (f, todo)\<rparr>)"
| ds_flushed: "d_flush s = Some (f, []) \<Longrightarrow> d_inst s \<noteq> Committing f \<Longrightarrow> dstep cov dir strict s (s\<lparr>d_flush := None\<rparr>)"
| ds_raise: "d_inst s = Idle \<Longrightarrow> dstep cov dir strict s (BeginInstall dir f s)"
| ds_raised: "d_inst s = Raising f \<Longrightarrow> dstep cov dir strict s (s\<lparr>d_markerDisk := d_marker s, d_inst := Raised f\<rparr>)"
| ds_raise_err: "d_inst s = Raising f \<Longrightarrow> dstep cov dir strict s (s\<lparr>d_inst := Idle\<rparr>)"
| ds_abort: "d_inst s = Raised f \<Longrightarrow> strict \<longrightarrow> \<not> d_wiped s \<Longrightarrow> dstep cov dir strict s (AbortInstall dir s)"
| ds_wipe: "d_inst s = Raised f \<Longrightarrow> dstep cov dir strict s (s\<lparr>d_inst := Wiping f, d_wiped := True\<rparr>)"
| ds_mutate: "d_inst s = Wiping f \<Longrightarrow> length gs = length (d_gs s) \<Longrightarrow>
    map g_hdr gs = map g_hdr (d_gs s) \<Longrightarrow> map g_memHdr gs = map g_memHdr (d_gs s) \<Longrightarrow> dstep cov dir strict s (s\<lparr>d_gs := gs\<rparr>)"
| ds_install_err: "d_inst s = Wiping f \<Longrightarrow> dstep cov dir strict s (s\<lparr>d_inst := Idle\<rparr>)"
| ds_installed: "d_inst s = Wiping f \<Longrightarrow> (\<And>i. i < length (d_gs s) \<Longrightarrow> cov i f \<subseteq> g_mem (d_gs s ! i)) \<Longrightarrow>
    dstep cov dir strict s (s\<lparr>d_inst := Installed f\<rparr>)"
| ds_commit: "d_inst s = Installed f \<Longrightarrow> d_flush s = None \<Longrightarrow> dstep cov dir strict s (CommitInstall f s)"
| ds_lower: "d_inst s = Committing f \<Longrightarrow> d_flush s = Some (f, []) \<Longrightarrow> dstep cov dir strict s (lowerFence dir s)"
| ds_lowered: "d_inst s = Lowering \<Longrightarrow> dstep cov dir strict s (s\<lparr>d_markerDisk := d_marker s, d_inst := Idle\<rparr>)"
| ds_lower_err: "d_inst s = Lowering \<Longrightarrow> dstep cov dir strict s (s\<lparr>d_inst := Idle\<rparr>)"
| ds_crash: "dstep cov dir strict s (reboot dir s)"

definition d_init :: "'w shardDisk \<Rightarrow> bool" where
  "d_init s = (d_gs s \<noteq> [] \<and> (\<forall>g\<in>set (d_gs s). g_mem g = {} \<and> g_disk g = {} \<and> g_memHdr g = (0, 0) \<and> g_hdr g = (0, 0)) \<and>
     d_stamp s = newPBFrontierStamper 0 \<and> d_marker s = None \<and> d_markerDisk s = None \<and> d_flush s = None \<and>
     d_inst s = Idle \<and> \<not> d_wiped s \<and> d_life s = [(0, 0)])"

text \<open>A frontier with sequence number 0 has no writes.\<close>

definition genesis :: "'w coverage \<Rightarrow> bool" where
  "genesis cov = (\<forall>i f. fst f = 0 \<longrightarrow> cov i f = {})"

section \<open>The invariant\<close>

definition region_ok :: "'w coverage \<Rightarrow> nat \<Rightarrow> frontier list \<Rightarrow> frontier \<Rightarrow> 'w region \<Rightarrow> bool" where
  "region_ok cov i life pend g = (g_disk g \<subseteq> g_mem g \<and> g_memHdr g \<in> set life \<and> g_hdr g \<in> set life \<and>
     cov i (g_memHdr g) \<subseteq> g_disk g \<and> cov i (g_hdr g) \<subseteq> g_disk g \<and> cov i pend \<subseteq> g_mem g)"

definition sound :: "'w coverage \<Rightarrow> 'w shardDisk \<Rightarrow> bool" where
  "sound cov s = (one_history cov (d_life s) \<and> (0, 0) \<in> set (d_life s) \<and> fs_pend (d_stamp s) \<in> set (d_life s) \<and>
     (\<forall>i<length (d_gs s). region_ok cov i (d_life s) (fs_pend (d_stamp s)) (d_gs s ! i)) \<and>
     (\<forall>f todo. d_flush s = Some (f, todo) \<longrightarrow> f \<in> set (d_life s) \<and> (\<forall>i<length (d_gs s). cov i f \<subseteq> g_mem (d_gs s ! i))))"

definition fenced :: "'w shardDisk \<Rightarrow> bool" where
  "fenced s = (d_marker s \<noteq> None \<and> d_markerDisk s \<noteq> None)"

text \<open>What a committing install has achieved: the visited shards carry the new frontier, durably.\<close>

definition stamped_upto :: "'w coverage \<Rightarrow> frontier \<Rightarrow> 'w shardDisk \<Rightarrow> bool" where
  "stamped_upto cov f s = (fs_pend (d_stamp s) = f \<and> d_life s = [f, (0, 0)] \<and>
     (\<forall>i<length (d_gs s). cov i f \<subseteq> g_mem (d_gs s ! i)) \<and>
     (\<exists>k\<le>length (d_gs s). d_flush s = Some (f, [k..<length (d_gs s)]) \<and> (\<forall>i<k. g_disk (d_gs s ! i) = g_mem (d_gs s ! i) \<and>
        g_memHdr (d_gs s ! i) = f \<and> g_hdr (d_gs s ! i) \<in> {f, (0, 0)})))"

definition d_inv :: "'w coverage \<Rightarrow> 'w shardDisk \<Rightarrow> bool" where
  "d_inv cov s = ((d_wiped s \<longrightarrow> fenced s) \<and> (\<not> d_wiped s \<longrightarrow> sound cov s) \<and>
     (case d_inst s of Idle \<Rightarrow> True | Lowering \<Rightarrow> \<not> d_wiped s | Raising f \<Rightarrow> d_marker s \<noteq> None | Raised f \<Rightarrow> fenced s
      | Wiping f \<Rightarrow> d_wiped s | Installed f \<Rightarrow> d_wiped s \<and> (\<forall>i<length (d_gs s). cov i f \<subseteq> g_mem (d_gs s ! i))
      | Committing f \<Rightarrow> d_wiped s \<and> stamped_upto cov f s))"

lemma sound_frame [simp]:
  "sound cov (s\<lparr>d_marker := m\<rparr>) = sound cov s" "sound cov (s\<lparr>d_markerDisk := m\<rparr>) = sound cov s"
  "sound cov (s\<lparr>d_inst := ph\<rparr>) = sound cov s" "sound cov (s\<lparr>d_wiped := w\<rparr>) = sound cov s"
  by (simp_all add: sound_def)

lemma stamped_frame [simp]:
  "stamped_upto cov f (s\<lparr>d_marker := m\<rparr>) = stamped_upto cov f s" "stamped_upto cov f (s\<lparr>d_markerDisk := m\<rparr>) = stamped_upto cov f s"
  "stamped_upto cov f (s\<lparr>d_inst := ph\<rparr>) = stamped_upto cov f s" "stamped_upto cov f (s\<lparr>d_wiped := w\<rparr>) = stamped_upto cov f s"
  by (simp_all add: stamped_upto_def)

lemma updRegion_sel [simp]:
  "d_stamp (updRegion i h s) = d_stamp s" "d_marker (updRegion i h s) = d_marker s" "d_markerDisk (updRegion i h s) = d_markerDisk s"
  "d_flush (updRegion i h s) = d_flush s" "d_inst (updRegion i h s) = d_inst s" "d_wiped (updRegion i h s) = d_wiped s"
  "d_life (updRegion i h s) = d_life s" "length (d_gs (updRegion i h s)) = length (d_gs s)"
  "i < length (d_gs s) \<Longrightarrow> d_gs (updRegion i h s) ! j = (if j = i then h (d_gs s ! i) else d_gs s ! j)"
  by (auto simp: updRegion_def nth_list_update)

lemma sound_upd:
  assumes "sound cov s" "i < length (d_gs s)" "g_mem (h (d_gs s ! i)) = g_mem (d_gs s ! i)"
    "region_ok cov i (d_life s) (fs_pend (d_stamp s)) (d_gs s ! i) \<Longrightarrow>
       region_ok cov i (d_life s) (fs_pend (d_stamp s)) (h (d_gs s ! i))"
  shows "sound cov (updRegion i h s)"
  using assms by (auto simp: sound_def)

lemma stamped_upd:
  assumes "stamped_upto cov f s" "i < length (d_gs s)" "g_mem (h (d_gs s ! i)) = g_mem (d_gs s ! i)"
    "g_disk (d_gs s ! i) = g_mem (d_gs s ! i) \<Longrightarrow> g_memHdr (d_gs s ! i) = f \<Longrightarrow> g_hdr (d_gs s ! i) \<in> {f, (0, 0)} \<Longrightarrow>
       g_disk (h (d_gs s ! i)) = g_mem (d_gs s ! i) \<and> g_memHdr (h (d_gs s ! i)) = f \<and> g_hdr (h (d_gs s ! i)) \<in> {f, (0, 0)}"
  shows "stamped_upto cov f (updRegion i h s)"
proof -
  obtain k where k: "k \<le> length (d_gs s)" "d_flush s = Some (f, [k..<length (d_gs s)])"
    "\<forall>j<k. g_disk (d_gs s ! j) = g_mem (d_gs s ! j) \<and> g_memHdr (d_gs s ! j) = f \<and> g_hdr (d_gs s ! j) \<in> {f, (0, 0)}"
    using assms(1) unfolding stamped_upto_def by blast
  have fin: "g_disk (h (d_gs s ! i)) = g_mem (h (d_gs s ! i)) \<and> g_memHdr (h (d_gs s ! i)) = f \<and>
      g_hdr (h (d_gs s ! i)) \<in> {f, (0, 0)}" if "i < k"
    using that k(3) assms(3,4) by auto
  show ?thesis unfolding stamped_upto_def
    using assms(1-3) k fin by (auto simp: stamped_upto_def intro!: exI [of _ k])
qed

text \<open>Steps that touch one region without changing what it materialises.\<close>

lemma inv_upd:
  assumes inv: "d_inv cov s" and i: "i < length (d_gs s)" and mem: "\<And>g. g_mem (h g) = g_mem g"
    and ok: "\<not> d_wiped s \<Longrightarrow> region_ok cov i (d_life s) (fs_pend (d_stamp s)) (d_gs s ! i) \<Longrightarrow>
       region_ok cov i (d_life s) (fs_pend (d_stamp s)) (h (d_gs s ! i))"
    and keep: "\<And>f. g_disk (d_gs s ! i) = g_mem (d_gs s ! i) \<Longrightarrow> g_memHdr (d_gs s ! i) = f \<Longrightarrow> g_hdr (d_gs s ! i) \<in> {f, (0, 0)} \<Longrightarrow>
       g_disk (h (d_gs s ! i)) = g_mem (d_gs s ! i) \<and> g_memHdr (h (d_gs s ! i)) = f \<and> g_hdr (h (d_gs s ! i)) \<in> {f, (0, 0)}"
  shows "d_inv cov (updRegion i h s)"
proof -
  have "sound cov (updRegion i h s)" if "\<not> d_wiped s"
    using that inv i mem ok by (intro sound_upd) (auto simp: d_inv_def)
  moreover have "stamped_upto cov f (updRegion i h s)" if "d_inst s = Committing f" for f
    using that inv i mem keep by (intro stamped_upd) (auto simp: d_inv_def)
  ultimately show ?thesis using inv i mem by (auto simp: d_inv_def fenced_def split: installPhase.splits)
qed

lemma region_ok_pages:
  "region_ok cov i life pend g \<Longrightarrow> x \<subseteq> g_mem g \<Longrightarrow> region_ok cov i life pend (g\<lparr>g_disk := g_disk g \<union> x\<rparr>)"
  by (auto simp: region_ok_def)

lemma region_ok_stamp:
  "region_ok cov i life pend g \<Longrightarrow> f \<in> set life \<Longrightarrow> cov i f \<subseteq> g_mem g \<Longrightarrow> region_ok cov i life pend (stampRegion oc f g)"
  by (cases oc) (auto simp: region_ok_def stampRegion_def)

lemma stampRegion_mem [simp]: "g_mem (stampRegion oc f g) = g_mem g"
  by (simp add: stampRegion_def Let_def)

lemma one_history_sub: "one_history cov fs \<Longrightarrow> set gs \<subseteq> set fs \<Longrightarrow> one_history cov gs"
  by (auto simp: one_history_def)

lemma inv_write:
  assumes inv: "d_inv cov s" and s: "serving s" and ms: "length ms = length (d_gs s)" and h: "one_history cov (f # d_life s)"
    and gs: "gs = map2 (\<lambda>m g. g\<lparr>g_mem := g_mem g \<union> m\<rparr>) ms (d_gs s)" and c: "\<And>i. i < length gs \<Longrightarrow> cov i f \<subseteq> g_mem (gs ! i)"
  shows "d_inv cov (s\<lparr>d_gs := gs, d_stamp := fst (stamper_record f (d_stamp s)), d_life := f # d_life s\<rparr>)"
proof -
  have w: "\<not> d_wiped s" "sound cov s" using inv s by (auto simp: serving_def d_inv_def)
  have len: "length gs = length (d_gs s)" using ms gs by simp
  have at: "gs ! i = (d_gs s ! i)\<lparr>g_mem := g_mem (d_gs s ! i) \<union> ms ! i\<rparr>" if "i < length (d_gs s)" for i
    using that ms gs by simp
  have pend: "fs_pend (fst (stamper_record f (d_stamp s))) = f" by (simp add: stamper_record_def Let_def)
  have regs: "region_ok cov i (f # d_life s) f (gs ! i)" if "i < length gs" for i
  proof -
    have "region_ok cov i (d_life s) (fs_pend (d_stamp s)) (d_gs s ! i)" using w(2) that len by (simp add: sound_def)
    then show ?thesis using at [of i] c [OF that] that len by (auto simp: region_ok_def)
  qed
  have fl: "g \<in> set (f # d_life s) \<and> (\<forall>i<length gs. cov i g \<subseteq> g_mem (gs ! i))" if "d_flush s = Some (g, todo)" for g todo
    using w(2) that len at unfolding sound_def by (simp add: le_supI1)
  have "sound cov (s\<lparr>d_gs := gs, d_stamp := fst (stamper_record f (d_stamp s)), d_life := f # d_life s\<rparr>)"
    unfolding sound_def using w(2) h regs fl by (simp add: pend) (simp add: sound_def)
  then show ?thesis using inv w(1) s
    by (auto simp: d_inv_def serving_def fenced_def split: installPhase.splits)
qed

lemma stamp_commit:
  assumes "stamped_upto cov f s" "d_flush s = Some (f, i # todo)" "i < length (d_gs s)"
  shows "stamped_upto cov f ((updRegion i (stampRegion Synced f) s)\<lparr>d_flush := Some (f, todo)\<rparr>)"
proof -
  obtain k where k: "k \<le> length (d_gs s)" "i # todo = [k..<length (d_gs s)]"
    "\<forall>j<k. g_disk (d_gs s ! j) = g_mem (d_gs s ! j) \<and> g_memHdr (d_gs s ! j) = f \<and> g_hdr (d_gs s ! j) \<in> {f, (0, 0)}"
    using assms(1,2) unfolding stamped_upto_def by auto
  have lt: "k < length (d_gs s)" using k(2) by (cases "k < length (d_gs s)") auto
  then have i: "i = k" "todo = [Suc k..<length (d_gs s)]" using k(2) upt_conv_Cons [OF lt] by simp_all
  show ?thesis unfolding stamped_upto_def
    using assms(1,3) k i lt by (auto simp: stamped_upto_def stampRegion_def less_Suc_eq intro!: exI [of _ "Suc k"])
qed

lemma inv_stamp:
  assumes inv: "d_inv cov s" and f: "d_flush s = Some (f, i # todo)" "i < length (d_gs s)"
    and oc: "d_inst s = Committing f \<longrightarrow> oc = Synced"
  shows "d_inv cov ((updRegion i (stampRegion oc f) s)\<lparr>d_flush := Some (f, todo)\<rparr>)"
proof -
  let ?s = "(updRegion i (stampRegion oc f) s)\<lparr>d_flush := Some (f, todo)\<rparr>"
  have "sound cov ?s" if w: "\<not> d_wiped s"
  proof -
    have s: "sound cov s" using inv w by (simp add: d_inv_def)
    then have f1: "f \<in> set (d_life s)" "\<forall>i<length (d_gs s). cov i f \<subseteq> g_mem (d_gs s ! i)" using f(1) by (auto simp: sound_def)
    have "sound cov (updRegion i (stampRegion oc f) s)"
      using s f(2) f1 by (intro sound_upd) (auto intro!: region_ok_stamp)
    then show ?thesis using f f1 by (simp add: sound_def)
  qed
  moreover have "stamped_upto cov g ?s" if g: "d_inst s = Committing g" for g
  proof -
    have "stamped_upto cov g s" using inv g by (simp add: d_inv_def)
    moreover from this have "f = g" using f(1) by (auto simp: stamped_upto_def)
    ultimately show ?thesis using stamp_commit f oc g by blast
  qed
  ultimately show ?thesis using inv f(2) by (auto simp: d_inv_def fenced_def split: installPhase.splits)
qed

lemma inv_lower:
  assumes inv: "d_inv cov s" and g: "genesis cov" and f: "d_inst s = Committing f" "d_flush s = Some (f, [])"
  shows "d_inv cov (lowerFence dir s)"
proof -
  have st: "stamped_upto cov f s" using inv f by (simp add: d_inv_def)
  then obtain k where k: "[] = [k..<length (d_gs s)]" "\<forall>i<k. g_disk (d_gs s ! i) = g_mem (d_gs s ! i) \<and>
      g_memHdr (d_gs s ! i) = f \<and> g_hdr (d_gs s ! i) \<in> {f, (0, 0)}"
    using f(2) unfolding stamped_upto_def by auto
  then have "length (d_gs s) \<le> k" by (metis list.distinct(1) not_less upt_conv_Cons)
  then have all: "\<forall>i<length (d_gs s). g_disk (d_gs s ! i) = g_mem (d_gs s ! i) \<and> g_memHdr (d_gs s ! i) = f \<and>
      g_hdr (d_gs s ! i) \<in> {f, (0, 0)} \<and> cov i f \<subseteq> g_mem (d_gs s ! i)"
    and lf: "fs_pend (d_stamp s) = f" "d_life s = [f, (0, 0)]"
    using st k(2) unfolding stamped_upto_def by auto
  have z: "cov i (0, 0) = {}" "fst f = 0 \<Longrightarrow> cov i f = {}" for i using g by (simp_all add: genesis_def del: split_paired_All)
  have "one_history cov [f, (0, 0)]" using z by (auto simp: one_history_def)
  moreover have "region_ok cov i [f, (0, 0)] f (d_gs s ! i)" if "i < length (d_gs s)" for i
  proof -
    have "g_hdr (d_gs s ! i) = f \<or> g_hdr (d_gs s ! i) = (0, 0)" using all that by simp
    then have "cov i (g_hdr (d_gs s ! i)) \<subseteq> g_mem (d_gs s ! i)" using all that z(1) [of i] by (elim disjE) auto
    then show ?thesis using all that by (auto simp: region_ok_def)
  qed
  ultimately have "sound cov (lowerFence dir s)" using lf by (simp add: sound_def lowerFence_def)
  then show ?thesis by (simp add: d_inv_def lowerFence_def)
qed

lemma pending_marker: "dir \<noteq> [] \<Longrightarrow> InstallPending dir m = (m \<noteq> None)"
  by (simp add: InstallPending_def fence_raised_def split: option.split)

lemma inv_reboot:
  assumes inv: "d_inv cov s" and d: "dir \<noteq> []" and g: "genesis cov"
  shows "d_inv cov (reboot dir s)"
proof (cases "d_markerDisk s")
  case None
  then have w: "\<not> d_wiped s" "sound cov s" using inv by (auto simp: d_inv_def fenced_def)
  have hd: "set ((0, 0) # map g_hdr (d_gs s)) \<subseteq> set (d_life s)"
    using w(2) by (auto simp: sound_def region_ok_def in_set_conv_nth)
  have "one_history cov (d_life s)" using w(2) by (simp add: sound_def)
  then have "one_history cov ((0, 0) # map g_hdr (d_gs s))" by (rule one_history_sub [OF _ hd])
  moreover have "region_ok cov i ((0, 0) # map g_hdr (d_gs s)) (0, 0) ((d_gs s ! i)\<lparr>g_mem := g_disk (d_gs s ! i), g_memHdr := g_hdr (d_gs s ! i)\<rparr>)"
    if "i < length (d_gs s)" for i
    using w(2) that g by (auto simp: sound_def region_ok_def genesis_def)
  ultimately have "sound cov (reboot dir s)"
    by (simp add: sound_def reboot_def newPBFrontierStamper_def)
  then show ?thesis using None d by (simp add: d_inv_def) (simp add: reboot_def pending_marker)
next
  case (Some b)
  then show ?thesis using d by (simp add: d_inv_def reboot_def pending_marker fenced_def)
qed

lemma inv_flush:
  assumes inv: "d_inv cov s" and f: "d_flush s = None" "stamper_flush (d_stamp s) = Some (f, st)"
  shows "d_inv cov (s\<lparr>d_stamp := st, d_flush := Some (f, [0..<length (d_gs s)])\<rparr>)"
proof -
  have st: "f = fs_pend (d_stamp s)" "fs_pend st = f" using f(2) by (auto simp: stamper_flush_def split: if_splits)
  have nc: "d_inst s \<noteq> Committing g" for g using inv f(1) by (auto simp: d_inv_def stamped_upto_def)
  have "sound cov (s\<lparr>d_stamp := st, d_flush := Some (f, [0..<length (d_gs s)])\<rparr>)" if "sound cov s"
    using that st by (simp add: sound_def region_ok_def)
  then show ?thesis using inv nc by (cases "d_inst s") (auto simp: d_inv_def fenced_def)
qed

lemma dstep_inv:
  assumes "dir \<noteq> []" "genesis cov" "d_inv cov s" "dstep cov dir True s s'"
  shows "d_inv cov s'"
  using assms(4)
proof (cases rule: dstep.cases)
  case (ds_write ms f gs)
  show ?thesis unfolding ds_write(1) by (rule inv_write [OF assms(3) ds_write(2-6)])
next
  case (ds_pages i x)
  show ?thesis unfolding ds_pages(1)
    by (rule inv_upd [OF assms(3) ds_pages(2)]) (use ds_pages(3) in \<open>auto intro: region_ok_pages\<close>)
next
  case (ds_header i)
  show ?thesis unfolding ds_header(1) by (rule inv_upd [OF assms(3) ds_header(2)]) (auto simp: region_ok_def)
next
  case (ds_torn i)
  show ?thesis unfolding ds_torn(1)
    by (rule inv_upd [OF assms(3) ds_torn(2)])
      (use assms(2,3) in \<open>auto simp: region_ok_def genesis_def d_inv_def sound_def\<close>)
next
  case (ds_flush f st)
  show ?thesis unfolding ds_flush(1) by (rule inv_flush [OF assms(3) ds_flush(2,3)])
next
  case (ds_stamp f i todo oc)
  show ?thesis unfolding ds_stamp(1) by (rule inv_stamp [OF assms(3) ds_stamp(2,3)]) (use ds_stamp(4) in simp)
next
  case (ds_flushed f)
  have "sound cov s \<Longrightarrow> sound cov (s\<lparr>d_flush := None\<rparr>)" by (simp add: sound_def)
  moreover have "d_inst s \<noteq> Committing g" for g using assms(3) ds_flushed(2,3) by (auto simp: d_inv_def stamped_upto_def)
  ultimately show ?thesis unfolding ds_flushed(1) using assms(3) by (cases "d_inst s") (auto simp: d_inv_def fenced_def)
next
  case ds_dir
  show ?thesis unfolding ds_dir using assms(3) by (cases "d_inst s") (auto simp: d_inv_def fenced_def)
next
  case (ds_raise f)
  show ?thesis unfolding ds_raise(1) BeginInstall_def using assms(1,3) by (auto simp: d_inv_def fenced_def fence_raise_def)
next
  case (ds_raised f)
  show ?thesis unfolding ds_raised(1) using assms(3) ds_raised(2) by (auto simp: d_inv_def fenced_def)
next
  case (ds_raise_err f)
  show ?thesis unfolding ds_raise_err(1) using assms(3) by (auto simp: d_inv_def fenced_def)
next
  case (ds_abort f)
  show ?thesis unfolding ds_abort(1) AbortInstall_def using assms(3) ds_abort(3) by (auto simp: d_inv_def fenced_def)
next
  case (ds_wipe f)
  show ?thesis unfolding ds_wipe(1) using assms(3) ds_wipe(2) by (simp add: d_inv_def fenced_def)
next
  case (ds_mutate f gs)
  show ?thesis unfolding ds_mutate(1) using assms(3) ds_mutate(2) by (simp add: d_inv_def fenced_def)
next
  case (ds_install_err f)
  show ?thesis unfolding ds_install_err(1) using assms(3) ds_install_err(2) by (simp add: d_inv_def fenced_def)
next
  case (ds_installed f)
  show ?thesis unfolding ds_installed(1) using assms(3) ds_installed(2,3) by (simp add: d_inv_def fenced_def)
next
  case (ds_commit f)
  show ?thesis unfolding ds_commit(1) using assms(3) ds_commit(2)
    by (auto simp: d_inv_def CommitInstall_def fenced_def stamped_upto_def stamper_install_def)
next
  case (ds_lower f)
  show ?thesis unfolding ds_lower(1) by (rule inv_lower [OF assms(3,2) ds_lower(2,3)])
next
  case ds_lowered
  show ?thesis unfolding ds_lowered(1) using assms(3) ds_lowered(2) by (auto simp: d_inv_def fenced_def)
next
  case ds_lower_err
  show ?thesis unfolding ds_lower_err(1) using assms(3) by (auto simp: d_inv_def fenced_def)
next
  case ds_crash
  show ?thesis unfolding ds_crash by (rule inv_reboot [OF assms(3,1,2)])
qed

interpretation shard_disk: state_machine d_init "\<lambda>s s'. dir \<noteq> [] \<and> dstep cov dir True s s'"
  "\<lambda>s. genesis cov \<longrightarrow> d_inv cov s" for dir cov
proof unfold_locales
  fix s :: "'a shardDisk"
  assume i: "d_init s"
  show "genesis cov \<longrightarrow> d_inv cov s"
  proof
    assume g: "genesis cov"
    have "region_ok cov k [(0, 0)] (0, 0) (d_gs s ! k)" if "k < length (d_gs s)" for k
    proof -
      have "d_gs s ! k \<in> set (d_gs s)" using that by simp
      then show ?thesis using i g by (auto simp: d_init_def region_ok_def genesis_def)
    qed
    moreover have "one_history cov [(0, 0)]" by (simp add: one_history_def)
    ultimately show "d_inv cov s" using i by (simp add: d_inv_def d_init_def sound_def newPBFrontierStamper_def)
  qed
next
  fix s s' :: "'a shardDisk"
  assume "genesis cov \<longrightarrow> d_inv cov s" "dir \<noteq> [] \<and> dstep cov dir True s s'"
  then show "genesis cov \<longrightarrow> d_inv cov s'" using dstep_inv by blast
qed

section \<open>What a restart finds\<close>

lemma minFrontier_le: "fst (minFrontier m fs) \<le> fst m \<and> (\<forall>f\<in>set fs. fst (minFrontier m fs) \<le> fst f) \<and>
    (minFrontier m fs = m \<or> minFrontier m fs \<in> set fs)"
proof (induction fs arbitrary: m)
  case (Cons f fs)
  show ?case using Cons.IH [of f] Cons.IH [of m] by (cases "fst f < fst m") (auto intro: order.trans less_imp_le)
qed simp

lemma PBFrontier_min:
  assumes "hs \<noteq> []"
  shows "PBFrontier hs = (0, 0) \<or> (PBFrontier hs \<in> set hs \<and> (\<forall>h\<in>set hs. fst (PBFrontier hs) \<le> fst h))"
  using minFrontier_le [of "(-1, 0)" hs] by (auto simp: PBFrontier_def Let_def)

lemma reachable_inv:
  assumes "dir \<noteq> []" "genesis cov" "d_init s0" "(dstep cov dir True)\<^sup>*\<^sup>* s0 s"
  shows "d_inv cov s"
proof -
  have "dstep cov dir True \<le> (\<lambda>s s'. dir \<noteq> [] \<and> dstep cov dir True s s')" using assms(1) by auto
  from rtranclp_mono [OF this] have "(\<lambda>s s'. dir \<noteq> [] \<and> dstep cov dir True s s')\<^sup>*\<^sup>* s0 s" using assms(4) by blast
  from shard_disk.inv_reach [OF assms(3) this] show ?thesis using assms(2) by blast
qed


section \<open>A run, and the two excluded failures\<close>

text \<open>One cache shard with writes 1 to 9 of a first history, then an install of a shorter second history,
  whose writes are 21 to 25.\<close>

definition exampleCov :: "int coverage" where
  "exampleCov i f = (if snd f = 1 then {1..uint (fst f)} else if snd f = 2 then {21..20 + uint (fst f)} else {})"

definition freshDisk :: "int shardDisk" where
  "freshDisk = \<lparr>d_gs = [\<lparr>g_mem = {}, g_disk = {}, g_memHdr = (0, 0), g_hdr = (0, 0)\<rparr>], d_stamp = newPBFrontierStamper 0,
     d_marker = None, d_markerDisk = None, d_flush = None, d_inst = Idle, d_wiped = False, d_life = [(0, 0)]\<rparr>"

lemma exampleCov_genesis: "genesis exampleCov"
  by (auto simp: genesis_def exampleCov_def)

text \<open>Nine writes, flushed.\<close>

definition writtenDisk :: "int shardDisk" where
  "writtenDisk = freshDisk\<lparr>d_gs := [\<lparr>g_mem = {1..9}, g_disk = {1..9}, g_memHdr = (9, 1), g_hdr = (9, 1)\<rparr>],
     d_stamp := \<lparr>fs_everyN = 0, fs_pend = (9, 1), fs_stamped = (9, 1), fs_since = 0\<rparr>, d_life := [(9, 1), (0, 0)]\<rparr>"

lemma run_writes: "(dstep exampleCov ''d'' b)\<^sup>*\<^sup>* freshDisk writtenDisk"
proof -
  let ?R = "dstep exampleCov ''d'' b"
  let ?s1 = "freshDisk\<lparr>d_gs := [\<lparr>g_mem = {1..9}, g_disk = {}, g_memHdr = (0, 0), g_hdr = (0, 0)\<rparr>],
     d_stamp := \<lparr>fs_everyN = 0, fs_pend = (9, 1), fs_stamped = (0, 0), fs_since = 0\<rparr>, d_life := [(9, 1), (0, 0)]\<rparr>"
  let ?s2 = "?s1\<lparr>d_stamp := \<lparr>fs_everyN = 0, fs_pend = (9, 1), fs_stamped = (9, 1), fs_since = 0\<rparr>, d_flush := Some ((9, 1), [0])\<rparr>"
  have 1: "?R freshDisk ?s1"
    using ds_write [of freshDisk "[{1..9}]" exampleCov "(9, 1)" _ "''d''" b]
    by (simp add: freshDisk_def serving_def one_history_def exampleCov_def stamper_record_def newPBFrontierStamper_def)
  have 2: "?R ?s1 ?s2"
    using ds_flush [of ?s1 "(9, 1)" _ exampleCov "''d''" b] by (simp add: freshDisk_def stamper_flush_def)
  have 3: "?R ?s2 (writtenDisk\<lparr>d_flush := Some ((9, 1), [])\<rparr>)"
    using ds_stamp [of ?s2 "(9, 1)" 0 "[]" b Synced exampleCov "''d''"]
    by (simp add: freshDisk_def writtenDisk_def updRegion_def stampRegion_def)
  have 4: "?R (writtenDisk\<lparr>d_flush := Some ((9, 1), [])\<rparr>) writtenDisk"
    using ds_flushed [of "writtenDisk\<lparr>d_flush := Some ((9, 1), [])\<rparr>" "(9, 1)" exampleCov "''d''" b]
    by (simp add: writtenDisk_def freshDisk_def)
  from 1 2 3 4 show ?thesis by (meson converse_rtranclp_into_rtranclp rtranclp.rtrancl_refl)
qed

lemma freshDisk_init: "d_init freshDisk"
  by (simp add: d_init_def freshDisk_def)


text \<open>The install of the second history at frontier \<open>(5, 2)\<close>, up to the wipe.\<close>

definition raisedDisk :: "int shardDisk" where
  "raisedDisk = writtenDisk\<lparr>d_marker := Some (fenceBytes 5 2), d_markerDisk := Some (fenceBytes 5 2), d_inst := Raised (5, 2)\<rparr>"

lemma run_raise: "(dstep exampleCov ''d'' b)\<^sup>*\<^sup>* writtenDisk raisedDisk"
proof -
  let ?R = "dstep exampleCov ''d'' b" and ?s1 = "writtenDisk\<lparr>d_marker := Some (fenceBytes 5 2), d_inst := Raising (5, 2)\<rparr>"
  have 1: "?R writtenDisk ?s1"
    using ds_raise [of writtenDisk exampleCov "''d''" b "(5, 2)"]
    by (simp add: writtenDisk_def freshDisk_def BeginInstall_def fence_raise_def)
  have 2: "?R ?s1 raisedDisk" using ds_raised [of ?s1 "(5, 2)" exampleCov "''d''" b] by (simp add: raisedDisk_def)
  from 1 2 show ?thesis by (meson converse_rtranclp_into_rtranclp rtranclp.rtrancl_refl)
qed

definition wipedDisk :: "int region \<Rightarrow> int shardDisk" where
  "wipedDisk g = raisedDisk\<lparr>d_gs := [g], d_inst := Wiping (5, 2), d_wiped := True\<rparr>"

lemma run_wipe:
  assumes "g_memHdr g = (9, 1)" "g_hdr g = (9, 1)"
  shows "(dstep exampleCov ''d'' b)\<^sup>*\<^sup>* raisedDisk (wipedDisk g)"
proof -
  let ?R = "dstep exampleCov ''d'' b" and ?s1 = "raisedDisk\<lparr>d_inst := Wiping (5, 2), d_wiped := True\<rparr>"
  have 1: "?R raisedDisk ?s1" using ds_wipe [of raisedDisk "(5, 2)" exampleCov "''d''" b] by (simp add: raisedDisk_def)
  have 2: "?R ?s1 (wipedDisk g)"
    using ds_mutate [of ?s1 "(5, 2)" "[g]" exampleCov "''d''" b] assms
    by (simp add: raisedDisk_def writtenDisk_def freshDisk_def wipedDisk_def)
  from 1 2 show ?thesis by (meson converse_rtranclp_into_rtranclp rtranclp.rtrancl_refl)
qed

text \<open>\<open>SetPBFrontier\<close> reports no error. When the data flush of a committing install fails, the header keeps
  the old, higher frontier, and the fence is lowered all the same: the node restarts, unfenced, with
  the claim to hold nine writes of a history it has discarded.\<close>

definition overreporting :: "int shardDisk \<Rightarrow> bool" where
  "overreporting s = (\<not> InstallPending ''d'' (d_markerDisk s) \<and> PBFrontier (map g_hdr (d_gs s)) = (9, 1) \<and>
     \<not> exampleCov 0 (9, 1) \<subseteq> g_disk (d_gs s ! 0))"

lemma commit_sync_failure_overreports:
  "\<exists>s. (dstep exampleCov ''d'' False)\<^sup>*\<^sup>* freshDisk s \<and> overreporting s"
proof -
  let ?R = "dstep exampleCov ''d'' False"
  let ?g = "\<lparr>g_mem = {21..25}, g_disk = {}, g_memHdr = (9, 1), g_hdr = (9, 1)\<rparr> :: int region"
  let ?s1 = "(wipedDisk ?g)\<lparr>d_inst := Installed (5, 2)\<rparr>"
  let ?s2 = "CommitInstall (5, 2) ?s1" and ?s3 = "(CommitInstall (5, 2) ?s1)\<lparr>d_flush := Some ((5, 2), [])\<rparr>"
  let ?s4 = "lowerFence ''d'' ?s3"
  let ?s5 = "?s4\<lparr>d_markerDisk := None, d_inst := Idle\<rparr>"
  note defs = wipedDisk_def raisedDisk_def writtenDisk_def freshDisk_def CommitInstall_def lowerFence_def
  have 1: "?R (wipedDisk ?g) ?s1" by (rule ds_installed) (simp_all add: defs exampleCov_def)
  have 2: "?R ?s1 ?s2" by (rule ds_commit) (simp_all add: defs)
  have 3: "?R ?s2 ?s3"
    using ds_stamp [of ?s2 "(5, 2)" 0 "[]" False DataFails exampleCov "''d''"]
    by (simp add: defs updRegion_def stampRegion_def)
  have 4: "?R ?s3 ?s4" by (rule ds_lower [where f = "(5, 2)"]) (simp_all add: defs)
  have 5: "?R ?s4 ?s5" using ds_lowered [of ?s4 exampleCov "''d''" False] by (simp add: defs fence_lower_def)
  have "?R\<^sup>*\<^sup>* (wipedDisk ?g) ?s5" using 1 2 3 4 5 by (meson converse_rtranclp_into_rtranclp rtranclp.rtrancl_refl)
  then have r: "?R\<^sup>*\<^sup>* freshDisk ?s5" using run_writes [of False] run_raise [of False] run_wipe [of ?g False] by simp
  have "PBFrontier [(9, 1)] = (9, 1)" by code_simp
  then have "overreporting ?s5" by (simp add: overreporting_def pending_marker defs exampleCov_def)
  with r show ?thesis by blast
qed

text \<open>An install that fails half way leaves the fence up. When the next install is then aborted before it
  touches anything (a newer epoch, or a shutdown), its abort lowers that fence.\<close>

lemma abort_after_failed_install_overreports:
  "\<exists>s. (dstep exampleCov ''d'' False)\<^sup>*\<^sup>* freshDisk s \<and> overreporting s"
proof -
  let ?R = "dstep exampleCov ''d'' False"
  let ?g = "\<lparr>g_mem = {}, g_disk = {}, g_memHdr = (9, 1), g_hdr = (9, 1)\<rparr> :: int region"
  let ?s1 = "(wipedDisk ?g)\<lparr>d_inst := Idle\<rparr>"
  let ?s2 = "BeginInstall ''d'' (5, 2) ?s1"
  let ?s3 = "?s2\<lparr>d_markerDisk := d_marker ?s2, d_inst := Raised (5, 2)\<rparr>"
  let ?s4 = "AbortInstall ''d'' ?s3"
  let ?s5 = "?s4\<lparr>d_markerDisk := d_marker ?s4, d_inst := Idle\<rparr>"
  note defs = wipedDisk_def raisedDisk_def writtenDisk_def freshDisk_def BeginInstall_def AbortInstall_def fence_lower_def
  have 1: "?R (wipedDisk ?g) ?s1" by (rule ds_install_err [where f = "(5, 2)"]) (simp add: defs)
  have 2: "?R ?s1 ?s2" by (rule ds_raise) simp
  have 3: "?R ?s2 ?s3" by (rule ds_raised) (simp add: defs)
  have 4: "?R ?s3 ?s4" by (rule ds_abort [where f = "(5, 2)"]) simp_all
  have 5: "?R ?s4 ?s5" by (rule ds_lowered) (simp add: defs)
  have "?R\<^sup>*\<^sup>* (wipedDisk ?g) ?s5" using 1 2 3 4 5 by (meson converse_rtranclp_into_rtranclp rtranclp.rtrancl_refl)
  then have r: "?R\<^sup>*\<^sup>* freshDisk ?s5" using run_writes [of False] run_raise [of False] run_wipe [of ?g False] by simp
  have "PBFrontier [(9, 1)] = (9, 1)" by code_simp
  then have "overreporting ?s5" by (simp add: overreporting_def pending_marker defs exampleCov_def)
  with r show ?thesis by blast
qed

end
