(* ===== verification/LogEntry.thy ===== *)
theory LogEntry
  imports Prelude
begin

text \<open>
  The replicated log entry of \<^verbatim>\<open>shard/log.go\<close>: the two layouts (legacy and stamped), the four
  encoders and the decoder every replica runs. A Go string is its bytes. A pooled encoder is given
  the backing array the pool hands out, with whatever a previous entry left in it.
\<close>

definition maxOpNameLen :: nat where "maxOpNameLen = 255"
definition logStampMarker :: u8 where "logStampMarker = 0"
definition logStampVersion :: u8 where "logStampVersion = 1"
definition stampedHeaderLen :: nat where "stampedHeaderLen = 1 + 1 + 8 + 1"

datatype logEntryError = ErrLogEntryTruncated | ErrLogEntryVersion u8

text \<open>An encoder given a name longer than 255 bytes panics: \<^const>\<open>None\<close>.\<close>

definition EncodeLogEntry :: "bytes \<Rightarrow> bytes \<Rightarrow> bytes option" where
  "EncodeLogEntry opName args =
     (if length opName > maxOpNameLen then None
      else let n = length opName;
               b0 = replicate (1 + n + 4 + length args) 0;
               b1 = putAt 0 [of_nat n] b0;
               b2 = putAt 1 opName b1;
               b3 = putAt (1 + n) (be32 (of_nat (length args))) b2
           in Some (putAt (1 + n + 4) args b3))"

definition EncodeLogEntryPooled :: "bytes \<Rightarrow> bytes \<Rightarrow> bytes \<Rightarrow> bytes option" where
  "EncodeLogEntryPooled recycled opName args =
     (if length opName > maxOpNameLen then None
      else let b0 = take 0 recycled;
               b1 = b0 @ [of_nat (length opName)];
               b2 = b1 @ opName;
               b3 = b2 @ be32 (of_nat (length args))
           in Some (b3 @ args))"

definition appendStampedHeader :: "bytes \<Rightarrow> bytes \<Rightarrow> bytes \<Rightarrow> u64 \<Rightarrow> bytes" where
  "appendStampedHeader buf opName args stampMs =
     (let b0 = putAt 0 [logStampMarker] buf;
          b1 = putAt 1 [logStampVersion] b0;
          b2 = putAt 2 (be64 stampMs) b1;
          b3 = putAt 10 [of_nat (length opName)] b2;
          b4 = putAt stampedHeaderLen opName b3;
          off = stampedHeaderLen + length opName;
          b5 = putAt off (be32 (of_nat (length args))) b4
      in putAt (off + 4) args b5)"

definition EncodeLogEntryStamped :: "bytes \<Rightarrow> bytes \<Rightarrow> u64 \<Rightarrow> bytes option" where
  "EncodeLogEntryStamped opName args stampMs =
     (if length opName > maxOpNameLen then None
      else Some (appendStampedHeader
             (replicate (stampedHeaderLen + length opName + 4 + length args) 0) opName args stampMs))"

definition EncodeLogEntryStampedPooled :: "bytes \<Rightarrow> bytes \<Rightarrow> bytes \<Rightarrow> u64 \<Rightarrow> bytes option" where
  "EncodeLogEntryStampedPooled recycled opName args stampMs =
     (if length opName > maxOpNameLen then None
      else let need = stampedHeaderLen + length opName + 4 + length args;
               buf = (if length recycled < need then replicate need 0 else take need recycled)
           in Some (appendStampedHeader buf opName args stampMs))"

definition decodeStampedLogEntry :: "bytes \<Rightarrow> logEntryError + bytes \<times> bytes \<times> u64 \<times> bool" where
  "decodeStampedLogEntry buf =
     (if length buf < stampedHeaderLen then Inl ErrLogEntryTruncated
      else if buf ! 1 \<noteq> logStampVersion then Inl (ErrLogEntryVersion (buf ! 1))
      else let stampMs = rd_be64 (gslice 2 10 buf);
               nameLen = unat (buf ! 10)
           in if length buf < stampedHeaderLen + nameLen + 4 then Inl ErrLogEntryTruncated
              else let opName = gslice stampedHeaderLen (stampedHeaderLen + nameLen) buf;
                       off = stampedHeaderLen + nameLen;
                       argsLen = unat (rd_be32 (gslice off (off + 4) buf))
                   in if length buf < off + 4 + argsLen then Inl ErrLogEntryTruncated
                      else Inr (opName, gslice (off + 4) (off + 4 + argsLen) buf, stampMs, True))"

definition DecodeLogEntry :: "bytes \<Rightarrow> logEntryError + bytes \<times> bytes \<times> u64 \<times> bool" where
  "DecodeLogEntry buf =
     (if length buf < 1 then Inl ErrLogEntryTruncated
      else if buf ! 0 = logStampMarker then decodeStampedLogEntry buf
      else let nameLen = unat (buf ! 0)
           in if length buf < 1 + nameLen + 4 then Inl ErrLogEntryTruncated
              else let argsLen = unat (rd_be32 (gslice (1 + nameLen) (1 + nameLen + 4) buf))
                   in if length buf < 1 + nameLen + 4 + argsLen then Inl ErrLogEntryTruncated
                      else Inr (gslice 1 (1 + nameLen) buf,
                                gslice (1 + nameLen + 4) (1 + nameLen + 4 + argsLen) buf, 0, False))"

section \<open>The layouts the encoders write\<close>

lemma stamped_layout:
  assumes "length buf = stampedHeaderLen + length opName + 4 + length args"
  shows "appendStampedHeader buf opName args stampMs =
    [logStampMarker, logStampVersion] @ be64 stampMs @ [of_nat (length opName)] @ opName @
    be32 (of_nat (length args)) @ args"
proof -
  define b0 where "b0 = putAt 0 [logStampMarker] buf"
  define b1 where "b1 = putAt 1 [logStampVersion] b0"
  define b2 where "b2 = putAt 2 (be64 stampMs) b1"
  define b3 where "b3 = putAt 10 [of_nat (length opName)] b2"
  define b4 where "b4 = putAt 11 opName b3"
  define b5 where "b5 = putAt (11 + length opName) (be32 (of_nat (length args))) b4"
  define b6 where "b6 = putAt (11 + length opName + 4) args b5"
  note bs = b0_def b1_def b2_def b3_def b4_def b5_def b6_def
  have len: "length b0 = length buf" "length b1 = length buf" "length b2 = length buf"
    "length b3 = length buf" "length b4 = length buf" "length b5 = length buf" "length b6 = length buf"
    using assms by (simp_all add: bs stampedHeaderLen_def)
  note l = len assms [unfolded stampedHeaderLen_def]
  have "take 1 b0 = [logStampMarker]"
    using putAt_prefix [of 0 buf "[]" "[logStampMarker]"] l by (simp add: b0_def)
  then have "take 2 b1 = [logStampMarker, logStampVersion]"
    using putAt_prefix [of 1 b0 _ "[logStampVersion]"] l by (simp add: b1_def numeral_2_eq_2)
  then have "take 10 b2 = [logStampMarker, logStampVersion] @ be64 stampMs"
    using putAt_prefix [of 2 b1 _ "be64 stampMs"] l by (simp add: b2_def)
  then have "take 11 b3 = [logStampMarker, logStampVersion] @ be64 stampMs @ [of_nat (length opName)]"
    using putAt_prefix [of 10 b2 _ "[of_nat (length opName)]"] l by (simp add: b3_def)
  then have "take (11 + length opName) b4 =
      [logStampMarker, logStampVersion] @ be64 stampMs @ [of_nat (length opName)] @ opName"
    using putAt_prefix [of 11 b3 _ opName] l by (simp add: b4_def)
  then have "take (11 + length opName + 4) b5 = [logStampMarker, logStampVersion] @ be64 stampMs @
      [of_nat (length opName)] @ opName @ be32 (of_nat (length args))"
    using putAt_prefix [of "11 + length opName" b4 _ "be32 (of_nat (length args))"] l by (simp add: b5_def)
  then have "take (length buf) b6 = [logStampMarker, logStampVersion] @ be64 stampMs @
      [of_nat (length opName)] @ opName @ be32 (of_nat (length args)) @ args"
    using putAt_prefix [of "11 + length opName + 4" b5 _ args] l by (simp add: b6_def)
  moreover have "appendStampedHeader buf opName args stampMs = b6"
    by (simp add: appendStampedHeader_def bs stampedHeaderLen_def Let_def)
  ultimately show ?thesis using len by simp
qed

lemma legacy_layout:
  "EncodeLogEntry opName args = (if length opName > maxOpNameLen then None
     else Some ([of_nat (length opName)] @ opName @ be32 (of_nat (length args)) @ args))"
proof -
  let ?n = "length opName"
  define b0 :: bytes where "b0 = replicate (1 + ?n + 4 + length args) 0"
  define b1 where "b1 = putAt 0 [of_nat ?n] b0"
  define b2 where "b2 = putAt 1 opName b1"
  define b3 where "b3 = putAt (1 + ?n) (be32 (of_nat (length args))) b2"
  define b4 where "b4 = putAt (1 + ?n + 4) args b3"
  note bs = b1_def b2_def b3_def b4_def
  have l0: "length b0 = 1 + ?n + 4 + length args" by (simp add: b0_def)
  have l: "length b1 = length b0" "length b2 = length b0" "length b3 = length b0" "length b4 = length b0"
    using l0 by (simp_all add: bs)
  have "take 1 b1 = [of_nat ?n]"
    using putAt_prefix [of 0 b0 "[]" "[of_nat ?n]"] l0 by (simp add: b1_def)
  then have "take (1 + ?n) b2 = [of_nat ?n] @ opName"
    using putAt_prefix [of 1 b1 _ opName] l l0 by (simp add: b2_def)
  then have "take (1 + ?n + 4) b3 = [of_nat ?n] @ opName @ be32 (of_nat (length args))"
    using putAt_prefix [of "1 + ?n" b2 _ "be32 (of_nat (length args))"] l l0 by (simp add: b3_def)
  then have "take (length b0) b4 = [of_nat ?n] @ opName @ be32 (of_nat (length args)) @ args"
    using putAt_prefix [of "1 + ?n + 4" b3 _ args] l l0 by (simp add: b4_def)
  then have "b4 = [of_nat ?n] @ opName @ be32 (of_nat (length args)) @ args" using l by simp
  moreover have "EncodeLogEntry opName args = (if length opName > maxOpNameLen then None else Some b4)"
    by (simp add: EncodeLogEntry_def Let_def bs b0_def)
  ultimately show ?thesis by simp
qed

text \<open>(C35) The pooled encoders are the plain ones: whatever bytes and whatever capacity the pool's
  recycled buffer has, \<^const>\<open>EncodeLogEntryPooled\<close> and \<^const>\<open>EncodeLogEntryStampedPooled\<close>
  produce exactly the bytes of \<^const>\<open>EncodeLogEntry\<close> and \<^const>\<open>EncodeLogEntryStamped\<close>, and
  panic exactly when they do; no stale byte of an earlier entry reaches the replicated log.\<close>

theorem pooled_encoders_equal:
  "EncodeLogEntryPooled recycled opName args = EncodeLogEntry opName args \<and>
   EncodeLogEntryStampedPooled recycled opName args stampMs = EncodeLogEntryStamped opName args stampMs"
  by (simp add: legacy_layout EncodeLogEntryPooled_def EncodeLogEntryStampedPooled_def EncodeLogEntryStamped_def
      stamped_layout Let_def)

section \<open>Decoding\<close>

lemma name_byte [simp]:
  "n \<le> maxOpNameLen \<Longrightarrow> unat (of_nat n :: u8) = n"
  "n \<le> maxOpNameLen \<Longrightarrow> (of_nat n :: u8) = 0 \<longleftrightarrow> n = 0"
proof -
  show *: "n \<le> maxOpNameLen \<Longrightarrow> unat (of_nat n :: u8) = n" for n
    by (simp add: maxOpNameLen_def unat_of_nat)
  show "n \<le> maxOpNameLen \<Longrightarrow> (of_nat n :: u8) = 0 \<longleftrightarrow> n = 0"
    using * [of n] by auto
qed

lemma args_word [simp]: "n < 2 ^ 32 \<Longrightarrow> unat (of_nat n :: u32) = n"
  by (simp add: unat_of_nat)

text \<open>What the decoder reads off a buffer that starts with a written entry.\<close>

lemma decode_legacy:
  assumes "0 < length opName" "length opName \<le> maxOpNameLen" "length args < 2 ^ 32"
    and len: "length args' \<le> length args" "length args' < length args \<Longrightarrow> t = []"
  shows "DecodeLogEntry ([of_nat (length opName)] @ opName @ be32 (of_nat (length args)) @ args' @ t) =
    (if length args' < length args then Inl ErrLogEntryTruncated else Inr (opName, args', 0, False))"
proof -
  have n: "unat (of_nat (length opName) :: u8) = length opName" "(of_nat (length opName) :: u8) \<noteq> 0"
    using assms by simp_all
  have a: "unat (of_nat (length args) :: u32) = length args" using assms by simp
  show ?thesis using len n a
    by (auto simp: DecodeLogEntry_def logStampMarker_def gslice_def Let_def drop_Cons')
qed

lemma decode_stamped:
  assumes "length opName \<le> maxOpNameLen" "length args < 2 ^ 32"
    and len: "length args' \<le> length args" "length args' < length args \<Longrightarrow> t = []"
  shows "DecodeLogEntry ([logStampMarker, logStampVersion] @ be64 stampMs @ [of_nat (length opName)] @ opName @
      be32 (of_nat (length args)) @ args' @ t) =
    (if length args' < length args then Inl ErrLogEntryTruncated else Inr (opName, args', stampMs, True))"
proof -
  have n: "unat (of_nat (length opName) :: u8) = length opName" using assms by simp
  have a: "unat (of_nat (length args) :: u32) = length args" using assms by simp
  show ?thesis using len n a
    by (auto simp: DecodeLogEntry_def decodeStampedLogEntry_def stampedHeaderLen_def gslice_def Let_def nth_append drop_Cons')
qed

text \<open>A buffer cut inside the fixed fields, and one cut inside the arguments.\<close>

lemma decode_legacy_cut:
  assumes "0 < length opName" "length opName \<le> maxOpNameLen" "length args < 2 ^ 32"
    and k: "k < 1 + length opName + 4 + length args"
  shows "DecodeLogEntry (take k ([of_nat (length opName)] @ opName @ be32 (of_nat (length args)) @ args)) =
    Inl ErrLogEntryTruncated"
proof (cases "k < 1 + length opName + 4")
  case True
  have n: "unat (of_nat (length opName) :: u8) = length opName" "(of_nat (length opName) :: u8) \<noteq> 0"
    using assms by simp_all
  show ?thesis using True n by (cases k) (auto simp: DecodeLogEntry_def logStampMarker_def Let_def)
next
  case False
  let ?a = "take (k - (5 + length opName)) args"
  have "take k ([of_nat (length opName)] @ opName @ be32 (of_nat (length args)) @ args) =
      [of_nat (length opName)] @ opName @ be32 (of_nat (length args)) @ ?a @ []"
    using False by (cases k) (simp_all add: algebra_simps)
  then show ?thesis using decode_legacy [OF assms(1-3), of ?a "[]"] k False by auto
qed

lemma decode_stamped_cut:
  assumes "length opName \<le> maxOpNameLen" "length args < 2 ^ 32"
    and k: "k < stampedHeaderLen + length opName + 4 + length args"
  shows "DecodeLogEntry (take k ([logStampMarker, logStampVersion] @ be64 stampMs @ [of_nat (length opName)] @
    opName @ be32 (of_nat (length args)) @ args)) = Inl ErrLogEntryTruncated"
proof -
  let ?h = "[logStampMarker, logStampVersion] @ be64 stampMs @ [of_nat (length opName)]"
  have n: "unat (of_nat (length opName) :: u8) = length opName" using assms by simp
  consider "k = 0" | "0 < k" "k < 11" | "11 \<le> k" "k < 11 + length opName + 4" | "11 + length opName + 4 \<le> k"
    by linarith
  then show ?thesis
  proof cases
    case 3
    then show ?thesis using n
      by (auto simp: DecodeLogEntry_def decodeStampedLogEntry_def stampedHeaderLen_def nth_append take_Cons' Let_def)
  next
    case 4
    let ?a = "take (k - (15 + length opName)) args"
    have "take k (?h @ opName @ be32 (of_nat (length args)) @ args) =
        ?h @ opName @ be32 (of_nat (length args)) @ ?a @ []"
      using 4 by (simp add: take_Cons')
    then show ?thesis using decode_stamped [OF assms(1,2), of ?a "[]" stampMs] k 4
      by (auto simp: stampedHeaderLen_def)
  qed (auto simp: DecodeLogEntry_def decodeStampedLogEntry_def stampedHeaderLen_def nth_append take_Cons')
qed

lemma stamped_bytes:
  "length opName \<le> maxOpNameLen \<Longrightarrow> EncodeLogEntryStamped opName args stampMs =
    Some ([logStampMarker, logStampVersion] @ be64 stampMs @ [of_nat (length opName)] @ opName @
      be32 (of_nat (length args)) @ args)"
  by (simp add: EncodeLogEntryStamped_def stamped_layout)

lemma decode_encoded:
  assumes "length opName \<le> maxOpNameLen" "length args < 2 ^ 32"
  shows "opName \<noteq> [] \<Longrightarrow> EncodeLogEntry opName args = Some l \<Longrightarrow> DecodeLogEntry (l @ t) = Inr (opName, args, 0, False)"
    and "EncodeLogEntryStamped opName args stampMs = Some s \<Longrightarrow>
      DecodeLogEntry (s @ t) = Inr (opName, args, stampMs, True)"
  using assms decode_legacy [OF _ assms, of args t] decode_stamped [OF assms, of args t stampMs]
  by (auto simp: legacy_layout stamped_bytes)

text \<open>The two entry layouts: for an operation name of 1 to 255 bytes and arguments below 4 GiB both
  encoders succeed, \<^const>\<open>DecodeLogEntry\<close> tells the layouts apart and returns exactly the name, the
  arguments, the stamp and whether there is one (a zero stamp is still a stamp), whatever follows the
  entry in the buffer; and every proper prefix of either entry is refused as truncated, never
  misread.\<close>

theorem log_entry_roundtrip:
  assumes "opName \<noteq> []" "length opName \<le> maxOpNameLen" "length args < 2 ^ 32"
  shows "\<exists>l s. EncodeLogEntry opName args = Some l \<and> EncodeLogEntryStamped opName args stampMs = Some s \<and>
    DecodeLogEntry (l @ t) = Inr (opName, args, 0, False) \<and>
    DecodeLogEntry (s @ t) = Inr (opName, args, stampMs, True) \<and>
    (\<forall>k. k < length l \<longrightarrow> DecodeLogEntry (take k l) = Inl ErrLogEntryTruncated) \<and>
    (\<forall>k. k < length s \<longrightarrow> DecodeLogEntry (take k s) = Inl ErrLogEntryTruncated)"
proof -
  obtain l s where l: "EncodeLogEntry opName args = Some l" and s: "EncodeLogEntryStamped opName args stampMs = Some s"
    using assms by (auto simp: legacy_layout stamped_bytes)
  have "\<forall>k. k < length l \<longrightarrow> DecodeLogEntry (take k l) = Inl ErrLogEntryTruncated"
    using l assms decode_legacy_cut [OF _ assms(2,3)] by (auto simp: legacy_layout)
  moreover have "\<forall>k. k < length s \<longrightarrow> DecodeLogEntry (take k s) = Inl ErrLogEntryTruncated"
    using s assms decode_stamped_cut [OF assms(2,3), of _ stampMs] by (auto simp: stamped_bytes stampedHeaderLen_def)
  ultimately show ?thesis using l s decode_encoded [OF assms(2,3)] assms(1) by blast
qed

theorem log_entry_roundtrip_witness:
  "\<exists>l s. EncodeLogEntry [112, 117, 116] [1, 2] = Some l \<and> EncodeLogEntryStamped [112, 117, 116] [1, 2] 0 = Some s \<and>
    DecodeLogEntry (l @ [9]) = Inr ([112, 117, 116], [1, 2], 0, False) \<and>
    DecodeLogEntry (s @ [9]) = Inr ([112, 117, 116], [1, 2], 0, True) \<and>
    DecodeLogEntry (take 5 l) = Inl ErrLogEntryTruncated"
proof -
  have "EncodeLogEntry [112, 117, 116] [1, 2] = Some [3, 112, 117, 116, 0, 0, 0, 2, 1, 2]" by code_simp
  moreover have "length [112 :: u8, 117, 116] \<le> maxOpNameLen" "length [1 :: u8, 2] < 2 ^ 32"
    by (simp_all add: maxOpNameLen_def)
  ultimately show ?thesis using log_entry_roundtrip [of "[112, 117, 116]" "[1, 2]" 0 "[9]"] by fastforce
qed

end
