(* ===== verification/Replicator.thy ===== *)
theory Replicator
  imports LogEntry EngineInv
begin

text \<open>
  The shard side of the primary-backup engine: the state machine's dispatch of a log entry
  (\<^verbatim>\<open>fsm.applyEntryData\<close>, \<^verbatim>\<open>fsm.applyWithRetry\<close>), the classification of its errors
  (\<^verbatim>\<open>shard/apply_class.go\<close>), the applier the engine calls and its result frame
  (\<^verbatim>\<open>shard/pb_applier.go\<close>), and the adapter that gives the engine the replicator interface of a
  shard (\<^verbatim>\<open>shard/pb_replicator.go\<close>).
\<close>

section \<open>Apply errors and their classes\<close>

text \<open>The error values \<^verbatim>\<open>errors.Is\<close> is asked about. An error is what the state machine made of a
  failed dispatch, or a handler's own error: the sentinels in its chain and its text.\<close>

datatype sentinel = ErrWASMModuleNotResident | ErrWASMNoGroupBinding | ErrFull | ErrCannotEvict
  | ErrFlushNotDurable | ErrReuseBarrier | ErrOtherSentinel nat

datatype applyErr = ErrOpNotRegistered | errPBApplyDecode logEntryError | errPBApplyReadOnly bytes
  | ErrHandler "sentinel list" bytes

record ApplyResponse =
  ar_Result :: bytes
  ar_Err :: "applyErr option"

fun errIs :: "applyErr \<Rightarrow> sentinel \<Rightarrow> bool" where
  "errIs (ErrHandler ss msg) s = (s \<in> set ss)"
| "errIs _ s = False"

datatype applyClass = classAdvance | classFatal | classRetry

definition isVersionErr :: "applyErr \<Rightarrow> bool" where
  "isVersionErr err = (case err of errPBApplyDecode (ErrLogEntryVersion v) \<Rightarrow> True | _ \<Rightarrow> False)"

definition isReadOnlyErr :: "applyErr \<Rightarrow> bool" where
  "isReadOnlyErr err = (case err of errPBApplyReadOnly op \<Rightarrow> True | _ \<Rightarrow> False)"

definition classifyApplyErr :: "applyErr option \<Rightarrow> applyClass" where
  "classifyApplyErr oerr = (case oerr of None \<Rightarrow> classAdvance | Some err \<Rightarrow>
     if errIs err ErrWASMModuleNotResident then classRetry
     else if isVersionErr err then classFatal
     else if err = ErrOpNotRegistered then classFatal
     else if isReadOnlyErr err then classFatal
     else if errIs err ErrWASMNoGroupBinding then classFatal
     else if errIs err ErrFull \<or> errIs err ErrCannotEvict then classFatal
     else if errIs err ErrFlushNotDurable then classFatal
     else if errIs err ErrReuseBarrier then classFatal
     else classAdvance)"

definition isInfraError :: "applyErr \<Rightarrow> bool" where
  "isInfraError err = (err = ErrOpNotRegistered \<or>
     (case err of errPBApplyDecode e \<Rightarrow> True | _ \<Rightarrow> False) \<or> isReadOnlyErr err)"

text \<open>\<^verbatim>\<open>Error()\<close> of these values; \<open>quote\<close> is the quoting of \<^verbatim>\<open>%q\<close>.\<close>

definition gobytes :: "string \<Rightarrow> bytes" where "gobytes s = map of_char s"

fun goItoa :: "nat \<Rightarrow> bytes" where
  "goItoa n = (if n < 10 then [of_nat (48 + n)] else goItoa (n div 10) @ [of_nat (48 + n mod 10)])"

declare goItoa.simps [simp del]

fun errText :: "(bytes \<Rightarrow> bytes) \<Rightarrow> applyErr \<Rightarrow> bytes" where
  "errText quote ErrOpNotRegistered = gobytes ''shard: op not registered''"
| "errText quote (errPBApplyDecode ErrLogEntryTruncated) = gobytes ''apply decode: shard: log entry truncated''"
| "errText quote (errPBApplyDecode (ErrLogEntryVersion v)) =
     gobytes ''apply decode: shard: unsupported log entry version: '' @ goItoa (unat v)"
| "errText quote (errPBApplyReadOnly op) = gobytes ''apply: read-only op through write path: '' @ quote op"
| "errText quote (ErrHandler ss msg) = msg"

section \<open>Dispatch\<close>

text \<open>The operation registry of a node, as it answers at one attempt: a name's handler and kind. A
  handler runs on the shard's state with the entry's stamp (the stamped clock, or no stamp: the
  node's own clock, which the handler closes over), and returns the new state and its response.\<close>

datatype opKind = OpReadOnly | OpReadWrite

type_synonym 's handler = "u64 \<Rightarrow> bool \<Rightarrow> bytes \<Rightarrow> 's \<Rightarrow> 's \<times> ApplyResponse"
type_synonym 's registry = "bytes \<Rightarrow> ('s handler \<times> opKind) option"

definition applyEntryData :: "'s registry \<Rightarrow> bytes \<Rightarrow> 's \<Rightarrow> 's \<times> ApplyResponse" where
  "applyEntryData reg data s =
     (case DecodeLogEntry data of
        Inl err \<Rightarrow> (s, \<lparr>ar_Result = [], ar_Err = Some (errPBApplyDecode err)\<rparr>)
      | Inr (opName, args, stampMs, stamped) \<Rightarrow>
          (case reg opName of
             None \<Rightarrow> (s, \<lparr>ar_Result = [], ar_Err = Some ErrOpNotRegistered\<rparr>)
           | Some (handler, kind) \<Rightarrow>
               if kind = OpReadOnly
               then (s, \<lparr>ar_Result = [], ar_Err = Some (errPBApplyReadOnly opName)\<rparr>)
               else handler stampMs stamped args s))"

text \<open>The backoff before the next attempt, in nanoseconds, and the retry loop. The loop waits without
  a bound, until the store closes: \<open>reg # regs\<close> is what the registry answers at the attempts made
  before that, and the flag says whether the entry was judged.\<close>

definition defaultApplyRetryWait :: int where "defaultApplyRetryWait = 50000000"
definition applyRetryWaitCap :: int where "applyRetryWaitCap = 1000000000"

fun retryBackoff :: "nat \<Rightarrow> int \<Rightarrow> int" where
  "retryBackoff 0 wait = wait"
| "retryBackoff (Suc i) wait = (if wait < applyRetryWaitCap then retryBackoff i (wait * 2) else wait)"

definition waitApplyRetry :: "int \<Rightarrow> nat \<Rightarrow> int" where
  "waitApplyRetry applyRetryWait attempt =
     (let wait = (if applyRetryWait \<le> 0 then defaultApplyRetryWait else applyRetryWait);
          wait' = retryBackoff (attempt - 1) wait
      in if wait' > applyRetryWaitCap then applyRetryWaitCap else wait')"

fun applyWithRetry :: "'s registry \<Rightarrow> 's registry list \<Rightarrow> bytes \<Rightarrow> 's \<Rightarrow> 's \<times> ApplyResponse \<times> bool" where
  "applyWithRetry reg regs data s = (case applyEntryData reg data s of (s', resp) \<Rightarrow>
     if ar_Err resp = None \<or> classifyApplyErr (ar_Err resp) \<noteq> classRetry then (s', resp, True)
     else case regs of [] \<Rightarrow> (s', resp, False) | r # rs \<Rightarrow> applyWithRetry r rs data s')"

declare applyWithRetry.simps [simp del]

section \<open>The result frame\<close>

definition encodePBResult :: "bytes \<Rightarrow> bytes option \<Rightarrow> bytes" where
  "encodePBResult result opErr = (case opErr of
     Some msg \<Rightarrow> [1] @ le32 (of_nat (length msg)) @ msg
   | None \<Rightarrow> [0] @ le32 (of_nat (length result)) @ result)"

definition decodePBResult :: "bytes \<Rightarrow> ApplyResponse" where
  "decodePBResult b =
     (if length b < 5
      then \<lparr>ar_Result = [], ar_Err = Some (ErrHandler [] (gobytes ''pbisr: short result frame''))\<rparr>
      else let n = unat (rd_le32 (gslice 1 5 b))
           in if int n > int (length b) - 5
              then \<lparr>ar_Result = [], ar_Err = Some (ErrHandler [] (gobytes ''pbisr: truncated result frame''))\<rparr>
              else let payload = gslice 5 (5 + n) b
                   in if b ! 0 = 1 then \<lparr>ar_Result = [], ar_Err = Some (ErrHandler [] payload)\<rparr>
                      else \<lparr>ar_Result = payload, ar_Err = None\<rparr>)"

section \<open>The applier\<close>

definition errPBInfra :: pbError where "errPBInfra = ErrApply ''pbisr apply: infrastructure failure''"

definition shardApplierApply :: "(bytes \<Rightarrow> bytes) \<Rightarrow> 's registry \<Rightarrow> 's registry list \<Rightarrow> bytes \<Rightarrow> 's \<Rightarrow>
    's \<times> (pbError + bytes)" where
  "shardApplierApply quote reg regs data s = (case applyWithRetry reg regs data s of (s', resp, applied) \<Rightarrow>
     if \<not> applied then (s', Inl errPBInfra)
     else case ar_Err resp of
            None \<Rightarrow> (s', Inr (encodePBResult (ar_Result resp) None))
          | Some err \<Rightarrow> if isInfraError err \<or> classifyApplyErr (Some err) = classFatal then (s', Inl errPBInfra)
              else (s', Inr (encodePBResult (ar_Result resp) (Some (errText quote err)))))"

text \<open>The applier as the engine uses it: the state and the bytes on success, the error otherwise.\<close>

definition shardApplier :: "(bytes \<Rightarrow> bytes) \<Rightarrow> 's registry \<Rightarrow> 's registry list \<Rightarrow> 's applier" where
  "shardApplier quote reg regs s data = (case shardApplierApply quote reg regs data s of
     (s', Inl err) \<Rightarrow> Inl err | (s', Inr b) \<Rightarrow> Inr (s', b))"

section \<open>The replicator of a shard\<close>

datatype replicatorErr = ErrNotLeader | ErrEngine pbError

text \<open>\<^verbatim>\<open>ApplyIndexed\<close> on what the engine's \<^verbatim>\<open>ProposeDeadline\<close> returned.\<close>

definition pbApplyIndexed :: "pbError + bytes \<times> u64 \<Rightarrow> replicatorErr + ApplyResponse \<times> u64" where
  "pbApplyIndexed r = (case r of
     Inl err \<Rightarrow> if err = ErrNotPrimary \<or> err = ErrLeaseExpired then Inl ErrNotLeader else Inl (ErrEngine err)
   | Inr (result, seq) \<Rightarrow> Inr (decodePBResult result, seq))"

definition pbIsLeader :: "node \<Rightarrow> node \<Rightarrow> bool" where "pbIsLeader primary nodeID = (primary = nodeID)"
definition pbLeaderAddr :: "node \<Rightarrow> node" where "pbLeaderAddr primary = primary"
definition pbCommitIndex :: "'s Engine \<Rightarrow> u64" where "pbCommitIndex e = e_committed e"
definition pbAppliedIndex :: "'s Engine \<Rightarrow> u64" where "pbAppliedIndex e = e_committed e"

definition pbLastIndex :: "'s Engine \<Rightarrow> u64" where
  "pbLastIndex e = (if e_lastSeq e \<ge> e_lastApplied e then e_lastSeq e else e_lastApplied e)"

definition pbVerifyLeader :: "node \<Rightarrow> node \<Rightarrow> int \<Rightarrow> 's Engine \<Rightarrow> replicatorErr option" where
  "pbVerifyLeader primary nodeID now e =
     (if primary = nodeID \<and> LeaseValid now e then None else Some ErrNotLeader)"

definition pbBarrier :: "node \<Rightarrow> node \<Rightarrow> int \<Rightarrow> 's Engine \<Rightarrow> replicatorErr option" where
  "pbBarrier primary nodeID now e = pbVerifyLeader primary nodeID now e"

definition pbMembershipChange :: replicatorErr where "pbMembershipChange = ErrEngine ErrPBUnimplemented"

section \<open>Lemmas\<close>

lemma result_frame_roundtrip:
  "length msg < 2 ^ 32 \<Longrightarrow> decodePBResult (encodePBResult result (Some msg)) =
     \<lparr>ar_Result = [], ar_Err = Some (ErrHandler [] msg)\<rparr>"
  "length result < 2 ^ 32 \<Longrightarrow> decodePBResult (encodePBResult result None) = \<lparr>ar_Result = result, ar_Err = None\<rparr>"
  by (simp_all add: decodePBResult_def encodePBResult_def gslice_def Let_def)

lemma retryBackoff_bounds: "0 < wait \<Longrightarrow> wait \<le> retryBackoff i wait"
  by (induction i wait rule: retryBackoff.induct) (auto simp: applyRetryWaitCap_def)

lemma waitApplyRetry_bounds: "0 < waitApplyRetry w attempt \<and> waitApplyRetry w attempt \<le> applyRetryWaitCap"
  using retryBackoff_bounds [of "if w \<le> 0 then defaultApplyRetryWait else w" "attempt - 1"]
  by (auto simp: waitApplyRetry_def Let_def defaultApplyRetryWait_def applyRetryWaitCap_def)

text \<open>What one attempt makes of an entry: an entry the node's own dispatch refuses, by the reason.\<close>

definition dispatchRefused :: "'s registry \<Rightarrow> bytes \<Rightarrow> bool" where
  "dispatchRefused reg data = (case DecodeLogEntry data of Inl err \<Rightarrow> True
     | Inr (opName, args, stampMs, stamped) \<Rightarrow>
         (case reg opName of None \<Rightarrow> True | Some (handler, kind) \<Rightarrow> kind = OpReadOnly))"

lemma classify_nil [simp]: "classifyApplyErr None = classAdvance"
  by (simp add: classifyApplyErr_def)

lemma classify_dispatch [simp]:
  "classifyApplyErr (Some ErrOpNotRegistered) = classFatal"
  "classifyApplyErr (Some (errPBApplyReadOnly op)) = classFatal"
  "classifyApplyErr (Some (errPBApplyDecode ErrLogEntryTruncated)) = classAdvance"
  "classifyApplyErr (Some (errPBApplyDecode (ErrLogEntryVersion v))) = classFatal"
  by (simp_all add: classifyApplyErr_def isVersionErr_def isReadOnlyErr_def)

lemma infra_dispatch [simp]:
  "isInfraError ErrOpNotRegistered" "isInfraError (errPBApplyReadOnly op)" "isInfraError (errPBApplyDecode e)"
  "\<not> isInfraError (ErrHandler ss msg)"
  by (simp_all add: isInfraError_def isReadOnlyErr_def)

lemma dispatch_refused_attempt:
  assumes "dispatchRefused reg data"
  obtains err where "applyEntryData reg data s = (s, \<lparr>ar_Result = [], ar_Err = Some err\<rparr>)" "isInfraError err"
    "classifyApplyErr (Some err) \<noteq> classRetry"
proof (cases "DecodeLogEntry data")
  case (Inl err)
  show ?thesis
    by (rule that [of "errPBApplyDecode err"]) (cases err, simp_all add: applyEntryData_def Inl)+
next
  case (Inr r)
  obtain opName args stampMs stamped where r: "r = (opName, args, stampMs, stamped)" by (cases r) auto
  show ?thesis
  proof (cases "reg opName")
    case None
    then show ?thesis using Inr r by (intro that [of ErrOpNotRegistered]) (simp_all add: applyEntryData_def)
  next
    case (Some hk)
    then show ?thesis using assms Inr r
      by (intro that [of "errPBApplyReadOnly opName"])
        (auto simp: applyEntryData_def dispatchRefused_def split: prod.splits)
  qed
qed

lemma applier_accepts:
  assumes "applyEntryData reg data s = (s', resp)" "classifyApplyErr (ar_Err resp) = classAdvance"
    "\<And>err. ar_Err resp = Some err \<Longrightarrow> \<not> isInfraError err"
  shows "shardApplier quote reg regs s data =
    Inr (s', encodePBResult (ar_Result resp) (map_option (errText quote) (ar_Err resp)))"
  using assms by (cases "ar_Err resp") (simp_all add: shardApplier_def shardApplierApply_def applyWithRetry.simps [of reg regs data s])

lemma applier_refuses:
  assumes "applyEntryData reg data s = (s', resp)" "ar_Err resp = Some err"
    "isInfraError err \<or> classifyApplyErr (Some err) = classFatal" "classifyApplyErr (Some err) \<noteq> classRetry"
  shows "shardApplier quote reg regs s data = Inl errPBInfra"
  using assms by (auto simp: shardApplier_def shardApplierApply_def applyWithRetry.simps [of reg regs data s])

lemma applier_waits:
  assumes "applyEntryData reg data s = (s', resp)" "classifyApplyErr (ar_Err resp) = classRetry"
  shows "shardApplier quote reg [] s data = Inl errPBInfra"
    "shardApplier quote reg (r # rs) s data = shardApplier quote r rs s' data"
proof -
  obtain err where "ar_Err resp = Some err" using assms(2) by (cases "ar_Err resp") auto
  then show "shardApplier quote reg [] s data = Inl errPBInfra"
    "shardApplier quote reg (r # rs) s data = shardApplier quote r rs s' data"
    using assms by (simp_all add: shardApplier_def shardApplierApply_def applyWithRetry.simps [of reg])
qed

text \<open>An entry the applier refuses takes no effect in either role of the engine.\<close>

lemma refused_primary:
  assumes "ap (e_fsm e) data = Inl err"
  shows "\<exists>r. proposeSequenced ap inl primary isr minISR now now' data e = (e, r) \<and> (\<forall>q b. r \<noteq> ProposeSeq q b)"
  using assms by (auto simp: proposeSequenced_def proposeFence_def)

lemma refused_backup:
  assumes "ap (e_fsm e) (m_Data msg) = Inl err"
  shows "\<not> a_OK (snd (receiveLocked ap now msg e)) \<and> e_fsm (fst (receiveLocked ap now msg e)) = e_fsm e \<and>
    e_lastApplied (fst (receiveLocked ap now msg e)) = e_lastApplied e"
proof -
  have fr: "e_fsm (if c then advanceEpoch now ep e else e) = e_fsm e"
    "e_lastApplied (if c then advanceEpoch now ep e else e) = e_lastApplied e" for c ep
    by (simp_all add: advanceEpoch_def clearLearnersLocked_def clearEffISRLocked_def)
  obtain a b where f: "appliedFrontierLocked (if m_Epoch msg > e_epoch e then advanceEpoch now (m_Epoch msg) e else e) = (a, b)"
    by fastforce
  have ap: "ap (e_fsm (if m_Epoch msg > e_epoch e then advanceEpoch now (m_Epoch msg) e else e)) (m_Data msg) = Inl err"
    using assms by simp
  show ?thesis unfolding receiveLocked_def Let_def f ap by simp
qed

section \<open>Properties\<close>


lemma stamped_attempt:
  assumes "EncodeLogEntryStamped opName args stampMs = Some data" "length args < 2 ^ 32"
    "reg opName = Some (h, OpReadWrite)"
  shows "applyEntryData reg data s = h stampMs True args s"
proof -
  have "length opName \<le> maxOpNameLen" using assms(1) by (auto simp: EncodeLogEntryStamped_def split: if_splits)
  then have "DecodeLogEntry data = Inr (opName, args, stampMs, True)"
    using decode_encoded(2) [OF _ assms(2,1), of "[]"] by simp
  then show ?thesis using assms(3) by (simp add: applyEntryData_def)
qed

text \<open>(C33) What the caller of a write is told, from the entry to the response. The primary stamps and
  encodes the operation; the applier decodes it, runs the registered handler on exactly these
  arguments and this clock, and frames the response; the replicator unframes it. If the handler
  succeeds, or fails in a way every replica repeats, the write is applied with the handler's state
  and the caller receives the handler's result bytes, or its error text (the error's identity is
  lost), with the write's sequence number. If the handler's module is not resident yet, nothing is
  reported: the entry is run again with what the node has by then, and refused only when the store
  closes first.\<close>

theorem operation_outcome:
  assumes enc: "EncodeLogEntryStamped opName args stampMs = Some data" "length args < 2 ^ 32"
    and reg: "reg opName = Some (h, OpReadWrite)"
    and run: "h stampMs True args s = (s', \<lparr>ar_Result = res, ar_Err = map_option (\<lambda>(ss, msg). ErrHandler ss msg) herr\<rparr>)"
    and short: "length res < 2 ^ 32" "\<And>ss msg. herr = Some (ss, msg) \<Longrightarrow> length msg < 2 ^ 32"
  shows "case classifyApplyErr (map_option (\<lambda>(ss, msg). ErrHandler ss msg) herr) of
      classAdvance \<Rightarrow> \<exists>b. shardApplier quote reg regs s data = Inr (s', b) \<and>
        pbApplyIndexed (Inr (b, seq)) = Inr ((case herr of None \<Rightarrow> \<lparr>ar_Result = res, ar_Err = None\<rparr>
          | Some (ss, msg) \<Rightarrow> \<lparr>ar_Result = [], ar_Err = Some (ErrHandler [] msg)\<rparr>), seq)
    | classFatal \<Rightarrow> shardApplier quote reg regs s data = Inl errPBInfra \<and>
        pbApplyIndexed (Inl errPBInfra) = Inl (ErrEngine errPBInfra)
    | classRetry \<Rightarrow> shardApplier quote reg [] s data = Inl errPBInfra \<and>
        shardApplier quote reg (r # rs) s data = shardApplier quote r rs s' data"
proof -
  let ?err = "map_option (\<lambda>(ss, msg). ErrHandler ss msg) herr"
  have att: "applyEntryData reg data s = (s', \<lparr>ar_Result = res, ar_Err = ?err\<rparr>)"
    using stamped_attempt [of opName args stampMs data reg h s, OF enc reg] run by simp
  show ?thesis
  proof (cases "classifyApplyErr ?err")
    case classAdvance
    have "shardApplier quote reg regs s data = Inr (s', encodePBResult res (map_option (errText quote) ?err))"
      using applier_accepts [OF att, simplified, OF classAdvance, of quote regs] by (cases herr) auto
    then show ?thesis using classAdvance short
      by (auto simp: pbApplyIndexed_def result_frame_roundtrip split: option.splits)
  next
    case classFatal
    then obtain err where e: "?err = Some err" by (cases ?err) auto
    have "shardApplier quote reg regs s data = Inl errPBInfra"
      by (rule applier_refuses [OF att]) (use e classFatal in auto)
    then show ?thesis using classFatal by (simp add: pbApplyIndexed_def errPBInfra_def)
  next
    case classRetry
    then show ?thesis using applier_waits [OF att] by simp
  qed
qed

text \<open>A store of one counter: \<open>inc\<close> adds its first argument byte and reports the stamp's low byte.\<close>

definition counterInc :: "nat handler" where
  "counterInc stampMs stamped args n =
     (case args of [] \<Rightarrow> (n, \<lparr>ar_Result = [], ar_Err = Some (ErrHandler [] [33])\<rparr>)
      | a # _ \<Rightarrow> if n + unat a > 100 then (n, \<lparr>ar_Result = [], ar_Err = Some (ErrHandler [ErrFull] [34])\<rparr>)
          else (n + unat a, \<lparr>ar_Result = [of_nat (n + unat a), ucast stampMs], ar_Err = None\<rparr>))"

definition counterRegistry :: "nat registry" where
  "counterRegistry op = (if op = [105] then Some (counterInc, OpReadWrite) else None)"

lemma counter_entry:
  "EncodeLogEntryStamped [105] [5] 7 = Some [0, 1, 0, 0, 0, 0, 0, 0, 0, 7, 1, 105, 0, 0, 0, 1, 5]"
  by code_simp

theorem operation_outcome_witness:
  "\<exists>b. shardApplier id counterRegistry [] 2 [0, 1, 0, 0, 0, 0, 0, 0, 0, 7, 1, 105, 0, 0, 0, 1, 5] = Inr (7, b) \<and>
     pbApplyIndexed (Inr (b, 9)) = Inr (\<lparr>ar_Result = [7, 7], ar_Err = None\<rparr>, 9)"
  using operation_outcome [OF counter_entry, of counterRegistry counterInc 2 7 "[7, 7]" None id "[]" 9]
  by (simp add: counterRegistry_def counterInc_def)

definition counterEngine :: "nat \<Rightarrow> nat Engine" where
  "counterEngine n = the (New ''a'' 0 CommitFullISR False n)"

lemma counterEngine_fsm: "e_fsm (counterEngine n) = n"
  by (simp add: counterEngine_def New_def NewWithRingCapacity_def defaultRingCapacity_def pipelineWindow_def)

lemma counter_full:
  "classifyApplyErr (ar_Err (snd (applyEntryData counterRegistry
     [0, 1, 0, 0, 0, 0, 0, 0, 0, 7, 1, 105, 0, 0, 0, 1, 5] 98))) = classFatal"
  using stamped_attempt [OF counter_entry, of counterRegistry counterInc 98]
  by (simp add: counterRegistry_def counterInc_def classifyApplyErr_def isVersionErr_def isReadOnlyErr_def)


end
