(* ===== verification/CacheEntry.thy ===== *)
theory CacheEntry
  imports Prelude
begin

unbundle bit_operations_syntax

text \<open>
  The stored entry of the page cache: the packed reference to it (\<^verbatim>\<open>cache/slabref.go\<close>), its expiry
  (\<^verbatim>\<open>cache/ttl.go\<close>), the keyed checksum (\<^verbatim>\<open>cache/siphash.go\<close>), and the framing of an entry on a
  page (\<^verbatim>\<open>cache/ringbuf.go\<close>). An \<^verbatim>\<open>int\<close> has 64 bits, so the guards of 32-bit builds never
  fire and are left out.
\<close>

type_synonym u16 = "16 word"

definition le16 :: "u16 \<Rightarrow> bytes" where "le16 w = le_put 2 (unat w)"
definition rd_le16 :: "bytes \<Rightarrow> u16" where "rd_le16 b = of_nat (le_get (take 2 b))"

lemma length_le16 [simp, codec_simps]: "length (le16 w) = 2" by (simp add: le16_def)

lemma rd_le16 [simp, codec_simps]: "rd_le16 (le16 w @ r) = w"
  using unat_lt [of w] by (simp add: rd_le16_def le16_def le_get_le_put)

lemma le_rd:
  "8 \<le> length b \<Longrightarrow> le64 (rd_le64 b) = take 8 b"
  "4 \<le> length b \<Longrightarrow> le32 (rd_le32 b) = take 4 b"
  "2 \<le> length b \<Longrightarrow> le16 (rd_le16 b) = take 2 b"
proof -
  have *: "k \<le> length b \<Longrightarrow> le_get (take k b) < 256 ^ k" for k using le_get_less [of "take k b"] by simp
  have l: "k \<le> length b \<Longrightarrow> le_put k (le_get (take k b)) = take k b" for k using le_put_le_get [of "take k b"] by simp
  show "8 \<le> length b \<Longrightarrow> le64 (rd_le64 b) = take 8 b" using * [of 8] l [of 8]
    by (simp add: le64_def rd_le64_def unat_of_nat)
  show "4 \<le> length b \<Longrightarrow> le32 (rd_le32 b) = take 4 b" using * [of 4] l [of 4]
    by (simp add: le32_def rd_le32_def unat_of_nat)
  show "2 \<le> length b \<Longrightarrow> le16 (rd_le16 b) = take 2 b" using * [of 2] l [of 2]
    by (simp add: le16_def rd_le16_def unat_of_nat)
qed

section \<open>References and expiry\<close>

definition makeSlabRef :: "u16 \<Rightarrow> u16 \<Rightarrow> u32 \<Rightarrow> u64" where
  "makeSlabRef pageIdx gen offset = (push_bit 48 (ucast gen) OR push_bit 32 (ucast pageIdx)) OR ucast offset"

definition ref_pageIdx :: "u64 \<Rightarrow> u16" where "ref_pageIdx r = ucast (drop_bit 32 r)"
definition ref_offset :: "u64 \<Rightarrow> u32" where "ref_offset r = ucast r"
definition ref_gen :: "u64 \<Rightarrow> u16" where "ref_gen r = ucast (drop_bit 48 r)"

lemma slabRef_fields [simp]:
  "ref_pageIdx (makeSlabRef p g off) = p" "ref_gen (makeSlabRef p g off) = g" "ref_offset (makeSlabRef p g off) = off"
  by (rule bit_word_eqI;
      auto simp: makeSlabRef_def ref_pageIdx_def ref_gen_def ref_offset_def bit_simps dest: bit_imp_le_length)+

lemma slabRef_inject [simp]:
  "makeSlabRef p g off = makeSlabRef p' g' off' \<longleftrightarrow> p = p' \<and> g = g' \<and> off = off'"
  by (metis slabRef_fields)

text \<open>An expiry of 0 is none; a duration is in nanoseconds.\<close>

definition expiryAtFrom :: "int \<Rightarrow> u64 \<Rightarrow> u64" where
  "expiryAtFrom ttl nowMs = (if ttl \<le> 0 then 0 else nowMs + of_int (ttl div 1000000))"

definition isExpired :: "u64 \<Rightarrow> u64 \<Rightarrow> bool" where
  "isExpired expiryMs nowMs = (expiryMs \<noteq> 0 \<and> expiryMs \<le> nowMs)"

section \<open>The keyed checksum\<close>

definition rotl64 :: "nat \<Rightarrow> u64 \<Rightarrow> u64" where
  "rotl64 k x = x * 2 ^ k OR x div 2 ^ (64 - k)"

record sipHasher =
  sip_v0 :: u64
  sip_v1 :: u64
  sip_v2 :: u64
  sip_v3 :: u64
  sip_buf :: bytes
  sip_n :: nat
  sip_total :: u64

definition newSipHasher :: "u64 \<Rightarrow> u64 \<Rightarrow> sipHasher" where
  "newSipHasher k0 k1 = \<lparr>sip_v0 = 0x736f6d6570736575 XOR k0, sip_v1 = 0x646f72616e646f6d XOR k1,
     sip_v2 = 0x6c7967656e657261 XOR k0, sip_v3 = 0x7465646279746573 XOR k1,
     sip_buf = replicate 8 0, sip_n = 0, sip_total = 0\<rparr>"

definition sipRound :: "sipHasher \<Rightarrow> sipHasher" where
  "sipRound h =
     (let h = h\<lparr>sip_v0 := sip_v0 h + sip_v1 h\<rparr>;
          h = h\<lparr>sip_v1 := rotl64 13 (sip_v1 h)\<rparr>;
          h = h\<lparr>sip_v1 := sip_v1 h XOR sip_v0 h\<rparr>;
          h = h\<lparr>sip_v0 := rotl64 32 (sip_v0 h)\<rparr>;
          h = h\<lparr>sip_v2 := sip_v2 h + sip_v3 h\<rparr>;
          h = h\<lparr>sip_v3 := rotl64 16 (sip_v3 h)\<rparr>;
          h = h\<lparr>sip_v3 := sip_v3 h XOR sip_v2 h\<rparr>;
          h = h\<lparr>sip_v0 := sip_v0 h + sip_v3 h\<rparr>;
          h = h\<lparr>sip_v3 := rotl64 21 (sip_v3 h)\<rparr>;
          h = h\<lparr>sip_v3 := sip_v3 h XOR sip_v0 h\<rparr>;
          h = h\<lparr>sip_v2 := sip_v2 h + sip_v1 h\<rparr>;
          h = h\<lparr>sip_v1 := rotl64 17 (sip_v1 h)\<rparr>;
          h = h\<lparr>sip_v1 := sip_v1 h XOR sip_v2 h\<rparr>
      in h\<lparr>sip_v2 := rotl64 32 (sip_v2 h)\<rparr>)"

definition sip_compress :: "u64 \<Rightarrow> sipHasher \<Rightarrow> sipHasher" where
  "sip_compress m h =
     (let h = sipRound (sipRound (h\<lparr>sip_v3 := sip_v3 h XOR m\<rparr>)) in h\<lparr>sip_v0 := sip_v0 h XOR m\<rparr>)"

text \<open>The three loops of \<^verbatim>\<open>write\<close>: topping off a partial word, compressing whole words, keeping the
  rest.\<close>

fun sip_topOff :: "sipHasher \<Rightarrow> bytes \<Rightarrow> sipHasher \<times> bytes" where
  "sip_topOff h [] = (h, [])"
| "sip_topOff h (b # p) = (if sip_n h < 8
     then sip_topOff (h\<lparr>sip_buf := (sip_buf h)[sip_n h := b], sip_n := sip_n h + 1\<rparr>) p else (h, b # p))"

function sip_words :: "sipHasher \<Rightarrow> bytes \<Rightarrow> sipHasher \<times> bytes" where
  "sip_words h p = (if length p \<ge> 8 then sip_words (sip_compress (rd_le64 (take 8 p)) h) (drop 8 p) else (h, p))"
  by pat_completeness auto
termination
  by (relation "measure (\<lambda>(h, p). length p)") auto

declare sip_words.simps [simp del]

fun sip_stash :: "sipHasher \<Rightarrow> bytes \<Rightarrow> sipHasher" where
  "sip_stash h [] = h"
| "sip_stash h (b # p) = sip_stash (h\<lparr>sip_buf := (sip_buf h)[sip_n h := b], sip_n := sip_n h + 1\<rparr>) p"

definition sip_write :: "bytes \<Rightarrow> sipHasher \<Rightarrow> sipHasher" where
  "sip_write p h =
     (let h0 = h\<lparr>sip_total := sip_total h + of_nat (length p)\<rparr>;
          (h1, p1) = (if sip_n h0 > 0
            then (case sip_topOff h0 p of (h', p') \<Rightarrow>
                    (if sip_n h' = 8 then (sip_compress (rd_le64 (sip_buf h')) h')\<lparr>sip_n := 0\<rparr> else h', p'))
            else (h0, p));
          (h2, p2) = sip_words h1 p1
      in sip_stash h2 p2)"

fun sip_tail :: "nat \<Rightarrow> bytes \<Rightarrow> u64" where
  "sip_tail i [] = 0"
| "sip_tail i (b # bs) = push_bit (8 * i) (ucast b) OR sip_tail (i + 1) bs"

definition sip_sum :: "sipHasher \<Rightarrow> u64" where
  "sip_sum h =
     (let b = push_bit 56 (sip_total h) OR sip_tail 0 (take (sip_n h) (sip_buf h));
          h = sipRound (sipRound (h\<lparr>sip_v3 := sip_v3 h XOR b\<rparr>));
          h = h\<lparr>sip_v0 := sip_v0 h XOR b, sip_v2 := sip_v2 h XOR 0xff\<rparr>;
          h = sipRound (sipRound (sipRound (sipRound h)))
      in (sip_v0 h XOR sip_v1 h) XOR (sip_v2 h XOR sip_v3 h))"

definition framingKeyLen :: nat where "framingKeyLen = 16"

text \<open>A key of another length panics in the code; every key of the model has 16 bytes.\<close>

definition sipKeyHalves :: "bytes \<Rightarrow> u64 \<times> u64" where
  "sipKeyHalves key = (rd_le64 (gslice 0 8 key), rd_le64 (gslice 8 16 key))"

definition sipHash24 :: "bytes \<Rightarrow> bytes \<Rightarrow> u64" where
  "sipHash24 key msg = (case sipKeyHalves key of (k0, k1) \<Rightarrow> sip_sum (sip_write msg (newSipHasher k0 k1)))"

text \<open>Streaming: what the hasher holds after any sequence of writes is what one write of their
  concatenation leaves, up to stale bytes in the buffer.\<close>

definition sip_vs :: "sipHasher \<Rightarrow> u64 \<times> u64 \<times> u64 \<times> u64" where
  "sip_vs h = (sip_v0 h, sip_v1 h, sip_v2 h, sip_v3 h)"

definition absorbed :: "sipHasher \<Rightarrow> bytes \<Rightarrow> sipHasher \<Rightarrow> bool" where
  "absorbed h0 m h = (case sip_words h0 m of (h', r) \<Rightarrow>
     sip_vs h = sip_vs h' \<and> length (sip_buf h) = 8 \<and> sip_n h = length r \<and> take (length r) (sip_buf h) = r \<and>
     sip_total h = sip_total h0 + of_nat (length m))"

lemma sipRound_vs: "sip_vs h = sip_vs g \<Longrightarrow> sip_vs (sipRound h) = sip_vs (sipRound g)"
  by (simp add: sip_vs_def sipRound_def Let_def)

lemma sipRound_frame [simp]:
  "sip_buf (sipRound h) = sip_buf h" "sip_n (sipRound h) = sip_n h" "sip_total (sipRound h) = sip_total h"
  by (simp_all add: sipRound_def Let_def)

lemma sip_compress_vs: "sip_vs h = sip_vs g \<Longrightarrow> sip_vs (sip_compress m h) = sip_vs (sip_compress m g)"
proof -
  assume "sip_vs h = sip_vs g"
  then have "sip_vs (sipRound (sipRound (h\<lparr>sip_v3 := sip_v3 h XOR m\<rparr>))) = sip_vs (sipRound (sipRound (g\<lparr>sip_v3 := sip_v3 g XOR m\<rparr>)))"
    by (intro sipRound_vs) (simp add: sip_vs_def)
  then show ?thesis by (simp add: sip_compress_def sip_vs_def Let_def)
qed

lemma sip_compress_frame [simp]:
  "sip_buf (sip_compress m h) = sip_buf h" "sip_n (sip_compress m h) = sip_n h"
  "sip_total (sip_compress m h) = sip_total h"
  by (simp_all add: sip_compress_def Let_def)

lemma sip_words_rest: "sip_words h p = (h', r) \<Longrightarrow> length r < 8"
  by (induction h p rule: sip_words.induct) (metis not_le_imp_less prod.inject sip_words.simps)

lemma sip_words_frame:
  "sip_words h p = (h', r) \<Longrightarrow> sip_buf h' = sip_buf h \<and> sip_n h' = sip_n h \<and> sip_total h' = sip_total h"
proof (induction h p rule: sip_words.induct)
  case (1 h p)
  then show ?case by (cases "8 \<le> length p") (auto simp: sip_words.simps [of h p])
qed

lemma sip_words_vs:
  "sip_vs h = sip_vs g \<Longrightarrow> sip_words h p = (h', r) \<Longrightarrow> \<exists>g'. sip_words g p = (g', r) \<and> sip_vs h' = sip_vs g'"
proof (induction h p arbitrary: g rule: sip_words.induct)
  case (1 h p)
  show ?case
  proof (cases "8 \<le> length p")
    case True
    with 1 show ?thesis using sip_compress_vs [OF 1(2)]
      by (simp add: sip_words.simps [of h p] sip_words.simps [of g p])
  next
    case False
    then have "sip_words h p = (h, p)" "sip_words g p = (g, p)"
      by (simp_all add: sip_words.simps [of h p] sip_words.simps [of g p])
    with 1 show ?thesis by simp
  qed
qed

lemma sip_words_append: "sip_words h m = (h', r) \<Longrightarrow> sip_words h (m @ p) = sip_words h' (r @ p)"
proof (induction h m rule: sip_words.induct)
  case (1 h m)
  show ?case
  proof (cases "8 \<le> length m")
    case True
    with 1 show ?thesis by (simp add: sip_words.simps [of h m] sip_words.simps [of h "m @ p"])
  next
    case False
    with 1 show ?thesis by (simp add: sip_words.simps [of h m])
  qed
qed

lemma sip_stash_fills:
  "length (sip_buf h) = 8 \<Longrightarrow> sip_n h + length p \<le> 8 \<Longrightarrow>
   sip_vs (sip_stash h p) = sip_vs h \<and> length (sip_buf (sip_stash h p)) = 8 \<and>
   sip_n (sip_stash h p) = sip_n h + length p \<and> sip_total (sip_stash h p) = sip_total h \<and>
   take (sip_n h + length p) (sip_buf (sip_stash h p)) = take (sip_n h) (sip_buf h) @ p"
proof (induction h p rule: sip_stash.induct)
  case (2 h b p)
  have "take (Suc (sip_n h)) ((sip_buf h)[sip_n h := b]) = take (sip_n h) (sip_buf h) @ [b]"
    using 2(2,3) by (simp add: take_Suc_conv_app_nth)
  then show ?case using 2 by (simp add: sip_vs_def)
qed simp

lemma sip_topOff_stash:
  "sip_n h \<le> 8 \<Longrightarrow> sip_topOff h p = (sip_stash h (take (8 - sip_n h) p), drop (8 - sip_n h) p)"
proof (induction h p rule: sip_topOff.induct)
  case (2 h b p)
  show ?case
  proof (cases "sip_n h < 8")
    case True
    then have "8 - sip_n h = Suc (7 - sip_n h)" by simp
    then show ?thesis using 2 True by simp
  next
    case False
    then show ?thesis using 2 by simp
  qed
qed simp

lemma sip_finish:
  assumes "sip_words h1 p1 = (h2, p2)" "length (sip_buf h1) = 8" "sip_n h1 = 0"
  shows "sip_vs (sip_stash h2 p2) = sip_vs h2 \<and> length (sip_buf (sip_stash h2 p2)) = 8 \<and>
    sip_n (sip_stash h2 p2) = length p2 \<and> take (length p2) (sip_buf (sip_stash h2 p2)) = p2 \<and>
    sip_total (sip_stash h2 p2) = sip_total h1"
  using sip_stash_fills [of h2 p2] sip_words_rest [OF assms(1)] sip_words_frame [OF assms(1)] assms(2,3) by simp

lemma absorbed_write:
  assumes "absorbed h0 m h"
  shows "absorbed h0 (m @ p) (sip_write p h)"
proof -
  obtain h' r where w: "sip_words h0 m = (h', r)" by fastforce
  with assms have h: "sip_vs h = sip_vs h'" "length (sip_buf h) = 8" "sip_n h = length r"
    "take (length r) (sip_buf h) = r" "sip_total h = sip_total h0 + of_nat (length m)"
    by (simp_all add: absorbed_def)
  have r8: "length r < 8" by (rule sip_words_rest [OF w])
  have app: "sip_words h0 (m @ p) = sip_words h' (r @ p)" by (rule sip_words_append [OF w])
  define g where "g = h\<lparr>sip_total := sip_total h + of_nat (length p)\<rparr>"
  have g: "sip_vs g = sip_vs h'" "length (sip_buf g) = 8" "sip_n g = length r" "take (length r) (sip_buf g) = r"
    "sip_total g = sip_total h0 + of_nat (length (m @ p))"
    using h by (simp_all add: g_def sip_vs_def)
  let ?s = "sip_stash g (take (8 - length r) p)"
  have s: "sip_vs ?s = sip_vs h'" "length (sip_buf ?s) = 8" "sip_n ?s = length r + length (take (8 - length r) p)"
    "sip_total ?s = sip_total g" "take (sip_n ?s) (sip_buf ?s) = r @ take (8 - length r) p"
    using sip_stash_fills [of g "take (8 - length r) p"] g r8 by auto
  show ?thesis
  proof (cases "length r = 0")
    case True
    obtain h2 p2 where e: "sip_words g p = (h2, p2)" by fastforce
    obtain g2 where "sip_words h' p = (g2, p2)" "sip_vs h2 = sip_vs g2" using sip_words_vs [OF g(1) e] by auto
    then show ?thesis using True g sip_finish [OF e] e app
      by (simp add: absorbed_def sip_write_def Let_def flip: g_def)
  next
    case False
    then have top: "sip_topOff g p = (?s, drop (8 - length r) p)" using sip_topOff_stash [of g p] g r8 by simp
    show ?thesis
    proof (cases "length r + length p < 8")
      case True
      then have "sip_words h' (r @ p) = (h', r @ p)" by (simp add: sip_words.simps [of h' "r @ p"])
      moreover have "sip_write p h = ?s" using True False g top s(3)
        by (simp add: sip_write_def Let_def sip_words.simps [of _ "[]"] flip: g_def)
      ultimately show ?thesis using app s g True by (simp add: absorbed_def)
    next
      case big: False
      let ?c = "(sip_compress (rd_le64 (sip_buf ?s)) ?s)\<lparr>sip_n := 0\<rparr>"
      have n8: "sip_n ?s = 8" using s(3) big r8 by simp
      then have buf: "sip_buf ?s = r @ take (8 - length r) p" using s(2,5) by simp
      have c: "sip_vs ?c = sip_vs (sip_compress (rd_le64 (r @ take (8 - length r) p)) h')"
        using sip_compress_vs [OF s(1)] buf by (simp add: sip_vs_def)
      obtain h2 p2 where e: "sip_words ?c (drop (8 - length r) p) = (h2, p2)" by fastforce
      then obtain g2 where g2: "sip_words (sip_compress (rd_le64 (r @ take (8 - length r) p)) h') (drop (8 - length r) p) = (g2, p2)"
        "sip_vs h2 = sip_vs g2" using sip_words_vs [OF c] by blast
      then have "sip_words h' (r @ p) = (g2, p2)" using big r8
        by (simp add: sip_words.simps [of h' "r @ p"])
      moreover have "sip_write p h = sip_stash h2 p2" using False g top n8 e
        by (simp add: sip_write_def Let_def flip: g_def)
      ultimately show ?thesis using app g2 g s sip_finish [OF e] by (simp add: absorbed_def)
    qed
  qed
qed

lemma absorbed_sum: "absorbed h0 m h \<Longrightarrow> absorbed h0 m g \<Longrightarrow> sip_sum h = sip_sum g"
proof -
  assume "absorbed h0 m h" "absorbed h0 m g"
  then have v: "sip_vs h = sip_vs g" and "sip_total h = sip_total g"
    "take (sip_n h) (sip_buf h) = take (sip_n g) (sip_buf g)"
    by (auto simp: absorbed_def split: prod.splits)
  define b where "b = push_bit 56 (sip_total h) OR sip_tail 0 (take (sip_n h) (sip_buf h))"
  have b': "b = push_bit 56 (sip_total g) OR sip_tail 0 (take (sip_n g) (sip_buf g))"
    using \<open>sip_total h = sip_total g\<close> \<open>take (sip_n h) _ = _\<close> by (simp add: b_def)
  let ?mid = "\<lambda>h. sipRound (sipRound (h\<lparr>sip_v3 := sip_v3 h XOR b\<rparr>))"
  let ?fin = "\<lambda>h. sipRound (sipRound (sipRound (sipRound ((?mid h)\<lparr>sip_v0 := sip_v0 (?mid h) XOR b, sip_v2 := sip_v2 (?mid h) XOR 0xff\<rparr>))))"
  have "sip_vs (?mid h) = sip_vs (?mid g)" using v by (intro sipRound_vs) (simp add: sip_vs_def)
  then have "sip_vs (?fin h) = sip_vs (?fin g)" by (intro sipRound_vs) (simp add: sip_vs_def)
  moreover have "sip_sum h = (sip_v0 (?fin h) XOR sip_v1 (?fin h)) XOR (sip_v2 (?fin h) XOR sip_v3 (?fin h))"
    by (simp add: sip_sum_def Let_def flip: b_def)
  moreover have "sip_sum g = (sip_v0 (?fin g) XOR sip_v1 (?fin g)) XOR (sip_v2 (?fin g) XOR sip_v3 (?fin g))"
    by (simp add: sip_sum_def Let_def flip: b')
  ultimately show ?thesis by (simp add: sip_vs_def)
qed

lemma absorbed_new: "absorbed (newSipHasher k0 k1) [] (newSipHasher k0 k1)"
  by (simp add: absorbed_def sip_words.simps [of _ "[]"] newSipHasher_def)

lemma absorbed_writes: "absorbed h0 m h \<Longrightarrow> absorbed h0 (m @ concat ps) (foldl (\<lambda>h p. sip_write p h) h ps)"
proof (induction ps arbitrary: m h)
  case (Cons p ps)
  have "absorbed h0 (m @ p) (sip_write p h)" by (rule absorbed_write [OF Cons(2)])
  from Cons(1) [OF this] show ?case by simp
qed simp

lemma sip_streaming:
  "sip_sum (foldl (\<lambda>h p. sip_write p h) (newSipHasher k0 k1) ps) = sip_sum (sip_write (concat ps) (newSipHasher k0 k1))"
proof (rule absorbed_sum)
  show "absorbed (newSipHasher k0 k1) (concat ps) (foldl (\<lambda>h p. sip_write p h) (newSipHasher k0 k1) ps)"
    using absorbed_writes [OF absorbed_new, of k0 k1 ps] by simp
  show "absorbed (newSipHasher k0 k1) (concat ps) (sip_write (concat ps) (newSipHasher k0 k1))"
    using absorbed_write [OF absorbed_new, of k0 k1 "concat ps"] by simp
qed

section \<open>The entry framing\<close>

definition entryHeaderSize :: nat where "entryHeaderSize = 2 + 4 + 8 + 8 + 8"
definition entryMetaOff :: nat where "entryMetaOff = 14"
definition entryMACOff :: nat where "entryMACOff = 22"
definition maxKeyLen :: nat where "maxKeyLen = 65535"
definition maxValueLen :: nat where "maxValueLen = 4294967295"
definition entryFlagTombstone :: u64 where "entryFlagTombstone = 0x100000000000000"
definition entrySeqMask :: u64 where "entrySeqMask = entryFlagTombstone - 1"

datatype entryError = errBufferTooSmall | errKeyTooLong | errValueTooLong | errEntryTruncated | errMACMismatch

definition makeMeta :: "u64 \<Rightarrow> bool \<Rightarrow> u64" where
  "makeMeta seq tombstone = (let m = seq AND entrySeqMask in if tombstone then m OR entryFlagTombstone else m)"

definition metaSeq :: "u64 \<Rightarrow> u64" where "metaSeq meta = meta AND entrySeqMask"
definition metaIsTombstone :: "u64 \<Rightarrow> bool" where "metaIsTombstone meta = (meta AND entryFlagTombstone \<noteq> 0)"

definition entryMetaAt :: "bytes \<Rightarrow> u64" where
  "entryMetaAt src = (if length src < entryHeaderSize then 0 else rd_le64 (gslice entryMetaOff entryMACOff src))"

definition entryMAC :: "bytes \<Rightarrow> u64 \<Rightarrow> u32 \<Rightarrow> bytes \<Rightarrow> bytes \<Rightarrow> u64" where
  "entryMAC framingKey nonce offset header22 payload =
     (case sipKeyHalves framingKey of (k0, k1) \<Rightarrow>
        let h = newSipHasher k0 k1;
            pre = putAt 8 (le32 offset) (putAt 0 (le64 nonce) (replicate 12 0));
            h = sip_write pre h;
            h = sip_write header22 h;
            h = sip_write payload h
        in sip_sum h)"

text \<open>The encoders return the destination with the frame written into it, and the frame's length.\<close>

definition encodeEntryHeader :: "bytes \<Rightarrow> bytes \<Rightarrow> bytes \<Rightarrow> u64 \<Rightarrow> u64 \<Rightarrow> entryError + bytes \<times> nat" where
  "encodeEntryHeader dst key value expiryMs meta =
     (if length key > maxKeyLen then Inl errKeyTooLong
      else if length value > maxValueLen then Inl errValueTooLong
      else let total = entryHeaderSize + length key + length value
           in if length dst < total then Inl errBufferTooSmall
              else let d = putAt 0 (le16 (of_nat (length key))) dst;
                       d = putAt 2 (le32 (of_nat (length value))) d;
                       d = putAt 6 (le64 expiryMs) d;
                       d = putAt entryMetaOff (le64 meta) d;
                       d = putAt entryHeaderSize key d;
                       d = putAt (entryHeaderSize + length key) value d
                   in Inr (d, total))"

definition encodeEntry :: "bytes \<Rightarrow> bytes \<Rightarrow> bytes \<Rightarrow> u64 \<Rightarrow> u64 \<Rightarrow> bytes \<Rightarrow> u64 \<Rightarrow> u32 \<Rightarrow> entryError + bytes \<times> nat" where
  "encodeEntry dst key value expiryMs meta framingKey nonce offset =
     (case encodeEntryHeader dst key value expiryMs meta of
        Inl err \<Rightarrow> Inl err
      | Inr (d, n) \<Rightarrow>
          let mac = entryMAC framingKey nonce offset (gslice 0 entryMACOff d) (gslice entryHeaderSize n d)
          in Inr (putAt entryMACOff (le64 mac) d, n))"

definition encodeEntryNoCRC :: "bytes \<Rightarrow> bytes \<Rightarrow> bytes \<Rightarrow> u64 \<Rightarrow> u64 \<Rightarrow> entryError + bytes \<times> nat" where
  "encodeEntryNoCRC dst key value expiryMs meta = encodeEntryHeader dst key value expiryMs meta"

definition decodeEntry :: "bytes \<Rightarrow> bytes \<Rightarrow> u64 \<Rightarrow> u32 \<Rightarrow> entryError + bytes \<times> bytes \<times> u64 \<times> u64" where
  "decodeEntry src framingKey nonce offset =
     (if length src < entryHeaderSize then Inl errEntryTruncated
      else let keyLen = unat (rd_le16 (gslice 0 2 src));
               valLen = unat (rd_le32 (gslice 2 6 src))
           in if int valLen > int (length src) - int entryHeaderSize - int keyLen then Inl errEntryTruncated
              else let expiryMs = rd_le64 (gslice 6 14 src);
                       meta = rd_le64 (gslice entryMetaOff entryMACOff src);
                       storedMAC = rd_le64 (gslice entryMACOff entryHeaderSize src);
                       total = entryHeaderSize + keyLen + valLen
                   in if entryMAC framingKey nonce offset (gslice 0 entryMACOff src) (gslice entryHeaderSize total src) \<noteq> storedMAC
                      then Inl errMACMismatch
                      else Inr (gslice entryHeaderSize (entryHeaderSize + keyLen) src,
                                gslice (entryHeaderSize + keyLen) total src, expiryMs, meta))"

definition decodeEntryFast :: "bytes \<Rightarrow> entryError + bytes \<times> bytes \<times> u64" where
  "decodeEntryFast src =
     (if length src < entryHeaderSize then Inl errEntryTruncated
      else let keyLen = unat (rd_le16 (gslice 0 2 src));
               valLen = unat (rd_le32 (gslice 2 6 src))
           in if int valLen > int (length src) - int entryHeaderSize - int keyLen then Inl errEntryTruncated
              else let total = entryHeaderSize + keyLen + valLen
                   in Inr (gslice entryHeaderSize (entryHeaderSize + keyLen) src,
                           gslice (entryHeaderSize + keyLen) total src, rd_le64 (gslice 6 14 src)))"

definition entrySpanExact :: "nat \<Rightarrow> nat \<Rightarrow> nat" where
  "entrySpanExact keyLen valueLen = entryHeaderSize + keyLen + valueLen"

definition classOf :: "nat \<Rightarrow> nat" where "classOf valueLen = valueLen"

definition entrySpan :: "nat \<Rightarrow> nat \<Rightarrow> bool \<Rightarrow> nat" where
  "entrySpan keyLen valueLen padded =
     (if padded then entrySpanExact keyLen (classOf valueLen) else entrySpanExact keyLen valueLen)"

text \<open>The bytes of one frame, with the contents of its checksum slot.\<close>

definition frameHead :: "bytes \<Rightarrow> bytes \<Rightarrow> u64 \<Rightarrow> u64 \<Rightarrow> bytes" where
  "frameHead key value expiryMs meta =
     le16 (of_nat (length key)) @ le32 (of_nat (length value)) @ le64 expiryMs @ le64 meta"

definition frameBytes :: "bytes \<Rightarrow> bytes \<Rightarrow> bytes \<Rightarrow> u64 \<Rightarrow> u64 \<Rightarrow> bytes" where
  "frameBytes slot key value expiryMs meta = frameHead key value expiryMs meta @ slot @ key @ value"

definition fits :: "bytes \<Rightarrow> bytes \<Rightarrow> bool" where
  "fits key value = (length key \<le> maxKeyLen \<and> length value \<le> maxValueLen)"

lemma length_frame [simp]:
  "length (frameHead key value e m) = 22"
  "length slot = 8 \<Longrightarrow> length (frameBytes slot key value e m) = entrySpanExact (length key) (length value)"
  by (simp_all add: frameHead_def frameBytes_def entrySpanExact_def entryHeaderSize_def)

lemma fits_words:
  "fits key value \<Longrightarrow> unat (of_nat (length key) :: u16) = length key"
  "fits key value \<Longrightarrow> unat (of_nat (length value) :: u32) = length value"
  by (simp_all add: fits_def maxKeyLen_def maxValueLen_def unat_of_nat)

lemma splitOff: "n \<le> length xs \<Longrightarrow> \<exists>a b. xs = a @ b \<and> length a = n"
  by (rule exI [of _ "take n xs"], rule exI [of _ "drop n xs"]) simp

lemma putAt_field: "length a = off \<Longrightarrow> length f = length x \<Longrightarrow> putAt off x (a @ f @ b) = a @ x @ b"
  by (simp add: putAt_def)

lemma encodeHeader_layout:
  assumes "fits key value" "entrySpanExact (length key) (length value) \<le> length dst"
  shows "encodeEntryHeader dst key value e m =
    Inr (frameBytes (gslice 22 30 dst) key value e m @ drop (entrySpanExact (length key) (length value)) dst,
         entrySpanExact (length key) (length value))"
proof -
  have l: "30 + length key + length value \<le> length dst"
    using assms(2) by (simp add: entrySpanExact_def entryHeaderSize_def)
  obtain f1 r1 where d1: "dst = f1 @ r1" "length f1 = 2" using splitOff [of 2 dst] l by auto
  obtain f2 r2 where d2: "r1 = f2 @ r2" "length f2 = 4" using splitOff [of 4 r1] l d1 by auto
  obtain f3 r3 where d3: "r2 = f3 @ r3" "length f3 = 8" using splitOff [of 8 r2] l d1 d2 by auto
  obtain f4 r4 where d4: "r3 = f4 @ r4" "length f4 = 8" using splitOff [of 8 r3] l d1 d2 d3 by auto
  obtain f5 r5 where d5: "r4 = f5 @ r5" "length f5 = 8" using splitOff [of 8 r4] l d1 d2 d3 d4 by auto
  obtain f6 r6 where d6: "r5 = f6 @ r6" "length f6 = length key"
    using splitOff [of "length key" r5] l d1 d2 d3 d4 d5 by auto
  obtain f7 r7 where d7: "r6 = f7 @ r7" "length f7 = length value"
    using splitOff [of "length value" r6] l d1 d2 d3 d4 d5 d6 by auto
  note d = d1 d2 d3 d4 d5 d6 d7
  let ?k = "le16 (of_nat (length key))" and ?v = "le32 (of_nat (length value))"
  have p1: "putAt 0 ?k (f1 @ f2 @ f3 @ f4 @ f5 @ f6 @ f7 @ r7) = ?k @ f2 @ f3 @ f4 @ f5 @ f6 @ f7 @ r7"
    using putAt_field [of "[]" 0 f1 ?k] d by simp
  have p2: "putAt 2 ?v (?k @ f2 @ f3 @ f4 @ f5 @ f6 @ f7 @ r7) = ?k @ ?v @ f3 @ f4 @ f5 @ f6 @ f7 @ r7"
    using d by (intro putAt_field) simp_all
  have p3: "putAt 6 (le64 e) (?k @ ?v @ f3 @ f4 @ f5 @ f6 @ f7 @ r7) = ?k @ ?v @ le64 e @ f4 @ f5 @ f6 @ f7 @ r7"
    using d putAt_field [of "?k @ ?v" 6 f3 "le64 e"] by simp
  have p4: "putAt entryMetaOff (le64 m) (?k @ ?v @ le64 e @ f4 @ f5 @ f6 @ f7 @ r7) = ?k @ ?v @ le64 e @ le64 m @ f5 @ f6 @ f7 @ r7"
    using d putAt_field [of "?k @ ?v @ le64 e" 14 f4 "le64 m"] by (simp add: entryMetaOff_def)
  have p5: "putAt entryHeaderSize key (?k @ ?v @ le64 e @ le64 m @ f5 @ f6 @ f7 @ r7) = ?k @ ?v @ le64 e @ le64 m @ f5 @ key @ f7 @ r7"
    using d putAt_field [of "?k @ ?v @ le64 e @ le64 m @ f5" 30 f6 key] by (simp add: entryHeaderSize_def)
  have p6: "putAt (entryHeaderSize + length key) value (?k @ ?v @ le64 e @ le64 m @ f5 @ key @ f7 @ r7) = ?k @ ?v @ le64 e @ le64 m @ f5 @ key @ value @ r7"
    using d putAt_field [of "?k @ ?v @ le64 e @ le64 m @ f5 @ key" "30 + length key" f7 "value"] by (simp add: entryHeaderSize_def)
  have slot: "gslice 22 30 dst = f5" using d by (simp add: gslice_def)
  have "drop (entrySpanExact (length key) (length value)) dst = r7"
    using d by (simp add: entrySpanExact_def entryHeaderSize_def)
  moreover have "encodeEntryHeader dst key value e m =
    Inr (?k @ ?v @ le64 e @ le64 m @ f5 @ key @ value @ r7, entrySpanExact (length key) (length value))"
    using assms p1 p2 p3 p4 p5 p6 d by (simp add: encodeEntryHeader_def fits_def Let_def entrySpanExact_def)
  ultimately show ?thesis using slot by (simp add: frameBytes_def frameHead_def)
qed

lemma frame_slices [simp]:
  assumes "length slot = 8"
  shows "gslice 0 22 (frameBytes slot key value e m @ r) = frameHead key value e m"
    "gslice 22 30 (frameBytes slot key value e m @ r) = slot"
    "gslice 30 (30 + length key) (frameBytes slot key value e m @ r) = key"
    "gslice (30 + length key) (30 + length key + length value) (frameBytes slot key value e m @ r) = value"
    "gslice 30 (30 + length key + length value) (frameBytes slot key value e m @ r) = key @ value"
    "gslice 0 2 (frameBytes slot key value e m @ r) = le16 (of_nat (length key))"
    "gslice 2 6 (frameBytes slot key value e m @ r) = le32 (of_nat (length value))"
    "gslice 6 14 (frameBytes slot key value e m @ r) = le64 e"
    "gslice 14 22 (frameBytes slot key value e m @ r) = le64 m"
  using assms by (simp_all add: gslice_def frameBytes_def frameHead_def)

lemma rd_le_all [simp]: "rd_le16 (le16 w) = w"
  using rd_le16 [of w "[]"] by simp

text \<open>The checksum of a frame, and the frame a persistent page holds.\<close>

definition frameMAC :: "bytes \<Rightarrow> u64 \<Rightarrow> u32 \<Rightarrow> bytes \<Rightarrow> bytes \<Rightarrow> u64 \<Rightarrow> u64 \<Rightarrow> u64" where
  "frameMAC fk nonce off key value e m = entryMAC fk nonce off (frameHead key value e m) (key @ value)"

lemma encode_layout:
  assumes "fits key value" "entrySpanExact (length key) (length value) \<le> length dst"
  shows "encodeEntry dst key value e m fk nonce off =
    Inr (frameBytes (le64 (frameMAC fk nonce off key value e m)) key value e m @
           drop (entrySpanExact (length key) (length value)) dst,
         entrySpanExact (length key) (length value))"
proof -
  have s: "length (gslice 22 30 dst) = 8"
    using assms(2) by (simp add: gslice_def entrySpanExact_def entryHeaderSize_def)
  let ?rest = "drop (entrySpanExact (length key) (length value)) dst"
  have put: "putAt 22 (le64 w) (frameBytes (gslice 22 30 dst) key value e m @ ?rest) = frameBytes (le64 w) key value e m @ ?rest" for w
    using putAt_field [of "frameHead key value e m" 22 "gslice 22 30 dst" "le64 w" "key @ value @ ?rest"] s
    by (simp add: frameBytes_def)
  show ?thesis
    using encodeHeader_layout [OF assms] s put frame_slices(1,5) [OF s]
    by (simp add: encodeEntry_def frameMAC_def entryMACOff_def Let_def)
      (simp add: entryHeaderSize_def entrySpanExact_def)
qed

lemma decode_frame:
  assumes "fits key value" "length slot = 8"
  shows "decodeEntry (frameBytes slot key value e m @ r) fk nonce off =
    (if slot = le64 (frameMAC fk nonce off key value e m) then Inr (key, value, e, m) else Inl errMACMismatch)"
    "decodeEntryFast (frameBytes slot key value e m @ r) = Inr (key, value, e)"
    "entryMetaAt (frameBytes slot key value e m @ r) = m"
proof -
  have l: "length (frameBytes slot key value e m @ r) = 30 + length key + length value + length r"
    using assms(2) by (simp add: entrySpanExact_def entryHeaderSize_def)
  have mac: "frameMAC fk nonce off key value e m = rd_le64 slot \<longleftrightarrow> slot = le64 (frameMAC fk nonce off key value e m)"
    using le_rd(1) [of slot] assms(2) by auto
  show "decodeEntry (frameBytes slot key value e m @ r) fk nonce off =
    (if slot = le64 (frameMAC fk nonce off key value e m) then Inr (key, value, e, m) else Inl errMACMismatch)"
    using l mac frame_slices [OF assms(2), of key "value" e m r] fits_words [OF assms(1)]
    by (simp add: decodeEntry_def Let_def entryHeaderSize_def entryMACOff_def entryMetaOff_def frameMAC_def)
  show "decodeEntryFast (frameBytes slot key value e m @ r) = Inr (key, value, e)"
    using l frame_slices [OF assms(2), of key "value" e m r] fits_words [OF assms(1)]
    by (simp add: decodeEntryFast_def Let_def entryHeaderSize_def)
  show "entryMetaAt (frameBytes slot key value e m @ r) = m"
    using l frame_slices [OF assms(2), of key "value" e m r]
    by (simp add: entryMetaAt_def entryHeaderSize_def entryMACOff_def entryMetaOff_def)
qed

end
