(* ===== verification/IndexTable.thy ===== *)
theory IndexTable
  imports CacheEntry
begin

text \<open>
  The index of a cache shard, \<^verbatim>\<open>cache/indextable.go\<close>: an open-addressing hash table from 64-bit key
  hashes to references, with tombstones, a tag per slot and the reference hint of \<^verbatim>\<open>cache/sieve.go\<close>.
  A probe loop ends only at an empty slot or a match, so the model runs it for at most one round over
  the table: \<^const>\<open>None\<close> is a probe that never returns, since a second round would see the same
  slots. The writer's view, under the shard's lock.
\<close>

record indexTable =
  it_ctrl :: "u64 list"
  it_refs :: "u64 list"
  it_hashes :: "u64 list"
  it_mask :: u64
  it_live :: int
  it_tomb :: int

definition ctrlEmpty :: u64 where "ctrlEmpty = 0"
definition ctrlTombstone :: u64 where "ctrlTombstone = 1"
definition tagPresentBit :: u64 where "tagPresentBit = 0x10000"
definition ctrlVisited :: u64 where "ctrlVisited = 0x20000"
definition ctrlTagMask :: u64 where "ctrlTagMask = ctrlVisited - 1"
definition minIndexSlots :: nat where "minIndexSlots = 8"

definition tagFor :: "u64 \<Rightarrow> u64" where "tagFor h = drop_bit 48 h OR tagPresentBit"

function nextPow2From :: "nat \<Rightarrow> nat \<Rightarrow> nat" where
  "nextPow2From s n = (if 0 < s \<and> s < n then nextPow2From (s * 2) n else s)"
  by pat_completeness auto
termination
  by (relation "measure (\<lambda>(s, n). n - s)") auto

declare nextPow2From.simps [simp del]

definition nextPow2 :: "nat \<Rightarrow> nat" where "nextPow2 n = nextPow2From minIndexSlots n"

definition newIndexTable :: "nat \<Rightarrow> indexTable" where
  "newIndexTable entries =
     (let slots = nextPow2 (2 * entries + 1)
      in \<lparr>it_ctrl = replicate slots 0, it_refs = replicate slots 0, it_hashes = replicate slots 0,
          it_mask = of_nat (slots - 1), it_live = 0, it_tomb = 0\<rparr>)"

fun findSlotFrom :: "nat \<Rightarrow> indexTable \<Rightarrow> u64 \<Rightarrow> u64 \<Rightarrow> (u64 \<times> u64) option option" where
  "findSlotFrom 0 t h i = None"
| "findSlotFrom (Suc n) t h i =
     (let c = it_ctrl t ! unat i
      in if c = ctrlEmpty then Some None
         else if c AND ctrlTagMask = tagFor h \<and> it_hashes t ! unat i = h then Some (Some (i, it_refs t ! unat i))
         else findSlotFrom n t h ((i + 1) AND it_mask t))"

definition findSlot :: "indexTable \<Rightarrow> u64 \<Rightarrow> (u64 \<times> u64) option option" where
  "findSlot t h = findSlotFrom (length (it_ctrl t)) t h (h AND it_mask t)"

fun upsertFrom :: "nat \<Rightarrow> indexTable \<Rightarrow> u64 \<Rightarrow> u64 \<Rightarrow> u64 option \<Rightarrow> u64 \<Rightarrow> (indexTable \<times> u64 \<times> bool) option" where
  "upsertFrom 0 t h ref firstFree i = None"
| "upsertFrom (Suc n) t h ref firstFree i =
     (let c = it_ctrl t ! unat i
      in if c = ctrlEmpty then
           (let slot = (case firstFree of None \<Rightarrow> i | Some f \<Rightarrow> f);
                t1 = (case firstFree of None \<Rightarrow> t | Some f \<Rightarrow> t\<lparr>it_tomb := it_tomb t - 1\<rparr>)
            in Some (t1\<lparr>it_hashes := (it_hashes t1)[unat slot := h], it_refs := (it_refs t1)[unat slot := ref],
                        it_ctrl := (it_ctrl t1)[unat slot := tagFor h], it_live := it_live t1 + 1\<rparr>, slot, True))
         else if c = ctrlTombstone
         then upsertFrom n t h ref (case firstFree of None \<Rightarrow> Some i | Some f \<Rightarrow> Some f) ((i + 1) AND it_mask t)
         else if c AND ctrlTagMask = tagFor h \<and> it_hashes t ! unat i = h
         then Some (t\<lparr>it_refs := (it_refs t)[unat i := ref]\<rparr>, i, False)
         else upsertFrom n t h ref firstFree ((i + 1) AND it_mask t))"

definition upsert :: "u64 \<Rightarrow> u64 \<Rightarrow> indexTable \<Rightarrow> (indexTable \<times> u64 \<times> bool) option" where
  "upsert h ref t = upsertFrom (length (it_ctrl t)) t h ref None (h AND it_mask t)"

definition tombstone :: "u64 \<Rightarrow> indexTable \<Rightarrow> indexTable" where
  "tombstone slot t = t\<lparr>it_ctrl := (it_ctrl t)[unat slot := ctrlTombstone], it_live := it_live t - 1,
     it_tomb := it_tomb t + 1\<rparr>"

definition overThreshold :: "indexTable \<Rightarrow> bool" where
  "overThreshold t = ((it_live t + it_tomb t) * 4 \<ge> int (length (it_ctrl t)) * 3)"

definition setVisited :: "u64 \<Rightarrow> u64 \<Rightarrow> u64 \<Rightarrow> indexTable \<Rightarrow> indexTable" where
  "setVisited slot tag ref t =
     (if it_ctrl t ! unat slot \<noteq> tag then t
      else if it_refs t ! unat slot \<noteq> ref then t
      else t\<lparr>it_ctrl := (it_ctrl t)[unat slot := tag OR ctrlVisited]\<rparr>)"

definition takeVisited :: "u64 \<Rightarrow> u64 \<Rightarrow> indexTable \<Rightarrow> indexTable \<times> bool" where
  "takeVisited slot tag t =
     (if it_ctrl t ! unat slot = tag OR ctrlVisited
      then (t\<lparr>it_ctrl := (it_ctrl t)[unat slot := tag]\<rparr>, True) else (t, False))"

fun rehashInto :: "indexTable \<Rightarrow> indexTable \<Rightarrow> nat list \<Rightarrow> indexTable option" where
  "rehashInto t nt [] = Some nt"
| "rehashInto t nt (i # is) =
     (let c = it_ctrl t ! i
      in if c = ctrlEmpty \<or> c = ctrlTombstone then rehashInto t nt is
         else case upsert (it_hashes t ! i) (it_refs t ! i) nt of None \<Rightarrow> None
           | Some (nt1, slot, inserted) \<Rightarrow>
               rehashInto t
                 (if c AND ctrlVisited \<noteq> 0
                  then nt1\<lparr>it_ctrl := (it_ctrl nt1)[unat slot := tagFor (it_hashes t ! i) OR ctrlVisited]\<rparr>
                  else nt1) is)"

definition rehashed :: "indexTable \<Rightarrow> indexTable option" where
  "rehashed t = rehashInto t (newIndexTable (nat (it_live t))) [0..<length (it_ctrl t)]"

definition rehashIfOverThreshold :: "indexTable \<Rightarrow> indexTable option" where
  "rehashIfOverThreshold t = (if overThreshold t then rehashed t else Some t)"

text \<open>What a write and a removal do to the index: the write marks an entry it updates, and rehashes.\<close>

definition indexPut :: "bool \<Rightarrow> u64 \<Rightarrow> u64 \<Rightarrow> indexTable \<Rightarrow> indexTable option" where
  "indexPut sieve h ref t =
     (case upsert h ref t of None \<Rightarrow> None
      | Some (t1, slot, inserted) \<Rightarrow>
          rehashIfOverThreshold (if sieve \<and> \<not> inserted then setVisited slot (tagFor h) ref t1 else t1))"

definition indexDrop :: "u64 \<Rightarrow> indexTable \<Rightarrow> indexTable option" where
  "indexDrop h t =
     (case findSlot t h of None \<Rightarrow> None
      | Some None \<Rightarrow> Some t
      | Some (Some (slot, cur)) \<Rightarrow> Some (tombstone slot t))"

datatype indexOp = IPut u64 u64 | IDrop u64

fun indexStep :: "bool \<Rightarrow> indexOp \<Rightarrow> indexTable \<Rightarrow> indexTable option" where
  "indexStep sieve (IPut h ref) t = indexPut sieve h ref t"
| "indexStep sieve (IDrop h) t = indexDrop h t"

fun indexSpec :: "indexOp \<Rightarrow> (u64 \<Rightarrow> u64 option) \<Rightarrow> u64 \<Rightarrow> u64 option" where
  "indexSpec (IPut h ref) m = m(h \<mapsto> ref)"
| "indexSpec (IDrop h) m = m(h := None)"

fun stepsOf :: "('o \<Rightarrow> 't \<Rightarrow> 't option) \<Rightarrow> 'o list \<Rightarrow> 't \<Rightarrow> 't option" where
  "stepsOf step [] t = Some t"
| "stepsOf step (x # xs) t = (case step x t of None \<Rightarrow> None | Some t' \<Rightarrow> stepsOf step xs t')"

section \<open>Well-formed tables\<close>

definition occupied :: "u64 \<Rightarrow> bool" where "occupied c = (c \<noteq> ctrlEmpty \<and> c \<noteq> ctrlTombstone)"

definition slots :: "indexTable \<Rightarrow> nat" where "slots t = length (it_ctrl t)"

definition home :: "indexTable \<Rightarrow> u64 \<Rightarrow> nat \<Rightarrow> nat" where
  "home t h j = (unat h + j) mod slots t"

definition tab_shape :: "indexTable \<Rightarrow> bool" where
  "tab_shape t = (\<exists>k. 3 \<le> k \<and> k < 63 \<and> slots t = 2 ^ k \<and> length (it_refs t) = slots t \<and>
     length (it_hashes t) = slots t \<and> it_mask t = of_nat (slots t - 1))"

definition holds :: "indexTable \<Rightarrow> u64 \<Rightarrow> nat \<Rightarrow> bool" where
  "holds t h i = (i < slots t \<and> occupied (it_ctrl t ! i) \<and> it_hashes t ! i = h)"

text \<open>Every occupied slot carries its hash's tag and is reached from its home without passing an empty
  slot; no hash is held twice; the two counters are the numbers of occupied slots and tombstones.\<close>

definition reached :: "indexTable \<Rightarrow> nat \<Rightarrow> bool" where
  "reached t i = (\<exists>d. d < slots t \<and> home t (it_hashes t ! i) d = i \<and>
     (\<forall>j < d. it_ctrl t ! home t (it_hashes t ! i) j \<noteq> ctrlEmpty))"

definition tab_inv :: "indexTable \<Rightarrow> bool" where
  "tab_inv t = (tab_shape t \<and>
     (\<forall>i. i < slots t \<longrightarrow> occupied (it_ctrl t ! i) \<longrightarrow>
        it_ctrl t ! i AND ctrlTagMask = tagFor (it_hashes t ! i) \<and> reached t i) \<and>
     (\<forall>h i j. holds t h i \<longrightarrow> holds t h j \<longrightarrow> i = j) \<and>
     it_live t = int (length (filter occupied (it_ctrl t))) \<and>
     it_tomb t = int (length (filter (\<lambda>c. c = ctrlTombstone) (it_ctrl t))))"

definition roomy :: "indexTable \<Rightarrow> bool" where
  "roomy t = (it_live t + it_tomb t < int (slots t))"

text \<open>The map a table stands for.\<close>

definition tabMap :: "indexTable \<Rightarrow> u64 \<Rightarrow> u64 option" where
  "tabMap t h = map_option (\<lambda>i. it_refs t ! i) (List.find (holds t h) [0..<slots t])"

lemma slots_frame [simp]:
  "slots (t\<lparr>it_refs := r\<rparr>) = slots t" "slots (t\<lparr>it_hashes := hs\<rparr>) = slots t"
  "slots (t\<lparr>it_live := a\<rparr>) = slots t" "slots (t\<lparr>it_tomb := b\<rparr>) = slots t"
  "slots (t\<lparr>it_ctrl := c\<rparr>) = length c"
  by (simp_all add: slots_def)

lemma tagMask: "ctrlTagMask = mask 17"
  by (simp add: ctrlTagMask_def ctrlVisited_def mask_eq_exp_minus_1)

lemma bit_flags: "bit tagPresentBit n \<longleftrightarrow> n = 16" "bit ctrlVisited n \<longleftrightarrow> n = 17"
proof -
  have e: "tagPresentBit = push_bit 16 1" "ctrlVisited = push_bit 17 1"
    by (simp_all add: tagPresentBit_def ctrlVisited_def)
  show "bit tagPresentBit n \<longleftrightarrow> n = 16" "bit ctrlVisited n \<longleftrightarrow> n = 17"
    unfolding e by (auto simp: bit_push_bit_iff bit_1_iff simp del: push_bit_of_1)
qed

lemma bit_tag: "bit (tagFor h) n \<longleftrightarrow> n < 16 \<and> bit h (48 + n) \<or> n = 16"
  by (auto simp: tagFor_def bit_simps bit_flags dest: bit_imp_le_length)

lemma tag_facts [simp]:
  "tagFor h AND ctrlTagMask = tagFor h" "(tagFor h OR ctrlVisited) AND ctrlTagMask = tagFor h"
  "occupied (tagFor h)" "occupied (tagFor h OR ctrlVisited)"
proof -
  show "tagFor h AND ctrlTagMask = tagFor h" "(tagFor h OR ctrlVisited) AND ctrlTagMask = tagFor h"
    by (rule bit_word_eqI; auto simp: tagMask bit_simps bit_tag bit_flags)+
  have "bit (tagFor h) 16" "bit (tagFor h OR ctrlVisited) 16" by (simp_all add: bit_tag bit_or_iff)
  moreover have "\<not> bit ctrlEmpty 16" "\<not> bit ctrlTombstone 16"
    by (simp_all add: ctrlEmpty_def ctrlTombstone_def bit_1_iff)
  ultimately show "occupied (tagFor h)" "occupied (tagFor h OR ctrlVisited)" by (auto simp: occupied_def)
qed

lemma occupied_sentinels [simp]: "\<not> occupied ctrlEmpty" "\<not> occupied ctrlTombstone" "ctrlTombstone \<noteq> ctrlEmpty" "ctrlEmpty \<noteq> ctrlTombstone"
  by (simp_all add: occupied_def ctrlEmpty_def ctrlTombstone_def)

lemma sentinel_tag [simp]:
  "ctrlEmpty AND ctrlTagMask \<noteq> tagFor h" "ctrlTombstone AND ctrlTagMask \<noteq> tagFor h"
proof -
  have "bit (tagFor h) 16" by (simp add: bit_tag)
  moreover have "\<not> bit (ctrlEmpty AND ctrlTagMask) 16" "\<not> bit (ctrlTombstone AND ctrlTagMask) 16"
    by (simp_all add: ctrlEmpty_def ctrlTombstone_def bit_1_iff bit_and_iff)
  ultimately show "ctrlEmpty AND ctrlTagMask \<noteq> tagFor h" "ctrlTombstone AND ctrlTagMask \<noteq> tagFor h" by metis+
qed

text \<open>The masked indices are positions modulo the table's size.\<close>

lemma shape_facts:
  assumes "tab_shape t"
  shows "0 < slots t" "slots t < 2 ^ 63" "unat (h AND it_mask t) = home t h 0"
    "unat i = home t h j \<Longrightarrow> unat ((i + 1) AND it_mask t) = home t h (Suc j)"
    "length (it_refs t) = slots t" "length (it_hashes t) = slots t" "length (it_ctrl t) = slots t"
proof -
  obtain k where k: "k < 63" "slots t = 2 ^ k" "it_mask t = of_nat (slots t - 1)"
    using assms by (auto simp: tab_shape_def)
  show l: "0 < slots t" "slots t < 2 ^ 63" using k power_strict_increasing [of k 63 "2 :: nat"] by simp_all
  show "length (it_refs t) = slots t" "length (it_hashes t) = slots t" "length (it_ctrl t) = slots t"
    using assms by (auto simp: tab_shape_def slots_def)
  have m: "it_mask t = mask k" using k by (simp add: mask_eq_exp_minus_1 of_nat_diff)
  have a: "unat (w AND it_mask t) = unat w mod slots t" for w :: u64
    unfolding m take_bit_eq_mask [symmetric] unsigned_take_bit_eq using k by (simp add: take_bit_eq_mod)
  show "unat (h AND it_mask t) = home t h 0" using a by (simp add: home_def)
  assume i: "unat i = home t h j"
  then have "unat i < 2 ^ 63" using l by (simp add: home_def) (meson less_trans mod_less_divisor)
  then have "i \<noteq> -1" by (auto simp: unsigned_minus_1_eq_mask mask_eq_exp_minus_1)
  then have "unat (i + 1) = unat i + 1" using unat_succ [of i] by simp
  then show "unat ((i + 1) AND it_mask t) = home t h (Suc j)" using a [of "i + 1"] i by (simp add: home_def mod_Suc_eq)
qed

lemma home_inj: "0 < slots t \<Longrightarrow> j < slots t \<Longrightarrow> j' < slots t \<Longrightarrow> home t h j = home t h j' \<longleftrightarrow> j = j'"
  by (simp add: home_def mod_add_eq_iff)

lemma home_less [simp]: "tab_shape t \<Longrightarrow> home t h j < slots t"
  by (simp add: home_def shape_facts)

section \<open>Probing\<close>

lemma of_unat: "unat (i :: u64) = n \<Longrightarrow> i = of_nat n"
  by auto

text \<open>A probe stops at the first position that is empty or matches.\<close>

definition stops :: "indexTable \<Rightarrow> u64 \<Rightarrow> nat \<Rightarrow> bool" where
  "stops t h i = (it_ctrl t ! i = ctrlEmpty \<or> (it_ctrl t ! i AND ctrlTagMask = tagFor h \<and> it_hashes t ! i = h))"

lemma findSlotFrom_at:
  assumes "tab_shape t" "unat i = home t h j" "j + n = slots t" "j \<le> d" "d < slots t"
    and "\<And>m. j \<le> m \<Longrightarrow> m < d \<Longrightarrow> \<not> stops t h (home t h m)" and "stops t h (home t h d)"
  shows "findSlotFrom n t h i = (if it_ctrl t ! home t h d = ctrlEmpty then Some None
     else Some (Some (of_nat (home t h d), it_refs t ! home t h d)))"
  using assms
proof (induction n arbitrary: i j)
  case (Suc n)
  show ?case
  proof (cases "j = d")
    case True
    have "i = of_nat (home t h d)" using Suc(3) True by (intro of_unat) simp
    then show ?thesis using Suc True by (auto simp: stops_def Let_def)
  next
    case False
    then have "\<not> stops t h (unat i)" using Suc(7) [of j] Suc(3,5) by simp
    then have "findSlotFrom (Suc n) t h i = findSlotFrom n t h ((i + 1) AND it_mask t)"
      by (auto simp: stops_def Let_def)
    also have "\<dots> = (if it_ctrl t ! home t h d = ctrlEmpty then Some None
     else Some (Some (of_nat (home t h d), it_refs t ! home t h d)))"
      by (rule Suc(1) [of _ "Suc j"]) (use Suc False shape_facts(4) [OF Suc(2,3)] in auto)
    finally show ?thesis .
  qed
qed simp

text \<open>A probe path visits every slot, so it has a first one with any property a slot has.\<close>

lemma first_on_path:
  assumes "tab_shape t" "i < slots t" "P i"
  obtains d where "d < slots t" "P (home t h d)" "\<And>m. m < d \<Longrightarrow> \<not> P (home t h m)"
proof -
  have z: "0 < slots t" by (rule shape_facts(1) [OF assms(1)])
  let ?d0 = "(slots t - unat h mod slots t + i) mod slots t"
  have "home t h ?d0 = i"
  proof -
    have "(unat h + (slots t - unat h mod slots t + i)) mod slots t = i"
    proof -
      have "unat h + (slots t - unat h mod slots t + i) = i + (unat h div slots t + 1) * slots t"
        using mod_less_divisor [OF z, of "unat h"] div_mult_mod_eq [of "unat h" "slots t"]
          add_mult_distrib [of "unat h div slots t" 1 "slots t"] by linarith
      then show ?thesis using assms(2) by (simp only: mod_mult_self1 mod_less)
    qed
    then show ?thesis by (simp add: home_def mod_simps)
  qed
  then have ex: "\<exists>d. d < slots t \<and> P (home t h d)" using assms z by (intro exI [of _ ?d0]) simp
  let ?d = "LEAST d. d < slots t \<and> P (home t h d)"
  have "?d < slots t \<and> P (home t h ?d)" using ex by (rule LeastI_ex)
  moreover have "\<not> P (home t h m)" if "m < ?d" for m
    using not_less_Least [OF that] that calculation by auto
  ultimately show ?thesis using that by blast
qed

lemma roomy_empty: "tab_inv t \<Longrightarrow> roomy t \<Longrightarrow> \<exists>i. i < slots t \<and> it_ctrl t ! i = ctrlEmpty"
proof -
  assume i: "tab_inv t" "roomy t"
  have "length (filter (\<lambda>c. c = ctrlEmpty) cs) + length (filter occupied cs) + length (filter (\<lambda>c. c = ctrlTombstone) cs) = length cs" for cs
    by (induction cs) (auto simp: occupied_def)
  from this [of "it_ctrl t"] i have "0 < length (filter (\<lambda>c. c = ctrlEmpty) (it_ctrl t))"
    unfolding tab_inv_def roomy_def slots_def by linarith
  then obtain c where "c \<in> set (it_ctrl t)" "c = ctrlEmpty" by (auto simp: filter_empty_conv)
  then show ?thesis by (auto simp: in_set_conv_nth slots_def)
qed

text \<open>An occupied slot is what a probe for its hash finds: a position before it on its probe path is
  neither empty nor a match.\<close>

lemma tab_inv_holds:
  assumes "tab_inv t" "holds t h i"
  obtains d where "d < slots t" "home t h d = i" "\<And>m. m < d \<Longrightarrow> \<not> stops t h (home t h m)" "stops t h i"
    "it_ctrl t ! i \<noteq> ctrlEmpty"
proof -
  have sh: "tab_shape t" using assms by (simp add: tab_inv_def)
  have i: "i < slots t" "occupied (it_ctrl t ! i)" "it_hashes t ! i = h" using assms by (auto simp: holds_def)
  then have tag: "it_ctrl t ! i AND ctrlTagMask = tagFor h" and "reached t i"
    using assms by (auto simp: tab_inv_def)
  then obtain d where d: "d < slots t" "home t h d = i" "\<And>j. j < d \<Longrightarrow> it_ctrl t ! home t h j \<noteq> ctrlEmpty"
    using i by (auto simp: reached_def)
  have "\<not> stops t h (home t h m)" if m: "m < d" for m
  proof
    assume s: "stops t h (home t h m)"
    then have "it_ctrl t ! home t h m AND ctrlTagMask = tagFor h" "it_hashes t ! home t h m = h"
      using d(3) [OF m] by (auto simp: stops_def)
    moreover have "occupied (it_ctrl t ! home t h m)" using calculation by (auto simp: occupied_def)
    ultimately have "holds t h (home t h m)" using sh by (simp add: holds_def)
    then have "home t h m = i" using assms by (auto simp: tab_inv_def)
    then show False using home_inj [of t m d h] d(1,2) m by simp
  qed
  then show ?thesis using that d i tag by (auto simp: stops_def occupied_def)
qed

lemma holds_unique: "tab_inv t \<Longrightarrow> holds t h i \<Longrightarrow> holds t h j \<Longrightarrow> i = j"
  by (auto simp: tab_inv_def)

lemma tabMap_holds: "tab_inv t \<Longrightarrow> holds t h i \<Longrightarrow> tabMap t h = Some (it_refs t ! i)"
proof -
  assume a: "tab_inv t" "holds t h i"
  have "List.find (holds t h) [0..<slots t] \<noteq> None" using a(2) by (auto simp: find_None_iff holds_def)
  then obtain j where j: "List.find (holds t h) [0..<slots t] = Some j" by blast
  then have "holds t h j" by (auto simp: find_Some_iff)
  then have "j = i" by (rule holds_unique [OF a(1) _ a(2)])
  then show ?thesis using j by (simp add: tabMap_def)
qed

lemma tabMap_None: "tabMap t h = None \<longleftrightarrow> (\<forall>i. \<not> holds t h i)"
  by (auto simp: tabMap_def find_None_iff holds_def)

lemma findSlot_holds:
  assumes "tab_inv t" "holds t h i"
  shows "findSlot t h = Some (Some (of_nat i, it_refs t ! i))"
proof -
  have sh: "tab_shape t" using assms by (simp add: tab_inv_def)
  obtain d where d: "d < slots t" "home t h d = i" "\<And>m. m < d \<Longrightarrow> \<not> stops t h (home t h m)" "stops t h i"
    "it_ctrl t ! i \<noteq> ctrlEmpty" by (rule tab_inv_holds [OF assms]) blast
  then show ?thesis unfolding findSlot_def
    using findSlotFrom_at [OF sh shape_facts(3) [OF sh, of h], of "slots t" d] by (simp add: slots_def)
qed

lemma probe_path:
  assumes "tab_inv t" "roomy t" "\<And>i. \<not> holds t h i"
  obtains d where "d < slots t" "it_ctrl t ! home t h d = ctrlEmpty" "\<And>m. m < d \<Longrightarrow> \<not> stops t h (home t h m)"
proof -
  have sh: "tab_shape t" using assms by (simp add: tab_inv_def)
  obtain e where e: "e < slots t" "it_ctrl t ! e = ctrlEmpty" using roomy_empty [OF assms(1,2)] by auto
  obtain d where d: "d < slots t" "stops t h (home t h d)" "\<And>m. m < d \<Longrightarrow> \<not> stops t h (home t h m)"
    using first_on_path [of t e "stops t h" h, OF sh e(1)] e(2) by (auto simp: stops_def)
  moreover have "it_ctrl t ! home t h d = ctrlEmpty"
  proof (rule ccontr)
    assume n: "it_ctrl t ! home t h d \<noteq> ctrlEmpty"
    then have m: "it_ctrl t ! home t h d AND ctrlTagMask = tagFor h" "it_hashes t ! home t h d = h"
      using d(2) by (auto simp: stops_def)
    then have "occupied (it_ctrl t ! home t h d)" using n by (auto simp: occupied_def)
    then show False using assms(3) [of "home t h d"] m sh by (simp add: holds_def)
  qed
  ultimately show ?thesis using that by blast
qed

lemma findSlot_absent:
  assumes "tab_inv t" "roomy t" "\<And>i. \<not> holds t h i"
  shows "findSlot t h = Some None"
proof -
  have sh: "tab_shape t" using assms by (simp add: tab_inv_def)
  obtain d where d: "d < slots t" "it_ctrl t ! home t h d = ctrlEmpty" "\<And>m. m < d \<Longrightarrow> \<not> stops t h (home t h m)"
    by (rule probe_path [OF assms]) blast
  then show ?thesis unfolding findSlot_def
    using findSlotFrom_at [OF sh shape_facts(3) [OF sh, of h], of "slots t" d] by (simp add: slots_def stops_def)
qed

section \<open>Insertion\<close>

lemma count_update:
  "i < length xs \<Longrightarrow> int (length (filter P (xs[i := v]))) =
     int (length (filter P xs)) - (if P (xs ! i) then 1 else 0) + (if P v then 1 else 0)"
proof (induction xs arbitrary: i)
  case (Cons a xs)
  show ?case
  proof (cases i)
    case (Suc k)
    then show ?thesis using Cons(1) [of k] Cons(2) by (cases "P (xs ! k)"; cases "P v") simp_all
  qed simp
qed simp

text \<open>Where an insertion of an absent hash lands: at the first tombstone before the first empty slot of
  the probe path, or at that empty slot.\<close>

lemma upsertFrom_empty:
  assumes "tab_shape t" "unat i = home t h j" "j + n = slots t" "j \<le> d" "d < slots t"
    and "\<And>m. j \<le> m \<Longrightarrow> m < d \<Longrightarrow> \<not> stops t h (home t h m)" and "it_ctrl t ! home t h d = ctrlEmpty"
    and "case ff of None \<Rightarrow> \<forall>m<j. it_ctrl t ! home t h m \<noteq> ctrlTombstone
        | Some f \<Rightarrow> \<exists>m<j. f = of_nat (home t h m) \<and> it_ctrl t ! home t h m = ctrlTombstone"
  shows "\<exists>e \<le> d. upsertFrom n t h ref ff i =
     Some (t\<lparr>it_hashes := (it_hashes t)[home t h e := h], it_refs := (it_refs t)[home t h e := ref],
            it_ctrl := (it_ctrl t)[home t h e := tagFor h], it_live := it_live t + 1,
            it_tomb := it_tomb t - (if e = d then 0 else 1)\<rparr>, of_nat (home t h e), True) \<and>
     it_ctrl t ! home t h e = (if e = d then ctrlEmpty else ctrlTombstone)"
  using assms
proof (induction n arbitrary: i j ff)
  case (Suc n)
  have small: "unat (of_nat (home t h m) :: u64) = home t h m" for m
    using home_less [OF Suc(2), of h m] shape_facts(2) [OF Suc(2)] by (simp add: unat_of_nat)
  show ?case
  proof (cases "j = d")
    case True
    have i: "i = of_nat (home t h d)" using Suc(3) True by (intro of_unat) simp
    show ?thesis
    proof (cases ff)
      case None
      then show ?thesis using True Suc i small [of d] by (intro exI [of _ d]) (simp add: Let_def)
    next
      case (Some f)
      then obtain m where m: "m < d" "f = of_nat (home t h m)" "it_ctrl t ! home t h m = ctrlTombstone"
        using Suc(9) True by auto
      then show ?thesis using True Suc i small Some by (intro exI [of _ m]) (simp add: Let_def)
    qed
  next
    case False
    then have ns: "\<not> stops t h (unat i)" and jd: "Suc j \<le> d" using Suc(7) [of j] Suc(3,5) by simp_all
    have next': "unat ((i + 1) AND it_mask t) = home t h (Suc j)" by (rule shape_facts(4) [OF Suc(2,3)])
    define ff' where "ff' = (if it_ctrl t ! unat i = ctrlTombstone then (case ff of None \<Rightarrow> Some i | Some f \<Rightarrow> Some f) else ff)"
    have "upsertFrom (Suc n) t h ref ff i = upsertFrom n t h ref ff' ((i + 1) AND it_mask t)"
      using ns by (auto simp: stops_def Let_def ff'_def)
    moreover have "case ff' of None \<Rightarrow> \<forall>m<Suc j. it_ctrl t ! home t h m \<noteq> ctrlTombstone
        | Some f \<Rightarrow> \<exists>m<Suc j. f = of_nat (home t h m) \<and> it_ctrl t ! home t h m = ctrlTombstone"
    proof (cases ff)
      case None
      have "i = of_nat (home t h j)" using Suc(3) by (intro of_unat) simp
      then show ?thesis using Suc(9) None Suc(3) by (auto simp: ff'_def less_Suc_eq)
    next
      case (Some f)
      then show ?thesis using Suc(9) by (auto simp: ff'_def less_Suc_eq)
    qed
    ultimately show ?thesis using Suc(1) [OF Suc(2) next' _ jd Suc(6) _ Suc(8)] Suc(4,7) by simp
  qed
qed simp

lemma upsertFrom_match:
  assumes "tab_shape t" "unat i = home t h j" "j + n = slots t" "j \<le> d" "d < slots t"
    and "\<And>m. j \<le> m \<Longrightarrow> m < d \<Longrightarrow> \<not> stops t h (home t h m)"
    and "it_ctrl t ! home t h d AND ctrlTagMask = tagFor h" "it_hashes t ! home t h d = h"
  shows "upsertFrom n t h ref ff i =
    Some (t\<lparr>it_refs := (it_refs t)[home t h d := ref]\<rparr>, of_nat (home t h d), False)"
  using assms
proof (induction n arbitrary: i j ff)
  case (Suc n)
  show ?case
  proof (cases "j = d")
    case True
    have "i = of_nat (home t h d)" using Suc(3) True by (intro of_unat) simp
    moreover have "it_ctrl t ! home t h d \<noteq> ctrlEmpty" "it_ctrl t ! home t h d \<noteq> ctrlTombstone"
      using Suc(8) by (metis sentinel_tag)+
    ultimately show ?thesis using Suc True by (simp add: Let_def)
  next
    case False
    then have ns: "\<not> stops t h (unat i)" using Suc(7) [of j] Suc(3,5) by simp
    define ff' where "ff' = (if it_ctrl t ! unat i = ctrlTombstone then (case ff of None \<Rightarrow> Some i | Some f \<Rightarrow> Some f) else ff)"
    have "upsertFrom (Suc n) t h ref ff i = upsertFrom n t h ref ff' ((i + 1) AND it_mask t)"
      using ns by (auto simp: stops_def Let_def ff'_def)
    moreover have "upsertFrom n t h ref ff' ((i + 1) AND it_mask t) =
        Some (t\<lparr>it_refs := (it_refs t)[home t h d := ref]\<rparr>, of_nat (home t h d), False)"
      by (rule Suc(1) [of _ "Suc j"]) (use Suc False shape_facts(4) [OF Suc(2,3)] in auto)
    ultimately show ?thesis by simp
  qed
qed simp

text \<open>The tables an insertion and a repointing give, slot by slot.\<close>

definition fillSlot :: "nat \<Rightarrow> u64 \<Rightarrow> u64 \<Rightarrow> u64 \<Rightarrow> indexTable \<Rightarrow> indexTable" where
  "fillSlot i h ref c t = t\<lparr>it_hashes := (it_hashes t)[i := h], it_refs := (it_refs t)[i := ref],
     it_ctrl := (it_ctrl t)[i := c], it_live := it_live t + 1,
     it_tomb := it_tomb t - (if it_ctrl t ! i = ctrlTombstone then 1 else 0)\<rparr>"

lemma fill_shape: "tab_shape t \<Longrightarrow> tab_shape (fillSlot i h ref c t)"
  by (auto simp: tab_shape_def fillSlot_def slots_def)

lemma fill_slots [simp]: "slots (fillSlot i h ref c t) = slots t" "home (fillSlot i h ref c t) = home t"
  by (auto simp: fillSlot_def slots_def home_def fun_eq_iff)

lemma fill_counts: "it_live (fillSlot i h ref c t) = it_live t + 1" "it_tomb (fillSlot i h ref c t) \<le> it_tomb t"
  by (simp_all add: fillSlot_def)

lemma fill_nth:
  assumes "tab_shape t" "i < slots t"
  shows "it_ctrl (fillSlot i h ref c t) ! j = (if j = i then c else it_ctrl t ! j)"
    "it_refs (fillSlot i h ref c t) ! j = (if j = i then ref else it_refs t ! j)"
    "it_hashes (fillSlot i h ref c t) ! j = (if j = i then h else it_hashes t ! j)"
  using assms by (auto simp: fillSlot_def nth_list_update shape_facts)

lemma fill_holds:
  assumes "tab_shape t" "i < slots t" "\<not> occupied (it_ctrl t ! i)" "occupied c"
  shows "holds (fillSlot i h ref c t) h' j \<longleftrightarrow> (if j = i then h' = h else holds t h' j)"
  using assms by (auto simp: holds_def fill_nth)

lemma tab_inv_fill:
  assumes inv: "tab_inv t" and e: "e < slots t" and free: "\<not> occupied (it_ctrl t ! home t h e)"
    and absent: "\<And>i. \<not> holds t h i" and path: "\<And>j. j < e \<Longrightarrow> it_ctrl t ! home t h j \<noteq> ctrlEmpty"
    and c: "occupied c" "c AND ctrlTagMask = tagFor h"
  shows "tab_inv (fillSlot (home t h e) h ref c t)"
    "tabMap (fillSlot (home t h e) h ref c t) = (tabMap t)(h \<mapsto> ref)"
proof -
  let ?i = "home t h e" and ?t = "fillSlot (home t h e) h ref c t"
  have sh: "tab_shape t" using inv by (simp add: tab_inv_def)
  have i: "?i < slots t" using sh by simp
  note nth = fill_nth [OF sh i]
  have hold: "holds ?t h' j \<longleftrightarrow> (if j = ?i then h' = h else holds t h' j)" for h' j
    by (rule fill_holds [OF sh i free c(1)])
  have nonempty: "it_ctrl ?t ! j \<noteq> ctrlEmpty" if "it_ctrl t ! j \<noteq> ctrlEmpty \<or> j = ?i" for j
    using that c(1) by (auto simp: nth occupied_def)
  have "it_ctrl ?t ! j AND ctrlTagMask = tagFor (it_hashes ?t ! j) \<and> reached ?t j"
    if j: "j < slots t" "occupied (it_ctrl ?t ! j)" for j
  proof (cases "j = ?i")
    case True
    have "reached ?t ?i" unfolding reached_def
      by (rule exI [of _ e]) (use e path nonempty in \<open>auto simp: nth\<close>)
    then show ?thesis using True c by (simp add: nth)
  next
    case False
    then have "it_ctrl t ! j AND ctrlTagMask = tagFor (it_hashes t ! j)" "reached t j"
      using inv j by (auto simp: tab_inv_def nth)
    moreover obtain d where "d < slots t" "home t (it_hashes t ! j) d = j"
      "\<forall>m<d. it_ctrl t ! home t (it_hashes t ! j) m \<noteq> ctrlEmpty" using \<open>reached t j\<close> by (auto simp: reached_def)
    moreover have "c \<noteq> ctrlEmpty" using c(1) by (simp add: occupied_def)
    ultimately show ?thesis using False by (auto simp: reached_def nth intro!: exI [of _ d])
  qed
  moreover have "\<forall>h' a b. holds ?t h' a \<longrightarrow> holds ?t h' b \<longrightarrow> a = b"
    using inv absent by (auto simp: hold tab_inv_def split: if_splits)
  moreover have "it_live ?t = int (length (filter occupied (it_ctrl ?t)))"
    "it_tomb ?t = int (length (filter (\<lambda>c. c = ctrlTombstone) (it_ctrl ?t)))"
    using inv i c(1) free count_update [of ?i "it_ctrl t" occupied c]
      count_update [of ?i "it_ctrl t" "\<lambda>c. c = ctrlTombstone" c]
    by (auto simp: tab_inv_def fillSlot_def slots_def occupied_def)
  ultimately show inv': "tab_inv ?t" using fill_shape [OF sh] by (auto simp: tab_inv_def)
  show "tabMap ?t = (tabMap t)(h \<mapsto> ref)"
  proof
    fix h'
    show "tabMap ?t h' = ((tabMap t)(h \<mapsto> ref)) h'"
    proof (cases "\<exists>j. holds ?t h' j")
      case True
      then obtain j where j: "holds ?t h' j" by blast
      have m: "tabMap ?t h' = Some (it_refs ?t ! j)" by (rule tabMap_holds [OF inv' j])
      show ?thesis
      proof (cases "j = ?i")
        case True
        then show ?thesis using m j by (simp add: hold nth)
      next
        case False
        then have old: "holds t h' j" using j by (simp add: hold)
        then have "h' \<noteq> h" using absent by auto
        then show ?thesis using m False tabMap_holds [OF inv old] by (simp add: nth)
      qed
    next
      case False
      have none: "\<not> holds t h' j" for j
      proof (cases "j = ?i")
        case True
        then show ?thesis using free by (simp add: holds_def)
      next
        case ne: False
        then show ?thesis using False hold [of h' j] by auto
      qed
      moreover have "h' \<noteq> h" using False hold [of h' ?i] by auto
      ultimately show ?thesis using False tabMap_None [of ?t h'] tabMap_None [of t h'] by auto
    qed
  qed
qed

lemma upsert_absent:
  assumes "tab_inv t" "roomy t" "\<And>i. \<not> holds t h i"
  obtains e where "upsert h ref t = Some (fillSlot (home t h e) h ref (tagFor h) t, of_nat (home t h e), True)"
    "e < slots t" "\<not> occupied (it_ctrl t ! home t h e)" "\<And>j. j < e \<Longrightarrow> it_ctrl t ! home t h j \<noteq> ctrlEmpty"
proof -
  have sh: "tab_shape t" using assms by (simp add: tab_inv_def)
  obtain d where d: "d < slots t" "it_ctrl t ! home t h d = ctrlEmpty" "\<And>m. m < d \<Longrightarrow> \<not> stops t h (home t h m)"
    by (rule probe_path [OF assms]) blast
  have path: "it_ctrl t ! home t h j \<noteq> ctrlEmpty" if "j < d" for j using d(3) [OF that] by (auto simp: stops_def)
  obtain e where e: "e \<le> d" "upsertFrom (slots t) t h ref None (h AND it_mask t) =
     Some (t\<lparr>it_hashes := (it_hashes t)[home t h e := h], it_refs := (it_refs t)[home t h e := ref],
            it_ctrl := (it_ctrl t)[home t h e := tagFor h], it_live := it_live t + 1,
            it_tomb := it_tomb t - (if e = d then 0 else 1)\<rparr>, of_nat (home t h e), True)"
     "it_ctrl t ! home t h e = (if e = d then ctrlEmpty else ctrlTombstone)"
    using upsertFrom_empty [OF sh shape_facts(3) [OF sh, of h], of "slots t" d None ref] d by auto
  have "upsert h ref t = Some (fillSlot (home t h e) h ref (tagFor h) t, of_nat (home t h e), True)"
    using e(2,3) by (auto simp: upsert_def fillSlot_def slots_def)
  moreover have "\<not> occupied (it_ctrl t ! home t h e)" using e(3) by simp
  ultimately show ?thesis using that e(1) d(1) path by force
qed

lemma upsert_present:
  assumes "tab_inv t" "holds t h i"
  shows "upsert h ref t = Some (t\<lparr>it_refs := (it_refs t)[i := ref]\<rparr>, of_nat i, False)"
proof -
  have sh: "tab_shape t" using assms by (simp add: tab_inv_def)
  obtain d where d: "d < slots t" "home t h d = i" "\<And>m. m < d \<Longrightarrow> \<not> stops t h (home t h m)" "stops t h i"
    "it_ctrl t ! i \<noteq> ctrlEmpty" by (rule tab_inv_holds [OF assms]) blast
  then show ?thesis unfolding upsert_def
    using upsertFrom_match [OF sh shape_facts(3) [OF sh, of h], of "slots t" d ref None]
    by (auto simp: slots_def stops_def)
qed

lemma repoint_inv:
  assumes "tab_inv t" "holds t h i"
  shows "tab_inv (t\<lparr>it_refs := (it_refs t)[i := ref]\<rparr>)"
    "tabMap (t\<lparr>it_refs := (it_refs t)[i := ref]\<rparr>) = (tabMap t)(h \<mapsto> ref)"
proof -
  let ?t = "t\<lparr>it_refs := (it_refs t)[i := ref]\<rparr>"
  have sh: "tab_shape t" and i: "i < slots t" using assms by (auto simp: tab_inv_def holds_def)
  have hold: "holds ?t h' j = holds t h' j" for h' j by (simp add: holds_def)
  have "home ?t = home t" by (simp add: home_def fun_eq_iff)
  then have "reached ?t j = reached t j" for j by (simp add: reached_def)
  then show inv': "tab_inv ?t" using assms(1) by (simp add: tab_inv_def hold tab_shape_def)
  have nth: "it_refs ?t ! j = (if j = i then ref else it_refs t ! j)" for j
    using i shape_facts(5) [OF sh] by (simp add: nth_list_update)
  show "tabMap ?t = (tabMap t)(h \<mapsto> ref)"
  proof
    fix h'
    show "tabMap ?t h' = ((tabMap t)(h \<mapsto> ref)) h'"
    proof (cases "\<exists>j. holds t h' j")
      case True
      then obtain j where j: "holds t h' j" by blast
      have "h' = h \<longleftrightarrow> j = i" using j assms holds_unique [OF assms(1)] by (auto simp: holds_def)
      then show ?thesis using tabMap_holds [OF inv', of h' j] tabMap_holds [OF assms(1) j] j hold nth by auto
    next
      case False
      then have "h' \<noteq> h" using assms(2) by auto
      then show ?thesis using False tabMap_None [of ?t h'] tabMap_None [of t h'] hold by auto
    qed
  qed
qed

text \<open>An insertion returns, keeps the table well-formed, and is the map's update.\<close>

lemma upsert_correct:
  assumes "tab_inv t" "roomy t"
  obtains t' slot ins where "upsert h ref t = Some (t', slot, ins)" "tab_inv t'" "tabMap t' = (tabMap t)(h \<mapsto> ref)"
    "slots t' = slots t" "it_live t' + it_tomb t' \<le> it_live t + it_tomb t + 1" "it_live t' \<le> it_live t + 1"
    "it_tomb t' \<le> it_tomb t" "holds t' h (unat slot)"
proof (cases "\<exists>i. holds t h i")
  case True
  then obtain i where i: "holds t h i" by blast
  have sh: "tab_shape t" using assms by (simp add: tab_inv_def)
  have "i < 2 ^ 64" using i shape_facts(2) [OF sh] by (simp add: holds_def)
  then have "unat (of_nat i :: u64) = i" by (simp add: unat_of_nat)
  moreover have "holds (t\<lparr>it_refs := (it_refs t)[i := ref]\<rparr>) h i" using i by (simp add: holds_def)
  ultimately show ?thesis
    by (intro that [OF upsert_present [OF assms(1) i, of ref] repoint_inv [OF assms(1) i, of ref]]) simp_all
next
  case False
  have sh: "tab_shape t" using assms by (simp add: tab_inv_def)
  from False have absent: "\<And>i. \<not> holds t h i" by blast
  show ?thesis
  proof (rule upsert_absent [OF assms absent, where ref = ref])
    fix e assume e: "upsert h ref t = Some (fillSlot (home t h e) h ref (tagFor h) t, of_nat (home t h e), True)"
      "e < slots t" "\<not> occupied (it_ctrl t ! home t h e)" "\<And>j. j < e \<Longrightarrow> it_ctrl t ! home t h j \<noteq> ctrlEmpty"
    have "unat (of_nat (home t h e) :: u64) = home t h e"
      using home_less [OF sh, of h e] shape_facts(2) [OF sh] by (simp add: unat_of_nat)
    then have "holds (fillSlot (home t h e) h ref (tagFor h) t) h (unat (of_nat (home t h e) :: u64))"
      using fill_holds [OF sh _ e(3), of "tagFor h" h ref h "home t h e"] sh by simp
    then show ?thesis
      using that [OF e(1) tab_inv_fill [OF assms(1) e(2,3) absent e(4), of "tagFor h" ref]]
        fill_counts [of "home t h e" h ref "tagFor h" t] by simp
  qed
qed

section \<open>Removal and hints\<close>

lemma tombstone_correct:
  assumes "tab_inv t" "holds t h (unat slot)"
  shows "tab_inv (tombstone slot t)" "tabMap (tombstone slot t) = (tabMap t)(h := None)"
    "slots (tombstone slot t) = slots t" "it_live (tombstone slot t) + it_tomb (tombstone slot t) = it_live t + it_tomb t"
    "it_live (tombstone slot t) \<le> it_live t"
proof -
  let ?i = "unat slot" and ?t = "tombstone slot t"
  have sh: "tab_shape t" and i: "?i < slots t" "occupied (it_ctrl t ! ?i)" "it_hashes t ! ?i = h"
    using assms by (auto simp: tab_inv_def holds_def)
  show sl: "slots ?t = slots t" by (simp add: tombstone_def slots_def)
  show "it_live ?t + it_tomb ?t = it_live t + it_tomb t" "it_live ?t \<le> it_live t" by (simp_all add: tombstone_def)
  have nth: "it_ctrl ?t ! j = (if j = ?i then ctrlTombstone else it_ctrl t ! j)" for j
    using i shape_facts(7) [OF sh] by (simp add: tombstone_def nth_list_update)
  have same: "it_refs ?t = it_refs t" "it_hashes ?t = it_hashes t" "home ?t = home t"
    using sl by (simp_all add: tombstone_def home_def fun_eq_iff)
  have hold: "holds ?t h' j \<longleftrightarrow> j \<noteq> ?i \<and> holds t h' j" for h' j by (auto simp: holds_def nth sl same)
  have "reached t j \<Longrightarrow> reached ?t j" for j by (auto simp: reached_def nth same sl)
  moreover have "it_live ?t = int (length (filter occupied (it_ctrl ?t)))"
    "it_tomb ?t = int (length (filter (\<lambda>c. c = ctrlTombstone) (it_ctrl ?t)))"
    using assms(1) i count_update [of ?i "it_ctrl t" occupied ctrlTombstone]
      count_update [of ?i "it_ctrl t" "\<lambda>c. c = ctrlTombstone" ctrlTombstone]
    by (auto simp: tab_inv_def tombstone_def slots_def occupied_def)
  moreover have "tab_shape ?t" using sh sl same unfolding tab_shape_def by (simp add: tombstone_def)
  ultimately show inv': "tab_inv ?t" using assms(1) sl unfolding tab_inv_def hold
    by (auto simp: nth same occupied_def)
  show "tabMap ?t = (tabMap t)(h := None)"
  proof
    fix h'
    show "tabMap ?t h' = ((tabMap t)(h := None)) h'"
    proof (cases "\<exists>j. holds ?t h' j")
      case True
      then obtain j where j: "j \<noteq> ?i" "holds t h' j" "holds ?t h' j" using hold by blast
      then have "h' \<noteq> h" using holds_unique [OF assms(1) _ assms(2)] by auto
      then show ?thesis using tabMap_holds [OF inv' j(3)] tabMap_holds [OF assms(1) j(2)] same by simp
    next
      case False
      show ?thesis
      proof (cases "h' = h")
        case ne: False
        then have "\<not> holds t h' ?i" using i by (auto simp: holds_def)
        then have "\<forall>j. \<not> holds t h' j" using False hold by metis
        then show ?thesis using False ne tabMap_None [of ?t h'] tabMap_None [of t h'] by simp
      qed (use False tabMap_None [of ?t h'] in simp)
    qed
  qed
qed

lemma mark_correct:
  assumes "tab_inv t" "holds t h i" "occupied c" "c AND ctrlTagMask = tagFor h"
  shows "tab_inv (t\<lparr>it_ctrl := (it_ctrl t)[i := c]\<rparr>)" "tabMap (t\<lparr>it_ctrl := (it_ctrl t)[i := c]\<rparr>) = tabMap t"
    "holds (t\<lparr>it_ctrl := (it_ctrl t)[i := c]\<rparr>) = holds t" "slots (t\<lparr>it_ctrl := (it_ctrl t)[i := c]\<rparr>) = slots t"
proof -
  let ?t = "t\<lparr>it_ctrl := (it_ctrl t)[i := c]\<rparr>"
  have sh: "tab_shape t" and i: "i < slots t" "occupied (it_ctrl t ! i)" "it_hashes t ! i = h"
    using assms by (auto simp: tab_inv_def holds_def)
  show sl: "slots ?t = slots t" by (simp add: slots_def)
  have nth: "it_ctrl ?t ! j = (if j = i then c else it_ctrl t ! j)" for j
    using i shape_facts(7) [OF sh] by (simp add: nth_list_update)
  have hm: "home ?t = home t" using sl by (simp add: home_def fun_eq_iff)
  have "holds ?t h' j \<longleftrightarrow> holds t h' j" for h' j
    using i assms(3) unfolding holds_def nth sl by (cases "j = i") simp_all
  then show hold: "holds ?t = holds t" by (simp add: fun_eq_iff)
  have "c \<noteq> ctrlEmpty" using assms(3) by (simp add: occupied_def)
  then have "reached t j \<Longrightarrow> reached ?t j" for j unfolding reached_def nth hm sl by auto
  moreover have "it_live ?t = int (length (filter occupied (it_ctrl ?t)))"
    "it_tomb ?t = int (length (filter (\<lambda>c. c = ctrlTombstone) (it_ctrl ?t)))"
    using assms(1,3) i count_update [of i "it_ctrl t" occupied c]
      count_update [of i "it_ctrl t" "\<lambda>c. c = ctrlTombstone" c]
    by (auto simp: tab_inv_def slots_def occupied_def)
  moreover have "tab_shape ?t" using sh sl unfolding tab_shape_def by simp
  moreover have "it_hashes ?t = it_hashes t" by simp
  ultimately show inv': "tab_inv ?t" using assms i sl unfolding tab_inv_def hold nth by simp
  show "tabMap ?t = tabMap t" unfolding tabMap_def hold sl by simp
qed

lemma setVisited_correct:
  assumes "tab_inv t" "holds t h (unat slot)"
  shows "tab_inv (setVisited slot (tagFor h) ref t)" "tabMap (setVisited slot (tagFor h) ref t) = tabMap t"
    "slots (setVisited slot (tagFor h) ref t) = slots t"
    "it_live (setVisited slot (tagFor h) ref t) = it_live t" "it_tomb (setVisited slot (tagFor h) ref t) = it_tomb t"
  using assms mark_correct [OF assms, of "tagFor h OR ctrlVisited"] by (auto simp: setVisited_def)

section \<open>Rehashing\<close>

lemma nextPow2From_pow:
  "s = 2 ^ k \<Longrightarrow> 3 \<le> k \<Longrightarrow> s < 2 * n + 8 \<Longrightarrow>
   \<exists>k'. 3 \<le> k' \<and> nextPow2From s n = 2 ^ k' \<and> n \<le> 2 ^ k' \<and> 2 ^ k' < 2 * n + (8 :: nat)"
proof (induction s n arbitrary: k rule: nextPow2From.induct)
  case (1 s n)
  show ?case
  proof (cases "0 < s \<and> s < n")
    case True
    then have "nextPow2From s n = nextPow2From (s * 2) n" by (simp add: nextPow2From.simps [of s n])
    then show ?thesis using 1(1) [OF True, of "Suc k"] True 1(2,3) by simp
  next
    case False
    then have "nextPow2From s n = s" by (subst nextPow2From.simps) auto
    moreover have "n \<le> s" using False 1(2) by simp
    ultimately show ?thesis using 1 by auto
  qed
qed

lemma newIndexTable_correct:
  assumes "n < 2 ^ 60"
  shows "tab_inv (newIndexTable n)" "tabMap (newIndexTable n) = (\<lambda>_. None)" "2 * n < slots (newIndexTable n)"
    "it_live (newIndexTable n) = 0" "it_tomb (newIndexTable n) = 0"
proof -
  obtain k where k: "3 \<le> k" "nextPow2 (2 * n + 1) = 2 ^ k" "2 * n + 1 \<le> 2 ^ k" "2 ^ k < 2 * (2 * n + 1) + (8 :: nat)"
    using nextPow2From_pow [of minIndexSlots 3 "2 * n + 1"] by (auto simp: nextPow2_def minIndexSlots_def)
  have "2 ^ k < (2 :: nat) ^ 63" using k(4) assms by simp
  then have k63: "k < 63" using power_less_imp_less_exp [of "2 :: nat" k 63] by simp
  have sl: "slots (newIndexTable n) = 2 ^ k" using k by (simp add: newIndexTable_def slots_def Let_def)
  show "2 * n < slots (newIndexTable n)" using sl k by simp
  show c: "it_live (newIndexTable n) = 0" "it_tomb (newIndexTable n) = 0" by (simp_all add: newIndexTable_def Let_def)
  have ctrl: "it_ctrl (newIndexTable n) = replicate (2 ^ k) ctrlEmpty"
    using k by (simp add: newIndexTable_def Let_def ctrlEmpty_def)
  have none: "\<not> holds (newIndexTable n) h i" for h i by (auto simp: holds_def sl ctrl)
  have "tab_shape (newIndexTable n)" unfolding tab_shape_def
    by (rule exI [of _ k]) (use k k63 sl in \<open>simp add: newIndexTable_def Let_def\<close>)
  then show "tab_inv (newIndexTable n)" using c none by (auto simp: tab_inv_def ctrl sl)
  show "tabMap (newIndexTable n) = (\<lambda>_. None)" using none tabMap_None by (simp add: fun_eq_iff)
qed

lemma rehashInto_correct:
  assumes "tab_inv t" "tab_inv nt" "it_tomb nt = 0" "distinct is" "set is \<subseteq> {..<slots t}"
    and "it_live nt + int (length (filter (\<lambda>i. occupied (it_ctrl t ! i)) is)) < int (slots nt)"
    and "\<And>h i. holds t h i \<Longrightarrow> tabMap nt h = (if i \<in> set is then None else Some (it_refs t ! i))"
    and "\<And>h. (\<forall>i. \<not> holds t h i) \<Longrightarrow> tabMap nt h = None"
  shows "\<exists>nt'. rehashInto t nt is = Some nt' \<and> tab_inv nt' \<and> tabMap nt' = tabMap t \<and> slots nt' = slots nt \<and>
    it_tomb nt' = 0 \<and> it_live nt' \<le> it_live nt + int (length (filter (\<lambda>i. occupied (it_ctrl t ! i)) is))"
  using assms(2-)
proof (induction "is" arbitrary: nt)
  case Nil
  have "tabMap nt h = tabMap t h" for h
  proof (cases "\<exists>i. holds t h i")
    case True
    then show ?thesis using Nil(6) tabMap_holds [OF assms(1)] by auto
  qed (use Nil(7) tabMap_None [of t h] in auto)
  then show ?case using Nil by auto
next
  case (Cons i "is")
  show ?case
  proof (cases "occupied (it_ctrl t ! i)")
    case False
    have "tabMap nt h = (if j \<in> set is then None else Some (it_refs t ! j))" if "holds t h j" for h j
      using Cons(7) [OF that] that False by (auto simp: holds_def)
    then show ?thesis using Cons(1) [OF Cons(2,3)] Cons(4-6,8) False by (auto simp: occupied_def)
  next
    case True
    let ?h = "it_hashes t ! i"
    have hi: "holds t ?h i" using True Cons(5) by (simp add: holds_def)
    have room: "roomy nt" using Cons(3,6) True by (simp add: roomy_def)
    show ?thesis
    proof (rule upsert_correct [OF Cons(2) room, of ?h "it_refs t ! i"])
      fix nt1 slot ins
      assume u: "upsert ?h (it_refs t ! i) nt = Some (nt1, slot, ins)" "tab_inv nt1" "tabMap nt1 = (tabMap nt)(?h \<mapsto> it_refs t ! i)"
        "slots nt1 = slots nt" "it_live nt1 + it_tomb nt1 \<le> it_live nt + it_tomb nt + 1" "it_live nt1 \<le> it_live nt + 1"
        "it_tomb nt1 \<le> it_tomb nt" "holds nt1 ?h (unat slot)"
      have tz: "it_tomb nt1 = 0" using u(2,7) Cons(3) by (simp add: tab_inv_def)
      let ?c = "tagFor ?h OR ctrlVisited"
      define nt2 where "nt2 = (if it_ctrl t ! i AND ctrlVisited \<noteq> 0 then nt1\<lparr>it_ctrl := (it_ctrl nt1)[unat slot := ?c]\<rparr> else nt1)"
      have n2: "tab_inv nt2" "tabMap nt2 = tabMap nt1" "slots nt2 = slots nt" "it_tomb nt2 = 0" "it_live nt2 = it_live nt1"
        using mark_correct [OF u(2,8), of ?c] u(2,4) tz by (auto simp: nt2_def)
      have "tabMap nt2 h = (if j \<in> set is then None else Some (it_refs t ! j))" if h: "holds t h j" for h j
      proof (cases "h = ?h")
        case True
        then have "j = i" using holds_unique [OF assms(1) h] hi by simp
        then show ?thesis using True n2 u(3) Cons(4) by simp
      next
        case False
        then have "j \<noteq> i" using h by (auto simp: holds_def)
        then show ?thesis using Cons(7) [OF h] n2 u(3) False by simp
      qed
      moreover have "tabMap nt2 h = None" if "\<forall>i. \<not> holds t h i" for h
        using that Cons(8) [OF that] n2 u(3) hi by auto
      moreover have "rehashInto t nt (i # is) = rehashInto t nt2 is"
        using True u(1) by (auto simp: occupied_def Let_def nt2_def)
      ultimately show ?thesis using Cons(1) [OF n2(1,4)] Cons(4,5,6) True n2 u(6) by auto
    qed
  qed
qed

lemma rehashed_correct:
  assumes "tab_inv t" "it_live t < 2 ^ 60"
  obtains t' where "rehashed t = Some t'" "tab_inv t'" "tabMap t' = tabMap t" "\<not> overThreshold t'" "it_live t' \<le> it_live t"
proof -
  let ?n = "nat (it_live t)"
  have live: "it_live t = int (length (filter (\<lambda>i. occupied (it_ctrl t ! i)) [0..<slots t]))"
  proof -
    have "length (filter occupied (map ((!) (it_ctrl t)) [0..<length (it_ctrl t)])) =
        length (filter (\<lambda>i. occupied (it_ctrl t ! i)) [0..<length (it_ctrl t)])"
      by (simp add: filter_map o_def)
    then show ?thesis using assms(1) by (simp add: tab_inv_def slots_def map_nth)
  qed
  have small: "?n < 2 ^ 60" using assms(2) by (simp add: nat_less_iff live)
  note new = newIndexTable_correct [OF small]
  have "\<exists>nt'. rehashInto t (newIndexTable ?n) [0..<slots t] = Some nt' \<and> tab_inv nt' \<and> tabMap nt' = tabMap t \<and>
      slots nt' = slots (newIndexTable ?n) \<and> it_tomb nt' = 0 \<and>
      it_live nt' \<le> it_live (newIndexTable ?n) + int (length (filter (\<lambda>i. occupied (it_ctrl t ! i)) [0..<slots t]))"
  proof (rule rehashInto_correct [OF assms(1) new(1,5)])
    show "it_live (newIndexTable ?n) + int (length (filter (\<lambda>i. occupied (it_ctrl t ! i)) [0..<slots t]))
        < int (slots (newIndexTable ?n))" using new(3,4) live by linarith
  qed (auto simp: new(2) holds_def)
  then obtain nt' where nt': "rehashed t = Some nt'" "tab_inv nt'" "tabMap nt' = tabMap t"
      "slots nt' = slots (newIndexTable ?n)" "it_tomb nt' = 0" "it_live nt' \<le> it_live t"
    using new(4) live by (auto simp: rehashed_def slots_def)
  have "int (slots nt') \<ge> 2 * it_live nt' + 1" using new(3) nt'(4,6) by linarith
  moreover have "0 \<le> it_live nt'" using nt'(2) by (simp add: tab_inv_def)
  ultimately have "\<not> overThreshold nt'" using nt'(5) by (simp add: overThreshold_def slots_def)
  then show ?thesis using that nt' by blast
qed

section \<open>The index as a map\<close>

text \<open>A table between two operations: well formed, below its threshold, and with a number of operations
  still to come before the count of entries could leave the range the sizes are computed in.\<close>

definition steady :: "nat \<Rightarrow> indexTable \<Rightarrow> bool" where
  "steady n t = (tab_inv t \<and> \<not> overThreshold t \<and> it_live t + int n < 2 ^ 60)"

lemma steady_roomy: "steady n t \<Longrightarrow> tab_inv t \<and> roomy t"
proof -
  assume s: "steady n t"
  then have "tab_shape t" by (simp add: steady_def tab_inv_def)
  then have "0 < slots t" by (rule shape_facts(1))
  then show ?thesis using s by (simp add: steady_def overThreshold_def roomy_def slots_def)
qed

lemma rehashIf_correct:
  assumes "tab_inv t" "it_live t + int n < 2 ^ 60"
  obtains t' where "rehashIfOverThreshold t = Some t'" "steady n t'" "tabMap t' = tabMap t"
proof (cases "overThreshold t")
  case True
  have "it_live t < 2 ^ 60" using assms(2) by linarith
  then obtain t' where "rehashed t = Some t'" "tab_inv t'" "tabMap t' = tabMap t" "\<not> overThreshold t'" "it_live t' \<le> it_live t"
    using rehashed_correct [OF assms(1)] by blast
  then show ?thesis using that True assms(2) by (simp add: rehashIfOverThreshold_def steady_def)
next
  case False
  then show ?thesis using that assms by (simp add: rehashIfOverThreshold_def steady_def)
qed

lemma indexPut_correct:
  assumes "steady (Suc n) t"
  shows "\<exists>t'. indexPut sieve h ref t = Some t' \<and> steady n t' \<and> tabMap t' = (tabMap t)(h \<mapsto> ref)"
proof -
  have i: "tab_inv t" "roomy t" and b: "it_live t + int (Suc n) < 2 ^ 60"
    using steady_roomy [OF assms] assms by (auto simp: steady_def)
  show ?thesis
  proof (rule upsert_correct [OF i, of h ref])
    fix t1 slot ins
    assume u: "upsert h ref t = Some (t1, slot, ins)" "tab_inv t1" "tabMap t1 = (tabMap t)(h \<mapsto> ref)"
      "it_live t1 \<le> it_live t + 1" "holds t1 h (unat slot)"
    let ?t2 = "if sieve \<and> \<not> ins then setVisited slot (tagFor h) ref t1 else t1"
    have t2: "tab_inv ?t2" "tabMap ?t2 = (tabMap t)(h \<mapsto> ref)" "it_live ?t2 + int n < 2 ^ 60"
      using setVisited_correct [OF u(2,5), of ref] u b by auto
    show ?thesis
      by (rule rehashIf_correct [OF t2(1,3)]) (use u(1) t2(2) in \<open>simp add: indexPut_def\<close>)
  qed
qed

lemma findSlot_correct:
  assumes "tab_inv t" "roomy t"
  shows "\<exists>r. findSlot t h = Some r \<and> map_option snd r = tabMap t h"
    and "findSlot t h = Some (Some (slot, ref)) \<Longrightarrow> holds t h (unat slot)"
proof -
  have *: "(\<exists>r. findSlot t h = Some r \<and> map_option snd r = tabMap t h) \<and>
    (\<forall>slot ref. findSlot t h = Some (Some (slot, ref)) \<longrightarrow> holds t h (unat slot))"
  proof (cases "\<exists>i. holds t h i")
    case True
    then obtain i where i: "holds t h i" by blast
    have sh: "tab_shape t" using assms(1) by (simp add: tab_inv_def)
    have "i < 2 ^ 64" using i shape_facts(2) [OF sh] by (simp add: holds_def)
    then show ?thesis using findSlot_holds [OF assms(1) i] tabMap_holds [OF assms(1) i] i by (simp add: unat_of_nat)
  next
    case False
    then show ?thesis using findSlot_absent [OF assms] tabMap_None [of t h] by simp
  qed
  show "\<exists>r. findSlot t h = Some r \<and> map_option snd r = tabMap t h" using * by blast
  show "findSlot t h = Some (Some (slot, ref)) \<Longrightarrow> holds t h (unat slot)" using * by blast
qed

lemma indexDrop_correct:
  assumes "steady (Suc n) t"
  shows "\<exists>t'. indexDrop h t = Some t' \<and> steady n t' \<and> tabMap t' = (tabMap t)(h := None)"
proof -
  have i: "tab_inv t" "roomy t" using steady_roomy [OF assms] by auto
  obtain r where r: "findSlot t h = Some r" "map_option snd r = tabMap t h" using findSlot_correct(1) [OF i] by blast
  show ?thesis
  proof (cases r)
    case None
    then have "tabMap t h = None" using r by simp
    then have "tabMap t = (tabMap t)(h := None)" by (simp add: fun_upd_idem)
    then show ?thesis using r None assms by (auto simp: indexDrop_def steady_def)
  next
    case (Some sr)
    then obtain slot cur where sr: "findSlot t h = Some (Some (slot, cur))" using r by (cases sr) simp
    note tomb = tombstone_correct [OF i(1) findSlot_correct(2) [OF i sr]]
    have "steady n (tombstone slot t)" using assms tomb by (simp add: steady_def overThreshold_def slots_def)
    then show ?thesis using sr tomb(2) by (simp add: indexDrop_def)
  qed
qed

text \<open>A component whose operations refine abstract ones as long as its capacity lasts; running a
  sequence of them refines the sequence of abstract ones.\<close>

locale stepwise_refinement =
  fixes step :: "'o \<Rightarrow> 't \<Rightarrow> 't option" and spec :: "'o \<Rightarrow> 'a \<Rightarrow> 'a" and abs :: "'t \<Rightarrow> 'a" and left :: "nat \<Rightarrow> 't \<Rightarrow> bool"
  assumes step_refines: "left (Suc n) t \<Longrightarrow> \<exists>t'. step x t = Some t' \<and> left n t' \<and> abs t' = spec x (abs t)"
begin

lemma steps_refine: "left (length xs + n) t \<Longrightarrow> \<exists>t'. stepsOf step xs t = Some t' \<and> left n t' \<and> abs t' = fold spec xs (abs t)"
proof (induction xs arbitrary: t)
  case (Cons x xs)
  then obtain t' where t': "step x t = Some t'" "left (length xs + n) t'" "abs t' = spec x (abs t)"
    using step_refines [of "length xs + n" t x] by auto
  then show ?case using Cons(1) [OF t'(2)] by simp
qed simp

end

interpretation ix: stepwise_refinement "indexStep sieve" indexSpec tabMap steady
proof
  fix n t x
  assume "steady (Suc n) t"
  then show "\<exists>t'. indexStep sieve x t = Some t' \<and> steady n t' \<and> tabMap t' = indexSpec x (tabMap t)"
    by (cases x) (simp_all add: indexPut_correct indexDrop_correct)
qed

text \<open>(C36) The index always answers, and answers as a map: starting from a new table of any size, every
  sequence of writes and removals runs to its end (no probe circles the table without returning, since
  the rehash keeps an empty slot in it), and after it a lookup of any hash returns the reference of the
  last write to that hash, or nothing if there was none or it was removed.\<close>

theorem index_terminates_as_map:
  assumes "entries + length xs < 2 ^ 60"
  shows "\<exists>t. stepsOf (indexStep sieve) xs (newIndexTable entries) = Some t \<and>
    (\<forall>h. \<exists>r. findSlot t h = Some r \<and> map_option snd r = fold indexSpec xs (\<lambda>_. None) h)"
proof -
  have e: "entries < 2 ^ 60" using assms by simp
  note new = newIndexTable_correct [OF e]
  have "int (slots (newIndexTable entries)) > 0" using new(3) by linarith
  then have "steady (length xs + 0) (newIndexTable entries)"
    using new assms by (simp add: steady_def overThreshold_def slots_def)
  from ix.steps_refine [OF this, of sieve] obtain t where t: "stepsOf (indexStep sieve) xs (newIndexTable entries) = Some t"
    "steady 0 t" "tabMap t = fold indexSpec xs (\<lambda>_. None)" using new(2) by auto
  have "\<exists>r. findSlot t h = Some r \<and> map_option snd r = tabMap t h" for h
    using findSlot_correct(1) steady_roomy [OF t(2)] by blast
  then show ?thesis using t by auto
qed

theorem index_terminates_as_map_witness:
  "\<exists>t. stepsOf (indexStep True) [IPut 5 7, IPut 13 8, IDrop 5, IPut 13 9] (newIndexTable 0) = Some t \<and>
    (\<forall>h. \<exists>r. findSlot t h = Some r \<and>
       map_option snd r = fold indexSpec [IPut 5 7, IPut 13 8, IDrop 5, IPut 13 9] (\<lambda>_. None) h)"
  by (rule index_terminates_as_map) simp

end
