(* ===== verification/CachePage.thy ===== *)
theory CachePage
  imports CacheEntry
begin

text \<open>
  A page of a cache shard, \<^verbatim>\<open>cache/page.go\<close>: a byte slab with entries appended at its tail, kept on the
  heap or in a mapped file. A mapped page starts with a header, a projection of the bounds and the
  nonce, and its frames carry the keyed checksum of their position; a heap page's do not. Bounds are
  never negative on a 64-bit platform. The framed band of a page is a sequence of frames at their offsets
  (\<open>page_rep\<close>), and every operation is one on that sequence.
\<close>

record page =
  pg_data :: bytes
  pg_mmap :: bool
  pg_head :: nat
  pg_tail :: nat
  pg_gen :: u16
  pg_nonce :: u64
  pg_framingKey :: bytes
  pg_retired :: bool
  pg_reuseBarrierFailed :: bool
  pg_relocatedOut :: nat
  pg_preparedTail :: nat

datatype pageError = errPageFull | errPageNotOverwritable | errPageEntry entryError

definition pageHdrSize :: nat where "pageHdrSize = 16"

definition newHeapPage :: "nat \<Rightarrow> page" where
  "newHeapPage sz = \<lparr>pg_data = replicate sz 0, pg_mmap = False, pg_head = 0, pg_tail = 0, pg_gen = 0,
     pg_nonce = 0, pg_framingKey = [], pg_retired = False, pg_reuseBarrierFailed = False, pg_relocatedOut = 0,
     pg_preparedTail = 0\<rparr>"

definition newMmapPage :: "bytes \<Rightarrow> page" where
  "newMmapPage region = \<lparr>pg_data = region, pg_mmap = True, pg_head = 0, pg_tail = 0, pg_gen = 0,
     pg_nonce = 0, pg_framingKey = [], pg_retired = False, pg_reuseBarrierFailed = False, pg_relocatedOut = 0,
     pg_preparedTail = 0\<rparr>"

definition durableBounds :: "page \<Rightarrow> nat \<times> nat" where
  "durableBounds p = (if \<not> pg_mmap p then (0, 0)
     else (unat (rd_le32 (gslice 0 4 (pg_data p))), unat (rd_le32 (gslice 4 8 (pg_data p)))))"

definition projectBounds :: "nat \<Rightarrow> nat \<Rightarrow> page \<Rightarrow> page" where
  "projectBounds head tail p = (if \<not> pg_mmap p then p
     else p\<lparr>pg_data := putAt 4 (le32 (of_nat tail)) (putAt 0 (le32 (of_nat head)) (pg_data p))\<rparr>)"

definition durableNonce :: "page \<Rightarrow> u64" where
  "durableNonce p = (if \<not> pg_mmap p then 0 else rd_le64 (gslice 8 16 (pg_data p)))"

definition projectNonce :: "u64 \<Rightarrow> page \<Rightarrow> page" where
  "projectNonce nonce p = (if \<not> pg_mmap p then p else p\<lparr>pg_data := putAt 8 (le64 nonce) (pg_data p)\<rparr>)"

definition page_entries :: "page \<Rightarrow> bytes" where
  "page_entries p = (if pg_mmap p then drop pageHdrSize (pg_data p) else pg_data p)"

text \<open>A write through the entries slice.\<close>

definition setEntries :: "bytes \<Rightarrow> page \<Rightarrow> page" where
  "setEntries en p = (if pg_mmap p then p\<lparr>pg_data := take pageHdrSize (pg_data p) @ en\<rparr> else p\<lparr>pg_data := en\<rparr>)"

definition FreeTail :: "page \<Rightarrow> int" where "FreeTail p = int (length (page_entries p)) - int (pg_tail p)"

definition page_Empty :: "page \<Rightarrow> bool" where "page_Empty p = (pg_head p = pg_tail p)"

definition page_Write :: "bytes \<Rightarrow> bytes \<Rightarrow> u64 \<Rightarrow> u64 \<Rightarrow> page \<Rightarrow> pageError + page \<times> u32 \<times> u32" where
  "page_Write key value expiryMs meta p =
     (let need = entrySpan (length key) (length value) True
      in if FreeTail p < int need then Inl errPageFull
         else let tail = pg_tail p; off = of_nat tail; dst = drop tail (page_entries p)
         in case (if pg_mmap p then encodeEntry dst key value expiryMs meta (pg_framingKey p) (pg_nonce p) off
                  else encodeEntryNoCRC dst key value expiryMs meta) of
              Inl err \<Rightarrow> Inl (errPageEntry err)
            | Inr (d, n) \<Rightarrow>
                Inr ((setEntries (take tail (page_entries p) @ d) p)\<lparr>pg_tail := tail + n\<rparr>, off, of_nat n))"

definition page_WriteAt :: "u32 \<Rightarrow> bytes \<Rightarrow> bytes \<Rightarrow> u64 \<Rightarrow> u64 \<Rightarrow> page \<Rightarrow> pageError + page" where
  "page_WriteAt offset key value expiryMs meta p =
     (if pg_mmap p then Inl errPageNotOverwritable
      else let span = entrySpan (length key) (length value) True;
               exact = entrySpanExact (length key) (length value);
               off = unat offset; en = page_entries p
           in if off < pg_head p \<or> off + span > pg_tail p then Inl (errPageEntry errEntryTruncated)
              else case encodeEntryNoCRC (gslice off (off + exact) en) key value expiryMs meta of
                     Inl err \<Rightarrow> Inl (errPageEntry err)
                   | Inr (d, n) \<Rightarrow> Inr (setEntries (take off en @ d @ drop (off + exact) en) p))"

definition page_Read :: "u32 \<Rightarrow> page \<Rightarrow> entryError + bytes \<times> bytes \<times> u64" where
  "page_Read offset p =
     (if length (page_entries p) \<le> unat offset then Inl errEntryTruncated
      else decodeEntryFast (drop (unat offset) (page_entries p)))"

definition page_MetaAt :: "u32 \<Rightarrow> page \<Rightarrow> u64 option" where
  "page_MetaAt offset p =
     (if unat offset + entryHeaderSize > length (page_entries p) then None
      else Some (entryMetaAt (drop (unat offset) (page_entries p))))"

definition page_Reset :: "page \<Rightarrow> page" where
  "page_Reset p = p\<lparr>pg_head := 0, pg_tail := 0, pg_relocatedOut := 0, pg_preparedTail := 0\<rparr>"

section \<open>The framed band\<close>

text \<open>A frame: the contents of its checksum slot, and the entry.\<close>

record frame =
  fr_slot :: bytes
  fr_key :: bytes
  fr_val :: bytes
  fr_exp :: u64
  fr_meta :: u64

definition frLen :: "frame \<Rightarrow> nat" where "frLen f = entrySpanExact (length (fr_key f)) (length (fr_val f))"
definition frOk :: "frame \<Rightarrow> bool" where "frOk f = (fits (fr_key f) (fr_val f) \<and> length (fr_slot f) = 8)"
definition frBytes :: "frame \<Rightarrow> bytes" where
  "frBytes f = frameBytes (fr_slot f) (fr_key f) (fr_val f) (fr_exp f) (fr_meta f)"

fun framed :: "bytes \<Rightarrow> nat \<Rightarrow> (nat \<times> frame) list \<Rightarrow> nat \<Rightarrow> bool" where
  "framed en off [] te = (off = te)"
| "framed en off ((o1, f) # fs) te =
     (o1 = off \<and> frOk f \<and> gslice off (off + frLen f) en = frBytes f \<and> framed en (off + frLen f) fs te)"

text \<open>The checksum a page's frame at an offset must carry; heap pages carry none.\<close>

definition macOk :: "page \<Rightarrow> nat \<Rightarrow> frame \<Rightarrow> bool" where
  "macOk p off f = (pg_mmap p \<longrightarrow>
     fr_slot f = le64 (frameMAC (pg_framingKey p) (pg_nonce p) (of_nat off) (fr_key f) (fr_val f) (fr_exp f) (fr_meta f)))"

definition page_rep :: "page \<Rightarrow> (nat \<times> frame) list \<Rightarrow> bool" where
  "page_rep p fs = (framed (page_entries p) (pg_head p) fs (pg_tail p) \<and> pg_tail p \<le> length (page_entries p) \<and>
     length (page_entries p) < 2 ^ 31 \<and> (pg_mmap p \<longrightarrow> pageHdrSize \<le> length (pg_data p)) \<and>
     (\<forall>x \<in> set fs. macOk p (fst x) (snd x)))"

lemma frLen_pos: "30 \<le> frLen f"
  by (simp add: frLen_def entrySpanExact_def entryHeaderSize_def)

lemma length_frBytes [simp]: "frOk f \<Longrightarrow> length (frBytes f) = frLen f"
  by (simp add: frBytes_def frOk_def frLen_def)

lemma entries_setEntries [simp]:
  "(pg_mmap p \<Longrightarrow> pageHdrSize \<le> length (pg_data p)) \<Longrightarrow> page_entries (setEntries en p) = en"
  by (simp add: page_entries_def setEntries_def)

lemma setEntries_frame [simp]:
  "pg_mmap (setEntries en p) = pg_mmap p" "pg_head (setEntries en p) = pg_head p" "pg_tail (setEntries en p) = pg_tail p"
  "pg_gen (setEntries en p) = pg_gen p" "pg_nonce (setEntries en p) = pg_nonce p"
  "pg_framingKey (setEntries en p) = pg_framingKey p" "pg_retired (setEntries en p) = pg_retired p"
  "pg_reuseBarrierFailed (setEntries en p) = pg_reuseBarrierFailed p"
  by (simp_all add: setEntries_def)

lemma setEntries_header:
  "(pg_mmap p \<longrightarrow> pageHdrSize \<le> length (pg_data p)) \<Longrightarrow> pg_mmap p \<longrightarrow> pageHdrSize \<le> length (pg_data (setEntries en p))"
  by (simp add: setEntries_def)

lemma framed_append:
  "framed en off (xs @ ys) te \<longleftrightarrow> (\<exists>mid. framed en off xs mid \<and> framed en mid ys te)"
  by (induction en off xs te rule: framed.induct) auto

lemma framed_le: "framed en off fs te \<Longrightarrow> off \<le> te"
  by (induction en off fs te rule: framed.induct) auto

lemma framed_Nil_iff: "framed en off fs te \<Longrightarrow> fs = [] \<longleftrightarrow> te \<le> off"
proof (cases fs)
  case (Cons x xs)
  assume "framed en off fs te"
  then have "off + frLen (snd x) \<le> te" using framed_le Cons by (cases x) auto
  then show ?thesis using Cons frLen_pos [of "snd x"] by simp
qed simp

lemma framed_end: "framed en off fs te \<Longrightarrow> framed en off fs te' \<Longrightarrow> te' = te"
  by (induction en off fs te rule: framed.induct) auto

lemma framed_mem:
  assumes "framed en off fs te" "(o', f) \<in> set fs"
  shows "off \<le> o' \<and> o' + frLen f \<le> te \<and> gslice o' (o' + frLen f) en = frBytes f \<and> frOk f"
  using assms
proof (induction en off fs te rule: framed.induct)
  case (2 en off o'' g fs te)
  then show ?case using framed_le [of en "off + frLen g" fs te] by auto
qed simp

lemma framed_inj:
  assumes "framed en off fs te" "(o', f) \<in> set fs" "(o', g) \<in> set fs"
  shows "f = g"
  using assms
proof (induction en off fs te rule: framed.induct)
  case (2 en off o'' k fs te)
  have "\<not> (off, x) \<in> set fs" for x
    using framed_mem [of en "off + frLen k" fs te off x] 2(2) frLen_pos [of k] by auto
  then show ?case using 2 by auto
qed simp

lemma framed_cong: "framed en off fs te \<Longrightarrow> take te en' = take te en \<Longrightarrow> framed en' off fs te"
proof (induction en off fs te rule: framed.induct)
  case (2 en off o' f fs te)
  have le: "off + frLen f \<le> te" using framed_le 2(2) by auto
  have "gslice off (off + frLen f) xs = gslice off (off + frLen f) (take te xs)" for xs :: bytes
    using le by (simp add: gslice_def take_drop min_def)
  then have "gslice off (off + frLen f) en' = gslice off (off + frLen f) en" using 2(3) by metis
  then show ?case using 2 by simp
qed simp

lemma framed_suffix: "framed en off fs te \<Longrightarrow> drop off en' = drop off en \<Longrightarrow> framed en' off fs te"
proof (induction en off fs te rule: framed.induct)
  case (2 en off o' f fs te)
  have "drop (off + frLen f) en' = drop (off + frLen f) en"
    using arg_cong [OF 2(3), of "drop (frLen f)"] by (simp add: add.commute)
  then show ?case using 2 by (simp add: gslice_def)
qed simp

lemma slice_frame:
  assumes "gslice o' (o' + frLen f) en = frBytes f" "o' + frLen f \<le> te" "te \<le> length en"
  shows "drop o' en = frBytes f @ drop (o' + frLen f) en" "gslice o' te en = frBytes f @ gslice (o' + frLen f) te en"
proof -
  have "take (frLen f) (drop o' en) = frBytes f" using assms(1) by (simp add: gslice_def)
  then show d: "drop o' en = frBytes f @ drop (o' + frLen f) en" by (metis append_take_drop_id drop_drop add.commute)
  have l: "length (frBytes f) = frLen f" using assms by (simp add: gslice_def flip: assms(1))
  have "gslice o' te en = take (te - o') (frBytes f @ drop (o' + frLen f) en)" by (simp add: gslice_def flip: d)
  then show "gslice o' te en = frBytes f @ gslice (o' + frLen f) te en" using l assms(2) by (simp add: gslice_def)
qed

lemma decode_at:
  assumes "page_rep p fs" "(o', f) \<in> set fs"
  shows "decodeEntryFast (gslice o' (pg_tail p) (page_entries p)) = Inr (fr_key f, fr_val f, fr_exp f)"
    "page_Read (of_nat o') p = Inr (fr_key f, fr_val f, fr_exp f)" "page_MetaAt (of_nat o') p = Some (fr_meta f)"
    "pg_mmap p \<Longrightarrow> decodeEntry (gslice o' (pg_tail p) (page_entries p)) (pg_framingKey p) (pg_nonce p) (of_nat o') =
       Inr (fr_key f, fr_val f, fr_exp f, fr_meta f)"
    "frLen f = entrySpanExact (length (fr_key f)) (length (fr_val f))"
    "o' + frLen f \<le> pg_tail p" "pg_head p \<le> o'" "unat (of_nat o' :: u32) = o'" "frOk f"
proof -
  let ?en = "page_entries p"
  have m: "pg_head p \<le> o'" "o' + frLen f \<le> pg_tail p" "gslice o' (o' + frLen f) ?en = frBytes f" "frOk f"
    and le: "pg_tail p \<le> length ?en" "length ?en < 2 ^ 31"
    using assms framed_mem [of ?en "pg_head p" fs "pg_tail p" o' f] by (auto simp: page_rep_def)
  show "o' + frLen f \<le> pg_tail p" "pg_head p \<le> o'" "frOk f" using m by simp_all
  show "frLen f = entrySpanExact (length (fr_key f)) (length (fr_val f))" by (simp add: frLen_def)
  show o': "unat (of_nat o' :: u32) = o'" using m le by (simp add: unat_of_nat)
  note sl = slice_frame [OF m(3,2) le(1)]
  have ok: "fits (fr_key f) (fr_val f)" "length (fr_slot f) = 8" using m(4) by (simp_all add: frOk_def)
  note dec = decode_frame [OF ok, of "fr_exp f" "fr_meta f"]
  show "decodeEntryFast (gslice o' (pg_tail p) ?en) = Inr (fr_key f, fr_val f, fr_exp f)"
    by (simp add: sl(2) frBytes_def dec(2))
  have "o' + 30 \<le> length ?en" using m le frLen_pos [of f] by linarith
  then show "page_Read (of_nat o') p = Inr (fr_key f, fr_val f, fr_exp f)" "page_MetaAt (of_nat o') p = Some (fr_meta f)"
    using o' by (simp_all add: page_Read_def page_MetaAt_def sl(1) frBytes_def dec entryHeaderSize_def)
  assume mm: "pg_mmap p"
  have "macOk p o' f" using assms by (auto simp: page_rep_def)
  then show "decodeEntry (gslice o' (pg_tail p) ?en) (pg_framingKey p) (pg_nonce p) (of_nat o') =
       Inr (fr_key f, fr_val f, fr_exp f, fr_meta f)"
    using mm unfolding sl(2) frBytes_def dec(1) macOk_def by simp
qed

section \<open>The operations on the band\<close>

definition sameLife :: "page \<Rightarrow> page \<Rightarrow> bool" where
  "sameLife p q = (pg_mmap q = pg_mmap p \<and> pg_gen q = pg_gen p \<and> pg_nonce q = pg_nonce p \<and> pg_framingKey q = pg_framingKey p \<and>
     pg_retired q = pg_retired p \<and> pg_reuseBarrierFailed q = pg_reuseBarrierFailed p \<and>
     length (page_entries q) = length (page_entries p))"

lemma macOk_sameLife: "sameLife p q \<Longrightarrow> macOk q off f = macOk p off f"
  by (simp add: sameLife_def macOk_def)

lemma page_Write_rep:
  assumes rep: "page_rep p fs" and fit: "fits key value"
    and room: "int (entrySpanExact (length key) (length value)) \<le> FreeTail p"
  obtains p' slot where "page_Write key value e m p = Inr (p', of_nat (pg_tail p), of_nat (entrySpanExact (length key) (length value)))"
    "page_rep p' (fs @ [(pg_tail p, \<lparr>fr_slot = slot, fr_key = key, fr_val = value, fr_exp = e, fr_meta = m\<rparr>)])"
    "sameLife p p'" "pg_head p' = pg_head p" "pg_tail p' = pg_tail p + entrySpanExact (length key) (length value)"
    "pg_relocatedOut p' = pg_relocatedOut p" "pg_preparedTail p' = pg_preparedTail p"
proof -
  let ?en = "page_entries p" and ?t = "pg_tail p" and ?n = "entrySpanExact (length key) (length value)"
  let ?dst = "drop ?t ?en"
  have le: "?t \<le> length ?en" "length ?en < 2 ^ 31" and hdr: "pg_mmap p \<Longrightarrow> pageHdrSize \<le> length (pg_data p)"
    using rep by (auto simp: page_rep_def)
  have fits_dst: "?n \<le> length ?dst" using room by (simp add: FreeTail_def)
  define slot where "slot = (if pg_mmap p then le64 (frameMAC (pg_framingKey p) (pg_nonce p) (of_nat ?t) key value e m) else gslice 22 30 ?dst)"
  define f where "f = \<lparr>fr_slot = slot, fr_key = key, fr_val = value, fr_exp = e, fr_meta = m\<rparr>"
  have "30 \<le> length ?dst" using fits_dst by (simp add: entrySpanExact_def entryHeaderSize_def)
  then have sl8: "length slot = 8" by (auto simp: slot_def gslice_def)
  have f: "frOk f" "frLen f = ?n" "frBytes f = frameBytes slot key value e m"
    using fit sl8 by (simp_all add: f_def frOk_def frLen_def frBytes_def)
  let ?d = "frBytes f @ drop ?n ?dst"
  have enc: "(if pg_mmap p then encodeEntry ?dst key value e m (pg_framingKey p) (pg_nonce p) (of_nat ?t)
      else encodeEntryNoCRC ?dst key value e m) = Inr (?d, ?n)"
    using encode_layout [OF fit fits_dst] encodeHeader_layout [OF fit fits_dst] f(3)
    by (simp add: encodeEntryNoCRC_def slot_def)
  define en' where "en' = take ?t ?en @ ?d"
  define p' where "p' = (setEntries en' p)\<lparr>pg_tail := ?t + ?n\<rparr>"
  have en': "page_entries p' = en'" using hdr by (simp add: p'_def page_entries_def setEntries_def)
  have len: "length en' = length ?en" using le fits_dst length_frBytes [OF f(1)] f(2) by (simp add: en'_def del: length_frBytes)
  have W: "page_Write key value e m p = Inr (p', of_nat ?t, of_nat ?n)"
    using enc room by (simp add: page_Write_def entrySpan_def classOf_def Let_def p'_def en'_def)
  have same: "sameLife p p'" using len en' by (simp add: sameLife_def p'_def)
  have "framed en' (pg_head p) fs ?t"
    by (rule framed_cong [of ?en]) (use rep le in \<open>auto simp: page_rep_def en'_def\<close>)
  moreover have "gslice ?t (?t + frLen f) en' = frBytes f"
    using length_frBytes [OF f(1)] le by (simp add: gslice_def en'_def del: length_frBytes)
  ultimately have "framed en' (pg_head p) (fs @ [(?t, f)]) (?t + ?n)"
    unfolding framed_append using f by (intro exI [of _ ?t]) simp
  moreover have "macOk p ?t f" by (simp add: macOk_def f_def slot_def)
  moreover have "?t + ?n \<le> length en'" using le fits_dst len by simp
  ultimately have "page_rep p' (fs @ [(?t, f)])"
    using rep le len en' setEntries_header [of p en'] macOk_sameLife [OF same]
    by (auto simp: page_rep_def p'_def)
  then show ?thesis using that [OF W] same by (simp add: f_def p'_def setEntries_def)
qed

text \<open>A same-size update of a heap page's frame.\<close>

lemma page_WriteAt_rep:
  assumes rep: "page_rep p (xs @ (o', f) # ys)" and heap: "\<not> pg_mmap p"
    and same: "key = fr_key f" "length value = length (fr_val f)"
  obtains p' where "page_WriteAt (of_nat o') key value e m p = Inr p'"
    "page_rep p' (xs @ (o', f\<lparr>fr_val := value, fr_exp := e, fr_meta := m\<rparr>) # ys)"
    "sameLife p p'" "pg_head p' = pg_head p" "pg_tail p' = pg_tail p"
proof -
  let ?en = "page_entries p" and ?g = "f\<lparr>fr_val := value, fr_exp := e, fr_meta := m\<rparr>"
  let ?n = "entrySpanExact (length key) (length value)"
  have mem: "(o', f) \<in> set (xs @ (o', f) # ys)" by simp
  note at = decode_at [OF rep mem]
  have le: "pg_tail p \<le> length ?en" "length ?en < 2 ^ 31" using rep by (auto simp: page_rep_def)
  have n: "?n = frLen f" "frLen ?g = frLen f" using same by (simp_all add: frLen_def)
  have fit: "fits key value" using at(9) same by (simp add: frOk_def fits_def)
  have sl: "gslice o' (o' + ?n) ?en = frBytes f"
    using rep framed_mem [of ?en "pg_head p" _ "pg_tail p" o' f] n by (auto simp: page_rep_def)
  have dst: "?n \<le> length (gslice o' (o' + ?n) ?en)" using sl at(9) n by simp
  have slot: "gslice 22 30 (gslice o' (o' + ?n) ?en) = fr_slot f"
    using frame_slices(2) [of "fr_slot f" "fr_key f" "fr_val f" "fr_exp f" "fr_meta f" "[]"] at(9)
    unfolding sl by (simp add: frBytes_def frOk_def)
  have gb: "frBytes ?g = frameBytes (fr_slot f) key value e m" using same by (simp add: frBytes_def)
  have gok: "frOk ?g" using at(9) fit same by (simp add: frOk_def)
  have enc: "encodeEntryNoCRC (gslice o' (o' + ?n) ?en) key value e m = Inr (frBytes ?g, ?n)"
    using encodeHeader_layout [OF fit dst] slot sl at(9) n gb by (simp add: encodeEntryNoCRC_def)
  define en' where "en' = take o' ?en @ frBytes ?g @ drop (o' + ?n) ?en"
  define p' where "p' = setEntries en' p"
  have en'p: "page_entries p' = en'" using heap by (simp add: p'_def page_entries_def setEntries_def)
  have lb: "length (frBytes ?g) = ?n" using length_frBytes [OF gok] n by simp
  have in_en: "o' + ?n \<le> length ?en" "o' \<le> length ?en" using at(6) le n by linarith+
  have len: "length en' = length ?en" using in_en lb by (simp add: en'_def)
  have W: "page_WriteAt (of_nat o') key value e m p = Inr p'"
    using heap at(6-8) n enc by (simp add: page_WriteAt_def entrySpan_def classOf_def Let_def p'_def en'_def)
  have life: "sameLife p p'" using en'p len by (simp add: sameLife_def p'_def)
  obtain mid where mid: "framed ?en (pg_head p) xs mid" "framed ?en mid ((o', f) # ys) (pg_tail p)"
    using rep unfolding page_rep_def framed_append by blast
  have mo: "mid = o'" using mid(2) by simp
  have a: "framed en' (pg_head p) xs o'"
    by (rule framed_cong [of ?en]) (use mid(1) mo in_en in \<open>simp_all add: en'_def\<close>)
  have tail_same: "drop (o' + ?n) en' = drop (o' + ?n) ?en" using in_en lb by (simp add: en'_def)
  have b: "framed en' (o' + ?n) ys (pg_tail p)"
    by (rule framed_suffix [of ?en]) (use mid(2) mo n tail_same in simp_all)
  have c: "gslice o' (o' + frLen ?g) en' = frBytes ?g" using in_en lb n by (simp add: gslice_def en'_def)
  have "framed en' (pg_head p) (xs @ (o', ?g) # ys) (pg_tail p)"
    unfolding framed_append using a b c gok n by (intro exI [of _ o']) simp
  then have "page_rep p' (xs @ (o', ?g) # ys)"
    using rep en'p len heap by (auto simp: page_rep_def p'_def macOk_def)
  then show ?thesis using that [OF W] life by (simp add: p'_def)
qed

lemma page_rep_empty:
  "pg_head p = pg_tail p \<Longrightarrow> pg_tail p \<le> length (page_entries p) \<Longrightarrow> length (page_entries p) < 2 ^ 31 \<Longrightarrow>
   (pg_mmap p \<longrightarrow> pageHdrSize \<le> length (pg_data p)) \<Longrightarrow> page_rep p []"
  by (simp add: page_rep_def)

lemma page_rep_Nil: "page_rep p [] \<Longrightarrow> pg_head p = pg_tail p"
  by (simp add: page_rep_def)

lemma page_rep_Empty: "page_rep p fs \<Longrightarrow> page_Empty p \<longleftrightarrow> fs = []"
  using framed_Nil_iff framed_le by (fastforce simp: page_rep_def page_Empty_def)

text \<open>Moving the head over the first frame; the page is put back to its start when that was the last.\<close>

lemma page_rep_advance:
  assumes "page_rep p ((o', f) # fs)"
  shows "o' = pg_head p" "pg_head p + frLen f \<le> pg_tail p"
    "fs = [] \<longleftrightarrow> pg_tail p \<le> pg_head p + frLen f"
    "fs \<noteq> [] \<Longrightarrow> page_rep (p\<lparr>pg_head := pg_head p + frLen f\<rparr>) fs"
    "fs = [] \<Longrightarrow> page_rep (p\<lparr>pg_head := 0, pg_tail := 0\<rparr>) fs"
proof -
  have en [simp]: "page_entries (p\<lparr>pg_head := a\<rparr>) = page_entries p" "page_entries (p\<lparr>pg_head := a, pg_tail := b\<rparr>) = page_entries p" for a b
    by (simp_all add: page_entries_def)
  have fr: "o' = pg_head p" "framed (page_entries p) (pg_head p + frLen f) fs (pg_tail p)"
    using assms by (auto simp: page_rep_def)
  then show "o' = pg_head p" "pg_head p + frLen f \<le> pg_tail p" using framed_le by auto
  show "fs = [] \<longleftrightarrow> pg_tail p \<le> pg_head p + frLen f"
    using framed_Nil_iff [OF fr(2)] .
  show "fs \<noteq> [] \<Longrightarrow> page_rep (p\<lparr>pg_head := pg_head p + frLen f\<rparr>) fs"
    using assms fr by (auto simp: page_rep_def macOk_def)
  show "fs = [] \<Longrightarrow> page_rep (p\<lparr>pg_head := 0, pg_tail := 0\<rparr>) fs"
    using assms by (auto simp: page_rep_def)
qed

end
