(* ===== verification/CacheShard.thy ===== *)
theory CacheShard
  imports IndexTable CachePage
begin

text \<open>
  A shard of the page cache, \<^verbatim>\<open>cache/shard.go\<close>: pages of entries, the index over them, and the writer's
  operations, each under the shard's lock: lookup, put with the same-size update, delete with its durable
  record, the choice of a page, both forms of eviction with relocation (\<^verbatim>\<open>cache/relocate_evict.go\<close>), the
  sweep, the flush (\<^verbatim>\<open>cache/flush.go\<close>) and the warm restart from the page bytes.

  An operation returns \<^const>\<open>None\<close> when it does not return: a loop never ends, or an index is out of
  range (a panic). Counters and logging are left out; the keys
  reported to the removal hook are kept in order. The hash of a key, the clock, the random nonces and
  the outcomes of flushing a page header come from the environment.
\<close>

datatype AtCapPolicy = PolicyRingbufEvict | PolicyRejectWrites | PolicyInvalid

record cacheCfg =
  cc_PageSize :: nat
  cc_MaxMemoryPerShard :: nat
  cc_InitialPagesPerShard :: nat
  cc_AtCapPolicy :: AtCapPolicy
  cc_Replicated :: bool
  cc_InPlaceSameSizeUpdate :: bool
  cc_RelocatingEviction :: bool
  cc_SieveVisitedBit :: bool

definition MaxPagesPerShard :: "cacheCfg \<Rightarrow> nat" where
  "MaxPagesPerShard c = cc_MaxMemoryPerShard c div cc_PageSize c"

text \<open>The checks of \<open>Config.Validate\<close> on these fields.\<close>

definition maxPagesPerShardCap :: nat where "maxPagesPerShardCap = 65535"

definition Config_Validate :: "cacheCfg \<Rightarrow> bool" where
  "Config_Validate c =
     (\<not> cc_PageSize c < 2 ^ 20 \<and> \<not> cc_PageSize c > 2 ^ 30 \<and> \<not> cc_MaxMemoryPerShard c < cc_PageSize c \<and>
      \<not> cc_InitialPagesPerShard c > MaxPagesPerShard c \<and> \<not> MaxPagesPerShard c > maxPagesPerShardCap \<and>
      (case cc_AtCapPolicy c of PolicyRingbufEvict \<Rightarrow> True | PolicyRejectWrites \<Rightarrow> True | PolicyInvalid \<Rightarrow> False))"

record shard =
  sh_cfg :: cacheCfg
  sh_isMmap :: bool
  sh_pages :: "page list"
  sh_tab :: indexTable
  sh_writeIdx :: nat
  sh_nextVictim :: nat
  sh_writeSeq :: u64
  sh_genCounter :: u16
  sh_sieve :: bool
  sh_framingKey :: bytes
  sh_lastAppliedStampMs :: u64
  sh_flushedThroughSeq :: u64
  sh_removed :: "bytes list"
  sh_barriers :: nat

text \<open>\<open>ce_nonce\<close> and \<open>ce_msync\<close> are the outcomes of the successive random draws and header flushes.\<close>

record cacheEnv =
  ce_hash :: "bytes \<Rightarrow> u64"
  ce_now :: u64
  ce_nonce :: "nat \<Rightarrow> u64 option"
  ce_msync :: "nat \<Rightarrow> bool"

datatype cacheError =
    ErrNotFound | ErrFull | ErrCannotEvict | ErrEntryTooLarge | ErrUnknownPolicy | ErrReuseBarrier
  | ErrFlushNotDurable | ErrPage pageError

definition setPage :: "nat \<Rightarrow> page \<Rightarrow> shard \<Rightarrow> shard" where
  "setPage idx p s = s\<lparr>sh_pages := (sh_pages s)[idx := p]\<rparr>"

definition fireOnRemove :: "bytes \<Rightarrow> shard \<Rightarrow> shard" where
  "fireOnRemove key s = s\<lparr>sh_removed := sh_removed s @ [key]\<rparr>"

definition sieveVisited :: "cacheCfg \<Rightarrow> bool" where
  "sieveVisited c = (cc_SieveVisitedBit c \<and> cc_RelocatingEviction c \<and> cc_AtCapPolicy c = PolicyRingbufEvict)"

section \<open>Pages\<close>

definition freshHeapPageLocked :: "shard \<Rightarrow> page \<times> shard" where
  "freshHeapPageLocked s =
     ((newHeapPage (cc_PageSize (sh_cfg s)))\<lparr>pg_gen := sh_genCounter s\<rparr>, s\<lparr>sh_genCounter := sh_genCounter s + 1\<rparr>)"

definition allocHeapPageLocked :: "shard \<Rightarrow> nat \<times> shard" where
  "allocHeapPageLocked s =
     (case freshHeapPageLocked s of (p, s1) \<Rightarrow> (length (sh_pages s1), s1\<lparr>sh_pages := sh_pages s1 @ [p]\<rparr>))"

fun allocHeapPages :: "nat \<Rightarrow> shard \<Rightarrow> shard" where
  "allocHeapPages 0 s = s"
| "allocHeapPages (Suc n) s = allocHeapPages n (snd (allocHeapPageLocked s))"

definition newHeapShard :: "cacheCfg \<Rightarrow> shard" where
  "newHeapShard cfg =
     (let s = allocHeapPages (cc_InitialPagesPerShard cfg)
        \<lparr>sh_cfg = cfg, sh_isMmap = False, sh_pages = [], sh_tab = newIndexTable 0, sh_writeIdx = 0, sh_nextVictim = 0,
         sh_writeSeq = 0, sh_genCounter = 0, sh_sieve = sieveVisited cfg, sh_framingKey = [],
         sh_lastAppliedStampMs = 0, sh_flushedThroughSeq = 0, sh_removed = [], sh_barriers = 0\<rparr>
      in if sh_pages s = [] then s else s\<lparr>sh_writeIdx := length (sh_pages s) - 1\<rparr>)"

definition maxEntryBytes :: "shard \<Rightarrow> nat" where
  "maxEntryBytes s = (if sh_isMmap s then cc_PageSize (sh_cfg s) - pageHdrSize else cc_PageSize (sh_cfg s))"

text \<open>The barrier before an extent is used again; the result says whether it reached the disk.\<close>

definition zeroDurableBoundsForReuseLocked :: "cacheEnv \<Rightarrow> nat \<Rightarrow> shard \<Rightarrow> shard \<times> bool" where
  "zeroDurableBoundsForReuseLocked env idx s =
     (if \<not> sh_isMmap s then (s, True)
      else let k = sh_barriers s; s1 = s\<lparr>sh_barriers := k + 1\<rparr>
           in case ce_nonce env k of
                None \<Rightarrow> (s1, False)
              | Some n \<Rightarrow>
                  let p = sh_pages s ! idx
                  in (setPage idx (projectBounds 0 0 (projectNonce n (p\<lparr>pg_nonce := n\<rparr>))) s1, ce_msync env k))"

definition clearReuseBarrierIfFlushableLocked :: "cacheEnv \<Rightarrow> nat \<Rightarrow> shard \<Rightarrow> shard \<times> bool" where
  "clearReuseBarrierIfFlushableLocked env idx s =
     (case zeroDurableBoundsForReuseLocked env idx s of
        (s1, False) \<Rightarrow> (s1, False)
      | (s1, True) \<Rightarrow> (setPage idx ((sh_pages s1 ! idx)\<lparr>pg_reuseBarrierFailed := False\<rparr>) s1, True))"

fun firstRoomFrom :: "cacheEnv \<Rightarrow> nat list \<Rightarrow> nat \<Rightarrow> shard \<Rightarrow> shard \<times> nat option" where
  "firstRoomFrom env [] need s = (s, None)"
| "firstRoomFrom env (i # is) need s =
     (let p = sh_pages s ! i
      in if pg_retired p then firstRoomFrom env is need s
         else if FreeTail p < int need then firstRoomFrom env is need s
         else if pg_reuseBarrierFailed p
         then (case clearReuseBarrierIfFlushableLocked env i s of
                 (s1, True) \<Rightarrow> (s1, Some i)
               | (s1, False) \<Rightarrow> firstRoomFrom env is need s1)
         else (s, Some i))"

definition firstPageWithRoomLocked :: "cacheEnv \<Rightarrow> nat \<Rightarrow> shard \<Rightarrow> shard \<times> nat option" where
  "firstPageWithRoomLocked env need s = firstRoomFrom env [0..<length (sh_pages s)] need s"

definition nextNonEmptyPageLocked :: "nat option \<Rightarrow> shard \<Rightarrow> nat option" where
  "nextNonEmptyPageLocked skip s =
     (let n = length (sh_pages s)
      in List.find (\<lambda>i. skip \<noteq> Some i \<and> \<not> page_Empty (sh_pages s ! i))
           (map (\<lambda>off. (sh_nextVictim s + off) mod n) [0..<n]))"

section \<open>Eviction\<close>

text \<open>The guard of both eviction walks: the index slot goes only if it still points at this copy.\<close>

definition dropIfCurrent :: "cacheEnv \<Rightarrow> bytes \<Rightarrow> u64 \<Rightarrow> shard \<Rightarrow> shard option" where
  "dropIfCurrent env key ref s =
     (case findSlot (sh_tab s) (ce_hash env key) of
        None \<Rightarrow> None
      | Some None \<Rightarrow> Some s
      | Some (Some (slot, cur)) \<Rightarrow>
          Some (if cur = ref then fireOnRemove key (s\<lparr>sh_tab := tombstone slot (sh_tab s)\<rparr>) else s))"

function retireWalk :: "cacheEnv \<Rightarrow> nat \<Rightarrow> u16 \<Rightarrow> bytes \<Rightarrow> nat \<Rightarrow> nat \<Rightarrow> shard \<Rightarrow> shard option" where
  "retireWalk env idx gen en tail cursor s =
     (if cursor < tail then
        (case decodeEntryFast (gslice cursor tail en) of
           Inl err \<Rightarrow> Some s
         | Inr (key, value, expiryMs) \<Rightarrow>
             (case dropIfCurrent env key (makeSlabRef (of_nat idx) gen (of_nat cursor)) s of
                None \<Rightarrow> None
              | Some s1 \<Rightarrow> retireWalk env idx gen en tail (cursor + entrySpan (length key) (length value) True) s1))
      else Some s)"
  by pat_completeness auto
termination
  by (relation "measure (\<lambda>(env, idx, gen, en, tail, cursor, s). tail - cursor)")
    (auto simp: entrySpan_def entrySpanExact_def entryHeaderSize_def)

declare retireWalk.simps [simp del]

definition retirePageLocked :: "cacheEnv \<Rightarrow> nat \<Rightarrow> shard \<Rightarrow> shard option" where
  "retirePageLocked env idx s =
     (let old = sh_pages s ! idx
      in case retireWalk env idx (pg_gen old) (page_entries old) (pg_tail old) (pg_head old) s of
           None \<Rightarrow> None
         | Some s1 \<Rightarrow> (case freshHeapPageLocked s1 of (fresh, s2) \<Rightarrow> Some (setPage idx fresh s2)))"

text \<open>\<open>resyncForward\<close> searches for the next offset whose frame verifies, within a budget of hashed bytes.\<close>

function resyncFrom :: "bytes \<Rightarrow> bytes \<Rightarrow> u64 \<Rightarrow> nat \<Rightarrow> nat \<Rightarrow> nat \<Rightarrow> nat \<Rightarrow> nat \<times> bool" where
  "resyncFrom en framingKey nonce tail budget hashed c =
     (if c < tail then
        (if c + entryHeaderSize > tail then resyncFrom en framingKey nonce tail budget hashed (c + 1)
         else let keyLen = unat (rd_le16 (gslice c (c + 2) en)); valLen = unat (rd_le32 (gslice (c + 2) (c + 6) en))
              in if int valLen > int tail - int c - int entryHeaderSize - int keyLen
                 then resyncFrom en framingKey nonce tail budget hashed (c + 1)
                 else let hashed = hashed + entryHeaderSize + keyLen + valLen
                      in if hashed > budget then (tail, False)
                         else case decodeEntry (gslice c tail en) framingKey nonce (of_nat c) of
                                Inr e \<Rightarrow> (c, True)
                              | Inl err \<Rightarrow> resyncFrom en framingKey nonce tail budget hashed (c + 1))
      else (tail, False))"
  by pat_completeness auto
termination
  by (relation "measure (\<lambda>(en, framingKey, nonce, tail, budget, hashed, c). tail - c)") auto

declare resyncFrom.simps [simp del]

definition resyncForward :: "bytes \<Rightarrow> nat \<Rightarrow> nat \<Rightarrow> bytes \<Rightarrow> u64 \<Rightarrow> nat \<times> bool" where
  "resyncForward en start tail framingKey nonce = resyncFrom en framingKey nonce tail (2 * length en) 0 start"

text \<open>Dropping index slots by what they point at.\<close>

definition dropDamagedStep :: "nat \<Rightarrow> u16 \<Rightarrow> u32 \<Rightarrow> u32 \<Rightarrow> nat \<Rightarrow> shard \<Rightarrow> shard" where
  "dropDamagedStep victim gen lo hi i s =
     (let t = sh_tab s; c = it_ctrl t ! i
      in if c = ctrlEmpty \<or> c = ctrlTombstone then s
         else let ref = it_refs t ! i
              in if unat (ref_pageIdx ref) \<noteq> victim \<or> ref_gen ref \<noteq> gen then s
                 else if ref_offset ref < lo \<or> hi \<le> ref_offset ref then s
                 else s\<lparr>sh_tab := tombstone (of_nat i) t\<rparr>)"

definition dropDamagedSlotsLocked :: "nat \<Rightarrow> u16 \<Rightarrow> u32 \<Rightarrow> u32 \<Rightarrow> shard \<Rightarrow> shard" where
  "dropDamagedSlotsLocked victim gen lo hi s = fold (dropDamagedStep victim gen lo hi) [0..<length (it_ctrl (sh_tab s))] s"

definition discardStep :: "cacheEnv \<Rightarrow> nat \<Rightarrow> page \<Rightarrow> nat \<Rightarrow> shard \<Rightarrow> shard" where
  "discardStep env victim p i s =
     (let t = sh_tab s; c = it_ctrl t ! i
      in if c = ctrlEmpty \<or> c = ctrlTombstone then s
         else let ref = it_refs t ! i
              in if unat (ref_pageIdx ref) \<noteq> victim \<or> ref_gen ref \<noteq> pg_gen p then s
                 else let s1 = s\<lparr>sh_tab := tombstone (of_nat i) t\<rparr>
                      in case page_Read (ref_offset ref) p of
                           Inl err \<Rightarrow> s1
                         | Inr (key, value, exp) \<Rightarrow> if ce_hash env key \<noteq> it_hashes t ! i then s1 else fireOnRemove key s1)"

definition discardCorruptPageLocked :: "cacheEnv \<Rightarrow> nat \<Rightarrow> shard \<Rightarrow> shard \<times> bool" where
  "discardCorruptPageLocked env victim s =
     (let p = sh_pages s ! victim;
          s1 = fold (discardStep env victim p) [0..<length (it_ctrl (sh_tab s))] s;
          s2 = setPage victim (page_Reset p) s1
      in case zeroDurableBoundsForReuseLocked env victim s2 of
           (s3, True) \<Rightarrow> (s3, True)
         | (s3, False) \<Rightarrow> (setPage victim ((sh_pages s3 ! victim)\<lparr>pg_reuseBarrierFailed := True\<rparr>) s3, False))"

text \<open>The drain loop; it leaves with an outcome of its own only through a page it cannot walk.\<close>

partial_function (option) drainLoop :: "cacheEnv \<Rightarrow> nat \<Rightarrow> shard \<Rightarrow> (shard \<times> bool option) option" where
  "drainLoop env victim s =
     (let p = sh_pages s ! victim
      in if page_Empty p then Some (s, None)
         else if pg_tail p < pg_head p \<or> pg_tail p > length (page_entries p)
         then (case discardCorruptPageLocked env victim s of (s1, ok) \<Rightarrow> Some (s1, Some ok))
         else let head = pg_head p; tail = pg_tail p; en = page_entries p
         in case decodeEntry (gslice head tail en) (pg_framingKey p) (pg_nonce p) (of_nat head) of
              Inl err \<Rightarrow>
                (let resumeAt = fst (resyncForward en (head + 1) tail (pg_framingKey p) (pg_nonce p));
                     s1 = dropDamagedSlotsLocked victim (pg_gen p) (of_nat head) (of_nat resumeAt) s;
                     p1 = (if resumeAt \<ge> tail then p\<lparr>pg_head := 0, pg_tail := 0\<rparr> else p\<lparr>pg_head := resumeAt\<rparr>)
                 in drainLoop env victim (setPage victim p1 s1))
            | Inr (key, value, expiryMs, meta) \<Rightarrow>
                (let newHead = head + entrySpanExact (length key) (length value);
                     p1 = (if newHead \<ge> tail then p\<lparr>pg_head := 0, pg_tail := 0\<rparr> else p\<lparr>pg_head := newHead\<rparr>)
                 in case dropIfCurrent env key (makeSlabRef (of_nat victim) (pg_gen p) (of_nat head)) s of
                      None \<Rightarrow> None
                    | Some s1 \<Rightarrow> drainLoop env victim (setPage victim p1 s1)))"

definition drainPageLocked :: "cacheEnv \<Rightarrow> nat \<Rightarrow> shard \<Rightarrow> (shard \<times> bool) option" where
  "drainPageLocked env victim s =
     (case drainLoop env victim s of
        None \<Rightarrow> None
      | Some (s1, Some ok) \<Rightarrow> Some (s1, ok)
      | Some (s1, None) \<Rightarrow>
          (case zeroDurableBoundsForReuseLocked env victim s1 of
             (s2, True) \<Rightarrow> Some (s2, True)
           | (s2, False) \<Rightarrow> Some (setPage victim ((sh_pages s2 ! victim)\<lparr>pg_reuseBarrierFailed := True\<rparr>) s2, False)))"

text \<open>Relocation into the page just freed: the walk over the page the next eviction will take, with
  the bytes spent so far; it returns the bytes moved.\<close>

definition relocateMaxBytesPerEvictionDivisor :: nat where "relocateMaxBytesPerEvictionDivisor = 2"

definition relocateEntry :: "cacheEnv \<Rightarrow> nat \<Rightarrow> int \<Rightarrow> nat \<Rightarrow> bytes \<Rightarrow> bytes \<Rightarrow> u64 \<Rightarrow> u64 \<Rightarrow> shard \<Rightarrow> (shard \<times> bool option) option" where
  "relocateEntry env freedIdx budget spent key value expiryMs ref s =
     (let h = ce_hash env key; size = entrySpan (length key) (length value) True; t = sh_tab s
      in case findSlot t h of
           None \<Rightarrow> None
         | Some None \<Rightarrow> Some (s, Some False)
         | Some (Some (slot, cur)) \<Rightarrow>
             if cur \<noteq> ref then Some (s, Some False)
             else if isExpired expiryMs (ce_now env) then Some (s, Some False)
             else let (t1, taken) = (if sh_sieve s then takeVisited slot (tagFor h) t else (t, True));
                      s1 = s\<lparr>sh_tab := t1\<rparr>
                  in if \<not> taken then Some (s1, Some False)
                     else if int (spent + size) > budget then Some (s1, Some False)
                     else let newSeq = sh_writeSeq s + 1; dst = sh_pages s1 ! freedIdx
                     in case page_Write key value expiryMs (makeMeta newSeq False) dst of
                          Inl err \<Rightarrow> Some (s1, None)
                        | Inr (dst1, off, n) \<Rightarrow>
                            (case upsert h (makeSlabRef (of_nat freedIdx) (pg_gen dst1) off) t1 of
                               None \<Rightarrow> None
                             | Some (t2, slot2, inserted) \<Rightarrow>
                                 Some ((setPage freedIdx dst1 s1)\<lparr>sh_writeSeq := newSeq, sh_tab := t2\<rparr>, Some True)))"

function relocateWalk :: "cacheEnv \<Rightarrow> nat \<Rightarrow> nat \<Rightarrow> u16 \<Rightarrow> bytes \<Rightarrow> nat \<Rightarrow> int \<Rightarrow> nat \<Rightarrow> nat \<Rightarrow> shard \<Rightarrow> (shard \<times> nat) option" where
  "relocateWalk env src freedIdx gen en tail budget cursor spent s =
     (if cursor < tail then
        (case decodeEntryFast (gslice cursor tail en) of
           Inl err \<Rightarrow> Some (s, spent)
         | Inr (key, value, expiryMs) \<Rightarrow>
             let size = entrySpan (length key) (length value) True
             in if budget - int spent < int entryHeaderSize then Some (s, spent)
                else case relocateEntry env freedIdx budget spent key value expiryMs
                       (makeSlabRef (of_nat src) gen (of_nat cursor)) s of
                  None \<Rightarrow> None
                | Some (s1, None) \<Rightarrow> Some (s1, spent)
                | Some (s1, Some moved) \<Rightarrow>
                    relocateWalk env src freedIdx gen en tail budget (cursor + size) (if moved then spent + size else spent) s1)
      else Some (s, spent))"
  by pat_completeness auto
termination
  by (relation "measure (\<lambda>(env, src, freedIdx, gen, en, tail, budget, cursor, spent, s). tail - cursor)")
    (auto simp: entrySpan_def entrySpanExact_def entryHeaderSize_def)

declare relocateWalk.simps [simp del]

definition relocateIntoFreedPageLocked :: "cacheEnv \<Rightarrow> nat \<Rightarrow> nat \<Rightarrow> shard \<Rightarrow> shard option" where
  "relocateIntoFreedPageLocked env freedIdx need s =
     (let room = FreeTail (sh_pages s ! freedIdx) - int need;
          budget = min room (int (cc_PageSize (sh_cfg s) div relocateMaxBytesPerEvictionDivisor))
      in if budget \<le> 0 then Some s
         else case nextNonEmptyPageLocked (Some freedIdx) s of
                None \<Rightarrow> Some s
              | Some src \<Rightarrow>
                  let p = sh_pages s ! src
                  in case relocateWalk env src freedIdx (pg_gen p) (page_entries p) (pg_tail p) budget (pg_head p) 0 s of
                       None \<Rightarrow> None
                     | Some (s1, movedBytes) \<Rightarrow>
                         let p1 = sh_pages s1 ! src
                         in Some (setPage src (p1\<lparr>pg_relocatedOut := pg_relocatedOut p1 + movedBytes\<rparr>) s1))"

definition evictVictimLocked :: "cacheEnv \<Rightarrow> nat \<Rightarrow> nat \<Rightarrow> shard \<Rightarrow> (shard \<times> bool) option" where
  "evictVictimLocked env victim need s =
     (let relocate = (\<lambda>s1. if cc_RelocatingEviction (sh_cfg s1)
            then map_option (\<lambda>s2. (s2, True)) (relocateIntoFreedPageLocked env victim need s1) else Some (s1, True))
      in if \<not> sh_isMmap s
         then (case retirePageLocked env victim s of None \<Rightarrow> None | Some s1 \<Rightarrow> relocate s1)
         else (case drainPageLocked env victim s of
                 None \<Rightarrow> None
               | Some (s1, False) \<Rightarrow> Some (s1, False)
               | Some (s1, True) \<Rightarrow> relocate s1))"

partial_function (option) evictUntilFitsLocked :: "cacheEnv \<Rightarrow> nat \<Rightarrow> shard \<Rightarrow> (shard \<times> (cacheError + nat)) option" where
  "evictUntilFitsLocked env need s =
     (case firstPageWithRoomLocked env need s of
        (s1, Some idx) \<Rightarrow> Some (s1, Inr idx)
      | (s1, None) \<Rightarrow>
          (case nextNonEmptyPageLocked None s1 of
             None \<Rightarrow> Some (s1, Inl ErrCannotEvict)
           | Some victim \<Rightarrow>
               (case evictVictimLocked env victim need (s1\<lparr>sh_nextVictim := (victim + 1) mod length (sh_pages s1)\<rparr>) of
                  None \<Rightarrow> None
                | Some (s2, ok) \<Rightarrow> if ok then evictUntilFitsLocked env need s2 else Some (s2, Inl ErrReuseBarrier))))"

definition findOrMakePageLocked :: "cacheEnv \<Rightarrow> nat \<Rightarrow> shard \<Rightarrow> (shard \<times> (cacheError + nat)) option" where
  "findOrMakePageLocked env need s =
     (if need > maxEntryBytes s then Some (s, Inl ErrEntryTooLarge)
      else let wi = sh_writeIdx s
      in if wi < length (sh_pages s) \<and> \<not> pg_reuseBarrierFailed (sh_pages s ! wi) \<and> FreeTail (sh_pages s ! wi) \<ge> int need
         then Some (s, Inr wi)
         else case firstPageWithRoomLocked env need s of
                (s1, Some idx) \<Rightarrow> Some (s1\<lparr>sh_writeIdx := idx\<rparr>, Inr idx)
              | (s1, None) \<Rightarrow>
                  if \<not> sh_isMmap s1 \<and> length (sh_pages s1) < MaxPagesPerShard (sh_cfg s1)
                  then (case allocHeapPageLocked s1 of (idx, s2) \<Rightarrow>
                          if FreeTail (sh_pages s2 ! idx) < int need then Some (s2, Inl ErrEntryTooLarge)
                          else Some (s2\<lparr>sh_writeIdx := idx\<rparr>, Inr idx))
                  else case cc_AtCapPolicy (sh_cfg s1) of
                         PolicyRingbufEvict \<Rightarrow>
                           (case evictUntilFitsLocked env need s1 of
                              None \<Rightarrow> None
                            | Some (s2, Inl err) \<Rightarrow> Some (s2, Inl err)
                            | Some (s2, Inr idx) \<Rightarrow> Some (s2\<lparr>sh_writeIdx := idx\<rparr>, Inr idx))
                       | PolicyRejectWrites \<Rightarrow> Some (s1, Inl ErrFull)
                       | PolicyInvalid \<Rightarrow> Some (s1, Inl ErrUnknownPolicy))"

section \<open>Lookup\<close>

datatype lookupStatus = lkMiss | lkCorrupt | lkHit bytes u64 u64

text \<open>The probe of a lookup compares the stored key, not the hash. Under the lock, a reference whose page
  generation does not match cannot have moved meanwhile, and the probe goes on.\<close>

fun probeFrom :: "nat \<Rightarrow> shard \<Rightarrow> bytes \<Rightarrow> u64 \<Rightarrow> u64 \<Rightarrow> (shard \<times> lookupStatus) option" where
  "probeFrom 0 s key h i = None"
| "probeFrom (Suc n) s key h i =
     (let t = sh_tab s; c = it_ctrl t ! unat i; next = (i + 1) AND it_mask t
      in if c = ctrlEmpty then Some (s, lkMiss)
         else if c AND ctrlTagMask \<noteq> tagFor h then probeFrom n s key h next
         else let r = it_refs t ! unat i; idx = unat (ref_pageIdx r)
         in if idx \<ge> MaxPagesPerShard (sh_cfg s) then None
            else if idx \<ge> length (sh_pages s) \<or> pg_gen (sh_pages s ! idx) \<noteq> ref_gen r then probeFrom n s key h next
            else case page_Read (ref_offset r) (sh_pages s ! idx) of
                   Inl err \<Rightarrow> Some (s, lkCorrupt)
                 | Inr (k, val, e) \<Rightarrow>
                     if k \<noteq> key then probeFrom n s key h next
                     else Some (if sh_sieve s then s\<lparr>sh_tab := setVisited i (tagFor h) r t\<rparr> else s, lkHit val e r))"

definition index_get :: "shard \<Rightarrow> bytes \<Rightarrow> u64 \<Rightarrow> (shard \<times> lookupStatus) option" where
  "index_get s key h = probeFrom (length (it_ctrl (sh_tab s))) s key h (h AND it_mask (sh_tab s))"

definition dropExpiredLocked :: "bytes \<Rightarrow> u64 \<Rightarrow> u64 \<Rightarrow> u64 \<Rightarrow> shard \<Rightarrow> shard option" where
  "dropExpiredLocked key h ref now s =
     (case findSlot (sh_tab s) h of
        None \<Rightarrow> None
      | Some None \<Rightarrow> Some s
      | Some (Some (slot, cur)) \<Rightarrow>
          if cur \<noteq> ref then Some s
          else let idx = unat (ref_pageIdx cur)
          in if idx \<ge> length (sh_pages s) then Some s
             else let p = sh_pages s ! idx
             in if pg_gen p \<noteq> ref_gen cur then Some s
                else case page_Read (ref_offset cur) p of
                       Inl err \<Rightarrow> Some s
                     | Inr (storedKey, value, storedExp) \<Rightarrow>
                         if storedKey \<noteq> key \<or> \<not> isExpired storedExp now then Some s
                         else Some (fireOnRemove key (s\<lparr>sh_tab := tombstone slot (sh_tab s)\<rparr>)))"

definition getCore :: "bytes \<Rightarrow> u64 \<Rightarrow> u64 \<Rightarrow> bool \<Rightarrow> shard \<Rightarrow> (shard \<times> (cacheError + bytes \<times> u64)) option" where
  "getCore key h now allowPhysicalRemove s =
     (case index_get s key h of
        None \<Rightarrow> None
      | Some (s1, lkCorrupt) \<Rightarrow> Some (s1, Inl ErrNotFound)
      | Some (s1, lkMiss) \<Rightarrow> Some (s1, Inl ErrNotFound)
      | Some (s1, lkHit v exp ref) \<Rightarrow>
          if isExpired exp now
          then (if allowPhysicalRemove
                then map_option (\<lambda>s2. (s2, Inl ErrNotFound)) (dropExpiredLocked key h ref now s1)
                else Some (s1, Inl ErrNotFound))
          else Some (s1, Inr (v, exp)))"

definition advanceAppliedStamp :: "u64 \<Rightarrow> shard \<Rightarrow> shard" where
  "advanceAppliedStamp stampMs s =
     (if stampMs \<le> sh_lastAppliedStampMs s then s else s\<lparr>sh_lastAppliedStampMs := stampMs\<rparr>)"

definition getWithExpiryH :: "cacheEnv \<Rightarrow> bytes \<Rightarrow> shard \<Rightarrow> (shard \<times> (cacheError + bytes \<times> u64)) option" where
  "getWithExpiryH env key s = getCore key (ce_hash env key) (ce_now env) (\<not> cc_Replicated (sh_cfg s)) s"

definition getWithExpiryAtH :: "cacheEnv \<Rightarrow> bytes \<Rightarrow> u64 \<Rightarrow> shard \<Rightarrow> (shard \<times> (cacheError + bytes \<times> u64)) option" where
  "getWithExpiryAtH env key nowMs s = getCore key (ce_hash env key) nowMs True (advanceAppliedStamp nowMs s)"

section \<open>Writes\<close>

definition inPlaceEligible :: "shard \<Rightarrow> bool" where
  "inPlaceEligible s =
     (cc_InPlaceSameSizeUpdate (sh_cfg s) \<and> cc_AtCapPolicy (sh_cfg s) = PolicyRingbufEvict \<and> \<not> sh_isMmap s)"

text \<open>The page, offset, slot and reference of the entry a same-size update overwrites.\<close>

definition inPlaceTargetLocked :: "cacheEnv \<Rightarrow> bytes \<Rightarrow> bytes \<Rightarrow> shard \<Rightarrow> (nat \<times> u32 \<times> u64 \<times> u64) option option" where
  "inPlaceTargetLocked env key value s =
     (case findSlot (sh_tab s) (ce_hash env key) of
        None \<Rightarrow> None
      | Some None \<Rightarrow> Some None
      | Some (Some (slot, ref)) \<Rightarrow>
          let idx = unat (ref_pageIdx ref)
          in if idx \<ge> length (sh_pages s) then Some None
             else let p = sh_pages s ! idx; off = ref_offset ref
             in if pg_gen p \<noteq> ref_gen ref then Some None
                else case page_Read off p of
                       Inl err \<Rightarrow> Some None
                     | Inr (storedKey, storedVal, storedExp) \<Rightarrow>
                         if storedKey \<noteq> key \<or> length storedVal \<noteq> length value then Some None
                         else if unat off < pg_head p \<or> unat off + entrySpan (length key) (length value) True > pg_tail p then Some None
                         else if storedExp \<noteq> 0 \<and> isExpired storedExp (ce_now env) then Some None
                         else Some (Some (idx, off, slot, ref)))"

definition putAppend :: "cacheEnv \<Rightarrow> bytes \<Rightarrow> bytes \<Rightarrow> u64 \<Rightarrow> shard \<Rightarrow> (shard \<times> cacheError option) option" where
  "putAppend env key value exp s =
     (case findOrMakePageLocked env (entrySpan (length key) (length value) True) s of
        None \<Rightarrow> None
      | Some (s1, Inl err) \<Rightarrow> Some (s1, Some err)
      | Some (s1, Inr pageIdx) \<Rightarrow>
          let s2 = s1\<lparr>sh_writeSeq := sh_writeSeq s1 + 1\<rparr>
          in case page_Write key value exp (makeMeta (sh_writeSeq s2) False) (sh_pages s2 ! pageIdx) of
               Inl err \<Rightarrow> Some (s2, Some (ErrPage err))
             | Inr (p, off, n) \<Rightarrow>
                 (case indexPut (sh_sieve s2) (ce_hash env key) (makeSlabRef (of_nat pageIdx) (pg_gen p) off) (sh_tab s2) of
                    None \<Rightarrow> None
                  | Some t \<Rightarrow> Some ((setPage pageIdx p s2)\<lparr>sh_tab := t\<rparr>, None)))"

definition putAtExpLocked :: "cacheEnv \<Rightarrow> bytes \<Rightarrow> bytes \<Rightarrow> u64 \<Rightarrow> shard \<Rightarrow> (shard \<times> cacheError option) option" where
  "putAtExpLocked env key value exp s =
     (if \<not> inPlaceEligible s then putAppend env key value exp s
      else case inPlaceTargetLocked env key value s of
             None \<Rightarrow> None
           | Some None \<Rightarrow> putAppend env key value exp s
           | Some (Some (idx, off, slot, ref)) \<Rightarrow>
               let seq = sh_writeSeq s + 1
               in case page_WriteAt off key value exp (makeMeta seq False) (sh_pages s ! idx) of
                    Inl err \<Rightarrow> putAppend env key value exp s
                  | Inr p \<Rightarrow>
                      let s1 = (setPage idx p s)\<lparr>sh_writeSeq := seq\<rparr>
                      in Some (if sh_sieve s
                               then s1\<lparr>sh_tab := setVisited slot (tagFor (ce_hash env key)) ref (sh_tab s1)\<rparr> else s1, None))"

definition putAtH :: "cacheEnv \<Rightarrow> bytes \<Rightarrow> bytes \<Rightarrow> int \<Rightarrow> u64 \<Rightarrow> shard \<Rightarrow> (shard \<times> cacheError option) option" where
  "putAtH env key value ttl nowMs s = putAtExpLocked env key value (expiryAtFrom ttl nowMs) (advanceAppliedStamp nowMs s)"

definition putH :: "cacheEnv \<Rightarrow> bytes \<Rightarrow> bytes \<Rightarrow> int \<Rightarrow> shard \<Rightarrow> (shard \<times> cacheError option) option" where
  "putH env key value ttl s = putAtExpLocked env key value (expiryAtFrom ttl (ce_now env)) s"

definition needsDurableTombstone :: "shard \<Rightarrow> bool" where "needsDurableTombstone s = sh_isMmap s"

text \<open>Removing the slot of a key that is index-current, and reporting it.\<close>

definition delSlot :: "bytes \<Rightarrow> u64 \<Rightarrow> shard \<Rightarrow> shard" where
  "delSlot key slot s = fireOnRemove key (s\<lparr>sh_tab := tombstone slot (sh_tab s)\<rparr>)"

definition delDurable :: "cacheEnv \<Rightarrow> bytes \<Rightarrow> shard \<Rightarrow> (shard \<times> (cacheError + bool)) option" where
  "delDurable env key s =
     (case findOrMakePageLocked env (entrySpan (length key) 0 True) s of
        None \<Rightarrow> None
      | Some (s1, Inl err) \<Rightarrow> Some (s1, Inl err)
      | Some (s1, Inr pageIdx) \<Rightarrow>
          let s2 = s1\<lparr>sh_writeSeq := sh_writeSeq s1 + 1\<rparr>
          in case page_Write key [] 0 (makeMeta (sh_writeSeq s2) True) (sh_pages s2 ! pageIdx) of
               Inl err \<Rightarrow> Some (s2, Inl (ErrPage err))
             | Inr (p, off, n) \<Rightarrow>
                 let s3 = setPage pageIdx p s2
                 in case findSlot (sh_tab s3) (ce_hash env key) of
                      None \<Rightarrow> None
                    | Some None \<Rightarrow> Some (s3, Inr True)
                    | Some (Some (slot, ref)) \<Rightarrow>
                        let idx = unat (ref_pageIdx ref)
                        in if idx \<ge> length (sh_pages s3) then None
                           else case page_Read (ref_offset ref) (sh_pages s3 ! idx) of
                                  Inl err \<Rightarrow> Some (s3, Inr True)
                                | Inr (k2, v2, e2) \<Rightarrow> if k2 \<noteq> key then Some (s3, Inr True) else Some (delSlot key slot s3, Inr True))"

definition delH :: "cacheEnv \<Rightarrow> bytes \<Rightarrow> shard \<Rightarrow> (shard \<times> (cacheError + bool)) option" where
  "delH env key s =
     (case findSlot (sh_tab s) (ce_hash env key) of
        None \<Rightarrow> None
      | Some None \<Rightarrow> Some (s, Inr False)
      | Some (Some (slot, ref)) \<Rightarrow>
          let idx = unat (ref_pageIdx ref)
          in if idx \<ge> length (sh_pages s) then None
             else case page_Read (ref_offset ref) (sh_pages s ! idx) of
                    Inl err \<Rightarrow> Some (s, Inr False)
                  | Inr (storedKey, v, e) \<Rightarrow>
                      if storedKey \<noteq> key then Some (s, Inr False)
                      else if needsDurableTombstone s then delDurable env key s
                      else Some (delSlot key slot s, Inr True))"

section \<open>Sweep and flush\<close>

definition sweepBatchSize :: nat where "sweepBatchSize = 4096"

definition sweepStep :: "u64 \<Rightarrow> nat \<Rightarrow> shard \<Rightarrow> shard option" where
  "sweepStep now i s =
     (let t = sh_tab s; c = it_ctrl t ! i
      in if c = ctrlEmpty \<or> c = ctrlTombstone then Some s
         else let ref = it_refs t ! i; idx = unat (ref_pageIdx ref); s1 = s\<lparr>sh_tab := tombstone (of_nat i) t\<rparr>
         in if idx \<ge> length (sh_pages s) then None
            else case page_Read (ref_offset ref) (sh_pages s ! idx) of
                   Inl err \<Rightarrow> Some s1
                 | Inr (key, value, exp) \<Rightarrow> Some (if isExpired exp now then fireOnRemove key s1 else s))"

fun eachSlot :: "(nat \<Rightarrow> shard \<Rightarrow> shard option) \<Rightarrow> nat list \<Rightarrow> shard \<Rightarrow> shard option" where
  "eachSlot f [] s = Some s"
| "eachSlot f (i # is) s = (case f i s of None \<Rightarrow> None | Some s1 \<Rightarrow> eachSlot f is s1)"

text \<open>One batch of a sweep, the unit the lock is held for.\<close>

definition sweepBatch :: "u64 \<Rightarrow> nat \<Rightarrow> shard \<Rightarrow> shard option" where
  "sweepBatch now start s =
     eachSlot (sweepStep now) [start..<min (start + sweepBatchSize) (length (it_ctrl (sh_tab s)))] s"

function sweepIndexFrom :: "u64 \<Rightarrow> nat \<Rightarrow> nat \<Rightarrow> shard \<Rightarrow> shard option" where
  "sweepIndexFrom now n start s =
     (if start < n then (case sweepBatch now start s of None \<Rightarrow> None | Some s1 \<Rightarrow> sweepIndexFrom now n (start + sweepBatchSize) s1)
      else Some s)"
  by pat_completeness auto
termination
  by (relation "measure (\<lambda>(now, n, start, s). n - start)") (auto simp: sweepBatchSize_def)

declare sweepIndexFrom.simps [simp del]

definition sweepIndex :: "u64 \<Rightarrow> shard \<Rightarrow> shard option" where
  "sweepIndex now s = sweepIndexFrom now (length (it_ctrl (sh_tab s))) 0 s"

definition fireOnRemoveAt :: "page \<Rightarrow> u32 \<Rightarrow> shard \<Rightarrow> shard" where
  "fireOnRemoveAt p off s = (case page_Read off p of Inl err \<Rightarrow> s | Inr (key, value, exp) \<Rightarrow> fireOnRemove key s)"

text \<open>The slots and offsets of the index-current entries of a page, if all of them are expired.\<close>

function expiredSlots :: "cacheEnv \<Rightarrow> nat \<Rightarrow> page \<Rightarrow> u64 \<Rightarrow> nat \<Rightarrow> shard \<Rightarrow> ((u64 \<times> u32) list) option option" where
  "expiredSlots env idx p stamp cursor s =
     (if cursor < pg_tail p then
        (case decodeEntryFast (gslice cursor (pg_tail p) (page_entries p)) of
           Inl err \<Rightarrow> Some None
         | Inr (key, value, exp) \<Rightarrow>
             let ref = makeSlabRef (of_nat idx) (pg_gen p) (of_nat cursor);
                 rest = expiredSlots env idx p stamp (cursor + entrySpan (length key) (length value) True) s
             in case findSlot (sh_tab s) (ce_hash env key) of
                  None \<Rightarrow> None
                | Some None \<Rightarrow> rest
                | Some (Some (slot, cur)) \<Rightarrow>
                    if cur \<noteq> ref then rest
                    else if \<not> isExpired exp stamp then Some None
                    else map_option (map_option ((#) (slot, of_nat cursor))) rest)
      else Some (Some []))"
  by pat_completeness auto
termination
  by (relation "measure (\<lambda>(env, idx, p, stamp, cursor, s). pg_tail p - cursor)")
    (auto simp: entrySpan_def entrySpanExact_def entryHeaderSize_def)

declare expiredSlots.simps [simp del]

definition tryRetireExpiredPageLocked :: "cacheEnv \<Rightarrow> u64 \<Rightarrow> nat \<Rightarrow> shard \<Rightarrow> shard option" where
  "tryRetireExpiredPageLocked env stamp idx s =
     (let p = sh_pages s ! idx
      in if page_Empty p then Some s
         else case expiredSlots env idx p stamp (pg_head p) s of
                None \<Rightarrow> None
              | Some None \<Rightarrow> Some s
              | Some (Some es) \<Rightarrow>
                  let s1 = fold (\<lambda>(slot, off) s. fireOnRemoveAt p off (s\<lparr>sh_tab := tombstone slot (sh_tab s)\<rparr>)) es s
                  in case freshHeapPageLocked s1 of (fresh, s2) \<Rightarrow> Some (setPage idx fresh s2))"

definition reclaimExpiredHeapPages :: "cacheEnv \<Rightarrow> u64 \<Rightarrow> shard \<Rightarrow> shard option" where
  "reclaimExpiredHeapPages env stamp s =
     (if sh_isMmap s then Some s else eachSlot (tryRetireExpiredPageLocked env stamp) [0..<length (sh_pages s)] s)"

text \<open>A sweep without the compaction of mapped files.\<close>

definition sweepOnce :: "cacheEnv \<Rightarrow> shard \<Rightarrow> shard option" where
  "sweepOnce env s =
     (if cc_Replicated (sh_cfg s)
      then if sh_lastAppliedStampMs s = 0 then Some s
           else (case sweepIndex (sh_lastAppliedStampMs s) s of None \<Rightarrow> None
                 | Some s1 \<Rightarrow> reclaimExpiredHeapPages env (sh_lastAppliedStampMs s) s1)
      else sweepIndex (ce_now env) s)"

definition shard_flush :: "bool \<Rightarrow> shard \<Rightarrow> shard \<times> cacheError option" where
  "shard_flush sidecarOk s =
     (if sh_isMmap s \<and> \<not> sidecarOk then (s, Some ErrFlushNotDurable)
      else (s\<lparr>sh_flushedThroughSeq := sh_writeSeq s, sh_tab := newIndexTable 0\<rparr>, None))"

section \<open>Shutdown and warm restart\<close>

definition closeProject :: "shard \<Rightarrow> shard" where
  "closeProject s = s\<lparr>sh_pages := map (\<lambda>p. projectBounds (pg_head p) (pg_tail p) p) (sh_pages s)\<rparr>"

definition attachPage :: "bytes \<Rightarrow> u16 \<Rightarrow> bytes \<Rightarrow> page" where
  "attachPage framingKey gen ext =
     (let p = (newMmapPage ext)\<lparr>pg_gen := gen, pg_framingKey := framingKey\<rparr>
      in p\<lparr>pg_head := fst (durableBounds p), pg_tail := snd (durableBounds p), pg_nonce := durableNonce p\<rparr>)"

text \<open>The pages of a mapped file, given the extents the file is cut into.\<close>

definition attachMmapRegion :: "bytes list \<Rightarrow> shard \<Rightarrow> shard" where
  "attachMmapRegion exts s =
     s\<lparr>sh_pages := map (\<lambda>(i, ext). attachPage (sh_framingKey s) (sh_genCounter s + of_nat i) ext) (enumerate 0 exts),
       sh_genCounter := sh_genCounter s + of_nat (length exts)\<rparr>"

definition flushRecoveredBoundsLocked :: "cacheEnv \<Rightarrow> nat \<Rightarrow> shard \<Rightarrow> shard \<times> bool" where
  "flushRecoveredBoundsLocked env idx s =
     (if \<not> sh_isMmap s then (s, True)
      else let p = sh_pages s ! idx
           in ((setPage idx (projectBounds (pg_head p) (pg_tail p) p) s)\<lparr>sh_barriers := sh_barriers s + 1\<rparr>,
               ce_msync env (sh_barriers s)))"

definition indexedSeqAtLeast :: "indexTable \<Rightarrow> u64 \<Rightarrow> u64 \<Rightarrow> shard \<Rightarrow> bool option" where
  "indexedSeqAtLeast t h seq s =
     (case findSlot t h of
        None \<Rightarrow> None
      | Some None \<Rightarrow> Some False
      | Some (Some (slot, cur)) \<Rightarrow>
          if unat (ref_pageIdx cur) \<ge> length (sh_pages s) then None
          else case page_MetaAt (ref_offset cur) (sh_pages s ! unat (ref_pageIdx cur)) of
                 None \<Rightarrow> Some False
               | Some meta \<Rightarrow> Some (metaSeq meta \<ge> seq))"

definition rebuildEntry :: "cacheEnv \<Rightarrow> nat \<Rightarrow> nat \<Rightarrow> u16 \<Rightarrow> bytes \<Rightarrow> u64 \<Rightarrow> shard \<Rightarrow> shard option" where
  "rebuildEntry env pageIdx cursor gen key seq s =
     (case indexedSeqAtLeast (sh_tab s) (ce_hash env key) seq s of
        None \<Rightarrow> None
      | Some True \<Rightarrow> Some s
      | Some False \<Rightarrow>
          (case upsert (ce_hash env key) (makeSlabRef (of_nat pageIdx) gen (of_nat cursor)) (sh_tab s) of
             None \<Rightarrow> None
           | Some (t, slot, inserted) \<Rightarrow>
               map_option (\<lambda>t'. s\<lparr>sh_tab := t'\<rparr>) (rehashIfOverThreshold t)))"

lemma resyncFrom_ge: "c \<le> tail \<Longrightarrow> c \<le> fst (resyncFrom en fk nonce tail budget hashed c)"
proof (induction en fk nonce tail budget hashed c rule: resyncFrom.induct)
  case (1 en fk nonce tail budget hashed c)
  show ?case
  proof (cases "c < tail")
    case False
    then have "resyncFrom en fk nonce tail budget hashed c = (tail, False)" by (subst resyncFrom.simps) simp
    then show ?thesis using 1(4) by simp
  next
    case True
    show ?thesis
      using True 1
      by (simp add: resyncFrom.simps [of en fk nonce tail budget hashed c] Let_def Suc_le_eq less_imp_le split: sum.split)
  qed
qed

lemma resyncForward_gt:
  "(resumeAt, found) = resyncForward en (Suc cursor) tail fk nonce \<Longrightarrow> cursor < tail \<Longrightarrow> cursor < resumeAt"
  using resyncFrom_ge [of "Suc cursor" tail en fk nonce "2 * length en" 0] unfolding resyncForward_def
  by (metis Suc_le_eq fst_conv)

function rebuildWalk :: "cacheEnv \<Rightarrow> nat \<Rightarrow> nat \<Rightarrow> nat \<Rightarrow> nat \<Rightarrow> u64 \<Rightarrow> shard \<Rightarrow> (shard \<times> u64 \<times> bool) option" where
  "rebuildWalk env pageIdx head tail cursor maxSeq s =
     (if cursor < tail then
        (let p = sh_pages s ! pageIdx; en = page_entries p
         in case decodeEntry (gslice cursor tail en) (pg_framingKey p) (pg_nonce p) (of_nat cursor) of
              Inl err \<Rightarrow>
                (case resyncForward en (cursor + 1) tail (pg_framingKey p) (pg_nonce p) of
                   (resumeAt, found) \<Rightarrow>
                     if found then rebuildWalk env pageIdx head tail resumeAt maxSeq s
                     else (case flushRecoveredBoundsLocked env pageIdx
                              (setPage pageIdx (if cursor = head then page_Reset p else p\<lparr>pg_tail := cursor\<rparr>) s) of
                             (s1, ok) \<Rightarrow> Some (s1, maxSeq, ok)))
            | Inr (key, value, exp, meta) \<Rightarrow>
                (let esize = entrySpanExact (length key) (length value); seq = metaSeq meta
                 in if seq \<le> sh_flushedThroughSeq s then rebuildWalk env pageIdx head tail (cursor + esize) maxSeq s
                    else case rebuildEntry env pageIdx cursor (pg_gen p) key seq s of
                           None \<Rightarrow> None
                         | Some s1 \<Rightarrow> rebuildWalk env pageIdx head tail (cursor + esize) (max seq maxSeq) s1))
      else Some (s, maxSeq, True))"
  by pat_completeness auto
termination
  by (relation "measure (\<lambda>(env, pageIdx, head, tail, cursor, maxSeq, s). tail - cursor)")
    (auto simp: entrySpanExact_def entryHeaderSize_def dest: resyncForward_gt)

declare rebuildWalk.simps [simp del]

definition rebuildPage :: "cacheEnv \<Rightarrow> nat \<Rightarrow> u64 \<Rightarrow> shard \<Rightarrow> (shard \<times> u64 \<times> bool) option" where
  "rebuildPage env pageIdx maxSeq s =
     (let p = sh_pages s ! pageIdx; head = pg_head p; tail = pg_tail p
      in if tail < head \<or> tail > length (page_entries p)
         then (case flushRecoveredBoundsLocked env pageIdx (setPage pageIdx (page_Reset p) s) of (s1, ok) \<Rightarrow> Some (s1, maxSeq, ok))
         else if head = tail then Some (s, maxSeq, True)
         else rebuildWalk env pageIdx head tail head maxSeq s)"

fun rebuildPages :: "cacheEnv \<Rightarrow> nat list \<Rightarrow> u64 \<Rightarrow> shard \<Rightarrow> (shard \<times> u64 \<times> bool) option" where
  "rebuildPages env [] maxSeq s = Some (s, maxSeq, True)"
| "rebuildPages env (i # is) maxSeq s =
     (case rebuildPage env i maxSeq s of
        None \<Rightarrow> None
      | Some (s1, m1, False) \<Rightarrow> Some (s1, m1, False)
      | Some (s1, m1, True) \<Rightarrow> rebuildPages env is m1 s1)"

definition stripStep :: "u64 \<Rightarrow> nat \<Rightarrow> shard \<Rightarrow> shard option" where
  "stripStep now i s =
     (let t = sh_tab s; c = it_ctrl t ! i
      in if c = ctrlEmpty \<or> c = ctrlTombstone then Some s
         else let ref = it_refs t ! i; idx = unat (ref_pageIdx ref); s1 = s\<lparr>sh_tab := tombstone (of_nat i) t\<rparr>
         in if idx \<ge> length (sh_pages s) then None
            else let p = sh_pages s ! idx
            in case page_MetaAt (ref_offset ref) p of
                 Some meta \<Rightarrow>
                   if metaIsTombstone meta then Some (fireOnRemoveAt p (ref_offset ref) s1)
                   else if cc_Replicated (sh_cfg s) then Some s
                   else (case page_Read (ref_offset ref) p of
                           Inl err \<Rightarrow> Some s
                         | Inr (k, v, exp) \<Rightarrow> Some (if isExpired exp now then fireOnRemove k s1 else s))
               | None \<Rightarrow>
                   if cc_Replicated (sh_cfg s) then Some s
                   else (case page_Read (ref_offset ref) p of
                           Inl err \<Rightarrow> Some s
                         | Inr (k, v, exp) \<Rightarrow> Some (if isExpired exp now then fireOnRemove k s1 else s)))"

definition stripDeadSlots :: "u64 \<Rightarrow> shard \<Rightarrow> shard option" where
  "stripDeadSlots now s = eachSlot (stripStep now) [0..<length (it_ctrl (sh_tab s))] s"

text \<open>The result is false when a corrected bound could not be flushed, and the shard does not open.\<close>

definition rebuildIndexFromPages :: "cacheEnv \<Rightarrow> shard \<Rightarrow> (shard \<times> bool) option" where
  "rebuildIndexFromPages env s =
     (case rebuildPages env [0..<length (sh_pages s)] 0 s of
        None \<Rightarrow> None
      | Some (s1, m, False) \<Rightarrow> Some (s1, False)
      | Some (s1, m, True) \<Rightarrow>
          (case stripDeadSlots (ce_now env) s1 of
             None \<Rightarrow> None
           | Some s2 \<Rightarrow> Some (if m > sh_writeSeq s2 then s2\<lparr>sh_writeSeq := m\<rparr> else s2, True)))"

text \<open>Opening an existing mapped shard without the cold compaction: the file's extents and framing key,
  the flush floor and the logical clock of its header are given.\<close>

definition openMmapShard :: "cacheEnv \<Rightarrow> cacheCfg \<Rightarrow> bytes \<Rightarrow> bytes list \<Rightarrow> u64 \<Rightarrow> u64 \<Rightarrow> (shard \<times> bool) option" where
  "openMmapShard env cfg framingKey exts floor stamp =
     (let s0 = attachMmapRegion exts
        \<lparr>sh_cfg = cfg, sh_isMmap = True, sh_pages = [], sh_tab = newIndexTable 0, sh_writeIdx = 0, sh_nextVictim = 0,
         sh_writeSeq = 0, sh_genCounter = 0, sh_sieve = sieveVisited cfg, sh_framingKey = framingKey,
         sh_lastAppliedStampMs = stamp, sh_flushedThroughSeq = floor, sh_removed = [], sh_barriers = 0\<rparr>
      in case rebuildIndexFromPages env s0 of
           None \<Rightarrow> None
         | Some (s1, False) \<Rightarrow> Some (s1, False)
         | Some (s1, True) \<Rightarrow>
             let s2 = s1\<lparr>sh_writeIdx := length (sh_pages s1) - 1\<rparr>
             in Some (if floor > sh_writeSeq s2 then s2\<lparr>sh_writeSeq := floor\<rparr> else s2, True))"

definition newMmapShard :: "cacheCfg \<Rightarrow> bytes \<Rightarrow> bytes list \<Rightarrow> shard" where
  "newMmapShard cfg framingKey exts =
     (let s = attachMmapRegion exts
        \<lparr>sh_cfg = cfg, sh_isMmap = True, sh_pages = [], sh_tab = newIndexTable 0, sh_writeIdx = 0, sh_nextVictim = 0,
         sh_writeSeq = 0, sh_genCounter = 0, sh_sieve = sieveVisited cfg, sh_framingKey = framingKey,
         sh_lastAppliedStampMs = 0, sh_flushedThroughSeq = 0, sh_removed = [], sh_barriers = 0\<rparr>
      in s\<lparr>sh_writeIdx := length (sh_pages s) - 1\<rparr>)"

end
