(* ===== verification/CacheInv.thy ===== *)
theory CacheInv
  imports CacheShard
begin

text \<open>
  The invariant of a cache shard: every page is a sequence of frames, and every reference of the index
  points at a frame of the page it names, in the page's present generation, with a key of that hash, and
  not at a delete record. What the shard stores under a hash is then the entry the index leads to
  (\<open>hashMap\<close>), and every operation is one on that map.
\<close>

section \<open>The invariant\<close>

definition cfg_ok :: "shard \<Rightarrow> bool" where
  "cfg_ok s = (cc_PageSize (sh_cfg s) < 2 ^ 31 \<and> MaxPagesPerShard (sh_cfg s) \<le> 65535 \<and>
     (sh_isMmap s \<longrightarrow> pageHdrSize \<le> cc_PageSize (sh_cfg s)) \<and> length (sh_pages s) \<le> MaxPagesPerShard (sh_cfg s))"

definition page_ok :: "shard \<Rightarrow> page \<Rightarrow> (nat \<times> frame) list \<Rightarrow> bool" where
  "page_ok s p ps = (page_rep p ps \<and> pg_mmap p = sh_isMmap s \<and> length (page_entries p) = maxEntryBytes s \<and>
     (pg_reuseBarrierFailed p \<longrightarrow> ps = [] \<and> pg_mmap p) \<and> \<not> pg_retired p \<and> (\<not> pg_mmap p \<longrightarrow> pg_head p = 0))"

definition pages_ok :: "shard \<Rightarrow> (nat \<times> frame) list list \<Rightarrow> bool" where
  "pages_ok s pss = (length pss = length (sh_pages s) \<and> (\<forall>i < length (sh_pages s). page_ok s (sh_pages s ! i) (pss ! i)))"

text \<open>The reference \<open>ref\<close> of hash \<open>h\<close> leads to frame \<open>f\<close>.\<close>

definition located :: "(bytes \<Rightarrow> u64) \<Rightarrow> shard \<Rightarrow> (nat \<times> frame) list list \<Rightarrow> u64 \<Rightarrow> u64 \<Rightarrow> nat \<Rightarrow> nat \<Rightarrow> frame \<Rightarrow> bool" where
  "located hk s pss h ref i off f = (i < length (sh_pages s) \<and> (off, f) \<in> set (pss ! i) \<and>
     ref = makeSlabRef (of_nat i) (pg_gen (sh_pages s ! i)) (of_nat off) \<and> hk (fr_key f) = h \<and> \<not> metaIsTombstone (fr_meta f))"

definition index_ok :: "(bytes \<Rightarrow> u64) \<Rightarrow> shard \<Rightarrow> (nat \<times> frame) list list \<Rightarrow> bool" where
  "index_ok hk s pss = (tab_inv (sh_tab s) \<and> \<not> overThreshold (sh_tab s) \<and>
     (\<forall>h ref. tabMap (sh_tab s) h = Some ref \<longrightarrow> (\<exists>i off f. located hk s pss h ref i off f)))"

definition shard_rep :: "(bytes \<Rightarrow> u64) \<Rightarrow> shard \<Rightarrow> (nat \<times> frame) list list \<Rightarrow> bool" where
  "shard_rep hk s pss = (cfg_ok s \<and> pages_ok s pss \<and> index_ok hk s pss)"

text \<open>What is stored under a hash, and under a key.\<close>

definition hashMap :: "shard \<Rightarrow> u64 \<Rightarrow> (bytes \<times> bytes \<times> u64) option" where
  "hashMap s h = (case tabMap (sh_tab s) h of
     None \<Rightarrow> None
   | Some ref \<Rightarrow> (case page_Read (ref_offset ref) (sh_pages s ! unat (ref_pageIdx ref)) of
       Inl err \<Rightarrow> None | Inr kve \<Rightarrow> Some kve))"

definition cacheMap :: "(bytes \<Rightarrow> u64) \<Rightarrow> shard \<Rightarrow> bytes \<Rightarrow> (bytes \<times> u64) option" where
  "cacheMap hk s k = (case hashMap s (hk k) of
     None \<Rightarrow> None | Some (k', v, e) \<Rightarrow> if k' = k then Some (v, e) else None)"

lemma page_ok_frame: "sh_isMmap s' = sh_isMmap s \<Longrightarrow> sh_cfg s' = sh_cfg s \<Longrightarrow> page_ok s' = page_ok s"
  by (simp add: page_ok_def maxEntryBytes_def fun_eq_iff)

lemma shard_repD:
  assumes "shard_rep hk s pss"
  shows "cfg_ok s" "pages_ok s pss" "index_ok hk s pss" "length pss = length (sh_pages s)" "tab_inv (sh_tab s)"
    "\<not> overThreshold (sh_tab s)" "i < length (sh_pages s) \<Longrightarrow> page_ok s (sh_pages s ! i) (pss ! i)"
    "i < length (sh_pages s) \<Longrightarrow> page_rep (sh_pages s ! i) (pss ! i)"
    "length (sh_pages s) \<le> 65535"
  using assms by (auto simp: shard_rep_def pages_ok_def index_ok_def page_ok_def cfg_ok_def)

lemma index_refD:
  assumes "shard_rep hk s pss" "tabMap (sh_tab s) h = Some ref"
  obtains i off f where "located hk s pss h ref i off f"
  using assms unfolding shard_rep_def index_ok_def by blast

lemma located_facts:
  assumes "shard_rep hk s pss" "located hk s pss h ref i off f"
  shows "i < length (sh_pages s)" "unat (ref_pageIdx ref) = i" "unat (ref_offset ref) = off" "ref_gen ref = pg_gen (sh_pages s ! i)"
    "page_Read (ref_offset ref) (sh_pages s ! i) = Inr (fr_key f, fr_val f, fr_exp f)"
    "page_MetaAt (ref_offset ref) (sh_pages s ! i) = Some (fr_meta f)" "hk (fr_key f) = h" "(off, f) \<in> set (pss ! i)"
    "\<not> metaIsTombstone (fr_meta f)"
proof -
  have l: "i < length (sh_pages s)" "(off, f) \<in> set (pss ! i)" "ref = makeSlabRef (of_nat i) (pg_gen (sh_pages s ! i)) (of_nat off)"
    "hk (fr_key f) = h" "\<not> metaIsTombstone (fr_meta f)" using assms(2) by (auto simp: located_def)
  note at = decode_at [OF shard_repD(8) [OF assms(1) l(1)] l(2)]
  have "i < 65536" using shard_repD(9) [OF assms(1)] l(1) by simp
  then show "unat (ref_pageIdx ref) = i" using l(3) by (simp add: unat_of_nat)
  show "unat (ref_offset ref) = off" "ref_gen ref = pg_gen (sh_pages s ! i)"
    "page_Read (ref_offset ref) (sh_pages s ! i) = Inr (fr_key f, fr_val f, fr_exp f)"
    "page_MetaAt (ref_offset ref) (sh_pages s ! i) = Some (fr_meta f)" using at(2,3,8) l(3) by simp_all
qed (use assms(2) in \<open>auto simp: located_def\<close>)

lemma located_unique:
  assumes "shard_rep hk s pss" "located hk s pss h ref i off f" "located hk s pss h' ref i' off' f'"
  shows "i' = i" "off' = off" "f' = f" "h' = h"
proof -
  note a = located_facts [OF assms(1,2)] and b = located_facts [OF assms(1,3)]
  show i: "i' = i" and off: "off' = off" using a(2,3) b(2,3) by simp_all
  have "framed (page_entries (sh_pages s ! i)) (pg_head (sh_pages s ! i)) (pss ! i) (pg_tail (sh_pages s ! i))"
    using shard_repD(8) [OF assms(1) a(1)] by (simp add: page_rep_def)
  from framed_inj [OF this a(8)] b(8) i off show "f' = f" by auto
  then show "h' = h" using a(7) b(7) by simp
qed

lemma hashMap_Some:
  assumes "shard_rep hk s pss" "tabMap (sh_tab s) h = Some ref" "located hk s pss h ref i off f"
  shows "hashMap s h = Some (fr_key f, fr_val f, fr_exp f)"
  using located_facts(2,5) [OF assms(1,3)] assms(2) by (simp add: hashMap_def)

lemma hashMap_None: "shard_rep hk s pss \<Longrightarrow> hashMap s h = None \<longleftrightarrow> tabMap (sh_tab s) h = None"
proof (cases "tabMap (sh_tab s) h")
  case (Some ref)
  assume r: "shard_rep hk s pss"
  then obtain i off f where "located hk s pss h ref i off f" using index_refD Some by blast
  then show ?thesis using hashMap_Some [OF r Some] Some by simp
qed (simp add: hashMap_def)

lemma hashMap_cong: "sh_pages s' = sh_pages s \<Longrightarrow> tabMap (sh_tab s') = tabMap (sh_tab s) \<Longrightarrow> hashMap s' = hashMap s"
  by (rule ext) (simp add: hashMap_def split: option.split)

lemma hashMap_hash: "shard_rep hk s pss \<Longrightarrow> hashMap s h = Some (k, v, e) \<Longrightarrow> hk k = h"
proof -
  assume a: "shard_rep hk s pss" "hashMap s h = Some (k, v, e)"
  then obtain ref where ref: "tabMap (sh_tab s) h = Some ref" using hashMap_None [OF a(1)] by force
  then obtain i off f where l: "located hk s pss h ref i off f" using index_refD a(1) by blast
  then show ?thesis using hashMap_Some [OF a(1) ref l] a(2) located_facts(7) [OF a(1) l] by simp
qed

section \<open>Changes that keep the frames\<close>

text \<open>The pages may change in any way that keeps the frames the index leads to.\<close>

lemma rep_change:
  assumes r: "shard_rep hk s pss" and c: "cfg_ok s'" and p: "pages_ok s' pss'" and t: "sh_tab s' = sh_tab s"
    and loc: "\<And>h ref i off f. tabMap (sh_tab s) h = Some ref \<Longrightarrow> located hk s pss h ref i off f \<Longrightarrow>
       located hk s' pss' h ref i off f"
  shows "shard_rep hk s' pss'" "hashMap s' = hashMap s"
proof -
  have "index_ok hk s' pss'" using shard_repD(3) [OF r] loc t unfolding index_ok_def by metis
  then show r': "shard_rep hk s' pss'" using c p by (simp add: shard_rep_def)
  show "hashMap s' = hashMap s"
  proof
    fix h
    show "hashMap s' h = hashMap s h"
    proof (cases "tabMap (sh_tab s) h")
      case None
      then show ?thesis using t by (simp add: hashMap_def)
    next
      case (Some ref)
      then obtain i off f where l: "located hk s pss h ref i off f" using index_refD r by blast
      show ?thesis using hashMap_Some [OF r Some l] hashMap_Some [OF r' _ loc [OF Some l]] Some t by simp
    qed
  qed
qed

text \<open>The index may lose entries.\<close>

lemma rep_shrink:
  assumes r: "shard_rep hk s pss" and same: "sh_cfg s' = sh_cfg s" "sh_isMmap s' = sh_isMmap s" "sh_pages s' = sh_pages s"
    and t: "tab_inv (sh_tab s')" "\<not> overThreshold (sh_tab s')" "tabMap (sh_tab s') \<subseteq>\<^sub>m tabMap (sh_tab s)"
  shows "shard_rep hk s' pss" "hashMap s' h = (if tabMap (sh_tab s') h = None then None else hashMap s h)"
    "hashMap s' \<subseteq>\<^sub>m hashMap s"
proof -
  have sub: "tabMap (sh_tab s') h = Some ref \<Longrightarrow> tabMap (sh_tab s) h = Some ref" for h ref
    using t(3) by (metis map_le_def domI)
  have loc: "located hk s' pss = located hk s pss" using same by (simp add: located_def fun_eq_iff)
  have "index_ok hk s' pss" using shard_repD(3) [OF r] t sub unfolding index_ok_def loc by blast
  moreover have "cfg_ok s'" "pages_ok s' pss" using shard_repD(1,2) [OF r] same page_ok_frame [of s' s]
    by (simp_all add: cfg_ok_def pages_ok_def)
  ultimately show "shard_rep hk s' pss" by (simp add: shard_rep_def)
  show *: "hashMap s' h = (if tabMap (sh_tab s') h = None then None else hashMap s h)" for h
    using sub [of h] same by (auto simp: hashMap_def)
  show "hashMap s' \<subseteq>\<^sub>m hashMap s" by (auto simp: map_le_def * split: if_splits)
qed

lemma rep_same:
  assumes "shard_rep hk s pss" "sh_cfg s' = sh_cfg s" "sh_isMmap s' = sh_isMmap s" "sh_pages s' = sh_pages s" "sh_tab s' = sh_tab s"
  shows "shard_rep hk s' pss" "hashMap s' = hashMap s"
  using rep_shrink(1) [OF assms(1-4)] shard_repD(5,6) [OF assms(1)] hashMap_cong [of s' s] assms(4,5) by simp_all

lemma pages_ok_set:
  assumes "pages_ok s pss" "page_ok s p ps" "sh_cfg s' = sh_cfg s" "sh_isMmap s' = sh_isMmap s"
    "sh_pages s' = (sh_pages s)[i := p]"
  shows "pages_ok s' (pss[i := ps])"
proof -
  have "page_ok s ((sh_pages s)[i := p] ! j) (pss[i := ps] ! j)" if "j < length (sh_pages s)" for j
    using that assms(1,2) by (cases "j = i") (auto simp: pages_ok_def)
  then show ?thesis using assms page_ok_frame [of s' s] by (simp add: pages_ok_def)
qed

text \<open>Replacing one page by one that keeps the frames the index leads to; they are kept when the page has
  its frames and its generation, and when the index has no reference to the page.\<close>

lemma rep_setPage_kept:
  assumes r: "shard_rep hk s pss" and i: "i < length (sh_pages s)" and p: "page_ok s p ps"
    and keep: "\<And>h ref off f. tabMap (sh_tab s) h = Some ref \<Longrightarrow> located hk s pss h ref i off f \<Longrightarrow>
      pg_gen p = pg_gen (sh_pages s ! i) \<and> (off, f) \<in> set ps"
    and s': "sh_cfg s' = sh_cfg s" "sh_isMmap s' = sh_isMmap s" "sh_tab s' = sh_tab s" "sh_pages s' = (sh_pages s)[i := p]"
  shows "shard_rep hk s' (pss[i := ps])" "hashMap s' = hashMap s"
proof -
  have c: "cfg_ok s'" using shard_repD(1) [OF r] s' by (simp add: cfg_ok_def)
  have po: "pages_ok s' (pss[i := ps])" by (rule pages_ok_set [OF shard_repD(2) [OF r] p s'(1,2,4)])
  have "located hk s' (pss[i := ps]) h ref j off f"
    if t: "tabMap (sh_tab s) h = Some ref" and l: "located hk s pss h ref j off f" for h ref j off f
  proof (cases "j = i")
    case True
    then show ?thesis using keep [OF t] l i s'(4) shard_repD(4) [OF r] by (auto simp: located_def)
  next
    case False
    then show ?thesis using l s'(4) by (simp add: located_def)
  qed
  then show "shard_rep hk s' (pss[i := ps])" "hashMap s' = hashMap s" using rep_change [OF r c po s'(3)] by simp_all
qed

lemma rep_setPage:
  assumes r: "shard_rep hk s pss" and i: "i < length (sh_pages s)" and p: "page_ok s p ps"
    and keep: "(pg_gen p = pg_gen (sh_pages s ! i) \<and> set (pss ! i) \<subseteq> set ps) \<or>
      (\<forall>h ref. tabMap (sh_tab s) h = Some ref \<longrightarrow> unat (ref_pageIdx ref) \<noteq> i)"
    and s': "sh_cfg s' = sh_cfg s" "sh_isMmap s' = sh_isMmap s" "sh_tab s' = sh_tab s" "sh_pages s' = (sh_pages s)[i := p]"
  shows "shard_rep hk s' (pss[i := ps])" "hashMap s' = hashMap s"
proof -
  have k: "pg_gen p = pg_gen (sh_pages s ! i) \<and> (off, f) \<in> set ps"
    if "tabMap (sh_tab s) h = Some ref" "located hk s pss h ref i off f" for h ref off f
    using keep that located_facts(2,8) [OF r that(2)] by auto
  show "shard_rep hk s' (pss[i := ps])" "hashMap s' = hashMap s" using rep_setPage_kept [OF r i p k s'] by simp_all
qed

lemma rep_empty_page:
  assumes "shard_rep hk s pss" "pss ! i = []" "tabMap (sh_tab s) h = Some ref"
  shows "unat (ref_pageIdx ref) \<noteq> i"
proof -
  obtain j off f where "located hk s pss h ref j off f" using index_refD [OF assms(1,3)] by blast
  from located_facts(2,8) [OF assms(1) this] show ?thesis using assms(2) by auto
qed

section \<open>The number of entries\<close>

lemma live_bound:
  assumes r: "shard_rep hk s pss"
  shows "it_live (sh_tab s) < 2 ^ 48"
proof -
  let ?t = "sh_tab s"
  let ?O = "{i. i < slots ?t \<and> occupied (it_ctrl ?t ! i)}"
  let ?g = "\<lambda>(a :: nat, b :: nat). makeSlabRef (of_nat a) (pg_gen (sh_pages s ! a)) (of_nat b)"
  let ?D = "{..<65536 :: nat} \<times> {..<2147483648 :: nat}"
  have inv: "tab_inv ?t" by (rule shard_repD(5) [OF r])
  have live: "it_live ?t = int (card ?O)"
    using inv length_filter_conv_card [of occupied "it_ctrl ?t"] by (simp add: tab_inv_def slots_def)
  have loc: "\<exists>a b f. located hk s pss (it_hashes ?t ! i) (it_refs ?t ! i) a b f" if "i \<in> ?O" for i
  proof -
    have "holds ?t (it_hashes ?t ! i) i" using that by (simp add: holds_def)
    from tabMap_holds [OF inv this] show ?thesis using index_refD [OF r] by metis
  qed
  have inj: "inj_on (\<lambda>i. it_refs ?t ! i) ?O"
  proof (rule inj_onI)
    fix i j assume i: "i \<in> ?O" and j: "j \<in> ?O" and eq: "it_refs ?t ! i = it_refs ?t ! j"
    obtain a b f where l1: "located hk s pss (it_hashes ?t ! i) (it_refs ?t ! i) a b f" using loc [OF i] by blast
    obtain a' b' f' where l2: "located hk s pss (it_hashes ?t ! j) (it_refs ?t ! i) a' b' f'" using loc [OF j] eq by auto
    have "it_hashes ?t ! j = it_hashes ?t ! i" by (rule located_unique(4) [OF r l1 l2])
    then have "holds ?t (it_hashes ?t ! i) i" "holds ?t (it_hashes ?t ! i) j" using i j by (simp_all add: holds_def)
    then show "i = j" by (rule holds_unique [OF inv])
  qed
  have "(\<lambda>i. it_refs ?t ! i) ` ?O \<subseteq> ?g ` ?D"
  proof
    fix x assume "x \<in> (\<lambda>i. it_refs ?t ! i) ` ?O"
    then obtain i where i: "i \<in> ?O" "x = it_refs ?t ! i" by blast
    then obtain a b f where l: "located hk s pss (it_hashes ?t ! i) x a b f" using loc by blast
    note lf = located_facts [OF r l]
    have "a < 65536" using shard_repD(9) [OF r] lf(1) by simp
    moreover have "b + frLen f \<le> pg_tail (sh_pages s ! a)" "pg_tail (sh_pages s ! a) < 2 ^ 31"
      using decode_at(6) [OF shard_repD(8) [OF r lf(1)] lf(8)] shard_repD(8) [OF r lf(1)] by (auto simp: page_rep_def)
    then have "b < 2147483648" by simp
    ultimately show "x \<in> ?g ` ?D" using l by (intro image_eqI [of _ _ "(a, b)"]) (auto simp: located_def)
  qed
  then have "card ((\<lambda>i. it_refs ?t ! i) ` ?O) \<le> card (?g ` ?D)" by (rule card_mono [rotated]) simp
  also have "\<dots> \<le> card ?D" by (rule card_image_le) simp
  also have "\<dots> = 65536 * 2147483648" by (simp add: card_cartesian_product)
  finally have "card ?O \<le> 65536 * 2147483648" using card_image [OF inj] by simp
  then show ?thesis using live by simp
qed

lemma rep_steady: "shard_rep hk s pss \<Longrightarrow> n \<le> 2 ^ 59 \<Longrightarrow> steady n (sh_tab s)"
  using live_bound [of hk s pss] shard_repD(5,6) [of hk s pss] by (simp add: steady_def)

lemma rep_roomy: "shard_rep hk s pss \<Longrightarrow> tab_inv (sh_tab s) \<and> roomy (sh_tab s)"
  using steady_roomy [OF rep_steady [of hk s pss 0]] by simp

section \<open>Lookups and removals\<close>

lemma rep_find:
  assumes r: "shard_rep hk s pss"
  obtains (absent) "findSlot (sh_tab s) h = Some None" "tabMap (sh_tab s) h = None"
  | (present) slot ref i off f where "findSlot (sh_tab s) h = Some (Some (slot, ref))" "tabMap (sh_tab s) h = Some ref"
      "holds (sh_tab s) h (unat slot)" "located hk s pss h ref i off f"
proof -
  have ir: "tab_inv (sh_tab s)" "roomy (sh_tab s)" using rep_roomy [OF r] by auto
  obtain x where x: "findSlot (sh_tab s) h = Some x" "map_option snd x = tabMap (sh_tab s) h"
    using findSlot_correct(1) [OF ir] by blast
  show thesis
  proof (cases x)
    case None
    then show thesis using x absent by simp
  next
    case (Some y)
    obtain slot ref where y: "y = (slot, ref)" by (cases y)
    then have fs: "findSlot (sh_tab s) h = Some (Some (slot, ref))" "tabMap (sh_tab s) h = Some ref" using x Some by simp_all
    obtain i off f where "located hk s pss h ref i off f" using index_refD [OF r fs(2)] by blast
    then show thesis using present [OF fs findSlot_correct(2) [OF ir fs(1)]] by blast
  qed
qed

text \<open>States that differ in the index and the reported removals only.\<close>

definition idxOnly :: "shard \<Rightarrow> shard \<Rightarrow> bool" where
  "idxOnly s s' = (sh_cfg s' = sh_cfg s \<and> sh_isMmap s' = sh_isMmap s \<and> sh_pages s' = sh_pages s \<and>
     sh_writeIdx s' = sh_writeIdx s \<and> sh_nextVictim s' = sh_nextVictim s \<and> sh_writeSeq s' = sh_writeSeq s \<and>
     sh_genCounter s' = sh_genCounter s \<and> sh_sieve s' = sh_sieve s \<and> sh_framingKey s' = sh_framingKey s \<and>
     sh_lastAppliedStampMs s' = sh_lastAppliedStampMs s \<and> sh_flushedThroughSeq s' = sh_flushedThroughSeq s \<and>
     sh_barriers s' = sh_barriers s)"

lemma idxOnly_simps [intro!, simp]:
  "idxOnly s s" "idxOnly s (s\<lparr>sh_tab := t\<rparr>)" "idxOnly s (fireOnRemove k (s\<lparr>sh_tab := t\<rparr>))"
  by (simp_all add: idxOnly_def fireOnRemove_def)

lemma idxOnly_trans: "idxOnly s s1 \<Longrightarrow> idxOnly s1 s2 \<Longrightarrow> idxOnly s s2"
  by (simp add: idxOnly_def)

text \<open>Removing the slot of a hash.\<close>

lemma rep_tombstone:
  assumes r: "shard_rep hk s pss" and h: "holds (sh_tab s) h (unat slot)"
    and s': "idxOnly s s'" "sh_tab s' = tombstone slot (sh_tab s)"
  shows "shard_rep hk s' pss" "tabMap (sh_tab s') = (tabMap (sh_tab s))(h := None)" "hashMap s' = (hashMap s)(h := None)"
proof -
  note t = tombstone_correct [OF shard_repD(5) [OF r] h]
  have c: "sh_cfg s' = sh_cfg s" "sh_isMmap s' = sh_isMmap s" "sh_pages s' = sh_pages s" using s'(1) by (simp_all add: idxOnly_def)
  have over: "\<not> overThreshold (sh_tab s')" using shard_repD(6) [OF r] t(3,4) s'(2) by (simp add: overThreshold_def slots_def)
  have le: "tabMap (sh_tab s') \<subseteq>\<^sub>m tabMap (sh_tab s)" using t(2) s'(2) by (auto simp: map_le_def)
  have i: "tab_inv (sh_tab s')" using t(1) s'(2) by simp
  note shr = rep_shrink [OF r c i over le]
  show "shard_rep hk s' pss" by (rule shr(1))
  show m: "tabMap (sh_tab s') = (tabMap (sh_tab s))(h := None)" using t(2) s'(2) by simp
  show "hashMap s' = (hashMap s)(h := None)"
    by (rule ext) (simp add: shr(2) m hashMap_def [of s])
qed

text \<open>The reference to a frame leads to that frame only.\<close>

lemma located_at:
  assumes r: "shard_rep hk s pss" and i: "i < length (sh_pages s)" and f: "(off, f) \<in> set (pss ! i)"
    and l: "located hk s pss h (makeSlabRef (of_nat i) (pg_gen (sh_pages s ! i)) (of_nat off)) j o' g"
  shows "j = i" "o' = off" "g = f" "h = hk (fr_key f)"
proof -
  note lf = located_facts [OF r l]
  have "i < 65536" using shard_repD(9) [OF r] i by simp
  then show "j = i" using lf(2) by (simp add: unat_of_nat)
  show "o' = off" using lf(3) decode_at(8) [OF shard_repD(8) [OF r i] f] by simp
  then show "g = f" using framed_inj lf(8) \<open>j = i\<close> f shard_repD(8) [OF r i] unfolding page_rep_def by blast
  then show "h = hk (fr_key f)" using lf(7) by simp
qed

lemma dropIfCurrent_ok:
  assumes r: "shard_rep (ce_hash env) s pss" and i: "i < length (sh_pages s)" and f: "(off, f) \<in> set (pss ! i)"
    and ref: "ref = makeSlabRef (of_nat i) (pg_gen (sh_pages s ! i)) (of_nat off)"
  obtains s' where "dropIfCurrent env (fr_key f) ref s = Some s'" "shard_rep (ce_hash env) s' pss" "idxOnly s s'"
    "tabMap (sh_tab s') \<subseteq>\<^sub>m tabMap (sh_tab s)" "\<And>h. tabMap (sh_tab s') h \<noteq> Some ref"
proof -
  have other: "h = ce_hash env (fr_key f)" if t: "tabMap (sh_tab s) h = Some ref" for h
    using index_refD [OF r t] located_at(4) [OF r i f] ref by metis
  show thesis using r
  proof (cases rule: rep_find [of _ _ _ "ce_hash env (fr_key f)"])
    case absent
    have "tabMap (sh_tab s) h \<noteq> Some ref" for h using other [of h] absent(2) by auto
    then show thesis using that [of s] absent(1) r by (simp add: dropIfCurrent_def)
  next
    case (present slot cur j o' g)
    show thesis
    proof (cases "cur = ref")
      case True
      let ?s = "fireOnRemove (fr_key f) (s\<lparr>sh_tab := tombstone slot (sh_tab s)\<rparr>)"
      have t: "sh_tab ?s = tombstone slot (sh_tab s)" by (simp add: fireOnRemove_def)
      note rt = rep_tombstone [OF r present(3) idxOnly_simps(3) t]
      have "tabMap (sh_tab ?s) h \<noteq> Some ref" for h using other [of h] rt(2) by (auto split: if_splits)
      moreover have "tabMap (sh_tab ?s) \<subseteq>\<^sub>m tabMap (sh_tab s)" using rt(2) by (auto simp: map_le_def)
      ultimately show thesis using that [OF _ rt(1) idxOnly_simps(3)] present(1) True by (simp add: dropIfCurrent_def)
    next
      case False
      have "tabMap (sh_tab s) h \<noteq> Some ref" for h using other [of h] present(2) False by auto
      then show thesis using that [of s] present(1) False r by (simp add: dropIfCurrent_def)
    qed
  qed
qed

section \<open>Retiring a heap page\<close>

lemma retireWalk_ok:
  assumes "shard_rep (ce_hash env) s pss" "i < length (sh_pages s)" "pss ! i = xs @ rest"
    "framed (page_entries (sh_pages s ! i)) (pg_head (sh_pages s ! i)) xs cursor"
  shows "\<exists>s'. retireWalk env i (pg_gen (sh_pages s ! i)) (page_entries (sh_pages s ! i)) (pg_tail (sh_pages s ! i)) cursor s = Some s' \<and>
    shard_rep (ce_hash env) s' pss \<and> idxOnly s s' \<and> tabMap (sh_tab s') \<subseteq>\<^sub>m tabMap (sh_tab s) \<and>
    (\<forall>x \<in> set rest. \<forall>h. tabMap (sh_tab s') h \<noteq> Some (makeSlabRef (of_nat i) (pg_gen (sh_pages s ! i)) (of_nat (fst x))))"
  using assms
proof (induction rest arbitrary: s xs cursor)
  case Nil
  have "cursor = pg_tail (sh_pages s ! i)"
    using shard_repD(8) [OF Nil(1,2)] Nil(3,4) framed_end by (auto simp: page_rep_def)
  then show ?case using Nil(1) by (simp add: retireWalk.simps)
next
  case (Cons x rest)
  let ?p = "sh_pages s ! i"
  obtain off f where x: "x = (off, f)" by (cases x)
  have pr: "page_rep ?p (xs @ (off, f) # rest)" using shard_repD(8) [OF Cons(2,3)] Cons(4) x by simp
  have off: "off = cursor" using pr Cons(5) framed_end unfolding page_rep_def framed_append by auto
  have mem: "(off, f) \<in> set (pss ! i)" using Cons(4) x by simp
  note at = decode_at [OF shard_repD(8) [OF Cons(2,3)] mem]
  have lt: "cursor < pg_tail ?p" using at(6) frLen_pos [of f] off by simp
  obtain s1 where s1: "dropIfCurrent env (fr_key f) (makeSlabRef (of_nat i) (pg_gen ?p) (of_nat off)) s = Some s1"
    "shard_rep (ce_hash env) s1 pss" "idxOnly s s1" "tabMap (sh_tab s1) \<subseteq>\<^sub>m tabMap (sh_tab s)"
    "\<And>h. tabMap (sh_tab s1) h \<noteq> Some (makeSlabRef (of_nat i) (pg_gen ?p) (of_nat off))"
    by (rule dropIfCurrent_ok [OF Cons(2,3) mem refl]) blast
  have pg: "sh_pages s1 = sh_pages s" using s1(3) by (simp add: idxOnly_def)
  have fr: "framed (page_entries ?p) (pg_head ?p) (xs @ [(off, f)]) (off + frLen f)"
    using pr Cons(5) off unfolding page_rep_def framed_append by auto
  have "retireWalk env i (pg_gen ?p) (page_entries ?p) (pg_tail ?p) cursor s =
      retireWalk env i (pg_gen ?p) (page_entries ?p) (pg_tail ?p) (off + frLen f) s1"
    using lt at(1,5) off s1(1) by (simp add: retireWalk.simps [of _ _ _ _ _ cursor] entrySpan_def classOf_def)
  moreover obtain s' where s': "retireWalk env i (pg_gen ?p) (page_entries ?p) (pg_tail ?p) (off + frLen f) s1 = Some s'"
    "shard_rep (ce_hash env) s' pss" "idxOnly s1 s'" "tabMap (sh_tab s') \<subseteq>\<^sub>m tabMap (sh_tab s1)"
    "\<forall>x \<in> set rest. \<forall>h. tabMap (sh_tab s') h \<noteq> Some (makeSlabRef (of_nat i) (pg_gen ?p) (of_nat (fst x)))"
    using Cons(1) [of s1 "xs @ [(off, f)]" "off + frLen f"] s1(2) Cons(3,4) x fr pg by auto
  moreover have "tabMap (sh_tab s') h \<noteq> Some (makeSlabRef (of_nat i) (pg_gen ?p) (of_nat off))" for h
    using s1(5) [of h] s'(4) by (metis domI map_le_def)
  ultimately show ?case using x idxOnly_trans [OF s1(3) s'(3)] map_le_trans [OF s'(4) s1(4)] by auto
qed

text \<open>No reference of the index leads into a page whose frames have all been dropped.\<close>

lemma no_refs_left:
  assumes "shard_rep hk s pss"
    and "\<And>x h. x \<in> set (pss ! i) \<Longrightarrow> tabMap (sh_tab s) h \<noteq> Some (makeSlabRef (of_nat i) (pg_gen (sh_pages s ! i)) (of_nat (fst x)))"
    and "tabMap (sh_tab s) h = Some ref"
  shows "unat (ref_pageIdx ref) \<noteq> i"
proof
  assume i: "unat (ref_pageIdx ref) = i"
  obtain j off f where l: "located hk s pss h ref j off f" using index_refD [OF assms(1,3)] by blast
  then have "j = i" "(off, f) \<in> set (pss ! j)" using located_facts [OF assms(1) l] i by auto
  then show False using assms(2) [of "(off, f)" h] assms(3) l by (auto simp: located_def)
qed

lemma newHeapPage_ok:
  assumes "cfg_ok s" "\<not> sh_isMmap s"
  shows "page_ok s ((newHeapPage (cc_PageSize (sh_cfg s)))\<lparr>pg_gen := g\<rparr>) []"
    "FreeTail ((newHeapPage (cc_PageSize (sh_cfg s)))\<lparr>pg_gen := g\<rparr>) = int (maxEntryBytes s)"
  using assms by (simp_all add: page_ok_def newHeapPage_def page_rep_def page_entries_def maxEntryBytes_def cfg_ok_def FreeTail_def)

text \<open>What an eviction leaves: the same configuration, a page of its own with all of its room.\<close>

definition pagesFrame :: "shard \<Rightarrow> shard \<Rightarrow> bool" where
  "pagesFrame s s' = (sh_cfg s' = sh_cfg s \<and> sh_isMmap s' = sh_isMmap s \<and> length (sh_pages s') = length (sh_pages s) \<and>
     sh_sieve s' = sh_sieve s \<and> sh_framingKey s' = sh_framingKey s \<and> sh_lastAppliedStampMs s' = sh_lastAppliedStampMs s \<and>
     sh_flushedThroughSeq s' = sh_flushedThroughSeq s \<and> sh_writeIdx s' = sh_writeIdx s \<and> sh_nextVictim s' = sh_nextVictim s)"

lemma pagesFrame_refl [simp]: "pagesFrame s s"
  by (simp add: pagesFrame_def)

lemma pagesFrame_trans: "pagesFrame s s1 \<Longrightarrow> pagesFrame s1 s2 \<Longrightarrow> pagesFrame s s2"
  by (simp add: pagesFrame_def)

lemma pagesFrame_idx: "idxOnly s s' \<Longrightarrow> pagesFrame s s'"
  by (simp add: pagesFrame_def idxOnly_def)

lemma pagesFrame_set [simp]: "pagesFrame s (setPage i p s)"
  by (simp add: pagesFrame_def setPage_def)

lemma maxEntryBytes_frame: "pagesFrame s s' \<Longrightarrow> maxEntryBytes s' = maxEntryBytes s"
  by (simp add: maxEntryBytes_def pagesFrame_def)

lemma retirePage_ok:
  assumes r: "shard_rep (ce_hash env) s pss" and i: "i < length (sh_pages s)" and heap: "\<not> sh_isMmap s"
  obtains s' where "retirePageLocked env i s = Some s'" "shard_rep (ce_hash env) s' (pss[i := []])" "hashMap s' \<subseteq>\<^sub>m hashMap s"
    "pagesFrame s s'" "FreeTail (sh_pages s' ! i) = int (maxEntryBytes s)" "\<not> pg_reuseBarrierFailed (sh_pages s' ! i)"
    "sh_writeSeq s' = sh_writeSeq s"
proof -
  let ?p = "sh_pages s ! i"
  have "framed (page_entries ?p) (pg_head ?p) [] (pg_head ?p)" by simp
  from retireWalk_ok [OF r i _ this, of "pss ! i"]
  obtain s1 where s1: "retireWalk env i (pg_gen ?p) (page_entries ?p) (pg_tail ?p) (pg_head ?p) s = Some s1"
    "shard_rep (ce_hash env) s1 pss" "idxOnly s s1" "tabMap (sh_tab s1) \<subseteq>\<^sub>m tabMap (sh_tab s)"
    "\<And>x h. x \<in> set (pss ! i) \<Longrightarrow> tabMap (sh_tab s1) h \<noteq> Some (makeSlabRef (of_nat i) (pg_gen ?p) (of_nat (fst x)))"
    by auto
  have pg: "sh_pages s1 = sh_pages s" "sh_cfg s1 = sh_cfg s" "sh_isMmap s1 = sh_isMmap s"
    using s1(3) by (simp_all add: idxOnly_def)
  have no: "\<forall>h ref. tabMap (sh_tab s1) h = Some ref \<longrightarrow> unat (ref_pageIdx ref) \<noteq> i"
    using no_refs_left [OF s1(2), of i] s1(5) pg by auto
  let ?fresh = "(newHeapPage (cc_PageSize (sh_cfg s1)))\<lparr>pg_gen := sh_genCounter s1\<rparr>"
  define s' where "s' = setPage i ?fresh (s1\<lparr>sh_genCounter := sh_genCounter s1 + 1\<rparr>)"
  have R: "retirePageLocked env i s = Some s'"
    using s1(1) by (simp add: retirePageLocked_def freshHeapPageLocked_def s'_def Let_def)
  have heap1: "\<not> sh_isMmap s1" using heap pg by simp
  note np = newHeapPage_ok [OF shard_repD(1) [OF s1(2)] heap1, of "sh_genCounter s1"]
  have i1: "i < length (sh_pages s1)" using i pg by simp
  have rep: "shard_rep (ce_hash env) s' (pss[i := []])" "hashMap s' = hashMap s1"
    using rep_setPage [OF s1(2) i1 np(1), of s'] no by (simp_all add: s'_def setPage_def)
  have shr: "hashMap s1 \<subseteq>\<^sub>m hashMap s"
    using rep_shrink(3) [OF r pg(2,3,1) shard_repD(5,6) [OF s1(2)] s1(4)] .
  have "pagesFrame s s'" using s1(3) by (simp add: pagesFrame_def idxOnly_def s'_def setPage_def)
  moreover have "sh_pages s' ! i = ?fresh" using i1 by (simp add: s'_def setPage_def)
  moreover have "sh_writeSeq s' = sh_writeSeq s" using s1(3) by (simp add: idxOnly_def s'_def setPage_def)
  ultimately show thesis using that [OF R rep(1)] shr rep(2) np(2) pg maxEntryBytes_frame [OF pagesFrame_idx [OF s1(3)]]
    by (simp add: newHeapPage_def)
qed

section \<open>The reuse barrier and the search for room\<close>

lemma page_entries_fields [simp]:
  "page_entries (p\<lparr>pg_nonce := n\<rparr>) = page_entries p" "page_entries (p\<lparr>pg_reuseBarrierFailed := x\<rparr>) = page_entries p"
  "page_entries (p\<lparr>pg_relocatedOut := y\<rparr>) = page_entries p" "page_entries (p\<lparr>pg_head := a\<rparr>) = page_entries p"
  "page_entries (p\<lparr>pg_head := a, pg_tail := b\<rparr>) = page_entries p"
  by (simp_all add: page_entries_def)

lemma project_frame [simp]:
  "pg_head (projectBounds a b p) = pg_head p" "pg_tail (projectBounds a b p) = pg_tail p" "pg_mmap (projectBounds a b p) = pg_mmap p"
  "pg_gen (projectBounds a b p) = pg_gen p" "pg_nonce (projectBounds a b p) = pg_nonce p"
  "pg_framingKey (projectBounds a b p) = pg_framingKey p" "pg_retired (projectBounds a b p) = pg_retired p"
  "pg_reuseBarrierFailed (projectBounds a b p) = pg_reuseBarrierFailed p"
  "pg_head (projectNonce n p) = pg_head p" "pg_tail (projectNonce n p) = pg_tail p" "pg_mmap (projectNonce n p) = pg_mmap p"
  "pg_gen (projectNonce n p) = pg_gen p" "pg_nonce (projectNonce n p) = pg_nonce p"
  "pg_framingKey (projectNonce n p) = pg_framingKey p" "pg_retired (projectNonce n p) = pg_retired p"
  "pg_reuseBarrierFailed (projectNonce n p) = pg_reuseBarrierFailed p"
  by (simp_all add: projectBounds_def projectNonce_def)

lemma project_header:
  assumes "pg_mmap p \<longrightarrow> pageHdrSize \<le> length (pg_data p)"
  shows "length (pg_data (projectBounds a b p)) = length (pg_data p)" "length (pg_data (projectNonce n p)) = length (pg_data p)"
    "page_entries (projectBounds a b p) = page_entries p" "page_entries (projectNonce n p) = page_entries p"
  using assms by (auto simp: page_entries_def projectBounds_def projectNonce_def putAt_def pageHdrSize_def)

text \<open>A page without frames takes a new nonce and a cleared header.\<close>

lemma page_ok_renonce:
  assumes "page_ok s p []"
  shows "page_ok s (projectBounds 0 0 (projectNonce n (p\<lparr>pg_nonce := n\<rparr>))) []"
    "FreeTail (projectBounds 0 0 (projectNonce n (p\<lparr>pg_nonce := n\<rparr>))) = FreeTail p"
proof -
  let ?q = "p\<lparr>pg_nonce := n\<rparr>"
  have q: "pg_mmap ?q \<longrightarrow> pageHdrSize \<le> length (pg_data ?q)" using assms by (simp add: page_ok_def page_rep_def)
  note pn = project_header [OF q]
  have q': "pg_mmap (projectNonce n ?q) \<longrightarrow> pageHdrSize \<le> length (pg_data (projectNonce n ?q))" using q pn(2) by simp
  note pb = project_header [OF q']
  show "page_ok s (projectBounds 0 0 (projectNonce n ?q)) []"
    using assms pn(2,4) pb(1,3) by (auto simp: page_ok_def page_rep_def)
  show "FreeTail (projectBounds 0 0 (projectNonce n ?q)) = FreeTail p" using pn(4) pb(3) by (simp add: FreeTail_def)
qed

lemma zeroDurable_ok:
  assumes r: "shard_rep hk s pss" and i: "i < length (sh_pages s)" and e: "pss ! i = []"
  obtains s' ok where "zeroDurableBoundsForReuseLocked env i s = (s', ok)" "shard_rep hk s' pss" "hashMap s' = hashMap s"
    "pagesFrame s s'" "sh_tab s' = sh_tab s" "sh_writeSeq s' = sh_writeSeq s" "sh_genCounter s' = sh_genCounter s"
    "FreeTail (sh_pages s' ! i) = FreeTail (sh_pages s ! i)"
    "pg_reuseBarrierFailed (sh_pages s' ! i) = pg_reuseBarrierFailed (sh_pages s ! i)"
    "\<And>j. j \<noteq> i \<Longrightarrow> sh_pages s' ! j = sh_pages s ! j"
proof (cases "sh_isMmap s \<and> ce_nonce env (sh_barriers s) \<noteq> None")
  case False
  let ?s = "if sh_isMmap s then s\<lparr>sh_barriers := sh_barriers s + 1\<rparr> else s"
  have "zeroDurableBoundsForReuseLocked env i s = (?s, \<not> sh_isMmap s)"
    using False by (auto simp: zeroDurableBoundsForReuseLocked_def Let_def)
  moreover have "shard_rep hk ?s pss" "hashMap ?s = hashMap s"
    using rep_shrink [OF r, of ?s] shard_repD(5,6) [OF r] by (auto simp: hashMap_def fun_eq_iff)
  ultimately show thesis using that by (simp add: pagesFrame_def)
next
  case True
  then obtain n where n: "ce_nonce env (sh_barriers s) = Some n" by auto
  let ?p = "sh_pages s ! i"
  let ?q = "projectBounds 0 0 (projectNonce n (?p\<lparr>pg_nonce := n\<rparr>))"
  define s' where "s' = setPage i ?q (s\<lparr>sh_barriers := sh_barriers s + 1\<rparr>)"
  have z: "zeroDurableBoundsForReuseLocked env i s = (s', ce_msync env (sh_barriers s))"
    using True n by (simp add: zeroDurableBoundsForReuseLocked_def Let_def s'_def)
  have po: "page_ok s ?p []" using shard_repD(7) [OF r i] e by simp
  note rn = page_ok_renonce [OF po, of n]
  have rs: "shard_rep hk s' (pss[i := []])" "hashMap s' = hashMap s"
    using rep_setPage [OF r i rn(1), of s'] e by (simp_all add: s'_def setPage_def)
  have "pss[i := []] = pss" using e by (metis list_update_id)
  then show thesis using that [OF z] rs rn(2) i by (simp add: s'_def setPage_def pagesFrame_def)
qed

text \<open>Changes of headers, nonces and barrier marks of empty pages.\<close>

definition roomFrame :: "shard \<Rightarrow> shard \<Rightarrow> bool" where
  "roomFrame s s' = (pagesFrame s s' \<and> sh_tab s' = sh_tab s \<and> sh_writeSeq s' = sh_writeSeq s \<and> sh_genCounter s' = sh_genCounter s \<and>
     hashMap s' = hashMap s \<and> (\<forall>j < length (sh_pages s). FreeTail (sh_pages s' ! j) = FreeTail (sh_pages s ! j)))"

lemma roomFrame_refl [simp]: "roomFrame s s"
  by (simp add: roomFrame_def)

lemma roomFrame_trans: "roomFrame s s1 \<Longrightarrow> roomFrame s1 s2 \<Longrightarrow> roomFrame s s2"
  using pagesFrame_trans by (auto simp: roomFrame_def) (simp add: pagesFrame_def)

lemma clearReuseBarrier_ok:
  assumes r: "shard_rep hk s pss" and i: "i < length (sh_pages s)" and e: "pss ! i = []"
  obtains s' ok where "clearReuseBarrierIfFlushableLocked env i s = (s', ok)" "shard_rep hk s' pss" "roomFrame s s'"
    "ok \<Longrightarrow> \<not> pg_reuseBarrierFailed (sh_pages s' ! i)" "\<And>j. j \<noteq> i \<Longrightarrow> sh_pages s' ! j = sh_pages s ! j"
proof -
  obtain s1 ok where z: "zeroDurableBoundsForReuseLocked env i s = (s1, ok)" "shard_rep hk s1 pss" "hashMap s1 = hashMap s"
    "pagesFrame s s1" "sh_tab s1 = sh_tab s" "sh_writeSeq s1 = sh_writeSeq s" "sh_genCounter s1 = sh_genCounter s"
    "FreeTail (sh_pages s1 ! i) = FreeTail (sh_pages s ! i)"
    "pg_reuseBarrierFailed (sh_pages s1 ! i) = pg_reuseBarrierFailed (sh_pages s ! i)"
    "\<And>j. j \<noteq> i \<Longrightarrow> sh_pages s1 ! j = sh_pages s ! j"
    by (rule zeroDurable_ok [OF r i e, of env]) blast
  have rf: "roomFrame s s1" using z(3-8,10) unfolding roomFrame_def by metis
  show thesis
  proof (cases ok)
    case False
    then show thesis using that [of s1 False] z(1,2,10) rf by (simp add: clearReuseBarrierIfFlushableLocked_def)
  next
    case True
    let ?q = "(sh_pages s1 ! i)\<lparr>pg_reuseBarrierFailed := False\<rparr>"
    define s' where "s' = setPage i ?q s1"
    have i1: "i < length (sh_pages s1)" using i z(4) by (simp add: pagesFrame_def)
    have po: "page_ok s1 ?q []" using shard_repD(7) [OF z(2) i1] e by (auto simp: page_ok_def page_rep_def)
    have rs: "shard_rep hk s' (pss[i := []])" "hashMap s' = hashMap s1"
      using rep_setPage [OF z(2) i1 po, of s'] e by (simp_all add: s'_def setPage_def)
    have upd: "pss[i := []] = pss" using e by (metis list_update_id)
    have ft: "FreeTail (sh_pages s' ! j) = FreeTail (sh_pages s1 ! j)" for j
      using i1 by (cases "j = i") (simp_all add: s'_def setPage_def FreeTail_def)
    have "roomFrame s1 s'" using rs(2) ft by (simp add: roomFrame_def s'_def pagesFrame_def setPage_def)
    moreover have "clearReuseBarrierIfFlushableLocked env i s = (s', True)"
      using z(1) True by (simp add: clearReuseBarrierIfFlushableLocked_def s'_def)
    moreover have "\<not> pg_reuseBarrierFailed (sh_pages s' ! i)" "\<And>j. j \<noteq> i \<Longrightarrow> sh_pages s' ! j = sh_pages s1 ! j"
      using i1 by (simp_all add: s'_def setPage_def)
    ultimately show thesis using that rs(1) upd roomFrame_trans [OF rf] z(10) by metis
  qed
qed

definition roomResult :: "(bytes \<Rightarrow> u64) \<Rightarrow> (nat \<times> frame) list list \<Rightarrow> nat \<Rightarrow> nat list \<Rightarrow> shard \<Rightarrow> shard \<times> nat option \<Rightarrow> bool" where
  "roomResult hk pss need is s x = (shard_rep hk (fst x) pss \<and> roomFrame s (fst x) \<and>
     (\<forall>idx. snd x = Some idx \<longrightarrow> idx < length (sh_pages (fst x)) \<and> int need \<le> FreeTail (sh_pages (fst x) ! idx) \<and>
        \<not> pg_reuseBarrierFailed (sh_pages (fst x) ! idx)) \<and>
     (snd x = None \<longrightarrow> (\<forall>i \<in> set is. int need \<le> FreeTail (sh_pages s ! i) \<longrightarrow> pg_reuseBarrierFailed (sh_pages s ! i))))"

lemma firstRoomFrom_ok:
  assumes "shard_rep hk s pss" "set is \<subseteq> {..<length (sh_pages s)}"
  shows "roomResult hk pss need is s (firstRoomFrom env is need s)"
  using assms
proof (induction "is" arbitrary: s)
  case Nil
  then show ?case by (simp add: roomResult_def)
next
  case (Cons i "is")
  let ?p = "sh_pages s ! i"
  have i: "i < length (sh_pages s)" and sub: "set is \<subseteq> {..<length (sh_pages s)}" using Cons(3) by simp_all
  have nr: "\<not> pg_retired ?p" using shard_repD(7) [OF Cons(2) i] by (simp add: page_ok_def)
  show ?case
  proof (cases "FreeTail ?p < int need")
    case True
    have "firstRoomFrom env (i # is) need s = firstRoomFrom env is need s" using True nr by (simp add: Let_def)
    then show ?thesis using Cons(1) [OF Cons(2) sub] True by (simp add: roomResult_def)
  next
    case room: False
    show ?thesis
    proof (cases "pg_reuseBarrierFailed ?p")
      case False
      have "firstRoomFrom env (i # is) need s = (s, Some i)" using room nr False by (simp add: Let_def)
      then show ?thesis using room False i Cons(2) by (simp add: roomResult_def)
    next
      case True
      then have e: "pss ! i = []" using shard_repD(7) [OF Cons(2) i] by (simp add: page_ok_def)
      obtain s1 ok where c: "clearReuseBarrierIfFlushableLocked env i s = (s1, ok)" "shard_rep hk s1 pss" "roomFrame s s1"
        "ok \<Longrightarrow> \<not> pg_reuseBarrierFailed (sh_pages s1 ! i)" "\<And>j. j \<noteq> i \<Longrightarrow> sh_pages s1 ! j = sh_pages s ! j"
        by (rule clearReuseBarrier_ok [OF Cons(2) i e, of env]) blast
      have len: "length (sh_pages s1) = length (sh_pages s)" using c(3) by (simp add: roomFrame_def pagesFrame_def)
      show ?thesis
      proof (cases ok)
        case ok: True
        have "firstRoomFrom env (i # is) need s = (s1, Some i)" using room nr True c(1) ok by (simp add: Let_def)
        moreover have "FreeTail (sh_pages s1 ! i) = FreeTail ?p" using c(3) i by (simp add: roomFrame_def)
        ultimately show ?thesis using c(2-4) ok room i len by (simp add: roomResult_def)
      next
        case notok: False
        have f: "firstRoomFrom env (i # is) need s = firstRoomFrom env is need s1" using room nr True c(1) notok by (simp add: Let_def)
        have "set is \<subseteq> {..<length (sh_pages s1)}" using sub len by simp
        note ih = Cons(1) [OF c(2) this]
        have "pg_reuseBarrierFailed (sh_pages s ! j)"
          if "snd (firstRoomFrom env is need s1) = None" "j \<in> set (i # is)" "int need \<le> FreeTail (sh_pages s ! j)" for j
          using that True ih c(5) [of j] by (cases "j = i") (auto simp: roomResult_def)
        then show ?thesis unfolding f using ih roomFrame_trans [OF c(3)] by (simp add: roomResult_def)
      qed
    qed
  qed
qed

section \<open>Draining a mapped page\<close>

lemma drainLoop_Nil: "page_Empty (sh_pages s ! v) \<Longrightarrow> drainLoop env v s = Some (s, None)"
  by (simp add: drainLoop.simps Let_def)

lemma drainLoop_ok:
  assumes "shard_rep (ce_hash env) s pss" "v < length (sh_pages s)" "sh_isMmap s" "pss ! v = ps"
  shows "\<exists>s'. drainLoop env v s = Some (s', None) \<and> shard_rep (ce_hash env) s' (pss[v := []]) \<and> hashMap s' \<subseteq>\<^sub>m hashMap s \<and>
    pagesFrame s s' \<and> sh_writeSeq s' = sh_writeSeq s \<and>
    pg_reuseBarrierFailed (sh_pages s' ! v) = pg_reuseBarrierFailed (sh_pages s ! v) \<and>
    (ps \<noteq> [] \<longrightarrow> FreeTail (sh_pages s' ! v) = int (maxEntryBytes s))"
  using assms
proof (induction ps arbitrary: s pss)
  case Nil
  have "page_Empty (sh_pages s ! v)" using page_rep_Empty [OF shard_repD(8) [OF Nil(1,2)]] Nil(4) by simp
  then have "drainLoop env v s = Some (s, None)" by (simp add: drainLoop.simps Let_def)
  moreover have "pss[v := []] = pss" using Nil(4) by (metis list_update_id)
  ultimately show ?case using Nil(1) by simp
next
  case (Cons x ps)
  let ?p = "sh_pages s ! v"
  obtain off f where x: "x = (off, f)" by (cases x)
  have po: "page_ok s ?p ((off, f) # ps)" using shard_repD(7) [OF Cons(2,3)] Cons(5) x by simp
  then have pr: "page_rep ?p ((off, f) # ps)" and mm: "pg_mmap ?p" using Cons(4) by (simp_all add: page_ok_def)
  note adv = page_rep_advance [OF pr]
  have mem: "(off, f) \<in> set (pss ! v)" using Cons(5) x by simp
  note at = decode_at [OF shard_repD(8) [OF Cons(2,3)] mem]
  obtain s1 where s1: "dropIfCurrent env (fr_key f) (makeSlabRef (of_nat v) (pg_gen ?p) (of_nat off)) s = Some s1"
    "shard_rep (ce_hash env) s1 pss" "idxOnly s s1" "tabMap (sh_tab s1) \<subseteq>\<^sub>m tabMap (sh_tab s)"
    "\<And>h. tabMap (sh_tab s1) h \<noteq> Some (makeSlabRef (of_nat v) (pg_gen ?p) (of_nat off))"
    by (rule dropIfCurrent_ok [OF Cons(2,3) mem refl]) blast
  have pg: "sh_pages s1 = sh_pages s" "sh_cfg s1 = sh_cfg s" "sh_isMmap s1 = sh_isMmap s" using s1(3) by (simp_all add: idxOnly_def)
  let ?p1 = "if pg_head ?p + frLen f \<ge> pg_tail ?p then ?p\<lparr>pg_head := 0, pg_tail := 0\<rparr> else ?p\<lparr>pg_head := pg_head ?p + frLen f\<rparr>"
  define s2 where "s2 = setPage v ?p1 s1"
  have v1: "v < length (sh_pages s1)" using Cons(3) pg by simp
  have po1: "page_ok s1 ?p1 ps" using po adv pg mm by (auto simp: page_ok_def maxEntryBytes_def)
  have kept: "pg_gen ?p1 = pg_gen (sh_pages s1 ! v) \<and> (o', g) \<in> set ps"
    if "tabMap (sh_tab s1) h = Some ref" "located (ce_hash env) s1 pss h ref v o' g" for h ref o' g
  proof -
    have "(o', g) \<in> set ((off, f) # ps)" "ref = makeSlabRef (of_nat v) (pg_gen ?p) (of_nat o')"
      using that(2) Cons(5) x pg by (auto simp: located_def)
    then show ?thesis using s1(5) [of h] that(1) pg by auto
  qed
  have rs: "shard_rep (ce_hash env) s2 (pss[v := ps])" "hashMap s2 = hashMap s1"
    using rep_setPage_kept [where s' = s2, OF s1(2) v1 po1 kept] by (simp_all add: s2_def setPage_def)
  have ne: "\<not> page_Empty ?p" using page_rep_Empty [OF pr] by simp
  have bounds: "\<not> (pg_tail ?p < pg_head ?p \<or> pg_tail ?p > length (page_entries ?p))"
    using pr framed_le by (fastforce simp: page_rep_def)
  have step: "drainLoop env v s = drainLoop env v s2"
    using ne bounds at(4) [OF mm] adv(1) at(5) s1(1) by (simp add: drainLoop.simps [of env v s] Let_def s2_def)
  have fr2: "pagesFrame s s2" "sh_writeSeq s2 = sh_writeSeq s" using s1(3) by (simp_all add: pagesFrame_def idxOnly_def s2_def setPage_def)
  have p2: "sh_pages s2 ! v = ?p1" using v1 by (simp add: s2_def setPage_def)
  have v2: "v < length (sh_pages s2)" "sh_isMmap s2" "(pss[v := ps]) ! v = ps"
    using fr2 Cons(3,4) shard_repD(4) [OF Cons(2)] by (simp_all add: pagesFrame_def)
  have emp: "drainLoop env v s2 = Some (s2, None)" if "ps = []"
    using page_rep_Empty [OF shard_repD(8) [OF rs(1) v2(1)]] v2(3) that by (intro drainLoop_Nil) simp
  from Cons(1) [OF rs(1) v2] obtain s' where s': "drainLoop env v s2 = Some (s', None)" "shard_rep (ce_hash env) s' (pss[v := []])"
    "hashMap s' \<subseteq>\<^sub>m hashMap s2" "pagesFrame s2 s'" "sh_writeSeq s' = sh_writeSeq s2"
    "pg_reuseBarrierFailed (sh_pages s' ! v) = pg_reuseBarrierFailed (sh_pages s2 ! v)"
    "ps \<noteq> [] \<Longrightarrow> FreeTail (sh_pages s' ! v) = int (maxEntryBytes s2)"
    by auto
  have s'8: "s' = s2" if "ps = []" using s'(1) emp [OF that] by simp
  have hm: "hashMap s1 \<subseteq>\<^sub>m hashMap s" using rep_shrink(3) [OF Cons(2) pg(2,3,1) shard_repD(5,6) [OF s1(2)] s1(4)] .
  have "FreeTail (sh_pages s' ! v) = int (maxEntryBytes s)"
  proof (cases "ps = []")
    case True
    then have "?p1 = ?p\<lparr>pg_head := 0, pg_tail := 0\<rparr>" using adv(3) by simp
    then show ?thesis using s'8 [OF True] p2 po by (simp add: FreeTail_def page_ok_def)
  next
    case False
    then show ?thesis using s'(7) maxEntryBytes_frame [OF fr2(1)] by simp
  qed
  moreover have "pg_reuseBarrierFailed (sh_pages s' ! v) = pg_reuseBarrierFailed ?p" using s'(6) p2 by simp
  moreover have "hashMap s' \<subseteq>\<^sub>m hashMap s" using s'(3) rs(2) hm map_le_trans by metis
  ultimately show ?case using step s'(1,2,5) pagesFrame_trans [OF fr2(1) s'(4)] fr2(2) by auto
qed

lemma drainPage_ok:
  assumes r: "shard_rep (ce_hash env) s pss" and v: "v < length (sh_pages s)" and mm: "sh_isMmap s" and ne: "pss ! v \<noteq> []"
  obtains s' ok where "drainPageLocked env v s = Some (s', ok)" "shard_rep (ce_hash env) s' (pss[v := []])" "hashMap s' \<subseteq>\<^sub>m hashMap s"
    "pagesFrame s s'" "sh_writeSeq s' = sh_writeSeq s"
    "ok \<Longrightarrow> FreeTail (sh_pages s' ! v) = int (maxEntryBytes s) \<and> \<not> pg_reuseBarrierFailed (sh_pages s' ! v)"
proof -
  obtain s1 where s1: "drainLoop env v s = Some (s1, None)" "shard_rep (ce_hash env) s1 (pss[v := []])" "hashMap s1 \<subseteq>\<^sub>m hashMap s"
    "pagesFrame s s1" "sh_writeSeq s1 = sh_writeSeq s" "pg_reuseBarrierFailed (sh_pages s1 ! v) = pg_reuseBarrierFailed (sh_pages s ! v)"
    "FreeTail (sh_pages s1 ! v) = int (maxEntryBytes s)"
    using drainLoop_ok [OF r v mm refl] ne by blast
  have nb: "\<not> pg_reuseBarrierFailed (sh_pages s ! v)" using shard_repD(7) [OF r v] ne by (auto simp: page_ok_def)
  have v1: "v < length (sh_pages s1)" "(pss[v := []]) ! v = []" using v s1(4) shard_repD(4) [OF r] by (simp_all add: pagesFrame_def)
  obtain s2 ok where z: "zeroDurableBoundsForReuseLocked env v s1 = (s2, ok)" "shard_rep (ce_hash env) s2 (pss[v := []])" "hashMap s2 = hashMap s1"
    "pagesFrame s1 s2" "sh_tab s2 = sh_tab s1" "sh_writeSeq s2 = sh_writeSeq s1" "sh_genCounter s2 = sh_genCounter s1"
    "FreeTail (sh_pages s2 ! v) = FreeTail (sh_pages s1 ! v)"
    "pg_reuseBarrierFailed (sh_pages s2 ! v) = pg_reuseBarrierFailed (sh_pages s1 ! v)"
    "\<And>j. j \<noteq> v \<Longrightarrow> sh_pages s2 ! j = sh_pages s1 ! j"
    by (rule zeroDurable_ok [OF s1(2) v1, of env]) blast
  show thesis
  proof (cases ok)
    case True
    have "drainPageLocked env v s = Some (s2, True)" using s1(1) z(1) True by (simp add: drainPageLocked_def)
    then show thesis using that z(2,3,4,6,8,9) s1(3-7) nb pagesFrame_trans [OF s1(4) z(4)] by metis
  next
    case False
    let ?q = "(sh_pages s2 ! v)\<lparr>pg_reuseBarrierFailed := True\<rparr>"
    define s' where "s' = setPage v ?q s2"
    have v2: "v < length (sh_pages s2)" using v1 z(4) by (simp add: pagesFrame_def)
    have "sh_isMmap s2" using mm pagesFrame_trans [OF s1(4) z(4)] by (simp add: pagesFrame_def)
    then have po: "page_ok s2 ?q []" using shard_repD(7) [OF z(2) v2] v1(2) by (simp add: page_ok_def page_rep_def)
    have rs: "shard_rep (ce_hash env) s' (pss[v := [], v := []])" "hashMap s' = hashMap s2"
      using rep_setPage [OF z(2) v2 po, of s'] v1(2) by (simp_all add: s'_def setPage_def)
    have "drainPageLocked env v s = Some (s', False)" using s1(1) z(1) False by (simp add: drainPageLocked_def s'_def)
    moreover have "pagesFrame s s'" using pagesFrame_trans [OF s1(4) z(4)] by (simp add: pagesFrame_def s'_def setPage_def)
    moreover have "sh_writeSeq s' = sh_writeSeq s" using s1(5) z(6) by (simp add: s'_def setPage_def)
    ultimately show thesis using that [of s' False] rs s1(3) z(3) by simp
  qed
qed

section \<open>Storing an entry\<close>

lemma meta_live [simp]: "\<not> metaIsTombstone (makeMeta seq False)"
  by (simp add: metaIsTombstone_def makeMeta_def entrySeqMask_def entryFlagTombstone_def and.assoc)

text \<open>A frame appended to a page, and the index pointed at it.\<close>

lemma rep_append_point:
  assumes r: "shard_rep hk s pss" and i: "i < length (sh_pages s)" and p: "page_ok s p (pss ! i @ [(off, f)])"
    and gen: "pg_gen p = pg_gen (sh_pages s ! i)" and f: "hk (fr_key f) = h" "\<not> metaIsTombstone (fr_meta f)"
    and t: "tab_inv t" "\<not> overThreshold t"
      "tabMap t = (tabMap (sh_tab s))(h \<mapsto> makeSlabRef (of_nat i) (pg_gen (sh_pages s ! i)) (of_nat off))"
    and s': "sh_cfg s' = sh_cfg s" "sh_isMmap s' = sh_isMmap s" "sh_tab s' = t" "sh_pages s' = (sh_pages s)[i := p]"
  shows "shard_rep hk s' (pss[i := pss ! i @ [(off, f)]])" "hashMap s' = (hashMap s)(h \<mapsto> (fr_key f, fr_val f, fr_exp f))"
proof -
  let ?pss = "pss[i := pss ! i @ [(off, f)]]"
  define s1 where "s1 = s'\<lparr>sh_tab := sh_tab s\<rparr>"
  have r1: "shard_rep hk s1 ?pss" "hashMap s1 = hashMap s"
    using rep_setPage [OF r i p, of s1] gen s' by (auto simp: s1_def)
  have same: "sh_pages s1 = sh_pages s'" "sh_tab s1 = sh_tab s" by (simp_all add: s1_def)
  have loc: "located hk s' ?pss = located hk s1 ?pss" by (simp add: located_def same fun_eq_iff)
  let ?ref = "makeSlabRef (of_nat i) (pg_gen (sh_pages s ! i)) (of_nat off)"
  have new: "located hk s' ?pss h ?ref i off f"
    using i f gen s'(4) shard_repD(4) [OF r] by (simp add: located_def)
  have ix: "\<exists>j o' g. located hk s' ?pss h' ref j o' g" if "tabMap t h' = Some ref" for h' ref
  proof (cases "h' = h")
    case True
    then show ?thesis using new that t(3) by auto
  next
    case False
    then have "tabMap (sh_tab s1) h' = Some ref" using that t(3) same by simp
    then show ?thesis using index_refD [OF r1(1)] loc by metis
  qed
  have "cfg_ok s'" "pages_ok s' ?pss" using shard_repD(1,2) [OF r1(1)] s' page_ok_frame [of s1 s']
    by (simp_all add: cfg_ok_def pages_ok_def s1_def)
  then show r': "shard_rep hk s' ?pss" using ix t s'(3) by (auto simp: shard_rep_def index_ok_def)
  show "hashMap s' = (hashMap s)(h \<mapsto> (fr_key f, fr_val f, fr_exp f))"
  proof
    fix h'
    show "hashMap s' h' = ((hashMap s)(h \<mapsto> (fr_key f, fr_val f, fr_exp f))) h'"
    proof (cases "h' = h")
      case True
      then show ?thesis using hashMap_Some [OF r' _ new] s'(3) t(3) by simp
    next
      case False
      then have "tabMap (sh_tab s') h' = tabMap (sh_tab s1) h'" using t(3) s'(3) same by simp
      then have "hashMap s' h' = hashMap s1 h'" unfolding hashMap_def same(1) by simp
      then show ?thesis using False r1(2) by simp
    qed
  qed
qed

end
