(* ===== verification/CacheEvict.thy ===== *)
theory CacheEvict
  imports CacheInv
begin

text \<open>
  Making room in a cache shard: relocation, both forms of eviction and the choice of a page keep the
  invariant, always return, lose entries only by eviction, and hand back a page with room.
\<close>

section \<open>Appending to a page\<close>

text \<open>A page the writer may append \<open>need\<close> bytes to.\<close>

definition usable :: "nat \<Rightarrow> shard \<Rightarrow> nat \<Rightarrow> bool" where
  "usable need s idx = (idx < length (sh_pages s) \<and> int need \<le> FreeTail (sh_pages s ! idx) \<and> \<not> pg_reuseBarrierFailed (sh_pages s ! idx))"

lemma page_Write_ok:
  assumes r: "shard_rep hk s pss" and u: "usable (entrySpanExact (length key) (length value)) s i" and fit: "fits key value"
  obtains p sl where "page_Write key value e m (sh_pages s ! i) =
      Inr (p, of_nat (pg_tail (sh_pages s ! i)), of_nat (entrySpanExact (length key) (length value)))"
    "page_ok s p (pss ! i @ [(pg_tail (sh_pages s ! i), \<lparr>fr_slot = sl, fr_key = key, fr_val = value, fr_exp = e, fr_meta = m\<rparr>)])"
    "pg_gen p = pg_gen (sh_pages s ! i)" "FreeTail p = FreeTail (sh_pages s ! i) - int (entrySpanExact (length key) (length value))"
    "\<not> pg_reuseBarrierFailed p"
proof -
  let ?d = "sh_pages s ! i" and ?n = "entrySpanExact (length key) (length value)"
  have i: "i < length (sh_pages s)" and rm: "int ?n \<le> FreeTail ?d" and nb: "\<not> pg_reuseBarrierFailed ?d" using u by (simp_all add: usable_def)
  obtain p sl where W: "page_Write key value e m ?d = Inr (p, of_nat (pg_tail ?d), of_nat ?n)"
    "page_rep p (pss ! i @ [(pg_tail ?d, \<lparr>fr_slot = sl, fr_key = key, fr_val = value, fr_exp = e, fr_meta = m\<rparr>)])"
    "sameLife ?d p" "pg_head p = pg_head ?d" "pg_tail p = pg_tail ?d + ?n"
    by (rule page_Write_rep [OF shard_repD(8) [OF r i] fit rm]) blast
  have "page_ok s ?d (pss ! i)" by (rule shard_repD(7) [OF r i])
  then have "page_ok s p (pss ! i @ [(pg_tail ?d, \<lparr>fr_slot = sl, fr_key = key, fr_val = value, fr_exp = e, fr_meta = m\<rparr>)])"
    using W(2-4) nb by (auto simp: page_ok_def sameLife_def)
  then show thesis using that [OF W(1)] W(3,5) nb by (simp add: sameLife_def FreeTail_def)
qed

section \<open>Relocation\<close>

lemma takeVisited_correct:
  assumes "tab_inv t" "holds t h (unat slot)" "takeVisited slot (tagFor h) t = (t', taken)"
  shows "tab_inv t'" "tabMap t' = tabMap t" "holds t' = holds t" "slots t' = slots t" "it_live t' = it_live t" "it_tomb t' = it_tomb t"
  using assms mark_correct [OF assms(1,2), of "tagFor h"] by (auto simp: takeVisited_def split: if_splits)

text \<open>Repointing the slot of an indexed hash leaves the fill of the table alone.\<close>

lemma upsert_repoint:
  assumes "tab_inv t" "\<not> overThreshold t" "holds t h i"
  obtains t' slot where "upsert h ref t = Some (t', slot, False)" "tab_inv t'" "\<not> overThreshold t'" "tabMap t' = (tabMap t)(h \<mapsto> ref)"
  using that [OF upsert_present [OF assms(1,3), of ref] repoint_inv(1) [OF assms(1,3), of ref] _ repoint_inv(2) [OF assms(1,3), of ref]]
    assms(2) by (simp add: overThreshold_def)

definition relocated :: "(bytes \<Rightarrow> u64) \<Rightarrow> nat \<Rightarrow> nat \<Rightarrow> shard \<Rightarrow> (nat \<times> frame) list list \<Rightarrow> shard \<Rightarrow> (nat \<times> frame) list list \<Rightarrow> bool" where
  "relocated hk freed moved s pss s' pss' = (shard_rep hk s' pss' \<and> hashMap s' = hashMap s \<and> pagesFrame s s' \<and>
     (\<forall>j. j \<noteq> freed \<longrightarrow> sh_pages s' ! j = sh_pages s ! j \<and> pss' ! j = pss ! j) \<and>
     FreeTail (sh_pages s' ! freed) = FreeTail (sh_pages s ! freed) - int moved \<and>
     pg_reuseBarrierFailed (sh_pages s' ! freed) = pg_reuseBarrierFailed (sh_pages s ! freed))"

lemma relocated_refl [simp]: "shard_rep hk s pss \<Longrightarrow> relocated hk freed 0 s pss s pss"
  by (simp add: relocated_def)

lemma relocated_trans:
  "relocated hk freed a s pss s1 pss1 \<Longrightarrow> relocated hk freed b s1 pss1 s2 pss2 \<Longrightarrow> relocated hk freed (a + b) s pss s2 pss2"
  using pagesFrame_trans by (auto simp: relocated_def)

lemma rep_marked:
  assumes r: "shard_rep hk s pss" and t: "tab_inv t" "tabMap t = tabMap (sh_tab s)" "slots t = slots (sh_tab s)"
    "it_live t = it_live (sh_tab s)" "it_tomb t = it_tomb (sh_tab s)"
  shows "shard_rep hk (s\<lparr>sh_tab := t\<rparr>) pss" "hashMap (s\<lparr>sh_tab := t\<rparr>) = hashMap s"
proof -
  have o: "\<not> overThreshold t" using shard_repD(6) [OF r] t(3-5) by (simp add: overThreshold_def slots_def)
  show "shard_rep hk (s\<lparr>sh_tab := t\<rparr>) pss"
    using rep_shrink(1) [OF r, of "s\<lparr>sh_tab := t\<rparr>"] t(1,2) o by simp
  show "hashMap (s\<lparr>sh_tab := t\<rparr>) = hashMap s" using t(2) by (intro hashMap_cong) simp_all
qed

lemma relocateEntry_ok:
  assumes r: "shard_rep (ce_hash env) s pss" and fr: "freed < length (sh_pages s)" and src: "src < length (sh_pages s)" "src \<noteq> freed"
    and f: "(off, f) \<in> set (pss ! src)" and bar: "\<not> pg_reuseBarrierFailed (sh_pages s ! freed)"
    and room: "budget \<le> FreeTail (sh_pages s ! freed) + int spent"
  obtains s' pss' moved where
    "relocateEntry env freed budget spent (fr_key f) (fr_val f) (fr_exp f)
       (makeSlabRef (of_nat src) (pg_gen (sh_pages s ! src)) (of_nat off)) s = Some (s', Some moved)"
    "relocated (ce_hash env) freed (if moved then frLen f else 0) s pss s' pss'" "moved \<Longrightarrow> int (spent + frLen f) \<le> budget"
proof -
  let ?hk = "ce_hash env" and ?h = "ce_hash env (fr_key f)"
  let ?ref = "makeSlabRef (of_nat src) (pg_gen (sh_pages s ! src)) (of_nat off)"
  let ?size = "entrySpan (length (fr_key f)) (length (fr_val f)) True"
  have size: "?size = frLen f" by (simp add: entrySpan_def classOf_def frLen_def)
  have fok: "frOk f" using decode_at(9) [OF shard_repD(8) [OF r src(1)] f] .
  show thesis using r
  proof (cases rule: rep_find [of _ _ _ ?h])
    case absent
    then show thesis using that [of s False pss] r by (simp add: relocateEntry_def Let_def)
  next
    case (present slot cur j o' g)
    show thesis
    proof (cases "cur \<noteq> ?ref \<or> isExpired (fr_exp f) (ce_now env)")
      case True
      then show thesis using that [of s False pss] r present(1) by (auto simp: relocateEntry_def Let_def)
    next
      case cur: False
      obtain t1 taken where tk: "(if sh_sieve s then takeVisited slot (tagFor ?h) (sh_tab s) else (sh_tab s, True)) = (t1, taken)"
        by (cases "if sh_sieve s then takeVisited slot (tagFor ?h) (sh_tab s) else (sh_tab s, True)")
      have t1: "tab_inv t1" "tabMap t1 = tabMap (sh_tab s)" "holds t1 = holds (sh_tab s)" "slots t1 = slots (sh_tab s)"
        "it_live t1 = it_live (sh_tab s)" "it_tomb t1 = it_tomb (sh_tab s)"
        using takeVisited_correct [OF shard_repD(5) [OF r] present(3), of t1 taken] tk shard_repD(5) [OF r]
        by (auto split: if_splits)
      let ?s1 = "s\<lparr>sh_tab := t1\<rparr>"
      have r1: "shard_rep ?hk ?s1 pss" "hashMap ?s1 = hashMap s" using rep_marked [OF r t1(1,2,4,5,6)] by simp_all
      have stay: "relocated ?hk freed 0 s pss ?s1 pss" using r1 by (simp add: relocated_def pagesFrame_def)
      show thesis
      proof (cases "\<not> taken \<or> int (spent + frLen f) > budget")
        case True
        then show thesis using that [of ?s1 False pss] stay present(1) cur tk size by (auto simp: relocateEntry_def Let_def)
      next
        case False
        let ?dst = "sh_pages s ! freed" and ?m = "makeMeta (sh_writeSeq s + 1) False"
        have us: "usable (entrySpanExact (length (fr_key f)) (length (fr_val f))) ?s1 freed"
          using False room fr bar by (simp add: usable_def frLen_def)
        have fit: "fits (fr_key f) (fr_val f)" using fok by (simp add: frOk_def)
        obtain p' sl where W: "page_Write (fr_key f) (fr_val f) (fr_exp f) ?m ?dst =
            Inr (p', of_nat (pg_tail ?dst), of_nat (entrySpanExact (length (fr_key f)) (length (fr_val f))))"
          "page_ok ?s1 p' (pss ! freed @ [(pg_tail ?dst, \<lparr>fr_slot = sl, fr_key = fr_key f, fr_val = fr_val f, fr_exp = fr_exp f, fr_meta = ?m\<rparr>)])"
          "pg_gen p' = pg_gen ?dst" "FreeTail p' = FreeTail ?dst - int (frLen f)" "\<not> pg_reuseBarrierFailed p'"
          by (rule page_Write_ok [OF r1(1) us fit, of "fr_exp f" ?m]) (simp add: frLen_def)
        let ?f' = "\<lparr>fr_slot = sl, fr_key = fr_key f, fr_val = fr_val f, fr_exp = fr_exp f, fr_meta = ?m\<rparr>"
        note po' = W(2) and gen = W(3)
        have ov: "\<not> overThreshold t1" using shard_repD(6) [OF r1(1)] by simp
        have hd: "holds t1 ?h (unat slot)" using present(3) t1(3) by simp
        obtain t2 slot2 where u: "upsert ?h (makeSlabRef (of_nat freed) (pg_gen ?dst) (of_nat (pg_tail ?dst))) t1 = Some (t2, slot2, False)"
          "tab_inv t2" "\<not> overThreshold t2" "tabMap t2 = (tabMap t1)(?h \<mapsto> makeSlabRef (of_nat freed) (pg_gen ?dst) (of_nat (pg_tail ?dst)))"
          by (rule upsert_repoint [OF t1(1) ov hd]) blast
        let ?pss = "pss[freed := pss ! freed @ [(pg_tail ?dst, ?f')]]"
        define s' where "s' = (setPage freed p' ?s1)\<lparr>sh_writeSeq := sh_writeSeq s + 1, sh_tab := t2\<rparr>"
        have R: "shard_rep ?hk s' ?pss" "hashMap s' = (hashMap ?s1)(?h \<mapsto> (fr_key f, fr_val f, fr_exp f))"
          using rep_append_point [OF r1(1), of freed p' "pg_tail ?dst" ?f' ?h t2 s'] fr po' gen u by (simp_all add: s'_def setPage_def)
        have "g = f" using located_at(3) [OF r src(1) f] present(4) cur by auto
        then have "hashMap s ?h = Some (fr_key f, fr_val f, fr_exp f)" using hashMap_Some [OF r present(2,4)] by simp
        then have H: "hashMap s' = hashMap s" using R(2) r1(2) by (simp add: fun_upd_idem)
        have E: "relocateEntry env freed budget spent (fr_key f) (fr_val f) (fr_exp f) ?ref s = Some (s', Some True)"
          using present(1) cur tk False size W(1) gen u(1) by (auto simp: relocateEntry_def Let_def s'_def)
        have "FreeTail (sh_pages s' ! freed) = FreeTail ?dst - int (frLen f)"
          using fr W(4) by (simp add: s'_def setPage_def)
        moreover have "pg_reuseBarrierFailed (sh_pages s' ! freed) = pg_reuseBarrierFailed ?dst"
          using fr W(5) bar by (simp add: s'_def setPage_def)
        ultimately have "relocated ?hk freed (frLen f) s pss s' ?pss"
          using R(1) H by (simp add: relocated_def pagesFrame_def s'_def setPage_def)
        then show thesis using that [OF E, of ?pss] False by simp
      qed
    qed
  qed
qed

lemma relocateWalk_ok:
  assumes "shard_rep (ce_hash env) s pss" "freed < length (sh_pages s)" "src < length (sh_pages s)" "src \<noteq> freed"
    "pss ! src = xs @ rest" "framed (page_entries (sh_pages s ! src)) (pg_head (sh_pages s ! src)) xs cursor"
    "\<not> pg_reuseBarrierFailed (sh_pages s ! freed)" "budget \<le> FreeTail (sh_pages s ! freed) + int spent"
  shows "\<exists>s' pss' n. relocateWalk env src freed (pg_gen (sh_pages s ! src)) (page_entries (sh_pages s ! src)) (pg_tail (sh_pages s ! src))
      budget cursor spent s = Some (s', spent + n) \<and> relocated (ce_hash env) freed n s pss s' pss' \<and> (n = 0 \<or> int (spent + n) \<le> budget)"
  using assms
proof (induction rest arbitrary: s pss xs cursor spent)
  case Nil
  have "cursor = pg_tail (sh_pages s ! src)"
    using shard_repD(8) [OF Nil(1,3)] Nil(5,6) framed_end by (auto simp: page_rep_def)
  then show ?case using relocated_refl [OF Nil(1)] by (intro exI [of _ s] exI [of _ pss] exI [of _ 0]) (simp add: relocateWalk.simps)
next
  case (Cons x rest)
  let ?p = "sh_pages s ! src"
  obtain off f where x: "x = (off, f)" by (cases x)
  have pr: "page_rep ?p (xs @ (off, f) # rest)" using shard_repD(8) [OF Cons(2,4)] Cons(6) x by simp
  have off: "off = cursor" using pr Cons(7) framed_end unfolding page_rep_def framed_append by auto
  have mem: "(off, f) \<in> set (pss ! src)" using Cons(6) x by simp
  note at = decode_at [OF shard_repD(8) [OF Cons(2,4)] mem]
  have lt: "cursor < pg_tail ?p" using at(6) frLen_pos [of f] off by simp
  show ?case
  proof (cases "budget - int spent < int entryHeaderSize")
    case True
    then show ?thesis using lt at(1) off relocated_refl [OF Cons(2)]
      by (intro exI [of _ s] exI [of _ pss] exI [of _ 0]) (simp add: relocateWalk.simps [of _ _ _ _ _ _ _ cursor])
  next
    case False
    obtain s1 pss1 moved where e: "relocateEntry env freed budget spent (fr_key f) (fr_val f) (fr_exp f)
        (makeSlabRef (of_nat src) (pg_gen ?p) (of_nat off)) s = Some (s1, Some moved)"
      "relocated (ce_hash env) freed (if moved then frLen f else 0) s pss s1 pss1" "moved \<Longrightarrow> int (spent + frLen f) \<le> budget"
      by (rule relocateEntry_ok [OF Cons(2-5) mem Cons(8,9)]) blast
    let ?n = "if moved then frLen f else 0"
    have same: "sh_pages s1 ! src = ?p" "pss1 ! src = pss ! src" "length (sh_pages s1) = length (sh_pages s)"
      "shard_rep (ce_hash env) s1 pss1" "FreeTail (sh_pages s1 ! freed) = FreeTail (sh_pages s ! freed) - int ?n"
      "\<not> pg_reuseBarrierFailed (sh_pages s1 ! freed)"
      using e(2) Cons(5,8) by (auto simp: relocated_def pagesFrame_def)
    have fr: "framed (page_entries ?p) (pg_head ?p) (xs @ [(off, f)]) (off + frLen f)"
      using pr Cons(7) off unfolding page_rep_def framed_append by auto
    have step: "relocateWalk env src freed (pg_gen ?p) (page_entries ?p) (pg_tail ?p) budget cursor spent s =
        relocateWalk env src freed (pg_gen ?p) (page_entries ?p) (pg_tail ?p) budget (off + frLen f) (spent + ?n) s1"
      using lt at(1,5) off False e(1)
      by (simp add: relocateWalk.simps [of _ _ _ _ _ _ _ cursor] entrySpan_def classOf_def Let_def)
    have "\<exists>s' pss' n. relocateWalk env src freed (pg_gen ?p) (page_entries ?p) (pg_tail ?p) budget (off + frLen f) (spent + ?n) s1 =
        Some (s', spent + ?n + n) \<and> relocated (ce_hash env) freed n s1 pss1 s' pss' \<and> (n = 0 \<or> int (spent + ?n + n) \<le> budget)"
      using Cons(1) [of s1 pss1 "xs @ [(off, f)]" "off + frLen f" "spent + ?n"] same Cons(3-6,9) fr x by simp
    then obtain s' pss' n where ih: "relocateWalk env src freed (pg_gen ?p) (page_entries ?p) (pg_tail ?p) budget (off + frLen f) (spent + ?n) s1 =
        Some (s', spent + (?n + n))" "relocated (ce_hash env) freed n s1 pss1 s' pss'" "n = 0 \<or> int (spent + ?n + n) \<le> budget"
      by (auto simp: add.assoc)
    have "?n + n = 0 \<or> int (spent + (?n + n)) \<le> budget" using ih(3) e(3) by (cases moved) auto
    then show ?thesis using step ih(1) relocated_trans [OF e(2) ih(2)] by auto
  qed
qed

lemma nextNonEmptyPage_Some:
  assumes "nextNonEmptyPageLocked skip s = Some i"
  shows "i < length (sh_pages s)" "skip \<noteq> Some i" "\<not> page_Empty (sh_pages s ! i)"
proof -
  obtain k where k: "k < length (sh_pages s)" "i = (sh_nextVictim s + k) mod length (sh_pages s)"
    "skip \<noteq> Some i" "\<not> page_Empty (sh_pages s ! i)"
    using assms unfolding nextNonEmptyPageLocked_def Let_def find_Some_iff by auto
  show "i < length (sh_pages s)" unfolding k(2) using k(1) by (intro mod_less_divisor) linarith
  show "skip \<noteq> Some i" "\<not> page_Empty (sh_pages s ! i)" using k by simp_all
qed

lemma nextNonEmptyPage_None:
  assumes "nextNonEmptyPageLocked skip s = None" "i < length (sh_pages s)" "skip \<noteq> Some i"
  shows "page_Empty (sh_pages s ! i)"
proof -
  let ?n = "length (sh_pages s)"
  let ?b = "sh_nextVictim s mod ?n" and ?k = "(i + (?n - sh_nextVictim s mod ?n)) mod ?n"
  have b: "?b < ?n" using assms(2) by (intro mod_less_divisor) linarith
  have "(sh_nextVictim s + ?k) mod ?n = (?b + (i + (?n - ?b))) mod ?n" by (metis mod_add_left_eq mod_add_right_eq)
  also have "?b + (i + (?n - ?b)) = i + ?n" using b by linarith
  finally have e: "(sh_nextVictim s + ?k) mod ?n = i" using assms(2) by simp
  have "?k < ?n" using assms(2) by (intro mod_less_divisor) linarith
  then have "i \<in> set (map (\<lambda>off. (sh_nextVictim s + off) mod ?n) [0..<?n])"
    using e by (auto simp: image_iff intro!: bexI [of _ ?k])
  then show ?thesis using assms(1,3) unfolding nextNonEmptyPageLocked_def Let_def find_None_iff by blast
qed

lemma relocateIntoFreedPage_ok:
  assumes r: "shard_rep (ce_hash env) s pss" and fr: "freed < length (sh_pages s)"
    and bar: "\<not> pg_reuseBarrierFailed (sh_pages s ! freed)" and room: "int need \<le> FreeTail (sh_pages s ! freed)"
  obtains s' pss' where "relocateIntoFreedPageLocked env freed need s = Some s'" "shard_rep (ce_hash env) s' pss'"
    "hashMap s' = hashMap s" "pagesFrame s s'" "int need \<le> FreeTail (sh_pages s' ! freed)" "\<not> pg_reuseBarrierFailed (sh_pages s' ! freed)"
proof -
  let ?budget = "min (FreeTail (sh_pages s ! freed) - int need) (int (cc_PageSize (sh_cfg s) div relocateMaxBytesPerEvictionDivisor))"
  show thesis
  proof (cases "?budget \<le> 0 \<or> nextNonEmptyPageLocked (Some freed) s = None")
    case True
    then have "relocateIntoFreedPageLocked env freed need s = Some s" by (auto simp: relocateIntoFreedPageLocked_def Let_def)
    then show thesis using that r bar room by simp
  next
    case False
    then obtain src where n: "nextNonEmptyPageLocked (Some freed) s = Some src" by auto
    have src: "src < length (sh_pages s)" "src \<noteq> freed" using nextNonEmptyPage_Some [OF n] by auto
    let ?p = "sh_pages s ! src"
    have fm: "framed (page_entries ?p) (pg_head ?p) [] (pg_head ?p)" by simp
    have bd: "?budget \<le> FreeTail (sh_pages s ! freed) + int 0" by simp
    from relocateWalk_ok [OF r fr src _ fm bar bd, of "pss ! src"]
    obtain s1 pss1 m where w: "relocateWalk env src freed (pg_gen ?p) (page_entries ?p) (pg_tail ?p) ?budget (pg_head ?p) 0 s = Some (s1, m)"
      "relocated (ce_hash env) freed m s pss s1 pss1" "m = 0 \<or> int m \<le> ?budget" by auto
    have R: "shard_rep (ce_hash env) s1 pss1" "hashMap s1 = hashMap s" "pagesFrame s s1" "pss1 ! src = pss ! src"
      "FreeTail (sh_pages s1 ! freed) = FreeTail (sh_pages s ! freed) - int m" "\<not> pg_reuseBarrierFailed (sh_pages s1 ! freed)"
      using w(2) src(2) bar by (simp_all add: relocated_def)
    let ?p1 = "sh_pages s1 ! src"
    let ?q = "?p1\<lparr>pg_relocatedOut := pg_relocatedOut ?p1 + m\<rparr>"
    define s' where "s' = setPage src ?q s1"
    have i1: "src < length (sh_pages s1)" using src R(3) by (simp add: pagesFrame_def)
    have po: "page_ok s1 ?q (pss1 ! src)" using shard_repD(7) [OF R(1) i1] by (auto simp: page_ok_def page_rep_def macOk_def)
    have rs: "shard_rep (ce_hash env) s' (pss1[src := pss1 ! src])" "hashMap s' = hashMap s1"
      using rep_setPage [OF R(1) i1 po, of s'] by (simp_all add: s'_def setPage_def)
    have "relocateIntoFreedPageLocked env freed need s = Some s'"
      using False n w(1) by (simp add: relocateIntoFreedPageLocked_def Let_def s'_def del: min_le_iff_disj)
    moreover have "pagesFrame s s'" using pagesFrame_trans [OF R(3)] by (simp add: s'_def)
    moreover have "sh_pages s' ! freed = sh_pages s1 ! freed" using src by (simp add: s'_def setPage_def)
    moreover have "int need \<le> FreeTail (sh_pages s ! freed) - int m" using w(3) room by auto
    ultimately show thesis using that rs R by metis
  qed
qed

section \<open>Eviction\<close>

lemma evictVictim_ok:
  assumes r: "shard_rep (ce_hash env) s pss" and v: "v < length (sh_pages s)" and ne: "\<not> page_Empty (sh_pages s ! v)"
    and need: "need \<le> maxEntryBytes s"
  obtains s' ok pss' where "evictVictimLocked env v need s = Some (s', ok)" "shard_rep (ce_hash env) s' pss'"
    "hashMap s' \<subseteq>\<^sub>m hashMap s" "pagesFrame s s'" "\<not> sh_isMmap s \<Longrightarrow> ok"
    "ok \<Longrightarrow> int need \<le> FreeTail (sh_pages s' ! v) \<and> \<not> pg_reuseBarrierFailed (sh_pages s' ! v)"
proof -
  have pne: "pss ! v \<noteq> []" using ne page_rep_Empty [OF shard_repD(8) [OF r v]] by simp
  have "\<exists>s1 ok. (if sh_isMmap s then drainPageLocked env v s else map_option (\<lambda>s1. (s1, True)) (retirePageLocked env v s)) = Some (s1, ok) \<and>
      shard_rep (ce_hash env) s1 (pss[v := []]) \<and> hashMap s1 \<subseteq>\<^sub>m hashMap s \<and> pagesFrame s s1 \<and> (\<not> sh_isMmap s \<longrightarrow> ok) \<and>
      (ok \<longrightarrow> FreeTail (sh_pages s1 ! v) = int (maxEntryBytes s) \<and> \<not> pg_reuseBarrierFailed (sh_pages s1 ! v))"
  proof (cases "sh_isMmap s")
    case True
    show ?thesis by (rule drainPage_ok [OF r v True pne]) (use True in auto)
  next
    case False
    show ?thesis by (rule retirePage_ok [OF r v False]) (use False in auto)
  qed
  then obtain s1 ok where f: "(if sh_isMmap s then drainPageLocked env v s else map_option (\<lambda>s1. (s1, True)) (retirePageLocked env v s)) = Some (s1, ok)"
      "shard_rep (ce_hash env) s1 (pss[v := []])" "hashMap s1 \<subseteq>\<^sub>m hashMap s" "pagesFrame s s1" "\<not> sh_isMmap s \<Longrightarrow> ok"
      "ok \<Longrightarrow> FreeTail (sh_pages s1 ! v) = int (maxEntryBytes s)" "ok \<Longrightarrow> \<not> pg_reuseBarrierFailed (sh_pages s1 ! v)"
    by blast
  have E: "evictVictimLocked env v need s =
      (if ok then if cc_RelocatingEviction (sh_cfg s1) then map_option (\<lambda>s2. (s2, True)) (relocateIntoFreedPageLocked env v need s1)
         else Some (s1, True) else Some (s1, False))"
    using f(1,5) by (auto simp: evictVictimLocked_def Let_def split: if_splits)
  show thesis
  proof (cases "ok \<and> cc_RelocatingEviction (sh_cfg s1)")
    case False
    have "evictVictimLocked env v need s = Some (s1, ok)" using False E by auto
    then show thesis using that f(2-7) need by simp
  next
    case True
    have v1: "v < length (sh_pages s1)" "int need \<le> FreeTail (sh_pages s1 ! v)" "\<not> pg_reuseBarrierFailed (sh_pages s1 ! v)"
      using v f(4,6,7) True need by (simp_all add: pagesFrame_def)
    obtain s2 pss2 where rl: "relocateIntoFreedPageLocked env v need s1 = Some s2" "shard_rep (ce_hash env) s2 pss2"
      "hashMap s2 = hashMap s1" "pagesFrame s1 s2" "int need \<le> FreeTail (sh_pages s2 ! v)" "\<not> pg_reuseBarrierFailed (sh_pages s2 ! v)"
      by (rule relocateIntoFreedPage_ok [OF f(2) v1(1,3,2)]) blast
    have "evictVictimLocked env v need s = Some (s2, True)" using True E rl(1) by simp
    from that [OF this rl(2)] show thesis using rl(3,5,6) f(3) pagesFrame_trans [OF f(4) rl(4)] True by simp
  qed
qed

text \<open>What every choice of a page keeps.\<close>

definition confFrame :: "shard \<Rightarrow> shard \<Rightarrow> bool" where
  "confFrame s s' = (sh_cfg s' = sh_cfg s \<and> sh_isMmap s' = sh_isMmap s \<and> sh_sieve s' = sh_sieve s \<and> sh_framingKey s' = sh_framingKey s \<and>
     sh_lastAppliedStampMs s' = sh_lastAppliedStampMs s \<and> sh_flushedThroughSeq s' = sh_flushedThroughSeq s)"

lemma confFrame_refl [simp]: "confFrame s s"
  by (simp add: confFrame_def)

lemma confFrame_trans: "confFrame s s1 \<Longrightarrow> confFrame s1 s2 \<Longrightarrow> confFrame s s2"
  by (simp add: confFrame_def)

lemma confFrame_pages: "pagesFrame s s' \<Longrightarrow> confFrame s s'"
  by (simp add: confFrame_def pagesFrame_def)

lemma confFrame_maxEntryBytes: "confFrame s s' \<Longrightarrow> maxEntryBytes s' = maxEntryBytes s"
  by (simp add: maxEntryBytes_def confFrame_def)

lemma firstPageWithRoom_ok:
  assumes "shard_rep (ce_hash env) s pss"
  obtains s' res where "firstPageWithRoomLocked env need s = (s', res)" "shard_rep (ce_hash env) s' pss" "roomFrame s s'"
    "\<And>idx. res = Some idx \<Longrightarrow> usable need s' idx" "\<And>idx. res = None \<Longrightarrow> \<not> usable need s idx"
proof -
  have "roomResult (ce_hash env) pss need [0..<length (sh_pages s)] s (firstPageWithRoomLocked env need s)"
    unfolding firstPageWithRoomLocked_def by (rule firstRoomFrom_ok [OF assms]) auto
  then show thesis using that [of "fst (firstPageWithRoomLocked env need s)" "snd (firstPageWithRoomLocked env need s)"]
    by (auto simp: roomResult_def usable_def)
qed

text \<open>At most one eviction makes room.\<close>

lemma evictUntilFits_ok:
  assumes r: "shard_rep (ce_hash env) s pss" and need: "need \<le> maxEntryBytes s"
  obtains s' res pss' where "evictUntilFitsLocked env need s = Some (s', res)" "shard_rep (ce_hash env) s' pss'"
    "hashMap s' \<subseteq>\<^sub>m hashMap s" "confFrame s s'" "\<And>idx. res = Inr idx \<Longrightarrow> usable need s' idx"
    "\<And>err. res = Inl err \<Longrightarrow> sh_isMmap s \<or> sh_pages s = []"
proof -
  obtain s1 res1 where f: "firstPageWithRoomLocked env need s = (s1, res1)" "shard_rep (ce_hash env) s1 pss" "roomFrame s s1"
    "\<And>idx. res1 = Some idx \<Longrightarrow> usable need s1 idx" "\<And>idx. res1 = None \<Longrightarrow> \<not> usable need s idx"
    by (rule firstPageWithRoom_ok [OF r]) blast
  have pf: "pagesFrame s s1" "hashMap s1 = hashMap s" using f(3) by (simp_all add: roomFrame_def)
  have cf: "confFrame s s1" by (rule confFrame_pages [OF pf(1)])
  show thesis
  proof (cases res1)
    case (Some idx)
    then have "evictUntilFitsLocked env need s = Some (s1, Inr idx)" using f(1) by (simp add: evictUntilFitsLocked.simps)
    then show thesis using that f(2,4) pf cf Some by simp
  next
    case none: None
    show thesis
    proof (cases "nextNonEmptyPageLocked None s1")
      case None
      have "sh_isMmap s \<or> sh_pages s = []"
      proof (rule ccontr)
        assume a: "\<not> (sh_isMmap s \<or> sh_pages s = [])"
        then have l: "0 < length (sh_pages s1)" "\<not> sh_isMmap s1" using pf(1) by (simp_all add: pagesFrame_def)
        note p = shard_repD(7) [OF f(2) l(1)]
        have "page_Empty (sh_pages s1 ! 0)" by (rule nextNonEmptyPage_None [OF None l(1)]) simp
        then have "FreeTail (sh_pages s1 ! 0) = int (maxEntryBytes s1)" using p l by (simp add: page_ok_def FreeTail_def page_Empty_def)
        moreover have "FreeTail (sh_pages s1 ! 0) = FreeTail (sh_pages s ! 0)" using f(3) a by (simp add: roomFrame_def)
        moreover have "\<not> pg_reuseBarrierFailed (sh_pages s ! 0)" using shard_repD(7) [OF r, of 0] a by (auto simp: page_ok_def)
        ultimately have "usable need s 0" using need confFrame_maxEntryBytes [OF cf] a by (simp add: usable_def)
        then show False using f(5) none by simp
      qed
      moreover have "evictUntilFitsLocked env need s = Some (s1, Inl ErrCannotEvict)"
        using f(1) none None by (simp add: evictUntilFitsLocked.simps)
      ultimately show thesis using that f(2) pf cf by simp
    next
      case (Some v)
      note nv = nextNonEmptyPage_Some [OF Some]
      let ?s1 = "s1\<lparr>sh_nextVictim := (v + 1) mod length (sh_pages s1)\<rparr>"
      have r1: "shard_rep (ce_hash env) ?s1 pss" "hashMap ?s1 = hashMap s1" using rep_same [OF f(2), of ?s1] by simp_all
      have n1: "need \<le> maxEntryBytes ?s1" using need cf by (simp add: maxEntryBytes_def confFrame_def split: if_splits)
      obtain s2 ok pss2 where e: "evictVictimLocked env v need ?s1 = Some (s2, ok)" "shard_rep (ce_hash env) s2 pss2"
        "hashMap s2 \<subseteq>\<^sub>m hashMap ?s1" "pagesFrame ?s1 s2" "\<not> sh_isMmap ?s1 \<Longrightarrow> ok"
        "ok \<Longrightarrow> int need \<le> FreeTail (sh_pages s2 ! v) \<and> \<not> pg_reuseBarrierFailed (sh_pages s2 ! v)"
        by (rule evictVictim_ok [OF r1(1) _ _ n1]) (use nv in auto)
      have cf2: "confFrame s s2" using e(4) cf by (simp add: confFrame_def pagesFrame_def)
      have hm: "hashMap s2 \<subseteq>\<^sub>m hashMap s" using e(3) r1(2) pf(2) by simp
      have step: "evictUntilFitsLocked env need s = (if ok then evictUntilFitsLocked env need s2 else Some (s2, Inl ErrReuseBarrier))"
        using f(1) none Some e(1) by (simp add: evictUntilFitsLocked.simps [of env need s])
      show thesis
      proof (cases ok)
        case False
        then show thesis using that [of s2 "Inl ErrReuseBarrier" pss2] step e(2,5) hm cf2 cf by (auto simp: confFrame_def)
      next
        case True
        have u: "usable need s2 v" using e(4,6) True nv(1) by (simp add: usable_def pagesFrame_def)
        obtain s3 res3 where g: "firstPageWithRoomLocked env need s2 = (s3, res3)" "shard_rep (ce_hash env) s3 pss2" "roomFrame s2 s3"
          "\<And>idx. res3 = Some idx \<Longrightarrow> usable need s3 idx" "\<And>idx. res3 = None \<Longrightarrow> \<not> usable need s2 idx"
          by (rule firstPageWithRoom_ok [OF e(2)]) blast
        then obtain idx where res: "res3 = Some idx" using u by (cases res3) auto
        have "evictUntilFitsLocked env need s2 = Some (s3, Inr idx)" using g(1) res by (simp add: evictUntilFitsLocked.simps)
        moreover have "pagesFrame s2 s3" "hashMap s3 = hashMap s2" using g(3) by (simp_all add: roomFrame_def)
        ultimately show thesis using that [of s3 "Inr idx" pss2] step True g(2,4) hm res confFrame_trans [OF cf2 confFrame_pages] by simp
      qed
    qed
  qed
qed

section \<open>The choice of a page\<close>

lemma allocHeapPage_ok:
  assumes r: "shard_rep hk s pss" and heap: "\<not> sh_isMmap s" and cap: "length (sh_pages s) < MaxPagesPerShard (sh_cfg s)"
  obtains s' where "allocHeapPageLocked s = (length (sh_pages s), s')" "shard_rep hk s' (pss @ [[]])" "hashMap s' = hashMap s" "confFrame s s'"
    "FreeTail (sh_pages s' ! length (sh_pages s)) = int (maxEntryBytes s)" "usable (maxEntryBytes s) s' (length (sh_pages s))"
    "sh_writeSeq s' = sh_writeSeq s"
proof -
  let ?p = "(newHeapPage (cc_PageSize (sh_cfg s)))\<lparr>pg_gen := sh_genCounter s\<rparr>"
  define s' where "s' = s\<lparr>sh_genCounter := sh_genCounter s + 1, sh_pages := sh_pages s @ [?p]\<rparr>"
  note np = newHeapPage_ok [OF shard_repD(1) [OF r] heap, of "sh_genCounter s"]
  have a: "allocHeapPageLocked s = (length (sh_pages s), s')"
    by (simp add: allocHeapPageLocked_def freshHeapPageLocked_def s'_def)
  have c: "cfg_ok s'" using shard_repD(1) [OF r] cap by (simp add: cfg_ok_def s'_def)
  have po: "page_ok s' = page_ok s" by (rule page_ok_frame) (simp_all add: s'_def)
  have "page_ok s ((sh_pages s @ [?p]) ! j) ((pss @ [[]]) ! j)" if "j < length (sh_pages s) + 1" for j
    using that np(1) shard_repD(4) [OF r] shard_repD(7) [OF r, of j] by (auto simp: nth_append less_Suc_eq)
  then have p: "pages_ok s' (pss @ [[]])" using po shard_repD(4) [OF r] by (simp add: pages_ok_def s'_def)
  have loc: "located hk s' (pss @ [[]]) h ref i off f" if "located hk s pss h ref i off f" for h ref i off f
    using that shard_repD(4) [OF r] by (simp add: located_def s'_def nth_append)
  have "sh_tab s' = sh_tab s" by (simp add: s'_def)
  note rs = rep_change [OF r c p this loc]
  have "\<not> pg_reuseBarrierFailed ?p" by (simp add: newHeapPage_def)
  then show thesis using that [OF a] rs np(2) by (simp add: usable_def s'_def confFrame_def)
qed

lemma findOrMakePage_ok:
  assumes r: "shard_rep (ce_hash env) s pss"
  obtains s' res pss' where "findOrMakePageLocked env need s = Some (s', res)" "shard_rep (ce_hash env) s' pss'"
    "hashMap s' \<subseteq>\<^sub>m hashMap s" "confFrame s s'" "\<And>idx. res = Inr idx \<Longrightarrow> usable need s' idx"
    "cc_AtCapPolicy (sh_cfg s) \<noteq> PolicyRingbufEvict \<Longrightarrow> hashMap s' = hashMap s \<and> sh_writeSeq s' = sh_writeSeq s \<and> (sh_isMmap s \<longrightarrow> pss' = pss)"
    "\<And>err. res = Inl err \<Longrightarrow> maxEntryBytes s < need \<or> sh_isMmap s \<or> cc_AtCapPolicy (sh_cfg s) \<noteq> PolicyRingbufEvict \<or> MaxPagesPerShard (sh_cfg s) = 0"
proof (cases "need > maxEntryBytes s \<or> usable need s (sh_writeIdx s)")
  case True
  then obtain res where "findOrMakePageLocked env need s = Some (s, res)" "\<And>idx. res = Inr idx \<Longrightarrow> usable need s idx"
    "\<And>err. res = Inl err \<Longrightarrow> maxEntryBytes s < need"
    by (cases "need > maxEntryBytes s") (auto simp: findOrMakePageLocked_def usable_def Let_def)
  then show thesis using that r by simp
next
  case F: False
  then have need: "need \<le> maxEntryBytes s" by simp
  obtain s1 res1 where f: "firstPageWithRoomLocked env need s = (s1, res1)" "shard_rep (ce_hash env) s1 pss" "roomFrame s s1"
    "\<And>idx. res1 = Some idx \<Longrightarrow> usable need s1 idx" "\<And>idx. res1 = None \<Longrightarrow> \<not> usable need s idx"
    by (rule firstPageWithRoom_ok [OF r]) blast
  have pf: "pagesFrame s s1" "hashMap s1 = hashMap s" "sh_writeSeq s1 = sh_writeSeq s" using f(3) by (simp_all add: roomFrame_def)
  have cf: "confFrame s s1" by (rule confFrame_pages [OF pf(1)])
  have cfg: "sh_cfg s1 = sh_cfg s" "sh_isMmap s1 = sh_isMmap s" "length (sh_pages s1) = length (sh_pages s)"
    using pf(1) by (simp_all add: pagesFrame_def)
  have need1: "need \<le> maxEntryBytes s1" using need confFrame_maxEntryBytes [OF cf] by simp
  have widx: "shard_rep (ce_hash env) (u\<lparr>sh_writeIdx := j\<rparr>) ps" "hashMap (u\<lparr>sh_writeIdx := j\<rparr>) = hashMap u"
    "usable need (u\<lparr>sh_writeIdx := j\<rparr>) k = usable need u k" "confFrame s u \<Longrightarrow> confFrame s (u\<lparr>sh_writeIdx := j\<rparr>)"
    if "shard_rep (ce_hash env) u ps" for u ps j k
    using rep_same [OF that, of "u\<lparr>sh_writeIdx := j\<rparr>"] by (simp_all add: usable_def confFrame_def)
  show thesis
  proof (cases res1)
    case (Some idx)
    have "findOrMakePageLocked env need s = Some (s1\<lparr>sh_writeIdx := idx\<rparr>, Inr idx)"
      using F f(1) Some by (auto simp: findOrMakePageLocked_def usable_def Let_def)
    then show thesis using that [of "s1\<lparr>sh_writeIdx := idx\<rparr>" "Inr idx" pss] widx [OF f(2), of idx] f(4) [OF Some] pf(2,3) cf by simp
  next
    case none: None
    show thesis
    proof (cases "\<not> sh_isMmap s1 \<and> length (sh_pages s1) < MaxPagesPerShard (sh_cfg s1)")
      case True
      obtain s2 where a: "allocHeapPageLocked s1 = (length (sh_pages s1), s2)" "shard_rep (ce_hash env) s2 (pss @ [[]])" "hashMap s2 = hashMap s1"
        "confFrame s1 s2" "FreeTail (sh_pages s2 ! length (sh_pages s1)) = int (maxEntryBytes s1)"
        "usable (maxEntryBytes s1) s2 (length (sh_pages s1))" "sh_writeSeq s2 = sh_writeSeq s1"
        by (rule allocHeapPage_ok [OF f(2)]) (use True in auto)
      let ?s = "s2\<lparr>sh_writeIdx := length (sh_pages s1)\<rparr>"
      have u: "usable need s2 (length (sh_pages s1))" using a(6) need1 by (auto simp: usable_def)
      have "findOrMakePageLocked env need s = Some (?s, Inr (length (sh_pages s1)))"
        using F f(1) none True a(1,5) need1 by (auto simp: findOrMakePageLocked_def usable_def Let_def)
      then show thesis using that [of ?s "Inr (length (sh_pages s1))" "pss @ [[]]"] widx [OF a(2), of "length (sh_pages s1)"] u
        pf(2,3) a(3,7) confFrame_trans [OF cf a(4)] True cfg by simp
    next
      case full: False
      show thesis
      proof (cases "cc_AtCapPolicy (sh_cfg s)")
        case PolicyRingbufEvict
        obtain s2 res2 pss2 where e: "evictUntilFitsLocked env need s1 = Some (s2, res2)" "shard_rep (ce_hash env) s2 pss2"
          "hashMap s2 \<subseteq>\<^sub>m hashMap s1" "confFrame s1 s2" "\<And>idx. res2 = Inr idx \<Longrightarrow> usable need s2 idx"
          "\<And>err. res2 = Inl err \<Longrightarrow> sh_isMmap s1 \<or> sh_pages s1 = []"
          by (rule evictUntilFits_ok [OF f(2) need1]) blast
        have cf2: "confFrame s s2" by (rule confFrame_trans [OF cf e(4)])
        show thesis
        proof (cases res2)
          case (Inl err)
          have "findOrMakePageLocked env need s = Some (s2, Inl err)"
            using F f(1) none full PolicyRingbufEvict cfg e(1) Inl by (auto simp: findOrMakePageLocked_def usable_def Let_def)
          then show thesis using that [of s2 "Inl err" pss2] e(2,3) e(6) [OF Inl] cf2 pf(2) full cfg PolicyRingbufEvict by auto
        next
          case (Inr idx)
          have "findOrMakePageLocked env need s = Some (s2\<lparr>sh_writeIdx := idx\<rparr>, Inr idx)"
            using F f(1) none full PolicyRingbufEvict cfg e(1) Inr by (auto simp: findOrMakePageLocked_def usable_def Let_def)
          then show thesis using that [of "s2\<lparr>sh_writeIdx := idx\<rparr>" "Inr idx" pss2] widx [OF e(2), of idx] e(3) e(5) [OF Inr] cf2 pf(2)
            PolicyRingbufEvict by simp
        qed
      next
        case PolicyRejectWrites
        have "findOrMakePageLocked env need s = Some (s1, Inl ErrFull)"
          using F f(1) none full PolicyRejectWrites cfg by (auto simp: findOrMakePageLocked_def usable_def Let_def)
        then show thesis using that f(2) pf cf PolicyRejectWrites by simp
      next
        case PolicyInvalid
        have "findOrMakePageLocked env need s = Some (s1, Inl ErrUnknownPolicy)"
          using F f(1) none full PolicyInvalid cfg by (auto simp: findOrMakePageLocked_def usable_def Let_def)
        then show thesis using that f(2) pf cf PolicyInvalid by simp
      qed
    qed
  qed
qed

end
