(* ===== verification/CacheOps.thy ===== *)
theory CacheOps
  imports CacheEvict
begin

text \<open>
  The operations of a cache shard on what it stores: a write adds the entry under its hash, a delete
  removes it, a lookup answers from the stored entries, a sweep removes expired ones. Each of them always returns and
  keeps the invariant; entries are lost otherwise only to eviction.
\<close>

section \<open>Writes\<close>

text \<open>A frame replaced in place by one of the same key.\<close>

lemma rep_replace:
  assumes r: "shard_rep hk s pss" and i: "i < length (sh_pages s)" and split: "pss ! i = xs @ (off, f) # ys"
    and p: "page_ok s p (xs @ (off, g) # ys)" "pg_gen p = pg_gen (sh_pages s ! i)"
    and g: "fr_key g = fr_key f" "\<not> metaIsTombstone (fr_meta g)"
    and cur: "tabMap (sh_tab s) (hk (fr_key f)) = Some (makeSlabRef (of_nat i) (pg_gen (sh_pages s ! i)) (of_nat off))"
    and s': "sh_cfg s' = sh_cfg s" "sh_isMmap s' = sh_isMmap s" "sh_tab s' = sh_tab s" "sh_pages s' = (sh_pages s)[i := p]"
  shows "shard_rep hk s' (pss[i := xs @ (off, g) # ys])"
    "hashMap s' = (hashMap s)(hk (fr_key f) \<mapsto> (fr_key g, fr_val g, fr_exp g))"
proof -
  let ?pss = "pss[i := xs @ (off, g) # ys]" and ?h = "hk (fr_key f)"
  let ?ref = "makeSlabRef (of_nat i) (pg_gen (sh_pages s ! i)) (of_nat off)"
  have mem: "(off, f) \<in> set (pss ! i)" using split by simp
  have len: "i < length pss" using i shard_repD(4) [OF r] by simp
  have new: "located hk s' ?pss ?h ?ref i off g" using i len g p(2) s'(4) by (simp add: located_def)
  have old: "located hk s' ?pss h ref j o' f'"
    if t: "tabMap (sh_tab s) h = Some ref" and l: "located hk s pss h ref j o' f'" and h: "h \<noteq> ?h" for h ref j o' f'
  proof (cases "j = i")
    case True
    have "o' \<noteq> off"
    proof
      assume "o' = off"
      then have "f' = f" using framed_inj located_facts(8) [OF r l] True mem shard_repD(8) [OF r i] unfolding page_rep_def by blast
      then show False using located_facts(7) [OF r l] h by simp
    qed
    then show ?thesis using l True split len s'(4) p(2) by (auto simp: located_def)
  qed (use l s'(4) in \<open>simp add: located_def\<close>)
  have "\<exists>j o' f'. located hk s' ?pss h ref j o' f'" if t: "tabMap (sh_tab s) h = Some ref" for h ref
  proof (cases "h = ?h")
    case True
    then have "ref = ?ref" using cur t by simp
    then show ?thesis using new True by blast
  next
    case False
    obtain j o' f' where "located hk s pss h ref j o' f'" using index_refD [OF r t] by blast
    from old [OF t this False] show ?thesis by blast
  qed
  moreover have "cfg_ok s'" "pages_ok s' ?pss"
    using shard_repD(1) [OF r] s' pages_ok_set [OF shard_repD(2) [OF r] p(1) s'(1,2,4)] by (simp_all add: cfg_ok_def)
  ultimately show r': "shard_rep hk s' ?pss" using s'(3) shard_repD(5,6) [OF r] by (simp add: shard_rep_def index_ok_def)
  show "hashMap s' = (hashMap s)(?h \<mapsto> (fr_key g, fr_val g, fr_exp g))"
  proof
    fix h
    show "hashMap s' h = ((hashMap s)(?h \<mapsto> (fr_key g, fr_val g, fr_exp g))) h"
    proof (cases "h = ?h \<or> tabMap (sh_tab s) h = None")
      case True
      then show ?thesis using hashMap_Some [OF r' _ new] cur s'(3) by (auto simp: hashMap_def)
    next
      case False
      then obtain ref where t: "tabMap (sh_tab s) h = Some ref" by auto
      then obtain j o' f' where l: "located hk s pss h ref j o' f'" using index_refD [OF r] by blast
      then show ?thesis using hashMap_Some [OF r t l] hashMap_Some [OF r' _ old [OF t l]] t s'(3) False by simp
    qed
  qed
qed

lemma page_Write_unfit: "\<not> fits key value \<Longrightarrow> \<exists>err. page_Write key value e m p = Inl err"
  by (simp add: page_Write_def encodeEntry_def encodeEntryNoCRC_def encodeEntryHeader_def fits_def Let_def del: de_Morgan_conj) auto

lemma putAppend_ok:
  assumes r: "shard_rep (ce_hash env) s pss"
  obtains s' err pss' m where "putAppend env key value e s = Some (s', err)" "shard_rep (ce_hash env) s' pss'" "confFrame s s'"
    "m \<subseteq>\<^sub>m hashMap s" "cc_AtCapPolicy (sh_cfg s) \<noteq> PolicyRingbufEvict \<Longrightarrow> m = hashMap s"
    "hashMap s' = (if err = None then m(ce_hash env key \<mapsto> (key, value, e)) else m)"
    "err \<noteq> None \<Longrightarrow> \<not> fits key value \<or> maxEntryBytes s < entrySpanExact (length key) (length value) \<or> sh_isMmap s \<or>
       cc_AtCapPolicy (sh_cfg s) \<noteq> PolicyRingbufEvict \<or> MaxPagesPerShard (sh_cfg s) = 0"
proof -
  let ?n = "entrySpanExact (length key) (length value)" and ?h = "ce_hash env key"
  have span: "entrySpan (length key) (length value) True = ?n" by (simp add: entrySpan_def classOf_def)
  obtain s1 res pss1 where f: "findOrMakePageLocked env ?n s = Some (s1, res)" "shard_rep (ce_hash env) s1 pss1"
    "hashMap s1 \<subseteq>\<^sub>m hashMap s" "confFrame s s1" "\<And>idx. res = Inr idx \<Longrightarrow> usable ?n s1 idx"
    "cc_AtCapPolicy (sh_cfg s) \<noteq> PolicyRingbufEvict \<Longrightarrow> hashMap s1 = hashMap s \<and> sh_writeSeq s1 = sh_writeSeq s \<and> (sh_isMmap s \<longrightarrow> pss1 = pss)"
    "\<And>err. res = Inl err \<Longrightarrow> maxEntryBytes s < ?n \<or> sh_isMmap s \<or> cc_AtCapPolicy (sh_cfg s) \<noteq> PolicyRingbufEvict \<or> MaxPagesPerShard (sh_cfg s) = 0"
    by (rule findOrMakePage_ok [OF r]) blast
  show thesis
  proof (cases res)
    case (Inl err)
    then have "putAppend env key value e s = Some (s1, Some err)" using f(1) span by (simp add: putAppend_def)
    then show thesis using that [of s1 "Some err" pss1 "hashMap s1"] f(2,3,4,6) f(7) [OF Inl] by auto
  next
    case (Inr i)
    let ?s2 = "s1\<lparr>sh_writeSeq := sh_writeSeq s1 + 1\<rparr>" and ?m = "makeMeta (sh_writeSeq s1 + 1) False"
    let ?d = "sh_pages s1 ! i"
    have r2: "shard_rep (ce_hash env) ?s2 pss1" "hashMap ?s2 = hashMap s1" using rep_same [OF f(2), of ?s2] by simp_all
    have cf2: "confFrame s ?s2" using f(4) by (simp add: confFrame_def)
    show thesis
    proof (cases "fits key value")
      case False
      then obtain err where "page_Write key value e ?m ?d = Inl err" using page_Write_unfit by blast
      then have "putAppend env key value e s = Some (?s2, Some (ErrPage err))" using f(1) span Inr by (simp add: putAppend_def Let_def)
      then show thesis using that [of ?s2 "Some (ErrPage err)" pss1 "hashMap s1"] r2 f(3,6) cf2 False by auto
    next
      case fit: True
      obtain p sl where W: "page_Write key value e ?m ?d = Inr (p, of_nat (pg_tail ?d), of_nat ?n)"
        "page_ok s1 p (pss1 ! i @ [(pg_tail ?d, \<lparr>fr_slot = sl, fr_key = key, fr_val = value, fr_exp = e, fr_meta = ?m\<rparr>)])"
        "pg_gen p = pg_gen ?d" "FreeTail p = FreeTail ?d - int ?n" "\<not> pg_reuseBarrierFailed p"
        by (rule page_Write_ok [OF f(2) f(5) [OF Inr] fit]) blast
      let ?ref = "makeSlabRef (of_nat i) (pg_gen ?d) (of_nat (pg_tail ?d))"
      obtain t where t: "indexPut (sh_sieve s1) ?h ?ref (sh_tab s1) = Some t" "steady 0 t" "tabMap t = (tabMap (sh_tab s1))(?h \<mapsto> ?ref)"
        using indexPut_correct [OF rep_steady [OF f(2), of "Suc 0"]] by force
      let ?s' = "(setPage i p ?s2)\<lparr>sh_tab := t\<rparr>"
      have i: "i < length (sh_pages s1)" using f(5) [OF Inr] by (simp add: usable_def)
      have E: "putAppend env key value e s = Some (?s', None)" using f(1) span Inr W(1,3) t(1) by (simp add: putAppend_def Let_def)
      note R = rep_append_point [OF f(2) i W(2,3), of ?h t ?s']
      have cf': "confFrame s ?s'" using f(4) by (simp add: confFrame_def setPage_def)
      show thesis by (rule that [OF E _ cf' f(3)]) (use R t f(6) in \<open>simp_all add: steady_def setPage_def\<close>)
    qed
  qed
qed

text \<open>The same-size update: the target it finds is the indexed entry of the key.\<close>

lemma inPlaceTarget_ok:
  assumes r: "shard_rep (ce_hash env) s pss"
  obtains (none) "inPlaceTargetLocked env key value s = Some None"
  | (target) i slot ref off f where "inPlaceTargetLocked env key value s = Some (Some (i, of_nat off, slot, ref))"
      "tabMap (sh_tab s) (ce_hash env key) = Some ref" "holds (sh_tab s) (ce_hash env key) (unat slot)"
      "located (ce_hash env) s pss (ce_hash env key) ref i off f" "fr_key f = key" "length (fr_val f) = length value"
  using r
proof (cases rule: rep_find [of _ _ _ "ce_hash env key"])
  case absent
  then show thesis using none by (simp add: inPlaceTargetLocked_def)
next
  case (present slot ref i off f)
  note lf = located_facts [OF r present(4)]
  have off: "ref_offset ref = of_nat off" using lf(3) by auto
  show thesis
  proof (cases "inPlaceTargetLocked env key value s = Some None")
    case False
    then have "fr_key f = key" "length (fr_val f) = length value"
      "inPlaceTargetLocked env key value s = Some (Some (i, of_nat off, slot, ref))"
      using present(1) lf(1,2,4,5) off by (auto simp: inPlaceTargetLocked_def Let_def split: if_splits)
    then show thesis using target present by blast
  qed (rule none)
qed

lemma putAtExp_ok:
  assumes r: "shard_rep (ce_hash env) s pss"
  obtains s' err pss' m where "putAtExpLocked env key value e s = Some (s', err)" "shard_rep (ce_hash env) s' pss'" "confFrame s s'"
    "m \<subseteq>\<^sub>m hashMap s" "cc_AtCapPolicy (sh_cfg s) \<noteq> PolicyRingbufEvict \<Longrightarrow> m = hashMap s"
    "hashMap s' = (if err = None then m(ce_hash env key \<mapsto> (key, value, e)) else m)"
    "err \<noteq> None \<Longrightarrow> \<not> fits key value \<or> maxEntryBytes s < entrySpanExact (length key) (length value) \<or> sh_isMmap s \<or>
       cc_AtCapPolicy (sh_cfg s) \<noteq> PolicyRingbufEvict \<or> MaxPagesPerShard (sh_cfg s) = 0"
proof (cases "putAtExpLocked env key value e s = putAppend env key value e s")
  case True
  show thesis by (rule putAppend_ok [OF r, of key "value" e]) (use that True in metis)
next
  case other: False
  then have el: "inPlaceEligible s" by (rule contrapos_np) (simp add: putAtExpLocked_def)
  show thesis using r
  proof (cases rule: inPlaceTarget_ok [of _ _ _ key "value"])
    case none
    then show thesis using other el by (simp add: putAtExpLocked_def)
  next
    case (target i slot ref off f)
    let ?h = "ce_hash env key" and ?m = "makeMeta (sh_writeSeq s + 1) False"
    let ?g = "f\<lparr>fr_val := value, fr_exp := e, fr_meta := ?m\<rparr>"
    note lf = located_facts [OF r target(4)]
    have heap: "\<not> pg_mmap (sh_pages s ! i)" using el shard_repD(7) [OF r lf(1)] by (auto simp: inPlaceEligible_def page_ok_def)
    obtain xs ys where sp: "pss ! i = xs @ (off, f) # ys" using lf(8) by (meson split_list)
    have rep: "page_rep (sh_pages s ! i) (xs @ (off, f) # ys)" using shard_repD(8) [OF r lf(1)] sp by simp
    obtain p where W: "page_WriteAt (of_nat off) key value e ?m (sh_pages s ! i) = Inr p" "page_rep p (xs @ (off, ?g) # ys)"
      "sameLife (sh_pages s ! i) p" "pg_head p = pg_head (sh_pages s ! i)" "pg_tail p = pg_tail (sh_pages s ! i)"
      by (rule page_WriteAt_rep [OF rep heap, of key "value" e ?m]) (use target(5,6) in auto)
    have po: "page_ok s p (xs @ (off, ?g) # ys)" and gen: "pg_gen p = pg_gen (sh_pages s ! i)"
      using shard_repD(7) [OF r lf(1)] W(2-4) sp by (auto simp: page_ok_def sameLife_def)
    let ?s1 = "(setPage i p s)\<lparr>sh_writeSeq := sh_writeSeq s + 1\<rparr>"
    have cur: "tabMap (sh_tab s) (ce_hash env (fr_key f)) = Some (makeSlabRef (of_nat i) (pg_gen (sh_pages s ! i)) (of_nat off))"
      using target(2,4,5) by (simp add: located_def)
    have R: "shard_rep (ce_hash env) ?s1 (pss[i := xs @ (off, ?g) # ys])" "hashMap ?s1 = (hashMap s)(?h \<mapsto> (key, value, e))"
      using rep_replace [OF r lf(1) sp po gen _ _ cur, of ?s1] target(5) by (simp_all add: setPage_def)
    let ?t = "setVisited slot (tagFor ?h) ref (sh_tab s)"
    define s' where "s' = (if sh_sieve s then ?s1\<lparr>sh_tab := ?t\<rparr> else ?s1)"
    have E: "putAtExpLocked env key value e s = Some (s', None)"
      using el target(1) W(1) by (simp add: putAtExpLocked_def Let_def s'_def setPage_def)
    have tab: "sh_tab ?s1 = sh_tab s" by (simp add: setPage_def)
    note sv = setVisited_correct [OF shard_repD(5) [OF r] target(3), of ref]
    have "shard_rep (ce_hash env) (?s1\<lparr>sh_tab := ?t\<rparr>) (pss[i := xs @ (off, ?g) # ys])" "hashMap (?s1\<lparr>sh_tab := ?t\<rparr>) = hashMap ?s1"
      using rep_marked [OF R(1), of ?t] sv unfolding tab by simp_all
    then have R': "shard_rep (ce_hash env) s' (pss[i := xs @ (off, ?g) # ys])" "hashMap s' = (hashMap s)(?h \<mapsto> (key, value, e))"
      using R by (simp_all add: s'_def)
    have "confFrame s s'" by (simp add: s'_def confFrame_def setPage_def)
    from that [OF E R'(1) this map_le_refl] show thesis using R'(2) by simp
  qed
qed

section \<open>Deletes\<close>

text \<open>The durable delete: a delete record is appended, and the entry leaves the index.\<close>

lemma delDurable_ok:
  assumes r: "shard_rep (ce_hash env) s pss" and k: "\<And>k v e. hashMap s (ce_hash env key) = Some (k, v, e) \<Longrightarrow> k = key"
  obtains s' res pss' m where "delDurable env key s = Some (s', res)" "shard_rep (ce_hash env) s' pss'" "confFrame s s'"
    "m \<subseteq>\<^sub>m hashMap s" "cc_AtCapPolicy (sh_cfg s) \<noteq> PolicyRingbufEvict \<Longrightarrow> m = hashMap s"
    "hashMap s' = (if res = Inr True then m(ce_hash env key := None) else m)" "res \<noteq> Inr False"
proof -
  let ?n = "entrySpanExact (length key) 0" and ?h = "ce_hash env key"
  have span: "entrySpan (length key) 0 True = ?n" by (simp add: entrySpan_def classOf_def)
  obtain s1 res pss1 where f: "findOrMakePageLocked env ?n s = Some (s1, res)" "shard_rep (ce_hash env) s1 pss1"
    "hashMap s1 \<subseteq>\<^sub>m hashMap s" "confFrame s s1" "\<And>idx. res = Inr idx \<Longrightarrow> usable ?n s1 idx"
    "cc_AtCapPolicy (sh_cfg s) \<noteq> PolicyRingbufEvict \<Longrightarrow> hashMap s1 = hashMap s \<and> sh_writeSeq s1 = sh_writeSeq s \<and> (sh_isMmap s \<longrightarrow> pss1 = pss)"
    by (rule findOrMakePage_ok [OF r]) blast
  show thesis
  proof (cases res)
    case (Inl err)
    then have "delDurable env key s = Some (s1, Inl err)" using f(1) span by (simp add: delDurable_def)
    then show thesis using that [of s1 "Inl err" pss1 "hashMap s1"] f(2,3,4,6) by auto
  next
    case (Inr i)
    let ?s2 = "s1\<lparr>sh_writeSeq := sh_writeSeq s1 + 1\<rparr>" and ?m = "makeMeta (sh_writeSeq s1 + 1) True"
    let ?d = "sh_pages s1 ! i"
    have r2: "shard_rep (ce_hash env) ?s2 pss1" "hashMap ?s2 = hashMap s1" using rep_same [OF f(2), of ?s2] by simp_all
    have cf2: "confFrame s ?s2" using f(4) by (simp add: confFrame_def)
    show thesis
    proof (cases "fits key []")
      case False
      then obtain err where "page_Write key [] 0 ?m ?d = Inl err" using page_Write_unfit by blast
      then have "delDurable env key s = Some (?s2, Inl (ErrPage err))" using f(1) span Inr by (simp add: delDurable_def Let_def)
      then show thesis using that [of ?s2 "Inl (ErrPage err)" pss1 "hashMap s1"] r2 f(3,6) cf2 by auto
    next
      case fit: True
      let ?f = "\<lambda>sl. \<lparr>fr_slot = sl, fr_key = key, fr_val = [], fr_exp = 0, fr_meta = ?m\<rparr>"
      have us: "usable (entrySpanExact (length key) (length [])) ?s2 i" using f(5) [OF Inr] by (simp add: usable_def)
      obtain p sl where W: "page_Write key [] 0 ?m ?d = Inr (p, of_nat (pg_tail ?d), of_nat ?n)"
        "page_ok ?s2 p (pss1 ! i @ [(pg_tail ?d, ?f sl)])" "pg_gen p = pg_gen ?d"
        by (rule page_Write_ok [OF r2(1) us fit, of 0 ?m]) simp
      let ?s3 = "setPage i p ?s2" and ?pss = "pss1[i := pss1 ! i @ [(pg_tail ?d, ?f sl)]]"
      have i: "i < length (sh_pages ?s2)" using f(5) [OF Inr] by (simp add: usable_def)
      have r3: "shard_rep (ce_hash env) ?s3 ?pss" "hashMap ?s3 = hashMap s1"
        using rep_setPage [OF r2(1) i W(2), of ?s3] W(3) r2(2) by (auto simp: setPage_def)
      have cf3: "confFrame s ?s3" using f(4) by (simp add: confFrame_def setPage_def)
      show thesis using r3(1)
      proof (cases rule: rep_find [of _ _ _ ?h])
        case absent
        have "delDurable env key s = Some (?s3, Inr True)"
          using f(1) span Inr W(1) absent(1) by (simp add: delDurable_def Let_def)
        moreover have "hashMap ?s3 = (hashMap s1)(?h := None)" using absent(2) hashMap_None [OF r3(1), of ?h] r3(2) by (simp add: fun_upd_idem)
        ultimately show thesis using that [of ?s3 "Inr True" ?pss "hashMap s1"] r3(1) f(3,6) cf3 by simp
      next
        case (present slot ref j off g)
        note lf = located_facts [OF r3(1) present(4)]
        have "hashMap s1 ?h = Some (fr_key g, fr_val g, fr_exp g)" using hashMap_Some [OF r3(1) present(2,4)] r3(2) by simp
        then have "fr_key g = key" using k f(3) by (metis domI map_le_def)
        then have E: "delDurable env key s = Some (delSlot key slot ?s3, Inr True)"
          using f(1) span Inr W(1) present(1) lf(1,2,5) by (simp add: delDurable_def Let_def)
        have t: "idxOnly ?s3 (delSlot key slot ?s3)" "sh_tab (delSlot key slot ?s3) = tombstone slot (sh_tab ?s3)"
          by (simp_all add: delSlot_def fireOnRemove_def idxOnly_def)
        note rt = rep_tombstone [OF r3(1) present(3) t]
        have "confFrame s (delSlot key slot ?s3)" using confFrame_trans [OF cf3 confFrame_pages [OF pagesFrame_idx [OF t(1)]]] .
        then show thesis using that [OF E rt(1) _ f(3)] rt(3) r3(2) f(6) by simp
      qed
    qed
  qed
qed

lemma delH_ok:
  assumes r: "shard_rep (ce_hash env) s pss"
  obtains s' res pss' m where "delH env key s = Some (s', res)" "shard_rep (ce_hash env) s' pss'" "confFrame s s'"
    "m \<subseteq>\<^sub>m hashMap s" "cc_AtCapPolicy (sh_cfg s) \<noteq> PolicyRingbufEvict \<Longrightarrow> m = hashMap s"
    "hashMap s' = (if res = Inr True then m(ce_hash env key := None) else m)"
    "res = Inr True \<Longrightarrow> cacheMap (ce_hash env) s key \<noteq> None" "res = Inr False \<Longrightarrow> s' = s \<and> cacheMap (ce_hash env) s key = None"
    "\<not> sh_isMmap s \<Longrightarrow> res = Inr (cacheMap (ce_hash env) s key \<noteq> None)"
  using r
proof (cases rule: rep_find [of _ _ _ "ce_hash env key"])
  case absent
  have "cacheMap (ce_hash env) s key = None" using absent(2) by (simp add: cacheMap_def hashMap_def)
  then show thesis using that [of s "Inr False" pss "hashMap s"] absent(1) r by (simp add: delH_def)
next
  case (present slot ref i off f)
  let ?h = "ce_hash env key"
  note lf = located_facts [OF r present(4)] and hm = hashMap_Some [OF r present(2,4)]
  show thesis
  proof (cases "fr_key f = key")
    case False
    have "cacheMap (ce_hash env) s key = None" using hm False by (simp add: cacheMap_def)
    then show thesis using that [of s "Inr False" pss "hashMap s"] present(1) lf(1,2,5) False r by (simp add: delH_def)
  next
    case key: True
    have some: "cacheMap (ce_hash env) s key \<noteq> None" using hm key by (simp add: cacheMap_def)
    show thesis
    proof (cases "sh_isMmap s")
      case False
      let ?s = "delSlot key slot s"
      have t: "idxOnly s ?s" "sh_tab ?s = tombstone slot (sh_tab s)" by (simp_all add: delSlot_def fireOnRemove_def idxOnly_def)
      note rt = rep_tombstone [OF r present(3) t]
      have "delH env key s = Some (?s, Inr True)" using present(1) lf(1,2,5) key False by (simp add: delH_def needsDurableTombstone_def)
      moreover have "confFrame s ?s" by (rule confFrame_pages [OF pagesFrame_idx [OF t(1)]])
      ultimately show thesis using that [of ?s "Inr True" pss "hashMap s"] rt(1,3) some by simp
    next
      case mm: True
      have E: "delH env key s = delDurable env key s" using present(1) lf(1,2,5) key mm by (simp add: delH_def needsDurableTombstone_def)
      obtain s' res pss' m where D: "delDurable env key s = Some (s', res)" "shard_rep (ce_hash env) s' pss'" "confFrame s s'"
        "m \<subseteq>\<^sub>m hashMap s" "cc_AtCapPolicy (sh_cfg s) \<noteq> PolicyRingbufEvict \<Longrightarrow> m = hashMap s"
        "hashMap s' = (if res = Inr True then m(?h := None) else m)" "res \<noteq> Inr False"
        by (rule delDurable_ok [OF r, of key]) (use hm key in auto)
      show thesis by (rule that [OF _ D(2-6)]) (use E D(1,7) some mm in auto)
    qed
  qed
qed

section \<open>Lookups\<close>

text \<open>What a probe reads at a slot with the tag of the hash.\<close>

lemma probe_slot:
  assumes r: "shard_rep hk s pss" and i: "i < slots (sh_tab s)" and tag: "it_ctrl (sh_tab s) ! i AND ctrlTagMask = tagFor h"
  obtains j off f where "holds (sh_tab s) (it_hashes (sh_tab s) ! i) i" "tabMap (sh_tab s) (it_hashes (sh_tab s) ! i) = Some (it_refs (sh_tab s) ! i)"
    "located hk s pss (it_hashes (sh_tab s) ! i) (it_refs (sh_tab s) ! i) j off f" "j < MaxPagesPerShard (sh_cfg s)"
proof -
  let ?t = "sh_tab s"
  have "occupied (it_ctrl ?t ! i)" using tag by (auto simp: occupied_def)
  then have hd: "holds ?t (it_hashes ?t ! i) i" using i by (simp add: holds_def)
  have tm: "tabMap ?t (it_hashes ?t ! i) = Some (it_refs ?t ! i)" by (rule tabMap_holds [OF shard_repD(5) [OF r] hd])
  obtain j off f where l: "located hk s pss (it_hashes ?t ! i) (it_refs ?t ! i) j off f" using index_refD [OF r tm] by blast
  have "j < MaxPagesPerShard (sh_cfg s)" using located_facts(1) [OF r l] shard_repD(1) [OF r] by (simp add: cfg_ok_def)
  then show thesis using that hd tm l by blast
qed

text \<open>The probe stops at the first slot of its path that is empty or has the key.\<close>

definition probeStops :: "shard \<Rightarrow> bytes \<Rightarrow> u64 \<Rightarrow> nat \<Rightarrow> bool" where
  "probeStops s key h i = (it_ctrl (sh_tab s) ! i = ctrlEmpty \<or>
     (it_ctrl (sh_tab s) ! i AND ctrlTagMask = tagFor h \<and>
      (\<exists>v e. page_Read (ref_offset (it_refs (sh_tab s) ! i)) (sh_pages s ! unat (ref_pageIdx (it_refs (sh_tab s) ! i))) = Inr (key, v, e))))"

lemma probeFrom_step:
  assumes r: "shard_rep hk s pss" and i: "unat i < slots (sh_tab s)" and n: "\<not> probeStops s key h (unat i)"
  shows "probeFrom (Suc n) s key h i = probeFrom n s key h ((i + 1) AND it_mask (sh_tab s))"
proof (cases "it_ctrl (sh_tab s) ! unat i AND ctrlTagMask = tagFor h")
  case False
  then show ?thesis using n by (simp add: probeStops_def Let_def)
next
  case True
  show ?thesis
  proof (rule probe_slot [OF r i True])
    fix j off f
    assume l: "located hk s pss (it_hashes (sh_tab s) ! unat i) (it_refs (sh_tab s) ! unat i) j off f"
    assume "j < MaxPagesPerShard (sh_cfg s)"
    then show ?thesis using located_facts(1,2,4,5) [OF r l] True n by (simp add: probeStops_def Let_def)
  qed
qed

lemma probeFrom_at:
  assumes "shard_rep hk s pss" "unat i = home (sh_tab s) h j" "j + n = slots (sh_tab s)" "j \<le> d" "d < slots (sh_tab s)"
    and "\<And>m. j \<le> m \<Longrightarrow> m < d \<Longrightarrow> \<not> probeStops s key h (home (sh_tab s) h m)"
  obtains i' n' where "probeFrom n s key h i = probeFrom (Suc n') s key h i'" "unat i' = home (sh_tab s) h d"
proof -
  have sh: "tab_shape (sh_tab s)" using shard_repD(5) [OF assms(1)] by (simp add: tab_inv_def)
  have "\<exists>i' n'. probeFrom n s key h i = probeFrom (Suc n') s key h i' \<and> unat i' = home (sh_tab s) h d"
    using assms(2-6)
  proof (induction n arbitrary: i j)
    case (Suc n)
    show ?case
    proof (cases "j = d")
      case False
      have "\<not> probeStops s key h (unat i)" using Suc(2,4,6) False by simp
      moreover have "unat i < slots (sh_tab s)" using Suc(2) sh by simp
      ultimately have "probeFrom (Suc n) s key h i = probeFrom n s key h ((i + 1) AND it_mask (sh_tab s))"
        using probeFrom_step [OF assms(1)] by blast
      then show ?thesis using Suc(1) [of "(i + 1) AND it_mask (sh_tab s)" "Suc j"] Suc(2-6) False shape_facts(4) [OF sh Suc(2)] by simp
    qed (use Suc(2) in blast)
  qed simp
  then show thesis using that by blast
qed

lemma index_get_ok:
  assumes r: "shard_rep hk s pss"
  obtains s' st where "index_get s key (hk key) = Some (s', st)" "shard_rep hk s' pss" "hashMap s' = hashMap s" "tabMap (sh_tab s') = tabMap (sh_tab s)"
    "idxOnly s s'" "case cacheMap hk s key of None \<Rightarrow> st = lkMiss
       | Some (v, e) \<Rightarrow> \<exists>ref. st = lkHit v e ref \<and> tabMap (sh_tab s) (hk key) = Some ref"
proof -
  let ?t = "sh_tab s" and ?h = "hk key"
  have inv: "tab_inv ?t" "roomy ?t" using rep_roomy [OF r] by auto
  have sh: "tab_shape ?t" using inv(1) by (simp add: tab_inv_def)
  obtain i0 where i0: "i0 < slots ?t" "it_ctrl ?t ! i0 = ctrlEmpty" using roomy_empty [OF inv] by blast
  obtain d where d: "d < slots ?t" "probeStops s key ?h (home ?t ?h d)" "\<And>m. m < d \<Longrightarrow> \<not> probeStops s key ?h (home ?t ?h m)"
    by (rule first_on_path [of ?t i0 "probeStops s key ?h" ?h, OF sh i0(1)]) (use i0(2) in \<open>auto simp: probeStops_def\<close>)
  obtain i n where p: "index_get s key ?h = probeFrom (Suc n) s key ?h i" "unat i = home ?t ?h d"
    by (rule probeFrom_at [OF r shape_facts(3) [OF sh, of ?h], of "slots ?t" d key])
      (use d in \<open>auto simp: index_get_def slots_def simp del: probeFrom.simps\<close>)
  have il: "unat i < slots ?t" using p(2) sh by simp
  show thesis
  proof (cases "it_ctrl ?t ! unat i = ctrlEmpty")
    case True
    have "index_get s key ?h = Some (s, lkMiss)" using p True by simp
    moreover have "cacheMap hk s key = None"
    proof (rule ccontr)
      assume "cacheMap hk s key \<noteq> None"
      then obtain v e where hm: "hashMap s ?h = Some (key, v, e)" by (auto simp: cacheMap_def split: option.splits if_splits)
      then obtain ref where ref: "tabMap ?t ?h = Some ref" using hashMap_None [OF r, of ?h] by force
      then obtain k where k: "holds ?t ?h k" using tabMap_None [of ?t ?h] by auto
      obtain d' where d': "d' < slots ?t" "home ?t ?h d' = k" "\<And>m. m < d' \<Longrightarrow> \<not> stops ?t ?h (home ?t ?h m)" "stops ?t ?h k" "it_ctrl ?t ! k \<noteq> ctrlEmpty"
        by (rule tab_inv_holds [OF inv(1) k]) blast
      have tag: "it_ctrl ?t ! k AND ctrlTagMask = tagFor ?h" using d'(4,5) by (simp add: stops_def)
      have rk: "it_refs ?t ! k = ref" using tabMap_holds [OF inv(1) k] ref by simp
      obtain j off f where l: "located hk s pss ?h ref j off f" using index_refD [OF r ref] by blast
      have "probeStops s key ?h k"
        using hashMap_Some [OF r ref l] hm located_facts(2,5) [OF r l] tag rk by (simp add: probeStops_def)
      then have "d \<le> d'" using d(3) [of d'] d'(2) by (meson not_le)
      moreover have "\<not> d < d'" using d'(3) [of d] True p(2) by (auto simp: stops_def)
      ultimately have "home ?t ?h d = k" using d'(2) by simp
      then show False using d'(5) True p(2) by simp
    qed
    ultimately show thesis using that [of s lkMiss] r by simp
  next
    case False
    then obtain v e where st: "it_ctrl ?t ! unat i AND ctrlTagMask = tagFor ?h"
      "page_Read (ref_offset (it_refs ?t ! unat i)) (sh_pages s ! unat (ref_pageIdx (it_refs ?t ! unat i))) = Inr (key, v, e)"
      using d(2) p(2) by (auto simp: probeStops_def)
    show thesis
    proof (rule probe_slot [OF r il st(1)])
      fix j off f
      assume hd: "holds ?t (it_hashes ?t ! unat i) (unat i)" and tm: "tabMap ?t (it_hashes ?t ! unat i) = Some (it_refs ?t ! unat i)"
        and l: "located hk s pss (it_hashes ?t ! unat i) (it_refs ?t ! unat i) j off f" and j: "j < MaxPagesPerShard (sh_cfg s)"
      note lf = located_facts [OF r l]
      have h: "it_hashes ?t ! unat i = ?h" using lf(2,5,7) st(2) by simp
      let ?s = "if sh_sieve s then s\<lparr>sh_tab := setVisited i (tagFor ?h) (it_refs ?t ! unat i) ?t\<rparr> else s"
      have "index_get s key ?h = Some (?s, lkHit v e (it_refs ?t ! unat i))"
        using p(1) False st lf(1,2,4) j by (simp add: Let_def)
      moreover have "cacheMap hk s key = Some (v, e)" using hashMap_Some [OF r tm l] h lf(2,5) st(2) by (simp add: cacheMap_def)
      moreover have hd': "holds ?t ?h (unat i)" using hd h by simp
      note sv = setVisited_correct [OF inv(1) hd', of "it_refs ?t ! unat i"]
      have "shard_rep hk ?s pss" "hashMap ?s = hashMap s" using rep_marked [OF r sv] r by simp_all
      moreover have "tabMap (sh_tab ?s) = tabMap ?t" "idxOnly s ?s" using sv(2) by simp_all
      ultimately show thesis using that [of ?s "lkHit v e (it_refs ?t ! unat i)"] tm h by simp
    qed
  qed
qed

text \<open>A read answers from the stored entries, and may drop the expired entry it met.\<close>

lemma getCore_ok:
  assumes r: "shard_rep hk s pss"
  obtains s' where "getCore key (hk key) now allow s = Some (s', case cacheMap hk s key of
      Some (v, e) \<Rightarrow> if isExpired e now then Inl ErrNotFound else Inr (v, e) | None \<Rightarrow> Inl ErrNotFound)"
    "shard_rep hk s' pss" "idxOnly s s'" "tabMap (sh_tab s') \<subseteq>\<^sub>m tabMap (sh_tab s)"
    "hashMap s' = hashMap s \<or> hashMap s' = (hashMap s)(hk key := None) \<and> (\<exists>v e. cacheMap hk s key = Some (v, e) \<and> isExpired e now)"
proof -
  let ?h = "hk key"
  obtain s1 st where g: "index_get s key ?h = Some (s1, st)" "shard_rep hk s1 pss" "hashMap s1 = hashMap s" "tabMap (sh_tab s1) = tabMap (sh_tab s)"
    "idxOnly s s1" "case cacheMap hk s key of None \<Rightarrow> st = lkMiss
       | Some (v, e) \<Rightarrow> \<exists>ref. st = lkHit v e ref \<and> tabMap (sh_tab s) ?h = Some ref"
    by (rule index_get_ok [OF r, of key]) blast
  have le: "tabMap (sh_tab s1) \<subseteq>\<^sub>m tabMap (sh_tab s)" using g(4) by simp
  show thesis
  proof (cases "cacheMap hk s key")
    case None
    then show thesis using that [of s1] g(1,2,3,5,6) le by (simp add: getCore_def)
  next
    case (Some x)
    obtain v e where x: "x = (v, e)" by (cases x)
    then obtain ref where ref: "st = lkHit v e ref" "tabMap (sh_tab s) ?h = Some ref" using g(6) Some by auto
    show thesis
    proof (cases "isExpired e now \<and> allow")
      case False
      then show thesis using that [of s1] g(1,2,3,5) ref le Some x by (simp add: getCore_def)
    next
      case True
      show thesis using g(2)
      proof (cases rule: rep_find [of _ _ _ ?h])
        case absent
        then show thesis using g(4) ref by simp
      next
        case (present slot cur i off f)
        have cur: "cur = ref" using present(2) g(4) ref(2) by simp
        note lf = located_facts [OF g(2) present(4)]
        have "hashMap s ?h = Some (key, v, e)" using Some x by (auto simp: cacheMap_def split: option.splits if_splits)
        then have f: "fr_key f = key" "fr_exp f = e" using hashMap_Some [OF g(2) present(2,4)] g(3) by simp_all
        let ?s = "fireOnRemove key (s1\<lparr>sh_tab := tombstone slot (sh_tab s1)\<rparr>)"
        have d: "dropExpiredLocked key ?h ref now s1 = Some ?s"
          using present(1) cur lf(1,2,4,5) f True by (simp add: dropExpiredLocked_def Let_def)
        have t: "sh_tab ?s = tombstone slot (sh_tab s1)" by (simp add: fireOnRemove_def)
        note rt = rep_tombstone [OF g(2) present(3) idxOnly_simps(3) t]
        have "tabMap (sh_tab ?s) \<subseteq>\<^sub>m tabMap (sh_tab s)" using rt(2) g(4) by (auto simp: map_le_def)
        then show thesis using that [of ?s] g(1,3) ref(1) True Some x d rt(1,3) idxOnly_trans [OF g(5) idxOnly_simps(3)]
          by (simp add: getCore_def)
      qed
    qed
  qed
qed

end
