(* ===== verification/CacheSweep.thy ===== *)
theory CacheSweep
  imports CacheOps
begin

text \<open>
  The sweep of a cache shard: it removes exactly the expired entries, in batches, and a heap page goes
  when all that is left on it has expired.
\<close>

section \<open>The sweep of the index\<close>

lemma tombstone_holds: "slot < 2 ^ 64 \<Longrightarrow> holds (tombstone (of_nat slot) t) h j = (holds t h j \<and> j \<noteq> slot)"
  by (cases "j = slot") (auto simp: tombstone_def holds_def slots_def unat_of_nat)

text \<open>Dropping expired entries, and no others.\<close>

definition expiredOnly :: "u64 \<Rightarrow> shard \<Rightarrow> shard \<Rightarrow> bool" where
  "expiredOnly now s s' = (tabMap (sh_tab s') \<subseteq>\<^sub>m tabMap (sh_tab s) \<and> hashMap s' \<subseteq>\<^sub>m hashMap s \<and>
     (\<forall>h k v e. hashMap s h = Some (k, v, e) \<longrightarrow> hashMap s' h = None \<longrightarrow> isExpired e now))"

lemma expiredOnly_refl [simp]: "expiredOnly now s s"
  by (auto simp: expiredOnly_def)

lemma expiredOnly_trans: "expiredOnly now s s1 \<Longrightarrow> expiredOnly now s1 s2 \<Longrightarrow> expiredOnly now s s2"
proof -
  assume a: "expiredOnly now s s1" "expiredOnly now s1 s2"
  then have le: "hashMap s1 \<subseteq>\<^sub>m hashMap s" "hashMap s2 \<subseteq>\<^sub>m hashMap s1" "tabMap (sh_tab s2) \<subseteq>\<^sub>m tabMap (sh_tab s)"
    using map_le_trans [of "tabMap (sh_tab s2)" "tabMap (sh_tab s1)" "tabMap (sh_tab s)"] by (simp_all add: expiredOnly_def)
  have "isExpired e now" if "hashMap s h = Some (k, v, e)" "hashMap s2 h = None" for h k v e
  proof (cases "hashMap s1 h")
    case None
    then show ?thesis using a(1) that(1) unfolding expiredOnly_def by blast
  next
    case (Some x)
    then have "hashMap s h = Some x" by (rule map_le_SomeD [OF le(1)])
    then have "hashMap s1 h = Some (k, v, e)" using Some that(1) by simp
    then show ?thesis using a(2) that(2) unfolding expiredOnly_def by blast
  qed
  then show ?thesis using map_le_trans [OF le(2,1)] le(3) unfolding expiredOnly_def by blast
qed

lemma sweepStep_ok:
  assumes r: "shard_rep hk s pss" and i: "i < slots (sh_tab s)"
  obtains s' where "sweepStep now i s = Some s'" "shard_rep hk s' pss" "idxOnly s s'" "expiredOnly now s s'" "slots (sh_tab s') = slots (sh_tab s)"
    "\<And>h j. holds (sh_tab s') h j \<Longrightarrow> holds (sh_tab s) h j" 
    "\<And>h k v e. holds (sh_tab s') h i \<Longrightarrow> hashMap s h = Some (k, v, e) \<Longrightarrow> \<not> isExpired e now"
proof (cases "occupied (it_ctrl (sh_tab s) ! i)")
  case False
  then show thesis using that [of s] r by (auto simp: sweepStep_def Let_def occupied_def holds_def)
next
  case True
  let ?t = "sh_tab s" and ?h = "it_hashes (sh_tab s) ! i" and ?ref = "it_refs (sh_tab s) ! i"
  have inv: "tab_inv ?t" by (rule shard_repD(5) [OF r])
  have sh: "tab_shape ?t" using inv by (simp add: tab_inv_def)
  have i64: "i < 2 ^ 64" using i shape_facts(2) [OF sh] by simp
  have hd: "holds ?t ?h i" using True i by (simp add: holds_def)
  have tm: "tabMap ?t ?h = Some ?ref" by (rule tabMap_holds [OF inv hd])
  obtain j off f where l: "located hk s pss ?h ?ref j off f" using index_refD [OF r tm] by blast
  note lf = located_facts [OF r l] and hm = hashMap_Some [OF r tm l]
  have only: "h = ?h" if "holds ?t h i" for h using that by (simp add: holds_def)
  show thesis
  proof (cases "isExpired (fr_exp f) now")
    case False
    have "sweepStep now i s = Some s" using True lf(1,2,5) False by (simp add: sweepStep_def Let_def occupied_def)
    moreover have "\<not> isExpired e now" if "holds ?t h i" "hashMap s h = Some (k, v, e)" for h k v e
      using only [OF that(1)] that(2) hm False by simp
    ultimately show thesis using that [OF _ r] by simp
  next
    case exp: True
    let ?s = "fireOnRemove (fr_key f) (s\<lparr>sh_tab := tombstone (of_nat i) ?t\<rparr>)"
    have E: "sweepStep now i s = Some ?s" using True lf(1,2,5) exp by (simp add: sweepStep_def Let_def occupied_def)
    have t: "sh_tab ?s = tombstone (of_nat i) ?t" by (simp add: fireOnRemove_def)
    have hd': "holds ?t ?h (unat (of_nat i :: u64))" using hd i64 by (simp add: unat_of_nat)
    note rt = rep_tombstone [OF r hd' idxOnly_simps(3) t]
    have eo: "expiredOnly now s ?s" using rt(2,3) hm exp by (auto simp: expiredOnly_def map_le_def split: if_splits)
    have hs: "holds (sh_tab ?s) h j = (holds ?t h j \<and> j \<noteq> i)" for h j using tombstone_holds [OF i64] t by simp
    have "slots (sh_tab ?s) = slots ?t" using t by (simp add: tombstone_def slots_def)
    then show thesis using that [OF E rt(1) idxOnly_simps(3) eo] hs by simp
  qed
qed

lemma eachSweep_ok:
  assumes "shard_rep hk s pss" "set is \<subseteq> {..<slots (sh_tab s)}"
  shows "\<exists>s'. eachSlot (sweepStep now) is s = Some s' \<and> shard_rep hk s' pss \<and> idxOnly s s' \<and> expiredOnly now s s' \<and>
    slots (sh_tab s') = slots (sh_tab s) \<and> (\<forall>h j. holds (sh_tab s') h j \<longrightarrow> holds (sh_tab s) h j) \<and>
    (\<forall>i \<in> set is. \<forall>h k v e. holds (sh_tab s') h i \<longrightarrow> hashMap s' h = Some (k, v, e) \<longrightarrow> \<not> isExpired e now)"
  using assms
proof (induction "is" arbitrary: s)
  case (Cons i "is")
  obtain s1 where s1: "sweepStep now i s = Some s1" "shard_rep hk s1 pss" "idxOnly s s1" "expiredOnly now s s1" "slots (sh_tab s1) = slots (sh_tab s)"
    "\<And>h j. holds (sh_tab s1) h j \<Longrightarrow> holds (sh_tab s) h j"
    "\<And>h k v e. holds (sh_tab s1) h i \<Longrightarrow> hashMap s h = Some (k, v, e) \<Longrightarrow> \<not> isExpired e now"
    by (rule sweepStep_ok [OF Cons(2), of i now]) (use Cons(3) in auto)
  have "set is \<subseteq> {..<slots (sh_tab s1)}" using Cons(3) s1(5) by simp
  from Cons(1) [OF s1(2) this] obtain s' where s': "eachSlot (sweepStep now) is s1 = Some s'" "shard_rep hk s' pss" "idxOnly s1 s'" "expiredOnly now s1 s'"
    "slots (sh_tab s') = slots (sh_tab s1)" "\<forall>h j. holds (sh_tab s') h j \<longrightarrow> holds (sh_tab s1) h j"
    "\<forall>i \<in> set is. \<forall>h k v e. holds (sh_tab s') h i \<longrightarrow> hashMap s' h = Some (k, v, e) \<longrightarrow> \<not> isExpired e now"
    by (elim exE conjE)
  have sub: "hashMap s' \<subseteq>\<^sub>m hashMap s" using expiredOnly_trans [OF s1(4) s'(4)] by (simp add: expiredOnly_def)
  have "\<forall>j \<in> set (i # is). \<forall>h k v e. holds (sh_tab s') h j \<longrightarrow> hashMap s' h = Some (k, v, e) \<longrightarrow> \<not> isExpired e now"
  proof (intro ballI allI impI)
    fix j h k v e
    assume j: "j \<in> set (i # is)" and hd: "holds (sh_tab s') h j" and hm: "hashMap s' h = Some (k, v, e)"
    show "\<not> isExpired e now"
    proof (cases "j \<in> set is")
      case True
      then show ?thesis using s'(7) hd hm by blast
    next
      case False
      then have "holds (sh_tab s1) h i" using j hd s'(6) by auto
      then show ?thesis by (rule s1(7) [OF _ map_le_SomeD [OF sub hm]])
    qed
  qed
  moreover have "\<forall>h j. holds (sh_tab s') h j \<longrightarrow> holds (sh_tab s) h j" using s1(6) s'(6) by blast
  moreover have "eachSlot (sweepStep now) (i # is) s = Some s'" using s1(1) s'(1) by simp
  moreover have "slots (sh_tab s') = slots (sh_tab s)" using s1(5) s'(5) by simp
  ultimately show ?case using s'(2) idxOnly_trans [OF s1(3) s'(3)] expiredOnly_trans [OF s1(4) s'(4)]
    by (intro exI [of _ s'] conjI)
qed auto

definition swept :: "(bytes \<Rightarrow> u64) \<Rightarrow> (nat \<times> frame) list list \<Rightarrow> u64 \<Rightarrow> nat set \<Rightarrow> shard \<Rightarrow> shard \<Rightarrow> bool" where
  "swept hk pss now I s s' = (shard_rep hk s' pss \<and> idxOnly s s' \<and> expiredOnly now s s' \<and> slots (sh_tab s') = slots (sh_tab s) \<and>
     (\<forall>h j. holds (sh_tab s') h j \<longrightarrow> holds (sh_tab s) h j) \<and>
     (\<forall>i \<in> I. \<forall>h k v e. holds (sh_tab s') h i \<longrightarrow> hashMap s' h = Some (k, v, e) \<longrightarrow> \<not> isExpired e now))"

lemma sweepBatch_ok:
  assumes "shard_rep hk s pss"
  obtains s' where "sweepBatch now start s = Some s'" "swept hk pss now {start..<min (start + sweepBatchSize) (slots (sh_tab s))} s s'"
proof -
  have "set [start..<min (start + sweepBatchSize) (slots (sh_tab s))] \<subseteq> {..<slots (sh_tab s)}" by auto
  from eachSweep_ok [OF assms this, of now] show thesis
    using that unfolding swept_def sweepBatch_def slots_def [of "sh_tab s"] set_upt by blast
qed

lemma swept_trans:
  assumes "swept hk pss now I s s1" "swept hk pss now J s1 s2"
  shows "swept hk pss now (I \<union> J) s s2"
proof -
  have le: "hashMap s2 \<subseteq>\<^sub>m hashMap s1" using assms(2) by (simp add: swept_def expiredOnly_def)
  have "\<not> isExpired e now" if i: "i \<in> I \<union> J" and h: "holds (sh_tab s2) h i" and m: "hashMap s2 h = Some (k, v, e)" for i h k v e
  proof (cases "i \<in> J")
    case True
    then show ?thesis using assms(2) h m unfolding swept_def by blast
  next
    case False
    have "holds (sh_tab s1) h i" using assms(2) h unfolding swept_def by blast
    then show ?thesis using assms(1) i False map_le_SomeD [OF le m] unfolding swept_def by blast
  qed
  then show ?thesis using assms idxOnly_trans [of s s1 s2] expiredOnly_trans [of now s s1 s2] unfolding swept_def by auto
qed

lemma sweepIndexFrom_ok:
  assumes "shard_rep hk s pss" "n = slots (sh_tab s)"
  shows "\<exists>s'. sweepIndexFrom now n start s = Some s' \<and> swept hk pss now {start..<n} s s'"
  using assms
proof (induction now n start s rule: sweepIndexFrom.induct)
  case (1 now n start s)
  show ?case
  proof (cases "start < n")
    case False
    then show ?thesis using 1(2) by (simp add: sweepIndexFrom.simps [of now n start] swept_def)
  next
    case True
    obtain s1 where s1: "sweepBatch now start s = Some s1" "swept hk pss now {start..<min (start + sweepBatchSize) n} s s1"
      unfolding 1(3) by (rule sweepBatch_ok [OF 1(2)]) blast
    have r1: "shard_rep hk s1 pss" "n = slots (sh_tab s1)" using s1(2) 1(3) by (simp_all add: swept_def)
    obtain s2 where s2: "sweepIndexFrom now n (start + sweepBatchSize) s1 = Some s2" "swept hk pss now {start + sweepBatchSize..<n} s1 s2"
      using 1(1) [OF True s1(1) r1] by blast
    have "{start..<min (start + sweepBatchSize) n} \<union> {start + sweepBatchSize..<n} = {start..<n}" by auto
    then have "swept hk pss now {start..<n} s s2" using swept_trans [OF s1(2) s2(2)] by simp
    then show ?thesis using True s1(1) s2(1) by (simp add: sweepIndexFrom.simps [of now n start])
  qed
qed

text \<open>A whole sweep keeps exactly the entries that are not expired.\<close>

definition unexpired :: "u64 \<Rightarrow> bytes \<times> bytes \<times> u64 \<Rightarrow> bool" where "unexpired now x = (\<not> isExpired (snd (snd x)) now)"

lemma sweepIndex_ok:
  assumes r: "shard_rep hk s pss"
  obtains s' where "sweepIndex now s = Some s'" "shard_rep hk s' pss" "idxOnly s s'"
    "hashMap s' = (\<lambda>h. Option.bind (hashMap s h) (\<lambda>x. if unexpired now x then Some x else None))"
proof -
  obtain s' where s': "sweepIndex now s = Some s'" "swept hk pss now {0..<slots (sh_tab s)} s s'"
    using sweepIndexFrom_ok [OF r refl, of now 0] unfolding sweepIndex_def slots_def by blast
  have r': "shard_rep hk s' pss" "idxOnly s s'" and eo: "expiredOnly now s s'" and sl: "slots (sh_tab s') = slots (sh_tab s)"
    using s'(2) by (simp_all add: swept_def)
  have le: "hashMap s' \<subseteq>\<^sub>m hashMap s" using eo by (simp add: expiredOnly_def)
  have "hashMap s' h = Option.bind (hashMap s h) (\<lambda>x. if unexpired now x then Some x else None)" for h
  proof (cases "hashMap s' h")
    case None
    then show ?thesis using eo by (cases "hashMap s h") (auto simp: expiredOnly_def unexpired_def)
  next
    case (Some x)
    obtain k v e where x: "x = (k, v, e)" by (cases x)
    obtain j where j: "holds (sh_tab s') h j" using Some hashMap_None [OF r'(1), of h] tabMap_None [of "sh_tab s'" h] by auto
    then have "j \<in> {0..<slots (sh_tab s)}" using sl by (simp add: holds_def)
    then have "\<not> isExpired e now" using s'(2) j Some x unfolding swept_def by blast
    then show ?thesis using Some x map_le_SomeD [OF le Some] by (simp add: unexpired_def)
  qed
  then show thesis using that [OF s'(1) r'] by blast
qed

section \<open>Retiring expired heap pages\<close>

text \<open>Dropping a list of slots.\<close>

lemma dropSlots_ok:
  assumes "shard_rep hk s pss" "distinct (map fst es)"
    "\<forall>x \<in> set es. \<exists>h k v e. holds (sh_tab s) h (unat (fst x)) \<and> hashMap s h = Some (k, v, e) \<and> isExpired e now"
  shows "\<exists>s'. fold (\<lambda>(slot, off) s. fireOnRemoveAt p off (s\<lparr>sh_tab := tombstone slot (sh_tab s)\<rparr>)) es s = s' \<and> shard_rep hk s' pss \<and>
    idxOnly s s' \<and> expiredOnly now s s' \<and> tabMap (sh_tab s') \<subseteq>\<^sub>m tabMap (sh_tab s) \<and>
    (\<forall>x \<in> set es. \<forall>h. holds (sh_tab s) h (unat (fst x)) \<longrightarrow> tabMap (sh_tab s') h = None)"
  using assms
proof (induction es arbitrary: s)
  case (Cons x es)
  obtain slot off where x: "x = (slot, off)" by (cases x)
  obtain h k v e where h: "holds (sh_tab s) h (unat slot)" "hashMap s h = Some (k, v, e)" "isExpired e now"
    using Cons(4) x by auto
  let ?s1 = "fireOnRemoveAt p off (s\<lparr>sh_tab := tombstone slot (sh_tab s)\<rparr>)"
  have io: "idxOnly s ?s1" and t: "sh_tab ?s1 = tombstone slot (sh_tab s)"
    by (auto simp: fireOnRemoveAt_def fireOnRemove_def idxOnly_def split: sum.split)
  note rt = rep_tombstone [OF Cons(2) h(1) io t]
  have eo: "expiredOnly now s ?s1" using rt(2,3) h(2,3) by (auto simp: expiredOnly_def map_le_def split: if_splits)
  have hs: "holds (sh_tab ?s1) h' j = (holds (sh_tab s) h' j \<and> j \<noteq> unat slot)" for h' j
    using tombstone_holds [of "unat slot" "sh_tab s" h' j] unsigned_less [of slot, where ?'a = nat] t by simp
  have nx: "\<forall>y \<in> set es. \<exists>h k v e. holds (sh_tab ?s1) h (unat (fst y)) \<and> hashMap ?s1 h = Some (k, v, e) \<and> isExpired e now"
  proof
    fix y assume m: "y \<in> set es"
    obtain h' k' v' e' where h': "holds (sh_tab s) h' (unat (fst y))" "hashMap s h' = Some (k', v', e')" "isExpired e' now"
      using Cons(4) m by auto
    have "fst y \<noteq> slot" using Cons(3) m x by auto
    then have ne: "unat (fst y) \<noteq> unat slot" by (metis unsigned_word_eqI)
    then have "h' \<noteq> h" using h(1) h'(1) holds_unique [OF shard_repD(5) [OF Cons(2)]] by blast
    then show "\<exists>h k v e. holds (sh_tab ?s1) h (unat (fst y)) \<and> hashMap ?s1 h = Some (k, v, e) \<and> isExpired e now"
      using h' hs ne rt(3) by auto
  qed
  have ds: "distinct (map fst es)" using Cons(3) by simp
  from Cons(1) [OF rt(1) ds nx] obtain s' where s': "fold (\<lambda>(slot, off) s. fireOnRemoveAt p off (s\<lparr>sh_tab := tombstone slot (sh_tab s)\<rparr>)) es ?s1 = s'"
    "shard_rep hk s' pss" "idxOnly ?s1 s'" "expiredOnly now ?s1 s'" "tabMap (sh_tab s') \<subseteq>\<^sub>m tabMap (sh_tab ?s1)"
    "\<forall>x \<in> set es. \<forall>h. holds (sh_tab ?s1) h (unat (fst x)) \<longrightarrow> tabMap (sh_tab s') h = None"
    by (elim exE conjE)
  have le: "tabMap (sh_tab ?s1) \<subseteq>\<^sub>m tabMap (sh_tab s)" using rt(2) by (auto simp: map_le_def)
  have "tabMap (sh_tab s') h' = None" if m: "y \<in> set (x # es)" and hd: "holds (sh_tab s) h' (unat (fst y))" for h' y
  proof (cases "unat (fst y) = unat slot")
    case True
    then have "h' = h" using hd h(1) by (simp add: holds_def)
    then have "tabMap (sh_tab ?s1) h' = None" using rt(2) by simp
    then show ?thesis using map_le_SomeD [OF s'(5), of h'] by (cases "tabMap (sh_tab s') h'") auto
  next
    case False
    then have "y \<in> set es" using m x by auto
    then show ?thesis using s'(6) hd hs False by blast
  qed
  then have none: "\<forall>y \<in> set (x # es). \<forall>h. holds (sh_tab s) h (unat (fst y)) \<longrightarrow> tabMap (sh_tab s') h = None" by blast
  have all: "fold (\<lambda>(slot, off) s. fireOnRemoveAt p off (s\<lparr>sh_tab := tombstone slot (sh_tab s)\<rparr>)) (x # es) s = s'" using s'(1) x by simp
  show ?case
    by (intro exI [of _ s'] conjI) (rule all s'(2) idxOnly_trans [OF io s'(3)] expiredOnly_trans [OF eo s'(4)] map_le_trans [OF s'(5) le] none)+
qed simp

text \<open>What the walk over a page collects: the slots of its indexed frames, all of them expired.\<close>

definition collected :: "(bytes \<Rightarrow> u64) \<Rightarrow> shard \<Rightarrow> nat \<Rightarrow> u64 \<Rightarrow> (nat \<times> frame) list \<Rightarrow> (u64 \<times> u32) list \<Rightarrow> bool" where
  "collected hk s idx stamp fs es = (distinct (map fst es) \<and>
     (\<forall>(slot, off) \<in> set es. \<exists>(o', f) \<in> set fs. off = of_nat o' \<and> isExpired (fr_exp f) stamp \<and> holds (sh_tab s) (hk (fr_key f)) (unat slot) \<and>
        tabMap (sh_tab s) (hk (fr_key f)) = Some (makeSlabRef (of_nat idx) (pg_gen (sh_pages s ! idx)) (of_nat o'))) \<and>
     (\<forall>(o', f) \<in> set fs. tabMap (sh_tab s) (hk (fr_key f)) = Some (makeSlabRef (of_nat idx) (pg_gen (sh_pages s ! idx)) (of_nat o')) \<longrightarrow>
        (\<exists>slot. (slot, of_nat o') \<in> set es \<and> holds (sh_tab s) (hk (fr_key f)) (unat slot))))"

lemma collected_skip:
  assumes "collected hk s idx stamp fs es"
    "tabMap (sh_tab s) (hk (fr_key f)) \<noteq> Some (makeSlabRef (of_nat idx) (pg_gen (sh_pages s ! idx)) (of_nat off))"
  shows "collected hk s idx stamp ((off, f) # fs) es"
  using assms unfolding collected_def by fastforce

lemma collected_take:
  assumes c: "collected hk s idx stamp fs es" and e: "isExpired (fr_exp f) stamp" and h: "holds (sh_tab s) (hk (fr_key f)) (unat slot)"
    and t: "tabMap (sh_tab s) (hk (fr_key f)) = Some (makeSlabRef (of_nat idx) (pg_gen (sh_pages s ! idx)) (of_nat off))"
    and new: "\<And>o' g. (o', g) \<in> set fs \<Longrightarrow> (of_nat o' :: u32) \<noteq> of_nat off"
  shows "collected hk s idx stamp ((off, f) # fs) ((slot, of_nat off) # es)"
proof -
  have "slot \<notin> fst ` set es"
  proof
    assume "slot \<in> fst ` set es"
    then obtain o2 where "(slot, o2) \<in> set es" by force
    then obtain o' g where g: "(o', g) \<in> set fs" "holds (sh_tab s) (hk (fr_key g)) (unat slot)"
      "tabMap (sh_tab s) (hk (fr_key g)) = Some (makeSlabRef (of_nat idx) (pg_gen (sh_pages s ! idx)) (of_nat o'))"
      using c unfolding collected_def by fast
    have "hk (fr_key g) = hk (fr_key f)" using g(2) h by (simp add: holds_def)
    then have "makeSlabRef (of_nat idx) (pg_gen (sh_pages s ! idx)) (of_nat o') = makeSlabRef (of_nat idx) (pg_gen (sh_pages s ! idx)) (of_nat off)"
      using g(3) t by simp
    from arg_cong [OF this, of ref_offset] show False using new [OF g(1)] by simp
  qed
  then have "distinct (map fst ((slot, of_nat off :: u32) # es))" using c by (simp add: collected_def)
  moreover have "\<forall>(slot', off') \<in> set ((slot, of_nat off) # es). \<exists>(o', f) \<in> set ((off, f) # fs). off' = of_nat o' \<and> isExpired (fr_exp f) stamp \<and>
      holds (sh_tab s) (hk (fr_key f)) (unat slot') \<and> tabMap (sh_tab s) (hk (fr_key f)) = Some (makeSlabRef (of_nat idx) (pg_gen (sh_pages s ! idx)) (of_nat o'))"
    using c e h t unfolding collected_def by fastforce
  moreover have "\<forall>(o', f) \<in> set ((off, f) # fs). tabMap (sh_tab s) (hk (fr_key f)) = Some (makeSlabRef (of_nat idx) (pg_gen (sh_pages s ! idx)) (of_nat o')) \<longrightarrow>
      (\<exists>slot'. (slot', of_nat o') \<in> set ((slot, of_nat off) # es) \<and> holds (sh_tab s) (hk (fr_key f)) (unat slot'))"
    using c h unfolding collected_def by fastforce
  ultimately show ?thesis unfolding collected_def by blast
qed

lemma expiredSlots_ok:
  assumes r: "shard_rep (ce_hash env) s pss" and i: "i < length (sh_pages s)" and sp: "pss ! i = xs @ rest"
    and fr: "framed (page_entries (sh_pages s ! i)) (pg_head (sh_pages s ! i)) xs cursor"
  shows "\<exists>x. expiredSlots env i (sh_pages s ! i) stamp cursor s = Some x \<and> (\<forall>es. x = Some es \<longrightarrow> collected (ce_hash env) s i stamp rest es)"
  using sp fr
proof (induction rest arbitrary: xs cursor)
  case Nil
  have "cursor = pg_tail (sh_pages s ! i)" using shard_repD(8) [OF r i] Nil framed_end by (auto simp: page_rep_def)
  then show ?case by (simp add: expiredSlots.simps collected_def)
next
  case (Cons y rest)
  let ?p = "sh_pages s ! i"
  obtain off f where y: "y = (off, f)" by (cases y)
  have pr: "page_rep ?p (xs @ (off, f) # rest)" using shard_repD(8) [OF r i] Cons(2) y by simp
  have off: "off = cursor" using pr Cons(3) framed_end unfolding page_rep_def framed_append by auto
  have mem: "(off, f) \<in> set (pss ! i)" using Cons(2) y by simp
  note at = decode_at [OF shard_repD(8) [OF r i] mem]
  have lt: "cursor < pg_tail ?p" using at(6) frLen_pos [of f] off by simp
  have fr': "framed (page_entries ?p) (pg_head ?p) (xs @ [(off, f)]) (off + frLen f)"
    using pr Cons(3) off unfolding page_rep_def framed_append by auto
  obtain x where x: "expiredSlots env i ?p stamp (off + frLen f) s = Some x" "\<And>es. x = Some es \<Longrightarrow> collected (ce_hash env) s i stamp rest es"
    using Cons(1) [of "xs @ [(off, f)]" "off + frLen f"] Cons(2) y fr' by auto
  let ?h = "ce_hash env (fr_key f)" and ?ref = "makeSlabRef (of_nat i) (pg_gen ?p) (of_nat off)"
  have step: "expiredSlots env i ?p stamp cursor s = (case findSlot (sh_tab s) ?h of
       None \<Rightarrow> None | Some None \<Rightarrow> Some x
     | Some (Some (slot, cur)) \<Rightarrow> if cur \<noteq> ?ref then Some x else if \<not> isExpired (fr_exp f) stamp then Some None
         else Some (map_option ((#) (slot, of_nat off)) x))"
    using lt at(1,5) off x(1) by (simp add: expiredSlots.simps [of _ _ _ _ cursor] entrySpan_def classOf_def Let_def split: option.split)
  show ?case using r
  proof (cases rule: rep_find [of _ _ _ ?h])
    case absent
    then show ?thesis using step x(2) collected_skip y by auto
  next
    case (present slot cur j o' g)
    show ?thesis
    proof (cases "cur = ?ref")
      case False
      then show ?thesis using step x(2) present(1,2) collected_skip y by auto
    next
      case True
      have new: "(of_nat o2 :: u32) \<noteq> of_nat off" if m: "(o2, g2) \<in> set rest" for o2 g2
      proof -
        have "off + frLen f \<le> o2"
          using framed_mem [of "page_entries ?p" "off + frLen f" rest "pg_tail ?p"] pr m unfolding page_rep_def framed_append by auto
        then have "off < o2" using frLen_pos [of f] by simp
        moreover have "unat (of_nat o2 :: u32) = o2" "unat (of_nat off :: u32) = off"
          using decode_at(8) [OF shard_repD(8) [OF r i], of o2 g2] at(8) m Cons(2) by auto
        ultimately show ?thesis by auto
      qed
      have "collected (ce_hash env) s i stamp (y # rest) ((slot, of_nat off) # es)" if "x = Some es" "isExpired (fr_exp f) stamp" for es
        using collected_take [OF x(2) [OF that(1)] that(2) present(3) _ new] present(2) True y by simp
      then show ?thesis using step present(1) True by auto
    qed
  qed
qed

lemma tryRetireExpired_ok:
  assumes r: "shard_rep (ce_hash env) s pss" and heap: "\<not> sh_isMmap s" and i: "i < length (sh_pages s)"
  obtains s' pss' where "tryRetireExpiredPageLocked env stamp i s = Some s'" "shard_rep (ce_hash env) s' pss'" "pagesFrame s s'" "expiredOnly stamp s s'"
proof -
  let ?p = "sh_pages s ! i" and ?hk = "ce_hash env"
  have "framed (page_entries ?p) (pg_head ?p) [] (pg_head ?p)" by simp
  from expiredSlots_ok [OF r i _ this, of "pss ! i" stamp]
  obtain x where x: "expiredSlots env i ?p stamp (pg_head ?p) s = Some x" "\<And>es. x = Some es \<Longrightarrow> collected ?hk s i stamp (pss ! i) es" by auto
  show thesis
  proof (cases "page_Empty ?p \<or> x = None")
    case True
    then have "tryRetireExpiredPageLocked env stamp i s = Some s" using x(1) by (auto simp: tryRetireExpiredPageLocked_def Let_def)
    then show thesis using that r by simp
  next
    case False
    then obtain es where es: "x = Some es" by auto
    note c = x(2) [OF es]
    have "\<forall>y \<in> set es. \<exists>h k v e. holds (sh_tab s) h (unat (fst y)) \<and> hashMap s h = Some (k, v, e) \<and> isExpired e stamp"
    proof
      fix y assume y: "y \<in> set es"
      obtain slot o2 where y2: "y = (slot, o2)" by (cases y)
      then obtain o' f where f: "(o', f) \<in> set (pss ! i)" "isExpired (fr_exp f) stamp" "holds (sh_tab s) (?hk (fr_key f)) (unat slot)"
        "tabMap (sh_tab s) (?hk (fr_key f)) = Some (makeSlabRef (of_nat i) (pg_gen ?p) (of_nat o'))"
        using c y unfolding collected_def by fast
      obtain j o3 g where l: "located ?hk s pss (?hk (fr_key f)) (makeSlabRef (of_nat i) (pg_gen ?p) (of_nat o')) j o3 g"
        using index_refD [OF r f(4)] by blast
      have "g = f" by (rule located_at(3) [OF r i f(1) l])
      then show "\<exists>h k v e. holds (sh_tab s) h (unat (fst y)) \<and> hashMap s h = Some (k, v, e) \<and> isExpired e stamp"
        using hashMap_Some [OF r f(4) l] f(2,3) y2 by auto
    qed
    from dropSlots_ok [OF r _ this, of ?p] c obtain s1 where s1:
      "fold (\<lambda>(slot, off) s. fireOnRemoveAt ?p off (s\<lparr>sh_tab := tombstone slot (sh_tab s)\<rparr>)) es s = s1" "shard_rep ?hk s1 pss"
      "idxOnly s s1" "expiredOnly stamp s s1" "tabMap (sh_tab s1) \<subseteq>\<^sub>m tabMap (sh_tab s)"
      "\<forall>y \<in> set es. \<forall>h. holds (sh_tab s) h (unat (fst y)) \<longrightarrow> tabMap (sh_tab s1) h = None"
      unfolding collected_def by blast
    have pg: "sh_pages s1 = sh_pages s" "sh_cfg s1 = sh_cfg s" "sh_isMmap s1 = sh_isMmap s" using s1(3) by (simp_all add: idxOnly_def)
    have gone: "tabMap (sh_tab s1) h \<noteq> Some (makeSlabRef (of_nat i) (pg_gen ?p) (of_nat (fst y)))" if y: "y \<in> set (pss ! i)" for y h
    proof
      assume t: "tabMap (sh_tab s1) h = Some (makeSlabRef (of_nat i) (pg_gen ?p) (of_nat (fst y)))"
      obtain o' f where y2: "y = (o', f)" by (cases y)
      have ts: "tabMap (sh_tab s) h = Some (makeSlabRef (of_nat i) (pg_gen ?p) (of_nat o'))" using map_le_SomeD [OF s1(5) t] y2 by simp
      obtain j o3 g where l: "located ?hk s pss h (makeSlabRef (of_nat i) (pg_gen ?p) (of_nat o')) j o3 g" using index_refD [OF r ts] by blast
      have h: "h = ?hk (fr_key f)" using located_at(4) [OF r i _ l] y y2 by blast
      obtain slot where "(slot, of_nat o') \<in> set es" "holds (sh_tab s) h (unat slot)"
        using c y y2 ts h unfolding collected_def by fast
      then show False using s1(6) t by fastforce
    qed
    let ?fresh = "(newHeapPage (cc_PageSize (sh_cfg s1)))\<lparr>pg_gen := sh_genCounter s1\<rparr>"
    define s' where "s' = setPage i ?fresh (s1\<lparr>sh_genCounter := sh_genCounter s1 + 1\<rparr>)"
    have E: "tryRetireExpiredPageLocked env stamp i s = Some s'"
      using False x(1) es s1(1) by (simp add: tryRetireExpiredPageLocked_def Let_def freshHeapPageLocked_def s'_def)
    have i1: "i < length (sh_pages s1)" "\<not> sh_isMmap s1" using i heap pg by simp_all
    note np = newHeapPage_ok [OF shard_repD(1) [OF s1(2)] i1(2), of "sh_genCounter s1"]
    have no: "\<forall>h ref. tabMap (sh_tab s1) h = Some ref \<longrightarrow> unat (ref_pageIdx ref) \<noteq> i"
      using no_refs_left [OF s1(2), of i] gone pg by auto
    have rep: "shard_rep ?hk s' (pss[i := []])" "hashMap s' = hashMap s1"
      using rep_setPage [OF s1(2) i1(1) np(1), of s'] no by (simp_all add: s'_def setPage_def)
    have pf: "pagesFrame s s'" using s1(3) by (simp add: pagesFrame_def idxOnly_def s'_def setPage_def)
    have "sh_tab s' = sh_tab s1" by (simp add: s'_def setPage_def)
    then have "expiredOnly stamp s s'" using s1(4) rep(2) by (simp add: expiredOnly_def)
    then show thesis using that [OF E rep(1) pf] by blast
  qed
qed

lemma reclaimExpired_ok:
  assumes "shard_rep (ce_hash env) s pss" "\<not> sh_isMmap s" "set is \<subseteq> {..<length (sh_pages s)}"
  shows "\<exists>s' pss'. eachSlot (tryRetireExpiredPageLocked env stamp) is s = Some s' \<and> shard_rep (ce_hash env) s' pss' \<and> pagesFrame s s' \<and>
    expiredOnly stamp s s'"
  using assms
proof (induction "is" arbitrary: s pss)
  case (Cons i "is")
  have i: "i < length (sh_pages s)" using Cons(4) by simp
  obtain s1 pss1 where s1: "tryRetireExpiredPageLocked env stamp i s = Some s1" "shard_rep (ce_hash env) s1 pss1" "pagesFrame s s1" "expiredOnly stamp s s1"
    by (rule tryRetireExpired_ok [OF Cons(2,3) i]) blast
  have n: "\<not> sh_isMmap s1" "set is \<subseteq> {..<length (sh_pages s1)}" using s1(3) Cons(3,4) by (simp_all add: pagesFrame_def)
  from Cons(1) [OF s1(2) n] obtain s' pss' where s': "eachSlot (tryRetireExpiredPageLocked env stamp) is s1 = Some s'"
    "shard_rep (ce_hash env) s' pss'" "pagesFrame s1 s'" "expiredOnly stamp s1 s'" by blast
  have "eachSlot (tryRetireExpiredPageLocked env stamp) (i # is) s = Some s'" using s1(1) s'(1) by simp
  then show ?case using s'(2) pagesFrame_trans [OF s1(3) s'(3)] expiredOnly_trans [OF s1(4) s'(4)] by blast
qed auto

end
