(* ===== verification/CacheRun.thy ===== *)
theory CacheRun
  imports CacheSweep
begin

text \<open>
  Runs of a cache shard over all of its operations, against an abstract store: a map from hashes to
  entries that a policy of eviction lets lose entries. Every run returns and is a run of that store; what
  a caller can rely on then follows for the store alone.
\<close>

section \<open>Runs\<close>

text \<open>The critical sections of a shard: reads, writes and deletes, one batch of a sweep, the check of one
  page for expiry, and a flush, whose argument is the outcome of writing the sidecar file.\<close>

datatype cacheOp = opGet bytes | opGetAt bytes u64 | opPut bytes bytes int | opPutAt bytes bytes int u64 | opDel bytes
  | opSweepBatch u64 nat | opReclaim u64 nat | opFlush bool

datatype cacheResult = resGet "cacheError + bytes \<times> u64" | resErr "cacheError option" | resDel "cacheError + bool" | resDone

definition reclaimPage :: "cacheEnv \<Rightarrow> u64 \<Rightarrow> nat \<Rightarrow> shard \<Rightarrow> shard option" where
  "reclaimPage env stamp idx s =
     (if sh_isMmap s then Some s else if idx \<ge> length (sh_pages s) then Some s else tryRetireExpiredPageLocked env stamp idx s)"

fun cacheOpStep :: "cacheEnv \<Rightarrow> cacheOp \<Rightarrow> shard \<Rightarrow> (shard \<times> cacheResult) option" where
  "cacheOpStep env (opGet key) s = map_option (map_prod id resGet) (getWithExpiryH env key s)"
| "cacheOpStep env (opGetAt key now) s = map_option (map_prod id resGet) (getWithExpiryAtH env key now s)"
| "cacheOpStep env (opPut key val ttl) s = map_option (map_prod id resErr) (putH env key val ttl s)"
| "cacheOpStep env (opPutAt key val ttl now) s = map_option (map_prod id resErr) (putAtH env key val ttl now s)"
| "cacheOpStep env (opDel key) s = map_option (map_prod id resDel) (delH env key s)"
| "cacheOpStep env (opSweepBatch now start) s = map_option (\<lambda>s'. (s', resDone)) (sweepBatch now start s)"
| "cacheOpStep env (opReclaim stamp idx) s = map_option (\<lambda>s'. (s', resDone)) (reclaimPage env stamp idx s)"
| "cacheOpStep env (opFlush ok) s = Some (map_prod id resErr (shard_flush ok s))"

text \<open>All operations of a run hash keys alike.\<close>

definition cacheStep :: "(bytes \<Rightarrow> u64) \<Rightarrow> cacheEnv \<times> cacheOp \<Rightarrow> shard \<Rightarrow> (shard \<times> cacheResult) option" where
  "cacheStep hk x s = cacheOpStep ((fst x)\<lparr>ce_hash := hk\<rparr>) (snd x) s"

fun runOf :: "('o \<Rightarrow> 's \<Rightarrow> ('s \<times> 'r) option) \<Rightarrow> 'o list \<Rightarrow> 's \<Rightarrow> ('s \<times> 'r list) option" where
  "runOf step [] s = Some (s, [])"
| "runOf step (x # xs) s =
     (case step x s of
        None \<Rightarrow> None
      | Some (s1, r) \<Rightarrow> (case runOf step xs s1 of None \<Rightarrow> None | Some (s2, rs) \<Rightarrow> Some (s2, r # rs)))"

definition cacheRun :: "(bytes \<Rightarrow> u64) \<Rightarrow> (cacheEnv \<times> cacheOp) list \<Rightarrow> shard \<Rightarrow> (shard \<times> cacheResult list) option" where
  "cacheRun hk = runOf (cacheStep hk)"

section \<open>The abstract store\<close>

type_synonym hstore = "u64 \<Rightarrow> (bytes \<times> bytes \<times> u64) option"

definition lookupIn :: "hstore \<Rightarrow> u64 \<Rightarrow> bytes \<Rightarrow> (bytes \<times> u64) option" where
  "lookupIn m h k = (case m h of None \<Rightarrow> None | Some (k', v, e) \<Rightarrow> if k' = k then Some (v, e) else None)"

definition answer :: "u64 \<Rightarrow> (bytes \<times> u64) option \<Rightarrow> cacheError + bytes \<times> u64" where
  "answer now x = (case x of Some (v, e) \<Rightarrow> if isExpired e now then Inl ErrNotFound else Inr (v, e) | None \<Rightarrow> Inl ErrNotFound)"

definition evicts :: "AtCapPolicy \<Rightarrow> hstore \<Rightarrow> hstore \<Rightarrow> bool" where
  "evicts pol m m' = (m' \<subseteq>\<^sub>m m \<and> (pol \<noteq> PolicyRingbufEvict \<longrightarrow> m' = m))"

definition expires :: "u64 \<Rightarrow> hstore \<Rightarrow> hstore \<Rightarrow> bool" where
  "expires now m m' = (m' \<subseteq>\<^sub>m m \<and> (\<forall>h k v e. m h = Some (k, v, e) \<longrightarrow> m' h = None \<longrightarrow> isExpired e now))"

definition putSpec :: "AtCapPolicy \<Rightarrow> u64 \<Rightarrow> bytes \<times> bytes \<times> u64 \<Rightarrow> cacheResult \<Rightarrow> hstore \<Rightarrow> hstore \<Rightarrow> bool" where
  "putSpec pol h x r m m' = (\<exists>m0 err. evicts pol m m0 \<and> r = resErr err \<and> m' = (if err = None then m0(h \<mapsto> x) else m0))"

fun cacheSpec :: "AtCapPolicy \<Rightarrow> (bytes \<Rightarrow> u64) \<Rightarrow> cacheEnv \<times> cacheOp \<Rightarrow> cacheResult \<Rightarrow> hstore \<Rightarrow> hstore \<Rightarrow> bool" where
  "cacheSpec pol hk (env, opGet k) r m m' = (r = resGet (answer (ce_now env) (lookupIn m (hk k) k)) \<and> expires (ce_now env) m m')"
| "cacheSpec pol hk (env, opGetAt k now) r m m' = (r = resGet (answer now (lookupIn m (hk k) k)) \<and> expires now m m')"
| "cacheSpec pol hk (env, opPut k v ttl) r m m' = putSpec pol (hk k) (k, v, expiryAtFrom ttl (ce_now env)) r m m'"
| "cacheSpec pol hk (env, opPutAt k v ttl now) r m m' = putSpec pol (hk k) (k, v, expiryAtFrom ttl now) r m m'"
| "cacheSpec pol hk (env, opDel k) r m m' = (\<exists>m0 res. evicts pol m m0 \<and> r = resDel res \<and>
     m' = (if res = Inr True then m0(hk k := None) else m0) \<and> (res = Inr True \<longrightarrow> lookupIn m (hk k) k \<noteq> None) \<and>
     (res = Inr False \<longrightarrow> m' = m \<and> lookupIn m (hk k) k = None))"
| "cacheSpec pol hk (env, opSweepBatch now start) r m m' = (r = resDone \<and> expires now m m')"
| "cacheSpec pol hk (env, opReclaim stamp idx) r m m' = (r = resDone \<and> expires stamp m m')"
| "cacheSpec pol hk (env, opFlush ok) r m m' = (\<exists>err. r = resErr err \<and> m' = (if err = None then (\<lambda>_. None) else m))"

fun specRun :: "('o \<Rightarrow> 'r \<Rightarrow> 'm \<Rightarrow> 'm \<Rightarrow> bool) \<Rightarrow> 'o list \<Rightarrow> 'r list \<Rightarrow> 'm \<Rightarrow> 'm \<Rightarrow> bool" where
  "specRun spec [] [] m m' = (m' = m)"
| "specRun spec (x # xs) (r # rs) m m' = (\<exists>m1. spec x r m m1 \<and> specRun spec xs rs m1 m')"
| "specRun spec [] (r # rs) m m' = False"
| "specRun spec (x # xs) [] m m' = False"

text \<open>The interface: a store whose every operation returns, keeps the invariant and is one of the abstract store's.
  A predicate of the history and the abstract state that every abstract operation keeps then holds after every run.\<close>

locale simulated_store =
  fixes step :: "'o \<Rightarrow> 's \<Rightarrow> ('s \<times> 'r) option" and abs :: "'s \<Rightarrow> 'm" and inv :: "'s \<Rightarrow> bool" and spec :: "'o \<Rightarrow> 'r \<Rightarrow> 'm \<Rightarrow> 'm \<Rightarrow> bool"
  assumes step_ok: "inv s \<Longrightarrow> \<exists>s' r. step x s = Some (s', r) \<and> inv s' \<and> spec x r (abs s) (abs s')"
begin

lemma run_ok: "inv s \<Longrightarrow> \<exists>s' rs. runOf step xs s = Some (s', rs) \<and> inv s' \<and> specRun spec xs rs (abs s) (abs s')"
proof (induction xs arbitrary: s)
  case (Cons x xs)
  obtain s1 r where s1: "step x s = Some (s1, r)" "inv s1" "spec x r (abs s) (abs s1)" using step_ok [OF Cons(2)] by blast
  obtain s2 rs where s2: "runOf step xs s1 = Some (s2, rs)" "inv s2" "specRun spec xs rs (abs s1) (abs s2)" using Cons(1) [OF s1(2)] by blast
  have "runOf step (x # xs) s = Some (s2, r # rs)" using s1(1) s2(1) by simp
  moreover have "specRun spec (x # xs) (r # rs) (abs s) (abs s2)" using s1(3) s2(3) by auto
  ultimately show ?case using s2(2) by blast
qed simp

lemma run_keeps:
  assumes "inv s" "runOf step xs s = Some (s', rs)" "P g (abs s)"
    and "\<And>x r m m' g. x \<in> set xs \<Longrightarrow> P g m \<Longrightarrow> spec x r m m' \<Longrightarrow> P (upd x r g) m'"
  shows "inv s'" "P (fold (\<lambda>(x, r). upd x r) (zip xs rs) g) (abs s')"
proof -
  have *: "specRun spec xs rs m m' \<Longrightarrow> P g m \<Longrightarrow> P (fold (\<lambda>(x, r). upd x r) (zip xs rs) g) m'" for rs m m' g
    using assms(4)
  proof (induction spec xs rs m m' arbitrary: g rule: specRun.induct)
    case (2 spec x xs r rs m m')
    then obtain m1 where "spec x r m m1" "specRun spec xs rs m1 m'" by auto
    then show ?case using 2(1) [of m1 "upd x r g"] 2(3,4) by auto
  qed auto
  show "inv s'" "P (fold (\<lambda>(x, r). upd x r) (zip xs rs) g) (abs s')" using run_ok [OF assms(1), of xs] assms(2,3) * by auto
qed

end

section \<open>Every operation of a shard is one of the store\<close>

definition cacheInv :: "(bytes \<Rightarrow> u64) \<Rightarrow> cacheCfg \<Rightarrow> bool \<Rightarrow> shard \<Rightarrow> bool" where
  "cacheInv hk cfg mm s = ((\<exists>pss. shard_rep hk s pss) \<and> sh_cfg s = cfg \<and> sh_isMmap s = mm)"

lemma cacheInv_rep: "cacheInv hk cfg mm s \<Longrightarrow> \<exists>pss. shard_rep hk s pss"
  by (simp add: cacheInv_def)

lemma cacheInv_frame: "cacheInv hk cfg mm s \<Longrightarrow> shard_rep hk s' pss' \<Longrightarrow> confFrame s s' \<Longrightarrow> cacheInv hk cfg mm s'"
  by (auto simp: cacheInv_def confFrame_def)

lemma cacheMap_lookup: "cacheMap hk s k = lookupIn (hashMap s) (hk k) k"
  by (simp add: cacheMap_def lookupIn_def)

lemma expires_refl [simp]: "expires now m m"
  by (auto simp: expires_def)

lemma expires_expiredOnly: "expiredOnly now s s' \<Longrightarrow> expires now (hashMap s) (hashMap s')"
  by (simp add: expires_def expiredOnly_def)

lemma expires_drop: "lookupIn m h k = Some (v, e) \<Longrightarrow> isExpired e now \<Longrightarrow> expires now m (m(h := None))"
  by (auto simp: expires_def lookupIn_def map_le_def split: option.splits if_splits)

lemma advance_step:
  assumes "cacheInv hk cfg mm s"
  shows "cacheInv hk cfg mm (advanceAppliedStamp st s)" "hashMap (advanceAppliedStamp st s) = hashMap s"
proof -
  obtain pss where r: "shard_rep hk s pss" using cacheInv_rep [OF assms] by blast
  have f: "sh_cfg (advanceAppliedStamp st s) = sh_cfg s" "sh_isMmap (advanceAppliedStamp st s) = sh_isMmap s"
    "sh_pages (advanceAppliedStamp st s) = sh_pages s" "sh_tab (advanceAppliedStamp st s) = sh_tab s"
    by (simp_all add: advanceAppliedStamp_def)
  note rs = rep_same [OF r f]
  show "cacheInv hk cfg mm (advanceAppliedStamp st s)" using assms rs(1) f(1,2) by (auto simp: cacheInv_def)
  show "hashMap (advanceAppliedStamp st s) = hashMap s" by (rule rs(2))
qed

lemma getCore_step:
  assumes i: "cacheInv hk cfg mm s"
  obtains s' where "getCore key (hk key) now allow s = Some (s', answer now (lookupIn (hashMap s) (hk key) key))"
    "cacheInv hk cfg mm s'" "expires now (hashMap s) (hashMap s')"
proof -
  obtain pss where r: "shard_rep hk s pss" using cacheInv_rep [OF i] by blast
  obtain s' where g: "getCore key (hk key) now allow s = Some (s', case cacheMap hk s key of
      Some (v, e) \<Rightarrow> if isExpired e now then Inl ErrNotFound else Inr (v, e) | None \<Rightarrow> Inl ErrNotFound)"
    "shard_rep hk s' pss" "idxOnly s s'" "tabMap (sh_tab s') \<subseteq>\<^sub>m tabMap (sh_tab s)"
    "hashMap s' = hashMap s \<or> hashMap s' = (hashMap s)(hk key := None) \<and> (\<exists>v e. cacheMap hk s key = Some (v, e) \<and> isExpired e now)"
    by (rule getCore_ok [OF r, of key now allow]) blast
  have "expires now (hashMap s) (hashMap s')" using g(5) expires_drop [of "hashMap s" "hk key" key] by (auto simp: cacheMap_lookup)
  then show thesis using that [of s'] g(1) cacheInv_frame [OF i g(2) confFrame_pages [OF pagesFrame_idx [OF g(3)]]] by (simp add: answer_def cacheMap_lookup)
qed

lemma put_step:
  assumes i: "cacheInv (ce_hash env) cfg mm s"
  obtains s' err where "putAtExpLocked env key val e s = Some (s', err)" "cacheInv (ce_hash env) cfg mm s'"
    "putSpec (cc_AtCapPolicy cfg) (ce_hash env key) (key, val, e) (resErr err) (hashMap s) (hashMap s')"
    "err \<noteq> None \<Longrightarrow> \<not> fits key val \<or> maxEntryBytes s < entrySpanExact (length key) (length val) \<or> mm \<or>
       cc_AtCapPolicy cfg \<noteq> PolicyRingbufEvict \<or> MaxPagesPerShard cfg = 0"
proof -
  obtain pss where r: "shard_rep (ce_hash env) s pss" and c: "sh_cfg s = cfg" "sh_isMmap s = mm" using i by (auto simp: cacheInv_def)
  obtain s' err pss' m where p: "putAtExpLocked env key val e s = Some (s', err)" "shard_rep (ce_hash env) s' pss'" "confFrame s s'"
    "m \<subseteq>\<^sub>m hashMap s" "cc_AtCapPolicy (sh_cfg s) \<noteq> PolicyRingbufEvict \<Longrightarrow> m = hashMap s"
    "hashMap s' = (if err = None then m(ce_hash env key \<mapsto> (key, val, e)) else m)"
    "err \<noteq> None \<Longrightarrow> \<not> fits key val \<or> maxEntryBytes s < entrySpanExact (length key) (length val) \<or> sh_isMmap s \<or>
       cc_AtCapPolicy (sh_cfg s) \<noteq> PolicyRingbufEvict \<or> MaxPagesPerShard (sh_cfg s) = 0"
    by (rule putAtExp_ok [OF r, of key val e]) blast
  have "putSpec (cc_AtCapPolicy cfg) (ce_hash env key) (key, val, e) (resErr err) (hashMap s) (hashMap s')"
    unfolding putSpec_def evicts_def using p(4-6) c by blast
  then show thesis using that [OF p(1) cacheInv_frame [OF i p(2,3)]] p(7) c by simp
qed

lemma del_step:
  assumes i: "cacheInv (ce_hash env) cfg mm s"
  obtains s' res where "delH env key s = Some (s', res)" "cacheInv (ce_hash env) cfg mm s'"
    "cacheSpec (cc_AtCapPolicy cfg) (ce_hash env) (env', opDel key) (resDel res) (hashMap s) (hashMap s')"
proof -
  obtain pss where r: "shard_rep (ce_hash env) s pss" and c: "sh_cfg s = cfg" using i by (auto simp: cacheInv_def)
  obtain s' res pss' m where d: "delH env key s = Some (s', res)" "shard_rep (ce_hash env) s' pss'" "confFrame s s'"
    "m \<subseteq>\<^sub>m hashMap s" "cc_AtCapPolicy (sh_cfg s) \<noteq> PolicyRingbufEvict \<Longrightarrow> m = hashMap s"
    "hashMap s' = (if res = Inr True then m(ce_hash env key := None) else m)"
    "res = Inr True \<Longrightarrow> cacheMap (ce_hash env) s key \<noteq> None" "res = Inr False \<Longrightarrow> s' = s \<and> cacheMap (ce_hash env) s key = None"
    by (rule delH_ok [OF r, of key]) blast
  have "evicts (cc_AtCapPolicy cfg) (hashMap s) m" using d(4,5) c by (simp add: evicts_def)
  then have "cacheSpec (cc_AtCapPolicy cfg) (ce_hash env) (env', opDel key) (resDel res) (hashMap s) (hashMap s')"
    using d(6-8) by (auto simp: cacheMap_lookup)
  then show thesis using that [OF d(1) cacheInv_frame [OF i d(2,3)]] by blast
qed

lemma sweep_step:
  assumes i: "cacheInv hk cfg mm s"
  obtains s' where "sweepBatch now start s = Some s'" "cacheInv hk cfg mm s'" "expires now (hashMap s) (hashMap s')"
proof -
  obtain pss where r: "shard_rep hk s pss" using cacheInv_rep [OF i] by blast
  obtain s' where b: "sweepBatch now start s = Some s'" "swept hk pss now {start..<min (start + sweepBatchSize) (slots (sh_tab s))} s s'"
    by (rule sweepBatch_ok [OF r]) blast
  have "shard_rep hk s' pss" "confFrame s s'" "expiredOnly now s s'"
    using b(2) confFrame_pages [OF pagesFrame_idx] by (auto simp: swept_def)
  then show thesis using that [OF b(1)] cacheInv_frame [OF i] expires_expiredOnly by blast
qed

lemma reclaim_step:
  assumes i: "cacheInv (ce_hash env) cfg mm s"
  obtains s' where "reclaimPage env stamp idx s = Some s'" "cacheInv (ce_hash env) cfg mm s'" "expires stamp (hashMap s) (hashMap s')"
proof (cases "sh_isMmap s \<or> idx \<ge> length (sh_pages s)")
  case True
  then have "reclaimPage env stamp idx s = Some s" by (auto simp: reclaimPage_def)
  then show thesis using that i by simp
next
  case False
  obtain pss where r: "shard_rep (ce_hash env) s pss" using cacheInv_rep [OF i] by blast
  have c: "\<not> sh_isMmap s" "idx < length (sh_pages s)" using False by simp_all
  obtain s' pss' where t: "tryRetireExpiredPageLocked env stamp idx s = Some s'" "shard_rep (ce_hash env) s' pss'" "pagesFrame s s'" "expiredOnly stamp s s'"
    by (rule tryRetireExpired_ok [OF r c]) blast
  have "reclaimPage env stamp idx s = Some s'" using False t(1) by (simp add: reclaimPage_def)
  then show thesis using that cacheInv_frame [OF i t(2) confFrame_pages [OF t(3)]] expires_expiredOnly [OF t(4)] by blast
qed

lemma newIndexTable_fresh: "tab_inv (newIndexTable 0)" "tabMap (newIndexTable 0) = (\<lambda>_. None)" "\<not> overThreshold (newIndexTable 0)"
  using newIndexTable_correct [of 0] by (simp_all add: overThreshold_def slots_def)

lemma rep_emptied:
  assumes "shard_rep hk s pss" "sh_cfg s' = sh_cfg s" "sh_isMmap s' = sh_isMmap s" "sh_pages s' = sh_pages s" "sh_tab s' = newIndexTable 0"
  shows "shard_rep hk s' pss" "hashMap s' = (\<lambda>_. None)"
  using rep_shrink(1) [OF assms(1-4)] newIndexTable_fresh assms(5) by (auto simp: hashMap_def fun_eq_iff)

lemma flush_step:
  assumes i: "cacheInv hk cfg mm s"
  obtains s' err where "shard_flush ok s = (s', err)" "cacheInv hk cfg mm s'" "hashMap s' = (if err = None then (\<lambda>_. None) else hashMap s)"
proof (cases "sh_isMmap s \<and> \<not> ok")
  case True
  then show thesis using that [of s "Some ErrFlushNotDurable"] i by (simp add: shard_flush_def)
next
  case False
  obtain pss where r: "shard_rep hk s pss" using cacheInv_rep [OF i] by blast
  let ?s = "s\<lparr>sh_flushedThroughSeq := sh_writeSeq s, sh_tab := newIndexTable 0\<rparr>"
  have "shard_rep hk ?s pss" "hashMap ?s = (\<lambda>_. None)" using rep_emptied [OF r, of ?s] by simp_all
  then show thesis using that [of ?s None] False i by (auto simp: shard_flush_def cacheInv_def)
qed

theorem cacheStep_ok:
  assumes i: "cacheInv hk cfg mm s"
  shows "\<exists>s' r. cacheStep hk x s = Some (s', r) \<and> cacheInv hk cfg mm s' \<and> cacheSpec (cc_AtCapPolicy cfg) hk x r (hashMap s) (hashMap s')"
proof -
  obtain env0 op where x: "x = (env0, op)" by (cases x)
  define env where "env = env0\<lparr>ce_hash := hk\<rparr>"
  have h: "ce_hash env = hk" "ce_now env = ce_now env0" by (simp_all add: env_def)
  have st: "cacheStep hk x s = cacheOpStep env op s" by (simp add: cacheStep_def x env_def)
  note adv = advance_step [OF i]
  have ie: "cacheInv (ce_hash env) cfg mm s" using i h by simp
  show ?thesis
  proof (cases op)
    case (opGet k)
    show ?thesis by (rule getCore_step [OF i, of k "ce_now env" "\<not> cc_Replicated (sh_cfg s)"])
      (use opGet x h st in \<open>auto simp: getWithExpiryH_def\<close>)
  next
    case (opGetAt k now)
    show ?thesis by (rule getCore_step [OF adv(1) [of now], of k now True])
      (use opGetAt x h st adv(2) [of now] in \<open>auto simp: getWithExpiryAtH_def\<close>)
  next
    case (opPut k v ttl)
    show ?thesis by (rule put_step [OF ie, of k v "expiryAtFrom ttl (ce_now env)"]) (use opPut x h st in \<open>auto simp: putH_def\<close>)
  next
    case (opPutAt k v ttl now)
    have ia: "cacheInv (ce_hash env) cfg mm (advanceAppliedStamp now s)" using adv(1) h by simp
    show ?thesis by (rule put_step [OF ia, of k v "expiryAtFrom ttl now"])
      (use opPutAt x h st adv(2) [of now] in \<open>auto simp: putAtH_def\<close>)
  next
    case (opDel k)
    show ?thesis by (rule del_step [OF ie, of k env0]) (use opDel x h st in \<open>auto simp del: cacheSpec.simps\<close>)
  next
    case (opSweepBatch now start)
    show ?thesis by (rule sweep_step [OF i, of now start]) (use opSweepBatch x st in auto)
  next
    case (opReclaim stamp idx)
    show ?thesis by (rule reclaim_step [OF ie, of stamp idx]) (use opReclaim x h st in auto)
  next
    case (opFlush ok)
    show ?thesis by (rule flush_step [OF i, of ok]) (use opFlush x st in auto)
  qed
qed

interpretation cs: simulated_store "cacheStep hk" hashMap "cacheInv hk cfg mm" "cacheSpec (cc_AtCapPolicy cfg) hk" for hk cfg mm
  by unfold_locales (rule cacheStep_ok)

section \<open>New shards\<close>

lemma allocHeapPages_ok:
  assumes "shard_rep hk s pss" "\<not> sh_isMmap s" "length (sh_pages s) + n \<le> MaxPagesPerShard (sh_cfg s)"
  shows "\<exists>pss'. shard_rep hk (allocHeapPages n s) pss' \<and> confFrame s (allocHeapPages n s) \<and> hashMap (allocHeapPages n s) = hashMap s"
  using assms
proof (induction n arbitrary: s pss)
  case 0
  then show ?case by auto
next
  case (Suc n)
  have "length (sh_pages s) < MaxPagesPerShard (sh_cfg s)" using Suc(4) by simp
  then obtain s1 where a: "allocHeapPageLocked s = (length (sh_pages s), s1)" "shard_rep hk s1 (pss @ [[]])" "hashMap s1 = hashMap s" "confFrame s s1"
    using allocHeapPage_ok [OF Suc(2,3)] by metis
  have "length (sh_pages s1) = Suc (length (sh_pages s))" using shard_repD(4) [OF a(2)] shard_repD(4) [OF Suc(2)] by simp
  then have "\<not> sh_isMmap s1" "length (sh_pages s1) + n \<le> MaxPagesPerShard (sh_cfg s1)" using Suc(3,4) a(4) by (simp_all add: confFrame_def)
  from Suc(1) [OF a(2) this] show ?case using a(1,3) confFrame_trans [OF a(4)] by simp
qed

lemma emptyShard_rep:
  assumes "Config_Validate cfg" "sh_cfg s = cfg" "sh_pages s = []" "sh_tab s = newIndexTable 0"
  shows "shard_rep hk s []" "hashMap s = (\<lambda>_. None)"
proof -
  have "cfg_ok s" using assms by (simp add: Config_Validate_def cfg_ok_def maxPagesPerShardCap_def pageHdrSize_def)
  then show "shard_rep hk s []" using assms(3,4) newIndexTable_fresh by (simp add: shard_rep_def pages_ok_def index_ok_def)
  show "hashMap s = (\<lambda>_. None)" using assms(4) newIndexTable_fresh(2) by (simp add: hashMap_def fun_eq_iff)
qed

lemma newHeapShard_ok:
  assumes v: "Config_Validate cfg"
  shows "cacheInv hk cfg False (newHeapShard cfg)" "hashMap (newHeapShard cfg) = (\<lambda>_. None)"
proof -
  let ?init = "\<lparr>sh_cfg = cfg, sh_isMmap = False, sh_pages = [], sh_tab = newIndexTable 0, sh_writeIdx = 0, sh_nextVictim = 0,
         sh_writeSeq = 0, sh_genCounter = 0, sh_sieve = sieveVisited cfg, sh_framingKey = [],
         sh_lastAppliedStampMs = 0, sh_flushedThroughSeq = 0, sh_removed = [], sh_barriers = 0\<rparr>"
  let ?s = "allocHeapPages (cc_InitialPagesPerShard cfg) ?init"
  have e: "shard_rep hk ?init []" "hashMap ?init = (\<lambda>_. None)" using emptyShard_rep [OF v, of ?init] by simp_all
  have "length (sh_pages ?init) + cc_InitialPagesPerShard cfg \<le> MaxPagesPerShard (sh_cfg ?init)" using v by (simp add: Config_Validate_def)
  then obtain pss where a: "shard_rep hk ?s pss" "confFrame ?init ?s" "hashMap ?s = (\<lambda>_. None)"
    using allocHeapPages_ok [OF e(1), of "cc_InitialPagesPerShard cfg"] e(2) by auto
  have n: "newHeapShard cfg = (if sh_pages ?s = [] then ?s else ?s\<lparr>sh_writeIdx := length (sh_pages ?s) - 1\<rparr>)"
    by (simp add: newHeapShard_def Let_def)
  let ?s' = "?s\<lparr>sh_writeIdx := length (sh_pages ?s) - 1\<rparr>"
  have w: "shard_rep hk ?s' pss" "hashMap ?s' = (\<lambda>_. None)" using rep_same [OF a(1), of ?s'] a(3) by simp_all
  show "cacheInv hk cfg False (newHeapShard cfg)" using n a(1,2) w(1) by (auto simp: cacheInv_def confFrame_def)
  show "hashMap (newHeapShard cfg) = (\<lambda>_. None)" using n a(3) w(2) by simp
qed

text \<open>A mapped shard over a file of zero bytes.\<close>

lemma attachPage_zero:
  assumes "Config_Validate cfg"
  shows "page_rep (attachPage fk g (replicate (cc_PageSize cfg) 0)) []" "pg_mmap (attachPage fk g ext)"
    "length (page_entries (attachPage fk g (replicate (cc_PageSize cfg) 0))) = cc_PageSize cfg - pageHdrSize"
    "\<not> pg_reuseBarrierFailed (attachPage fk g ext)" "\<not> pg_retired (attachPage fk g ext)"
proof -
  let ?n = "cc_PageSize cfg"
  have n: "2 ^ 20 \<le> ?n" "?n \<le> 2 ^ 30" using assms by (simp_all add: Config_Validate_def)
  have sl: "gslice 0 4 (replicate ?n (0 :: u8)) = replicate 4 0" "gslice 4 8 (replicate ?n (0 :: u8)) = replicate 4 0"
    using n by (simp_all add: gslice_def min_def)
  have z: "rd_le32 (replicate 4 0) = 0" by code_simp
  show "page_rep (attachPage fk g (replicate ?n 0)) []"
    using n by (simp add: attachPage_def newMmapPage_def durableBounds_def page_rep_def page_entries_def pageHdrSize_def sl z Let_def)
  show "pg_mmap (attachPage fk g ext)" "\<not> pg_reuseBarrierFailed (attachPage fk g ext)" "\<not> pg_retired (attachPage fk g ext)"
    by (simp_all add: attachPage_def newMmapPage_def Let_def)
  show "length (page_entries (attachPage fk g (replicate ?n 0))) = ?n - pageHdrSize"
    by (simp add: attachPage_def newMmapPage_def page_entries_def Let_def)
qed

lemma newMmapShard_ok:
  assumes v: "Config_Validate cfg"
  shows "cacheInv hk cfg True (newMmapShard cfg fk (replicate (MaxPagesPerShard cfg) (replicate (cc_PageSize cfg) 0)))"
    "hashMap (newMmapShard cfg fk (replicate (MaxPagesPerShard cfg) (replicate (cc_PageSize cfg) 0))) = (\<lambda>_. None)"
proof -
  let ?exts = "replicate (MaxPagesPerShard cfg) (replicate (cc_PageSize cfg) (0 :: u8))"
  let ?s = "newMmapShard cfg fk ?exts"
  have f: "sh_cfg ?s = cfg" "sh_isMmap ?s" "sh_tab ?s = newIndexTable 0"
    "sh_pages ?s = map (\<lambda>(i, ext). attachPage fk (of_nat i) ext) (enumerate 0 ?exts)"
    by (simp_all add: newMmapShard_def attachMmapRegion_def Let_def)
  have len: "length (sh_pages ?s) = MaxPagesPerShard cfg" by (simp add: f(4))
  have pg: "sh_pages ?s ! i = attachPage fk (of_nat i) (replicate (cc_PageSize cfg) 0)" if "i < MaxPagesPerShard cfg" for i
    using that by (simp add: f(4) nth_enumerate_eq)
  have po: "page_ok ?s (sh_pages ?s ! i) []" if "i < MaxPagesPerShard cfg" for i
    using attachPage_zero [OF v] pg [OF that] f(1,2) by (simp add: page_ok_def maxEntryBytes_def)
  have "cfg_ok ?s" using v f(1,2) len by (simp add: Config_Validate_def cfg_ok_def maxPagesPerShardCap_def pageHdrSize_def)
  moreover have "pages_ok ?s (replicate (MaxPagesPerShard cfg) [])" using po len by (simp add: pages_ok_def)
  moreover have "index_ok hk ?s (replicate (MaxPagesPerShard cfg) [])" using newIndexTable_fresh f(3) by (simp add: index_ok_def)
  ultimately show "cacheInv hk cfg True ?s" using f(1,2) by (auto simp: cacheInv_def shard_rep_def)
  show "hashMap ?s = (\<lambda>_. None)" using f(3) newIndexTable_fresh(2) by (simp add: hashMap_def fun_eq_iff)
qed

text \<open>A new shard, on the heap or over a new file.\<close>

definition newShard :: "cacheCfg \<Rightarrow> bool \<Rightarrow> bytes \<Rightarrow> shard" where
  "newShard cfg mmapped fk =
     (if mmapped then newMmapShard cfg fk (replicate (MaxPagesPerShard cfg) (replicate (cc_PageSize cfg) 0)) else newHeapShard cfg)"

lemma newShard_ok:
  assumes "Config_Validate cfg"
  shows "cacheInv hk cfg mm (newShard cfg mm fk)" "hashMap (newShard cfg mm fk) = (\<lambda>_. None)"
  using newHeapShard_ok [OF assms] newMmapShard_ok [OF assms] by (cases mm; simp add: newShard_def)+

section \<open>What callers can rely on\<close>

lemma cacheRun_spec:
  assumes "Config_Validate cfg"
  shows "\<exists>s rs. cacheRun hk xs (newShard cfg mm fk) = Some (s, rs) \<and> cacheInv hk cfg mm s \<and>
    specRun (cacheSpec (cc_AtCapPolicy cfg) hk) xs rs (\<lambda>_. None) (hashMap s)"
  using cs.run_ok [OF newShard_ok(1) [OF assms], of hk xs mm fk] newShard_ok(2) [OF assms] unfolding cacheRun_def by simp

text \<open>The last successful write of a key that no delete or flush undid.\<close>

fun written :: "cacheEnv \<times> cacheOp \<Rightarrow> cacheResult \<Rightarrow> (bytes \<Rightarrow> (bytes \<times> u64) option) \<Rightarrow> bytes \<Rightarrow> (bytes \<times> u64) option" where
  "written (env, opPut k v ttl) (resErr None) w = w(k \<mapsto> (v, expiryAtFrom ttl (ce_now env)))"
| "written (env, opPutAt k v ttl now) (resErr None) w = w(k \<mapsto> (v, expiryAtFrom ttl now))"
| "written (env, opDel k) (resDel (Inr True)) w = w(k := None)"
| "written (env, opFlush ok) (resErr None) w = (\<lambda>_. None)"
| "written x r w = w"

definition lastWritten :: "(cacheEnv \<times> cacheOp) list \<Rightarrow> cacheResult list \<Rightarrow> bytes \<Rightarrow> (bytes \<times> u64) option" where
  "lastWritten xs rs = fold (\<lambda>(x, r). written x r) (zip xs rs) (\<lambda>_. None)"

definition fresh :: "(bytes \<Rightarrow> u64) \<Rightarrow> (bytes \<Rightarrow> (bytes \<times> u64) option) \<Rightarrow> hstore \<Rightarrow> bool" where
  "fresh hk w m = (\<forall>k x. lookupIn m (hk k) k = Some x \<longrightarrow> w k = Some x)"

lemma lookupIn_le: "m' \<subseteq>\<^sub>m m \<Longrightarrow> lookupIn m' h k = Some x \<Longrightarrow> lookupIn m h k = Some x"
  by (cases "m' h") (auto simp: lookupIn_def dest: map_le_SomeD)

lemma fresh_le: "fresh hk w m \<Longrightarrow> m' \<subseteq>\<^sub>m m \<Longrightarrow> fresh hk w m'"
  using lookupIn_le unfolding fresh_def by blast

lemma fresh_put: "fresh hk w m \<Longrightarrow> fresh hk (w(k \<mapsto> (v, e))) (m(hk k \<mapsto> (k, v, e)))"
  by (auto simp: fresh_def lookupIn_def)

lemma fresh_del: "fresh hk w m \<Longrightarrow> fresh hk (w(k := None)) (m(hk k := None))"
  by (auto simp: fresh_def lookupIn_def)

lemma putSpec_fresh:
  assumes "fresh hk w m" "putSpec pol (hk k) (k, v, e) r m m'"
  shows "fresh hk (if r = resErr None then w(k \<mapsto> (v, e)) else w) m'"
proof -
  obtain m0 err where m0: "m0 \<subseteq>\<^sub>m m" "r = resErr err" "m' = (if err = None then m0(hk k \<mapsto> (k, v, e)) else m0)"
    using assms(2) by (auto simp: putSpec_def evicts_def)
  then show ?thesis using fresh_put [OF fresh_le [OF assms(1) m0(1)]] fresh_le [OF assms(1) m0(1)] by simp
qed

lemma fresh_step:
  assumes f: "fresh hk w m" and sp: "cacheSpec pol hk x r m m'"
  shows "fresh hk (written x r w) m'"
proof -
  obtain env op where x: "x = (env, op)" by (cases x)
  show ?thesis
  proof (cases op)
    case (opPut k v ttl)
    then have "putSpec pol (hk k) (k, v, expiryAtFrom ttl (ce_now env)) r m m'" using sp x by simp
    moreover have "written x r w = (if r = resErr None then w(k \<mapsto> (v, expiryAtFrom ttl (ce_now env))) else w)"
      using x opPut by (cases "(x, r, w)" rule: written.cases) auto
    ultimately show ?thesis using putSpec_fresh [OF f] by simp
  next
    case (opPutAt k v ttl now)
    then have "putSpec pol (hk k) (k, v, expiryAtFrom ttl now) r m m'" using sp x by simp
    moreover have "written x r w = (if r = resErr None then w(k \<mapsto> (v, expiryAtFrom ttl now)) else w)"
      using x opPutAt by (cases "(x, r, w)" rule: written.cases) auto
    ultimately show ?thesis using putSpec_fresh [OF f] by simp
  next
    case (opDel k)
    then obtain m0 res where m0: "m0 \<subseteq>\<^sub>m m" "r = resDel res" "m' = (if res = Inr True then m0(hk k := None) else m0)"
      using sp x by (auto simp: evicts_def)
    moreover have "written x r w = (if r = resDel (Inr True) then w(k := None) else w)"
      using x opDel by (cases "(x, r, w)" rule: written.cases) auto
    ultimately show ?thesis using fresh_del [OF fresh_le [OF f m0(1)]] fresh_le [OF f m0(1)] by simp
  next
    case (opFlush ok)
    then obtain err where e: "r = resErr err" "m' = (if err = None then (\<lambda>_. None) else m)" using sp x by auto
    moreover have "written x r w = (if r = resErr None then (\<lambda>_. None) else w)"
      using x opFlush by (cases "(x, r, w)" rule: written.cases) auto
    ultimately show ?thesis using f by (simp add: fresh_def lookupIn_def)
  qed (use sp x fresh_le [OF f] in \<open>auto simp: expires_def\<close>)
qed

text \<open>(C37) Whatever a cache shard is asked, in whatever order and however its clock, its random nonces and the
  flushes of its page headers turn out: every operation returns (no page or index access is out of range and no
  probe, walk or eviction loops for ever), the shard stays well formed, and what its callers
  observe is a run of a map from hashes to entries that eviction may thin out.\<close>

theorem cache_shard_well_formed:
  assumes "Config_Validate cfg"
  shows "\<exists>s rs pss. cacheRun hk xs (newShard cfg mm fk) = Some (s, rs) \<and> shard_rep hk s pss \<and>
    specRun (cacheSpec (cc_AtCapPolicy cfg) hk) xs rs (\<lambda>_. None) (hashMap s)"
  using cacheRun_spec [OF assms] unfolding cacheInv_def by blast

definition demoCfg :: "AtCapPolicy \<Rightarrow> cacheCfg" where
  "demoCfg pol = \<lparr>cc_PageSize = 2 ^ 20, cc_MaxMemoryPerShard = 2 ^ 22, cc_InitialPagesPerShard = 1, cc_AtCapPolicy = pol,
     cc_Replicated = False, cc_InPlaceSameSizeUpdate = True, cc_RelocatingEviction = True, cc_SieveVisitedBit = True\<rparr>"

definition demoEnv :: cacheEnv where
  "demoEnv = \<lparr>ce_hash = (\<lambda>_. 0), ce_now = 5, ce_nonce = (\<lambda>n. Some (of_nat n)), ce_msync = (\<lambda>n. even n)\<rparr>"

lemma demoCfg_ok: "pol \<noteq> PolicyInvalid \<Longrightarrow> Config_Validate (demoCfg pol)"
  by (cases pol) (simp_all add: Config_Validate_def demoCfg_def MaxPagesPerShard_def maxPagesPerShardCap_def)

theorem cache_shard_well_formed_witness:
  "Config_Validate (demoCfg PolicyRingbufEvict) \<and>
   (\<exists>s rs pss. cacheRun (of_nat \<circ> length) [(demoEnv, opPut [1] [2] 0), (demoEnv, opDel [1]), (demoEnv, opGet [1])]
        (newShard (demoCfg PolicyRingbufEvict) True [7]) = Some (s, rs) \<and> shard_rep (of_nat \<circ> length) s pss \<and>
      specRun (cacheSpec PolicyRingbufEvict (of_nat \<circ> length))
        [(demoEnv, opPut [1] [2] 0), (demoEnv, opDel [1]), (demoEnv, opGet [1])] rs (\<lambda>_. None) (hashMap s))"
  using cache_shard_well_formed [OF demoCfg_ok [of PolicyRingbufEvict], of "of_nat \<circ> length"
      "[(demoEnv, opPut [1] [2] 0), (demoEnv, opDel [1]), (demoEnv, opGet [1])]" True "[7]"] demoCfg_ok
  by (simp add: demoCfg_def)

text \<open>(C38) A cache never answers with a stale or foreign value: after any run, a read returns a value only if it is the
  value of the last successful write of exactly that key, which no later delete or flush undid, with the expiry of that
  write, not yet reached. Eviction, relocation, same-size updates and keys with equal hashes do not break this.\<close>

theorem cache_reads_last_write:
  assumes v: "Config_Validate cfg" and run: "cacheRun hk xs (newShard cfg mm fk) = Some (s, rs)"
    and get: "getWithExpiryAtH env key now s = Some (s', Inr (val, e))" and h: "ce_hash env = hk"
  shows "lastWritten xs rs key = Some (val, e) \<and> \<not> isExpired e now"
proof -
  have z: "fresh hk (\<lambda>_. None) (hashMap (newShard cfg mm fk))" by (simp add: newShard_ok(2) [OF v] fresh_def lookupIn_def)
  have r: "runOf (cacheStep hk) xs (newShard cfg mm fk) = Some (s, rs)" using run by (simp add: cacheRun_def)
  note k = cs.run_keeps [where P = "fresh hk" and upd = written, OF newShard_ok(1) [OF v] r z fresh_step]
  have f: "fresh hk (lastWritten xs rs) (hashMap s)" unfolding lastWritten_def by (rule k(2))
  have i: "cacheInv hk cfg mm (advanceAppliedStamp now s)" "hashMap (advanceAppliedStamp now s) = hashMap s"
    using advance_step [OF k(1)] by simp_all
  show ?thesis
  proof (rule getCore_step [OF i(1), of key now True])
    fix s2
    assume "getCore key (hk key) now True (advanceAppliedStamp now s) = Some (s2, answer now (lookupIn (hashMap (advanceAppliedStamp now s)) (hk key) key))"
    then have "answer now (lookupIn (hashMap s) (hk key) key) = Inr (val, e)" using get h i(2) by (simp add: getWithExpiryAtH_def)
    then have "lookupIn (hashMap s) (hk key) key = Some (val, e)" "\<not> isExpired e now"
      by (auto simp: answer_def split: option.splits if_splits)
    then show ?thesis using f by (simp add: fresh_def)
  qed
qed

lemma run_start: "cacheInv hk cfg mm s \<Longrightarrow> runOf (cacheStep hk) xs s = Some (s', rs) \<Longrightarrow> cacheInv hk cfg mm s'"
  using cs.run_ok [of hk cfg mm s xs] by auto

lemma get_answers:
  assumes "cacheInv (ce_hash env) cfg mm s"
  obtains s' where "getWithExpiryAtH env key now s = Some (s', answer now (lookupIn (hashMap s) (ce_hash env key) key))"
  by (rule getCore_step [OF advance_step(1) [OF assms, of now], of key now True])
    (use that in \<open>simp add: getWithExpiryAtH_def advance_step(2) [OF assms]\<close>)

lemma heap_put:
  assumes i: "cacheInv (ce_hash env) cfg False s" and v: "Config_Validate cfg" and pol: "cc_AtCapPolicy cfg = PolicyRingbufEvict"
    and k: "length key \<le> maxKeyLen" and len: "entrySpanExact (length key) (length val) \<le> cc_PageSize cfg"
  obtains s' where "putH env key val ttl s = Some (s', None)" "cacheInv (ce_hash env) cfg False s'"
    "lookupIn (hashMap s') (ce_hash env key) key = Some (val, expiryAtFrom ttl (ce_now env))"
proof -
  obtain s' err where p: "putAtExpLocked env key val (expiryAtFrom ttl (ce_now env)) s = Some (s', err)" "cacheInv (ce_hash env) cfg False s'"
    "putSpec (cc_AtCapPolicy cfg) (ce_hash env key) (key, val, expiryAtFrom ttl (ce_now env)) (resErr err) (hashMap s) (hashMap s')"
    "err \<noteq> None \<Longrightarrow> \<not> fits key val \<or> maxEntryBytes s < entrySpanExact (length key) (length val) \<or> False \<or>
       cc_AtCapPolicy cfg \<noteq> PolicyRingbufEvict \<or> MaxPagesPerShard cfg = 0"
    by (rule put_step [OF i, of key val "expiryAtFrom ttl (ce_now env)"]) blast
  have c: "2 ^ 20 \<le> cc_PageSize cfg" "cc_PageSize cfg \<le> 2 ^ 30" "cc_PageSize cfg \<le> cc_MaxMemoryPerShard cfg"
    using v by (simp_all add: Config_Validate_def)
  have "fits key val" using k len c(2) by (simp add: fits_def entrySpanExact_def maxValueLen_def)
  moreover have "maxEntryBytes s = cc_PageSize cfg" using i by (simp add: cacheInv_def maxEntryBytes_def)
  moreover have "MaxPagesPerShard cfg \<noteq> 0" using c by (simp add: MaxPagesPerShard_def div_eq_0_iff)
  ultimately have e: "err = None" using p(4) pol len by fastforce
  then have "lookupIn (hashMap s') (ce_hash env key) key = Some (val, expiryAtFrom ttl (ce_now env))"
    using p(3) by (auto simp: putSpec_def lookupIn_def)
  then show thesis using that [of s'] p(1,2) e by (simp add: putH_def)
qed

text \<open>(C39) A shard on the heap that evicts never refuses a write: after any run, a write of any key and value that
  fit a page is stored at once, and a read then answers with it until it expires.\<close>

theorem evicting_put_succeeds:
  assumes v: "Config_Validate cfg" and pol: "cc_AtCapPolicy cfg = PolicyRingbufEvict"
    and run: "cacheRun hk xs (newShard cfg False fk) = Some (s, rs)" and h: "ce_hash env = hk"
    and k: "length key \<le> maxKeyLen" and len: "entrySpanExact (length key) (length val) \<le> cc_PageSize cfg"
  shows "\<exists>s'. putH env key val ttl s = Some (s', None) \<and>
    (\<exists>s''. getWithExpiryAtH env key now s' = Some (s'', answer now (Some (val, expiryAtFrom ttl (ce_now env)))))"
proof -
  have i: "cacheInv (ce_hash env) cfg False s" using run_start [OF newShard_ok(1) [OF v]] run h unfolding cacheRun_def by blast
  obtain s' where p: "putH env key val ttl s = Some (s', None)" "cacheInv (ce_hash env) cfg False s'"
    "lookupIn (hashMap s') (ce_hash env key) key = Some (val, expiryAtFrom ttl (ce_now env))"
    by (rule heap_put [OF i v pol k len]) blast
  obtain s'' where "getWithExpiryAtH env key now s' = Some (s'', answer now (lookupIn (hashMap s') (ce_hash env key) key))"
    by (rule get_answers [OF p(2)])
  then show ?thesis using p(1,3) by auto
qed

text \<open>One write to a new shard, and the read after it.\<close>

lemma demo_hash: "demoEnv\<lparr>ce_hash := \<lambda>_. 0\<rparr> = demoEnv" "ce_hash demoEnv = (\<lambda>_. 0)" "ce_now demoEnv = 5"
  by (simp_all add: demoEnv_def)

lemma demo_write:
  "\<exists>s s'. cacheRun (\<lambda>_. 0) [(demoEnv, opPut [1] [2] 0)] (newShard (demoCfg PolicyRingbufEvict) False []) = Some (s, [resErr None]) \<and>
    getWithExpiryAtH demoEnv [1] 9 s = Some (s', Inr ([2], 0))"
proof -
  let ?cfg = "demoCfg PolicyRingbufEvict"
  have v: "Config_Validate ?cfg" by (rule demoCfg_ok) simp
  have i: "cacheInv (ce_hash demoEnv) ?cfg False (newShard ?cfg False [])" by (rule newShard_ok(1) [OF v])
  have c: "cc_AtCapPolicy ?cfg = PolicyRingbufEvict" "length [1 :: u8] \<le> maxKeyLen" "entrySpanExact (length [1 :: u8]) (length [2 :: u8]) \<le> cc_PageSize ?cfg"
    by (simp_all add: demoCfg_def maxKeyLen_def entrySpanExact_def entryHeaderSize_def)
  obtain s where p: "putH demoEnv [1] [2] 0 (newShard ?cfg False []) = Some (s, None)" "cacheInv (ce_hash demoEnv) ?cfg False s"
    "lookupIn (hashMap s) (ce_hash demoEnv [1]) [1] = Some ([2], expiryAtFrom 0 (ce_now demoEnv))"
    by (rule heap_put [OF i v c]) blast
  obtain s' where g: "getWithExpiryAtH demoEnv [1] 9 s = Some (s', answer 9 (lookupIn (hashMap s) (ce_hash demoEnv [1]) [1]))"
    by (rule get_answers [OF p(2)])
  have "cacheRun (\<lambda>_. 0) [(demoEnv, opPut [1] [2] 0)] (newShard ?cfg False []) = Some (s, [resErr None])"
    using p(1) by (simp add: cacheRun_def cacheStep_def demo_hash(1))
  then show ?thesis using g p(3) by (simp add: expiryAtFrom_def answer_def isExpired_def)
qed

theorem cache_reads_last_write_witness:
  "\<exists>s rs s'. cacheRun (\<lambda>_. 0) [(demoEnv, opPut [1] [2] 0)] (newShard (demoCfg PolicyRingbufEvict) False []) = Some (s, rs) \<and>
    getWithExpiryAtH demoEnv [1] 9 s = Some (s', Inr ([2], 0)) \<and> lastWritten [(demoEnv, opPut [1] [2] 0)] rs [1] = Some ([2], 0) \<and>
    \<not> isExpired 0 9"
proof -
  obtain s s' where d: "cacheRun (\<lambda>_. 0) [(demoEnv, opPut [1] [2] 0)] (newShard (demoCfg PolicyRingbufEvict) False []) = Some (s, [resErr None])"
    "getWithExpiryAtH demoEnv [1] 9 s = Some (s', Inr ([2], 0))" using demo_write by blast
  have v: "Config_Validate (demoCfg PolicyRingbufEvict)" by (rule demoCfg_ok) simp
  show ?thesis using cache_reads_last_write [OF v d demo_hash(2)] d by blast
qed

theorem evicting_put_succeeds_witness:
  "\<exists>s rs s'. cacheRun (\<lambda>_. 0) [(demoEnv, opPut [1] [2] 0)] (newShard (demoCfg PolicyRingbufEvict) False []) = Some (s, rs) \<and>
    putH demoEnv [3] [4, 5] 7000000 s = Some (s', None) \<and> (\<exists>s''. getWithExpiryAtH demoEnv [3] 8 s' = Some (s'', Inr ([4, 5], 12)))"
proof -
  obtain s where d: "cacheRun (\<lambda>_. 0) [(demoEnv, opPut [1] [2] 0)] (newShard (demoCfg PolicyRingbufEvict) False []) = Some (s, [resErr None])"
    using demo_write by blast
  have v: "Config_Validate (demoCfg PolicyRingbufEvict)" by (rule demoCfg_ok) simp
  have c: "cc_AtCapPolicy (demoCfg PolicyRingbufEvict) = PolicyRingbufEvict" "length [3 :: u8] \<le> maxKeyLen"
    "entrySpanExact (length [3 :: u8]) (length [4, 5 :: u8]) \<le> cc_PageSize (demoCfg PolicyRingbufEvict)"
    by (simp_all add: demoCfg_def maxKeyLen_def entrySpanExact_def entryHeaderSize_def)
  have a: "answer 8 (Some ([4, 5], expiryAtFrom 7000000 (ce_now demoEnv))) = Inr ([4, 5], 12)"
    by (simp add: answer_def isExpired_def expiryAtFrom_def demo_hash(3))
  show ?thesis using evicting_put_succeeds [OF v c(1) d demo_hash(2) c(2,3), of 7000000 8] d unfolding a by blast
qed

section \<open>Shards that reject writes lose nothing\<close>

fun opClock :: "cacheEnv \<times> cacheOp \<Rightarrow> u64 list" where
  "opClock (env, opGet k) = [ce_now env]"
| "opClock (env, opGetAt k now) = [now]"
| "opClock (env, opSweepBatch now start) = [now]"
| "opClock (env, opReclaim stamp idx) = [stamp]"
| "opClock x = []"

fun opWrites :: "cacheEnv \<times> cacheOp \<Rightarrow> bytes list" where
  "opWrites (env, opPut k v ttl) = [k]"
| "opWrites (env, opPutAt k v ttl now) = [k]"
| "opWrites x = []"

text \<open>The entry is unexpired on every clock the run reads, and no other key written has its hash.\<close>

definition undisturbed :: "(bytes \<Rightarrow> u64) \<Rightarrow> bytes \<Rightarrow> u64 \<Rightarrow> cacheEnv \<times> cacheOp \<Rightarrow> bool" where
  "undisturbed hk k e x = (list_all (\<lambda>t. \<not> isExpired e t) (opClock x) \<and> list_all (\<lambda>k'. hk k' = hk k \<longrightarrow> k' = k) (opWrites x))"

definition held :: "(bytes \<Rightarrow> u64) \<Rightarrow> bytes \<Rightarrow> bytes \<times> u64 \<Rightarrow> (bytes \<Rightarrow> (bytes \<times> u64) option) \<Rightarrow> hstore \<Rightarrow> bool" where
  "held hk k x w m = (w k = Some x \<longrightarrow> m (hk k) = Some (k, x))"

lemma held_expires: "held hk k (v, e) w m \<Longrightarrow> expires t m m' \<Longrightarrow> \<not> isExpired e t \<Longrightarrow> held hk k (v, e) w m'"
  by (cases "m' (hk k)") (auto simp: held_def expires_def dest: map_le_SomeD)

lemma held_put:
  assumes "held hk k x w m" "pol \<noteq> PolicyRingbufEvict" "putSpec pol (hk k') (k', v, e) r m m'" "hk k' = hk k \<longrightarrow> k' = k"
  shows "held hk k x (if r = resErr None then w(k' \<mapsto> (v, e)) else w) m'"
proof -
  obtain err where e: "r = resErr err" "m' = (if err = None then m(hk k' \<mapsto> (k', v, e)) else m)"
    using assms(2,3) by (auto simp: putSpec_def evicts_def)
  show ?thesis
  proof (cases err)
    case None
    then show ?thesis using e assms(1,4) by (cases "k' = k") (auto simp: held_def)
  qed (use e assms(1) in simp)
qed

lemma held_step:
  assumes f: "held hk k (v, e) w m" and sp: "cacheSpec pol hk x r m m'" and pol: "pol \<noteq> PolicyRingbufEvict" and u: "undisturbed hk k e x"
  shows "held hk k (v, e) (written x r w) m'"
proof -
  obtain env op where x: "x = (env, op)" by (cases x)
  show ?thesis
  proof (cases op)
    case (opPut k' v' ttl)
    have "written x r w = (if r = resErr None then w(k' \<mapsto> (v', expiryAtFrom ttl (ce_now env))) else w)"
      using x opPut by (cases "(x, r, w)" rule: written.cases) auto
    then show ?thesis using held_put [OF f pol, of k' v' "expiryAtFrom ttl (ce_now env)" r m'] sp u x opPut by (simp add: undisturbed_def)
  next
    case (opPutAt k' v' ttl now)
    have "written x r w = (if r = resErr None then w(k' \<mapsto> (v', expiryAtFrom ttl now)) else w)"
      using x opPutAt by (cases "(x, r, w)" rule: written.cases) auto
    then show ?thesis using held_put [OF f pol, of k' v' "expiryAtFrom ttl now" r m'] sp u x opPutAt by (simp add: undisturbed_def)
  next
    case (opDel k')
    have "written x r w = (if r = resDel (Inr True) then w(k' := None) else w)"
      using x opDel by (cases "(x, r, w)" rule: written.cases) auto
    then show ?thesis using sp x opDel f pol by (auto simp: held_def evicts_def lookupIn_def split: if_splits)
  next
    case (opFlush ok)
    have "written x r w = (if r = resErr None then (\<lambda>_. None) else w)"
      using x opFlush by (cases "(x, r, w)" rule: written.cases) auto
    then show ?thesis using sp x opFlush f by (auto simp: held_def)
  qed (use sp x u held_expires [OF f] in \<open>auto simp: undisturbed_def\<close>)
qed

text \<open>(C40) A shard that rejects writes when it is full loses nothing: the last successful write of a key, not undone by
  a delete or a flush, is what a read answers, provided the entry has not expired on any clock the run read and no
  other key written in the run has the same hash.\<close>

theorem rejecting_shard_keeps_writes:
  assumes v: "Config_Validate cfg" and pol: "cc_AtCapPolicy cfg = PolicyRejectWrites"
    and run: "cacheRun hk xs (newShard cfg mm fk) = Some (s, rs)" and h: "ce_hash env = hk"
    and last: "lastWritten xs rs key = Some (val, e)" and u: "list_all (undisturbed hk key e) xs"
  shows "\<exists>s'. getWithExpiryAtH env key now s = Some (s', answer now (Some (val, e)))"
proof -
  have z: "held hk key (val, e) (\<lambda>_. None) (hashMap (newShard cfg mm fk))" by (simp add: held_def)
  have r: "runOf (cacheStep hk) xs (newShard cfg mm fk) = Some (s, rs)" using run by (simp add: cacheRun_def)
  have st: "held hk key (val, e) (written x r w) m'"
    if "x \<in> set xs" "held hk key (val, e) w m" "cacheSpec (cc_AtCapPolicy cfg) hk x r m m'" for x r m m' w
    using held_step [OF that(2,3)] pol u that(1) by (simp add: list_all_iff)
  note k = cs.run_keeps [where P = "held hk key (val, e)" and upd = written, OF newShard_ok(1) [OF v] r z st]
  have "held hk key (val, e) (lastWritten xs rs) (hashMap s)" unfolding lastWritten_def by (rule k(2))
  then have l: "lookupIn (hashMap s) (hk key) key = Some (val, e)" using last by (simp add: held_def lookupIn_def)
  have i: "cacheInv (ce_hash env) cfg mm s" using k(1) h by simp
  obtain s' where "getWithExpiryAtH env key now s = Some (s', answer now (lookupIn (hashMap s) (ce_hash env key) key))"
    by (rule get_answers [OF i])
  then show ?thesis using l h by auto
qed

text \<open>A write with room on the page in use is stored.\<close>

lemma put_with_room:
  assumes i: "cacheInv (ce_hash env) cfg mm s" and el: "\<not> inPlaceEligible s" and fit: "fits key val"
    and u: "usable (entrySpanExact (length key) (length val)) s (sh_writeIdx s)"
    and len: "entrySpanExact (length key) (length val) \<le> maxEntryBytes s"
  shows "\<exists>s'. putAtExpLocked env key val e s = Some (s', None)"
proof -
  obtain pss where r: "shard_rep (ce_hash env) s pss" using cacheInv_rep [OF i] by blast
  let ?m = "makeMeta (sh_writeSeq s + 1) False" and ?i = "sh_writeIdx s"
  let ?ref = "makeSlabRef (of_nat ?i) (pg_gen (sh_pages s ! ?i)) (of_nat (pg_tail (sh_pages s ! ?i)))"
  have f: "findOrMakePageLocked env (entrySpanExact (length key) (length val)) s = Some (s, Inr ?i)"
    using u len by (simp add: findOrMakePageLocked_def usable_def Let_def)
  obtain p where w: "page_Write key val e ?m (sh_pages s ! ?i) =
      Inr (p, of_nat (pg_tail (sh_pages s ! ?i)), of_nat (entrySpanExact (length key) (length val)))" "pg_gen p = pg_gen (sh_pages s ! ?i)"
    by (rule page_Write_ok [OF r u fit, of e ?m]) blast
  obtain t where "indexPut (sh_sieve s) (ce_hash env key) ?ref (sh_tab s) = Some t"
    using indexPut_correct [OF rep_steady [OF r, of "Suc 0"]] by force
  then show ?thesis using el f w by (simp add: putAtExpLocked_def putAppend_def entrySpan_def classOf_def Let_def)
qed

lemma demo_reject:
  "\<exists>s. cacheRun (\<lambda>_. 0) [(demoEnv, opPut [1] [2] 0)] (newShard (demoCfg PolicyRejectWrites) False []) = Some (s, [resErr None])"
proof -
  let ?cfg = "demoCfg PolicyRejectWrites" and ?s = "newShard (demoCfg PolicyRejectWrites) False []"
  have v: "Config_Validate ?cfg" by (rule demoCfg_ok) simp
  have i: "cacheInv (ce_hash demoEnv) ?cfg False ?s" by (rule newShard_ok(1) [OF v])
  have s: "sh_pages ?s = [(newHeapPage (2 ^ 20))\<lparr>pg_gen := 0\<rparr>]" "sh_writeIdx ?s = 0" "sh_cfg ?s = ?cfg" "\<not> sh_isMmap ?s"
    by (simp_all add: newShard_def newHeapShard_def demoCfg_def allocHeapPageLocked_def freshHeapPageLocked_def Let_def)
  have u: "usable (entrySpanExact (length [1 :: u8]) (length [2 :: u8])) ?s (sh_writeIdx ?s)"
    unfolding usable_def s(1,2) by (simp add: newHeapPage_def FreeTail_def page_entries_def entrySpanExact_def entryHeaderSize_def)
  have l: "entrySpanExact (length [1 :: u8]) (length [2 :: u8]) \<le> maxEntryBytes ?s"
    unfolding maxEntryBytes_def s(3) using s(4) by (simp add: demoCfg_def entrySpanExact_def entryHeaderSize_def)
  have e: "\<not> inPlaceEligible ?s" unfolding inPlaceEligible_def s(3) by (simp add: demoCfg_def)
  have "fits [1] [2]" by (simp add: fits_def maxKeyLen_def maxValueLen_def)
  from put_with_room [OF i e this u l, of 0] show ?thesis
    by (auto simp: cacheRun_def cacheStep_def demo_hash(1) putH_def expiryAtFrom_def)
qed

theorem rejecting_shard_keeps_writes_witness:
  "\<exists>s rs s'. cacheRun (\<lambda>_. 0) [(demoEnv, opPut [1] [2] 0)] (newShard (demoCfg PolicyRejectWrites) False []) = Some (s, rs) \<and>
    lastWritten [(demoEnv, opPut [1] [2] 0)] rs [1] = Some ([2], 0) \<and> getWithExpiryAtH demoEnv [1] 100 s = Some (s', Inr ([2], 0))"
proof -
  obtain s where d: "cacheRun (\<lambda>_. 0) [(demoEnv, opPut [1] [2] 0)] (newShard (demoCfg PolicyRejectWrites) False []) = Some (s, [resErr None])"
    using demo_reject by blast
  have v: "Config_Validate (demoCfg PolicyRejectWrites)" by (rule demoCfg_ok) simp
  have c: "cc_AtCapPolicy (demoCfg PolicyRejectWrites) = PolicyRejectWrites" by (simp add: demoCfg_def)
  have l: "lastWritten [(demoEnv, opPut [1] [2] 0)] [resErr None] [1] = Some ([2], 0)" by (simp add: lastWritten_def expiryAtFrom_def)
  have u: "list_all (undisturbed (\<lambda>_. 0) [1] 0) [(demoEnv, opPut [1] [2] 0)]" by (simp add: undisturbed_def)
  have a: "answer 100 (Some ([2], 0)) = Inr ([2], 0)" by (simp add: answer_def isExpired_def)
  show ?thesis using rejecting_shard_keeps_writes [OF v c d demo_hash(2) l u, of 100] d l unfolding a by blast
qed

end
