(* ===== verification/Spec2Isabelle.thy ===== *)
theory Spec2Isabelle
  imports EngineSafety EngineFindings ReplPath MetaSafety ClusterSafety GroupControl CatchupLive IsrDrivers
    DurableRun Replicator CacheRun
begin

text \<open>
  A verification library for the replication core of rostam, a sharded key-value and vector store in
  Go: the primary-backup replication of a shard, the control plane that assigns its primary and its
  in-sync replicas, what a node keeps on disk across restarts, and the cache its data lives in. Paths
  are relative to \<^verbatim>\<open>src/\<close>.

  \<^bold>\<open>The parts and how they meet.\<close> A shard has a primary and backups. The primary's engine admits a
  write, applies it, and ships it to every in-sync peer; the write is reported durable when all of
  them have acknowledged it. A backup takes an entry only if it continues the backup's log exactly. The
  control plane is a state machine over a Raft log (\<^verbatim>\<open>cluster/meta_fsm.go\<close>): it holds each shard's
  epoch, primary and in-sync set. On every node a keeper reads it and promotes or leases the local
  engine; the control plane's leader watches beacons and names a new primary when one falls silent;
  drivers on the primary shrink and grow the in-sync set. A node that restarts reports the log position
  its disk certifies.

  \<^bold>\<open>Theories and the code they model.\<close>
  \<^item> \<open>Prelude\<close>: machine integers, byte strings, the fixed-width codecs, Go maps as association lists, in-place
    writes. Everything below uses its lemmas.
  \<^item> \<open>PBFrame\<close>: \<^verbatim>\<open>shard/pbisr/pb_frame.go\<close> and the messages of \<^verbatim>\<open>types.go\<close>.
  \<^item> \<open>Ring\<close>: the catch-up ring of \<^verbatim>\<open>shard/pbisr/engine.go\<close>.
  \<^item> \<open>Pipeline\<close>, \<open>PipelineProofs\<close>: the engine's state (the record \<open>Engine\<close>) and the in-flight window of
    \<^verbatim>\<open>shard/pbisr/pb_pipeline.go\<close>; the ring of slots as a queue.
  \<^item> \<open>EngineCore\<close>: the operations of \<^verbatim>\<open>shard/pbisr/engine.go\<close>; \<open>EngineGrow\<close>: \<^verbatim>\<open>pb_grow.go\<close>;
    \<open>EngineSnapshot\<close>, \<open>SnapOps\<close>: \<^verbatim>\<open>pb_snapshot.go\<close>.
  \<^item> \<open>CommitQueue\<close>, \<open>CommitSpec\<close>, \<open>EngineRun\<close>, \<open>EngineInv\<close>, \<open>EngineSafety\<close>: the abstract commit queue, runs of one
    engine over all of its operations, the engine invariant and the refinement.
  \<^item> \<open>EngineView\<close>, \<open>EngineOps\<close>, \<open>ReplPath\<close>: what an operation does to the replicated log and to the frames
    under way; how groups are cut, accepted and credited.
  \<^item> \<open>ReplLog\<close>, \<open>Cluster\<close>, \<open>ClusterSim\<close>, \<open>ClusterSafety\<close>: the replicated-log machine, a group of engines on an
    unreliable network, the simulation and the safety theorems across nodes.
  \<^item> \<open>CatchupLive\<close>: the catch-up loops end. \<open>EngineFindings\<close>: two behaviours the comments rule out.
  \<^item> \<open>Placement\<close>, \<open>KVIndexWire\<close>, \<open>MetaFSM\<close>, \<open>MetaSafety\<close>: \<^verbatim>\<open>cluster/placement.go\<close>, \<^verbatim>\<open>sdk/wire/kvindex.go\<close>,
    \<^verbatim>\<open>cluster/meta_state.go\<close> and \<^verbatim>\<open>meta_fsm.go\<close>.
  \<^item> \<open>Failover\<close>, \<open>LeaseKeeper\<close>, \<open>IsrDrivers\<close>, \<open>GroupControl\<close>: \<^verbatim>\<open>cluster/pb_failover.go\<close>, \<^verbatim>\<open>pb_wiring.go\<close>,
    \<^verbatim>\<open>pb_beacon.go\<close>, \<^verbatim>\<open>pb_control.go\<close>, \<^verbatim>\<open>pb_shrink.go\<close>, \<^verbatim>\<open>pb_grow.go\<close>; the control plane and the engines together.
  \<^item> \<open>Durable\<close>, \<open>DurableRun\<close>: \<^verbatim>\<open>shard/pb_fence.go\<close>, \<^verbatim>\<open>pb_frontier.go\<close>, \<^verbatim>\<open>pb_snapshot_store.go\<close> and the frontier
    stamp of \<^verbatim>\<open>cache/cache.go\<close>, against a disk that may fail and crash.
  \<^item> \<open>LogEntry\<close>, \<open>Replicator\<close>: \<^verbatim>\<open>shard/log.go\<close>; \<^verbatim>\<open>fsm.go\<close>, \<^verbatim>\<open>apply_class.go\<close>, \<^verbatim>\<open>pb_applier.go\<close>, \<^verbatim>\<open>pb_replicator.go\<close>.
  \<^item> \<open>CacheEntry\<close>, \<open>IndexTable\<close>: \<^verbatim>\<open>cache/ringbuf.go\<close>, \<^verbatim>\<open>siphash.go\<close>, \<^verbatim>\<open>slabref.go\<close>, \<^verbatim>\<open>ttl.go\<close>;
    \<^verbatim>\<open>indextable.go\<close> and the hint of \<^verbatim>\<open>sieve.go\<close>.
  \<^item> \<open>CachePage\<close>, \<open>CacheShard\<close>: \<^verbatim>\<open>cache/page.go\<close>; \<^verbatim>\<open>shard.go\<close>, \<^verbatim>\<open>relocate_evict.go\<close>, \<^verbatim>\<open>flush.go\<close>, \<^verbatim>\<open>onremove.go\<close> and
    the checks of \<^verbatim>\<open>config.go\<close>: a shard as a record, every writer operation as a function on it. \<open>CacheInv\<close>, \<open>CacheEvict\<close>,
    \<open>CacheOps\<close>, \<open>CacheSweep\<close>: the shard's invariant and one lemma per operation. \<open>CacheRun\<close>: runs over all
    operations, simulated by an abstract store.

  \<^bold>\<open>What the theorems show.\<close> Within one engine: a write reported durable was released by every peer it
  waited for, every write has one outcome, outcomes are in order, and the window never overruns; all of
  it from the refinement of the commit queue. Across nodes: replicas at the same log position are in
  the same state, and a durable write is on every replica it was promised to, whatever the network
  does. In the control plane: one primary per epoch, guarded in-sync sets, snapshots that restore the
  state. Between them: leases and promotions do not overlap under the configured timing rule, and a
  group controlled by keepers is a run of the group the safety theorems are about. On disk: a node
  that restarts unfenced never reports a position its data does not cover. Codecs round-trip and
  refuse what they must; operations give their caller the handler's outcome. In the cache: the index is a
  map and its probes end; every operation of a shard returns and keeps it well formed; a read answers
  only with the last write of its key; a shard that evicts takes every write that fits, and one that
  rejects writes loses none.

  \<^bold>\<open>Conventions.\<close> Counters and sequence numbers are words of the width of the code; lengths and clocks are
  unbounded (the code's \<^verbatim>\<open>int\<close> is 64 bits wide). A critical section of the code is one step. Errors
  are values of a sum type, a panic is \<^const>\<open>None\<close> or an error of its own. Loops that might not end
  return an option: a probe of the index runs for one round of the table, after which it would see the
  same slots again; eviction loops are partial functions, proved to return; the retry of a missing module and the catch-up rounds take the sequence of attempts
  as an argument. Theorems that such a loop returns are stated as such. Metrics, logging and buffer
  pooling are left out, except where the pooled encoders are compared with the plain ones.

  \<^bold>\<open>Parameters.\<close> The state machine's handlers (an \<open>applier\<close>), its snapshot serializer (\<open>SnapshotStore\<close>), gob
  encoding of control-plane bodies (\<open>gobCodec\<close>), the hash of a cache key (any function), random nonces, clocks, the disk's outcomes and the network are
  arguments. Appliers are deterministic where a theorem needs it; gob is assumed to decode what it
  encoded. A handler that fails fatally is assumed to leave the state alone.

  \<^bold>\<open>Limits of the model.\<close> \<open>proposeSequenced\<close> releases the engine lock between its checks and the registration
  under a second lock; the model makes it one step. All clocks of a node advance at one rate. The
  frontier stamp is atomic per cache shard. Backfill assumes sequence numbers below the wrap-around.

  \<^bold>\<open>Not modelled.\<close> The network transport beneath the frames, Raft itself (a library), the vector engine
  (floating-point numerics), the op handlers, WASM, the servers, clients and command line, and of the
  cache its lock-free readers, compaction, migration and mapping of files. The warm restart of a cache shard (\<open>openMmapShard\<close>) is
  defined and no theorem is stated about it. They are I/O, third-party
  code, or independent of the parts above.
\<close>

end
